(* ===== verification/TmmoPrelude.thy ===== *)
theory TmmoPrelude
  imports Main "HOL-Library.Word"
begin

text \<open>
  What every component of the development shares: the faults a C program can run into
  and the result type that carries them, bytes and NUL-terminated strings in fixed-size
  buffers, and the conversions between \<open>char\<close> and \<open>unsigned\<close> that the hash
  functions and the cipher rely on.  The collections \<open>res_simps\<close> (sequencing of fallible
  operations) and \<open>buf_simps\<close> (reading and writing buffers)
  and \<open>heap_simps\<close> (blocks behind pointers) carry the proofs of
  the component theories.
\<close>

unbundle bit_operations_syntax

named_theorems res_simps \<open>sequencing of operations that may fault\<close>
named_theorems buf_simps \<open>strings and buffers\<close>
named_theorems heap_simps \<open>blocks and pointers\<close>

section \<open>Faults and results\<close>

text \<open>
  Undefined behaviour and non-returning calls of the C code are values of the model:
  an operation returns \<open>Inl\<close> of the first fault it meets, or \<open>Inr\<close> of its result.
\<close>

datatype fault =
    NullDeref        \<comment> \<open>a member access through a null pointer\<close>
  | OutOfBounds      \<comment> \<open>an access outside of the object\<close>
  | UseAfterFree     \<comment> \<open>an access to a freed or never allocated block\<close>
  | Unterminated     \<comment> \<open>a string function runs past the end of its buffer\<close>
  | Uninitialised    \<comment> \<open>a value that was never written is used\<close>
  | DivByZero
  | Deadlock         \<comment> \<open>a lock that its own thread holds is taken again\<close>
  | AssertFail
  | Diverges         \<comment> \<open>a loop that does not end\<close>

type_synonym 'a res = "fault + 'a"

definition rbind :: "'a res \<Rightarrow> ('a \<Rightarrow> 'b res) \<Rightarrow> 'b res" where
  "rbind r f = (case r of Inl e \<Rightarrow> Inl e | Inr x \<Rightarrow> f x)"

definition is_ok :: "'a res \<Rightarrow> bool" where
  "is_ok r = (case r of Inl e \<Rightarrow> False | Inr x \<Rightarrow> True)"

lemma rbind_Inl [simp]: "rbind (Inl e) f = Inl e"
  by (simp add: rbind_def)

lemma rbind_Inr [simp]: "rbind (Inr x) f = f x"
  by (simp add: rbind_def)

lemma rbind_eq_Inr [res_simps]: "rbind r f = Inr y \<longleftrightarrow> (\<exists>x. r = Inr x \<and> f x = Inr y)"
  by (cases r) auto

lemma rbind_eq_Inl [res_simps]:
  "rbind r f = Inl e \<longleftrightarrow> r = Inl e \<or> (\<exists>x. r = Inr x \<and> f x = Inl e)"
  by (cases r) auto

lemma rbind_assoc [res_simps]: "rbind (rbind r f) g = rbind r (\<lambda>x. rbind (f x) g)"
  by (cases r) auto

lemma rbind_cong [fundef_cong]:
  "r = r' \<Longrightarrow> (\<And>x. r' = Inr x \<Longrightarrow> f x = f' x) \<Longrightarrow> rbind r f = rbind r' f'"
  by (cases r') auto

lemma rbind_split:
  "P (rbind r f) \<longleftrightarrow> (\<forall>e. r = Inl e \<longrightarrow> P (Inl e)) \<and> (\<forall>x. r = Inr x \<longrightarrow> P (f x))"
  by (cases r) auto

lemma is_ok_simps [simp]: "\<not> is_ok (Inl e)" "is_ok (Inr x)"
  by (simp_all add: is_ok_def)

lemma is_ok_iff: "is_ok r \<longleftrightarrow> (\<exists>x. r = Inr x)"
  by (cases r) auto

section \<open>Bytes, characters and unsigned integers\<close>

type_synonym byte = "8 word"
type_synonym u16 = "16 word"
type_synonym u32 = "32 word"
type_synonym u64 = "64 word"

text \<open>
  \<open>char\<close> is signed on the platform of the makefile (x86-64 Linux): in an arithmetic
  expression it is widened with its sign, and an assignment back keeps the low byte.
\<close>

definition char_to_u32 :: "byte \<Rightarrow> u32" where
  "char_to_u32 c = scast c"

definition u32_to_char :: "u32 \<Rightarrow> byte" where
  "u32_to_char x = ucast x"

lemma u32_to_char_of_char [simp]: "u32_to_char (char_to_u32 c) = c"
  by (simp add: u32_to_char_def char_to_u32_def bit_eq_iff bit_simps)

lemma u32_to_char_xor: "u32_to_char (x XOR y) = u32_to_char x XOR u32_to_char y"
  by (simp add: u32_to_char_def bit_eq_iff bit_simps)

lemma u32_to_char_plus: "u32_to_char (x + y) = u32_to_char x + u32_to_char y"
  unfolding u32_to_char_def
proof transfer
  fix x y :: int
  have "take_bit 8 (take_bit 8 (take_bit 32 x) + take_bit 8 (take_bit 32 y))
    = take_bit 8 (take_bit 32 x + take_bit 32 y)"
    by (rule take_bit_add)
  then show "take_bit LENGTH(8) (take_bit LENGTH(32) (x + y)) =
      take_bit LENGTH(8) (take_bit LENGTH(32) x + take_bit LENGTH(32) y)"
    by (simp add: take_bit_add)
qed

lemma u32_to_char_minus: "u32_to_char (x - y) = u32_to_char x - u32_to_char y"
  unfolding u32_to_char_def
proof transfer
  fix x y :: int
  have "take_bit 8 (take_bit 8 (take_bit 32 x) - take_bit 8 (take_bit 32 y))
    = take_bit 8 (take_bit 32 x - take_bit 32 y)"
    by (rule take_bit_diff)
  then show "take_bit LENGTH(8) (take_bit LENGTH(32) (x - y)) =
      take_bit LENGTH(8) (take_bit LENGTH(32) x - take_bit LENGTH(32) y)"
    by (simp add: take_bit_diff)
qed

section \<open>Strings and buffers\<close>

text \<open>
  A buffer is the list of the bytes of the object a pointer points into, from that
  pointer on.  \<open>cstr\<close> is the string it holds, \<open>strlen\<close> faults when the buffer has no
  terminator (the C function reads on, past the object).
\<close>

definition cstr :: "byte list \<Rightarrow> byte list" where
  "cstr bs = takeWhile (\<lambda>b. b \<noteq> 0) bs"

definition terminated :: "byte list \<Rightarrow> bool" where
  "terminated bs \<longleftrightarrow> 0 \<in> set bs"

definition strlen :: "byte list \<Rightarrow> nat res" where
  "strlen bs = (if terminated bs then Inr (length (cstr bs)) else Inl Unterminated)"

text \<open>\<open>memcpy\<close> of the block \<open>src\<close> to offset \<open>off\<close> of the object \<open>dst\<close>.\<close>

definition memcpy :: "byte list \<Rightarrow> nat \<Rightarrow> byte list \<Rightarrow> byte list res" where
  "memcpy dst off src =
     (if off + length src \<le> length dst
      then Inr (take off dst @ src @ drop (off + length src) dst)
      else Inl OutOfBounds)"

definition of_str :: "string \<Rightarrow> byte list" where
  "of_str s = map of_char s"

lemma cstr_Nil [simp]: "cstr [] = []"
  by (simp add: cstr_def)

lemma cstr_Cons [simp]: "cstr (b # bs) = (if b = 0 then [] else b # cstr bs)"
  by (simp add: cstr_def)

lemma zero_notin_cstr [simp]: "0 \<notin> set (cstr bs)"
  by (auto simp: cstr_def dest: set_takeWhileD)

lemma cstr_append_zero [buf_simps]: "0 \<notin> set s \<Longrightarrow> cstr (s @ 0 # rest) = s"
  by (induction s) auto

lemma cstr_padded: "length tx < n \<Longrightarrow> 0 \<notin> set tx \<Longrightarrow> cstr (tx @ replicate (n - length tx) 0) = tx"
  by (metis Suc_diff_Suc cstr_append_zero replicate_Suc)

lemma terminated_append_zero [buf_simps, simp]: "terminated (s @ 0 # rest)"
  by (simp add: terminated_def)

lemma terminated_split:
  "terminated bs \<Longrightarrow> bs = cstr bs @ 0 # drop (Suc (length (cstr bs))) bs"
  unfolding terminated_def by (induction bs) auto

lemma length_cstr_le: "length (cstr bs) \<le> length bs"
  by (simp add: cstr_def length_takeWhile_le)

lemma take_cstr: "take (length (cstr s)) s = cstr s"
  by (simp add: cstr_def takeWhile_eq_take [symmetric])

lemma terminatedE:
  assumes "terminated bs"
  obtains s rest where "bs = s @ 0 # rest" and "0 \<notin> set s" and "cstr bs = s"
  using terminated_split [OF assms] zero_notin_cstr by metis

lemma cstr_unterminated: "\<not> terminated bs \<Longrightarrow> cstr bs = bs"
  unfolding terminated_def by (induction bs) auto

lemma strlen_ok [buf_simps]: "terminated bs \<Longrightarrow> strlen bs = Inr (length (cstr bs))"
  by (simp add: strlen_def)

lemma strlen_eq_Inr [res_simps]: "strlen bs = Inr n \<longleftrightarrow> terminated bs \<and> n = length (cstr bs)"
  by (auto simp: strlen_def)

lemma memcpy_eq_Inr [res_simps]:
  "memcpy dst off src = Inr r \<longleftrightarrow>
     off + length src \<le> length dst \<and> r = take off dst @ src @ drop (off + length src) dst"
  by (auto simp: memcpy_def)

lemma memcpy_length: "memcpy dst off src = Inr r \<Longrightarrow> length r = length dst"
  by (auto simp: memcpy_eq_Inr)

section \<open>Blocks on the heap\<close>

text \<open>
  The blocks of one type that \<open>malloc\<close> handed out, by address: \<open>None\<close> once freed.  A
  pointer is \<open>None\<close> (null) or an address.  Addresses are not reused, so that an access
  through a dangling pointer is always seen.
\<close>

type_synonym 'b heap = "'b option list"
type_synonym ptr = "nat option"

definition load :: "'b heap \<Rightarrow> ptr \<Rightarrow> 'b res" where
  "load h p = (case p of None \<Rightarrow> Inl NullDeref
     | Some a \<Rightarrow> if a < length h then (case h ! a of None \<Rightarrow> Inl UseAfterFree | Some b \<Rightarrow> Inr b)
               else Inl UseAfterFree)"

definition store :: "'b heap \<Rightarrow> ptr \<Rightarrow> 'b \<Rightarrow> 'b heap res" where
  "store h p b = rbind (load h p) (\<lambda>_. Inr (h[the p := Some b]))"

definition alloc :: "'b heap \<Rightarrow> 'b \<Rightarrow> ptr \<times> 'b heap" where
  "alloc h b = (Some (length h), h @ [Some b])"

text \<open>\<open>free\<close>: nothing for a null pointer, a fault for a block that is gone.\<close>

definition free :: "'b heap \<Rightarrow> ptr \<Rightarrow> 'b heap res" where
  "free h p = (if p = None then Inr h else rbind (load h p) (\<lambda>_. Inr (h[the p := None])))"

lemma load_None [simp, heap_simps]: "load h None = Inl NullDeref"
  by (simp add: load_def)

lemma load_eq_Inr [heap_simps]:
  "load h (Some a) = Inr b \<longleftrightarrow> a < length h \<and> h ! a = Some b"
  by (auto simp: load_def split: option.splits)

lemma load_InrD: "load h p = Inr b \<Longrightarrow> \<exists>a. p = Some a \<and> a < length h \<and> h ! a = Some b"
  by (cases p) (auto simp: load_eq_Inr)

lemma store_eq_Inr [heap_simps]:
  "store h p b = Inr h' \<longleftrightarrow> (\<exists>a b0. p = Some a \<and> load h p = Inr b0 \<and> h' = h[a := Some b])"
  by (cases p) (auto simp: store_def rbind_eq_Inr)

lemma store_ok [heap_simps]: "load h (Some a) = Inr b0 \<Longrightarrow> store h (Some a) b = Inr (h[a := Some b])"
  by (simp add: store_def)

lemma free_ok [heap_simps]: "load h (Some a) = Inr b0 \<Longrightarrow> free h (Some a) = Inr (h[a := None])"
  by (simp add: free_def)

lemma free_None [simp, heap_simps]: "free h None = Inr h"
  by (simp add: free_def)

lemma load_update [heap_simps]:
  "load (h[a := Some b]) (Some c) = (if a = c \<and> a < length h then Inr b else load h (Some c))"
  by (auto simp: load_def nth_list_update)

lemma load_update_other [heap_simps]: "a \<noteq> c \<Longrightarrow> load (h[a := x]) (Some c) = load h (Some c)"
  by (auto simp: load_def nth_list_update)

lemma load_update_notin:
  "a \<notin> set as \<Longrightarrow> b \<in> set as \<Longrightarrow> load (h[a := x]) (Some b) = load h (Some b)"
  by (metis load_update_other)

lemma load_alloc_old: "load h p = Inr b \<Longrightarrow> load (h @ [x]) p = Inr b"
  by (auto simp: load_def nth_append split: option.splits if_splits)

lemma load_alloc_new [heap_simps]: "load (h @ [Some b]) (Some (length h)) = Inr b"
  by (simp add: load_def)

subsection \<open>Linked chains of blocks\<close>

text \<open>
  \<open>chain nxt h p as q\<close>: following \<open>nxt\<close> from \<open>p\<close> visits the blocks \<open>as\<close> and arrives at \<open>q\<close>.
  \<open>walk nxt h n p\<close> computes the addresses of the first \<open>n\<close> blocks.
\<close>

fun chain :: "('b \<Rightarrow> ptr) \<Rightarrow> 'b heap \<Rightarrow> ptr \<Rightarrow> nat list \<Rightarrow> ptr \<Rightarrow> bool" where
  "chain nxt h p [] q \<longleftrightarrow> p = q"
| "chain nxt h p (a # as) q \<longleftrightarrow> p = Some a \<and>
     (case load h (Some a) of Inl _ \<Rightarrow> False | Inr b \<Rightarrow> chain nxt h (nxt b) as q)"

fun walk :: "('b \<Rightarrow> ptr) \<Rightarrow> 'b heap \<Rightarrow> nat \<Rightarrow> ptr \<Rightarrow> nat list option" where
  "walk nxt h 0 p = Some []"
| "walk nxt h (Suc n) None = None"
| "walk nxt h (Suc n) (Some a) = (case load h (Some a) of Inl _ \<Rightarrow> None
     | Inr b \<Rightarrow> map_option (Cons a) (walk nxt h n (nxt b)))"

lemma chain_Cons_iff:
  "chain nxt h p (a # as) q \<longleftrightarrow> p = Some a \<and> (\<exists>b. load h (Some a) = Inr b \<and> chain nxt h (nxt b) as q)"
  by (cases "load h (Some a)") auto

lemma chain_append:
  "chain nxt h p (as @ bs) q \<longleftrightarrow> (\<exists>r. chain nxt h p as r \<and> chain nxt h r bs q)"
  by (induction as arbitrary: p) (auto simp: chain_Cons_iff simp del: chain.simps(2))

lemma chain_snoc:
  "chain nxt h p (as @ [a]) q \<longleftrightarrow>
     chain nxt h p as (Some a) \<and> (\<exists>b. load h (Some a) = Inr b \<and> nxt b = q)"
  by (auto simp: chain_append chain_Cons_iff simp del: chain.simps(2))

lemma chain_update_other:
  "a \<notin> set as \<Longrightarrow> chain nxt (h[a := x]) p as q = chain nxt h p as q"
  by (induction as arbitrary: p) (auto simp: load_update_other split: sum.splits)

lemma chain_alloc: "chain nxt h p as q \<Longrightarrow> chain nxt (h @ [x]) p as q"
  by (induction as arbitrary: p)
    (auto simp: chain_Cons_iff dest: load_alloc_old simp del: chain.simps(2))

lemma chain_bound: "chain nxt h p as q \<Longrightarrow> a \<in> set as \<Longrightarrow> a < length h"
  by (induction as arbitrary: p) (auto simp: load_def split: sum.splits if_splits)

lemma chain_load: "chain nxt h p as q \<Longrightarrow> a \<in> set as \<Longrightarrow> \<exists>b. load h (Some a) = Inr b"
  by (induction as arbitrary: p) (auto split: sum.splits)

lemma walk_eq_Some: "walk nxt h n p = Some as \<longleftrightarrow> length as = n \<and> (\<exists>q. chain nxt h p as q)"
proof (induction n arbitrary: p as)
  case 0
  then show ?case by auto
next
  case (Suc n)
  then show ?case
    by (cases p; cases as) (auto split: sum.splits)
qed

lemma chain_unique:
  "chain nxt h p as q \<Longrightarrow> chain nxt h p bs r \<Longrightarrow> length as = length bs \<Longrightarrow> as = bs \<and> q = r"
proof (induction as arbitrary: p bs)
  case Nil
  then show ?case by simp
next
  case (Cons a as)
  then show ?case
    by (cases bs) (auto split: sum.splits)
qed

text \<open>The chain that ends in a null pointer, read with fuel.\<close>

fun walk_null :: "('b \<Rightarrow> ptr) \<Rightarrow> 'b heap \<Rightarrow> nat \<Rightarrow> ptr \<Rightarrow> nat list option" where
  "walk_null nxt h n None = Some []"
| "walk_null nxt h 0 (Some a) = None"
| "walk_null nxt h (Suc n) (Some a) = (case load h (Some a) of Inl _ \<Rightarrow> None
     | Inr b \<Rightarrow> map_option (Cons a) (walk_null nxt h n (nxt b)))"

lemma walk_null_eq_Some:
  "walk_null nxt h n p = Some as \<longleftrightarrow> length as \<le> n \<and> chain nxt h p as None"
proof (induction n arbitrary: p as)
  case 0
  then show ?case by (cases p; cases as) auto
next
  case (Suc n)
  then show ?case by (cases p; cases as) (auto split: sum.splits)
qed

lemma chain_null_unique: "chain nxt h p as None \<Longrightarrow> chain nxt h p bs None \<Longrightarrow> as = bs"
proof (induction as arbitrary: p bs)
  case Nil
  then show ?case by (cases bs) auto
next
  case (Cons a as)
  then show ?case by (cases bs) (auto split: sum.splits)
qed

lemma chain_null_distinct: "chain nxt h p as None \<Longrightarrow> distinct as"
proof (induction as arbitrary: p)
  case Nil
  then show ?case by simp
next
  case (Cons a as)
  then obtain b where b: "load h (Some a) = Inr b" "chain nxt h (nxt b) as None"
    unfolding chain_Cons_iff by blast
  have "a \<notin> set as"
  proof
    assume "a \<in> set as"
    then obtain bs cs where as: "as = bs @ a # cs"
      by (auto dest: split_list)
    with b have "chain nxt h (nxt b) cs None"
      unfolding as chain_append chain_Cons_iff by auto
    from chain_null_unique [OF b(2) this] show False
      by (simp add: as)
  qed
  with Cons.IH [OF b(2)] show ?case by simp
qed

lemma chain_length_le:
  assumes "chain nxt h p as None"
  shows "length as \<le> length h"
proof -
  have "set as \<subseteq> {..<length h}"
    using chain_bound [OF assms] by auto
  then have "card (set as) \<le> length h"
    using card_mono [of "{..<length h}" "set as"] by simp
  then show ?thesis
    using distinct_card [OF chain_null_distinct [OF assms]] by simp
qed

end
