(* ===== verification/Crypto.thy ===== *)
theory Crypto
  imports TmmoPrelude
begin

text \<open>
  The cipher and the key generator of \<open>server/crypto.c\<close> (\<open>client/crypto.c\<close> is the same
  file).  Strings are buffers of bytes; \<open>unsigned\<close> is \<open>32 word\<close>; \<open>rand()\<close> is an argument,
  the sequence of the values it returns.  The lemmas reduce the cipher to a bijection on
  single bytes and find the one byte of every key that it turns into a terminator.
\<close>

section \<open>Hash and key schedule\<close>

text \<open>One round of the three loops over the key: \<open>m += c; m -= (m << 13) | (m >> 19)\<close>.\<close>

definition mix_step :: "u32 \<Rightarrow> byte \<Rightarrow> u32" where
  "mix_step m c = (let m = m + char_to_u32 c in m - (push_bit 13 m OR drop_bit 19 m))"

text \<open>The loop \<open>for (; i < len; i += stride + 1)\<close> around it.\<close>

function mix_loop :: "byte list \<Rightarrow> nat \<Rightarrow> nat \<Rightarrow> nat \<Rightarrow> u32 \<Rightarrow> u32" where
  "mix_loop key len stride i m =
     (if i < len then mix_loop key len stride (i + Suc stride) (mix_step m (key ! i)) else m)"
  by pat_completeness auto
termination
  by (relation "measure (\<lambda>(key, len, stride, i, m). len - i)") auto

declare mix_loop.simps [simp del]

definition crypto_get_hash :: "byte list \<Rightarrow> u32 res" where
  "crypto_get_hash str = rbind (strlen str) (\<lambda>len. Inr (mix_loop str len 0 0 0))"

definition crypto_key_is_empty :: "byte list \<Rightarrow> bool res" where
  "crypto_key_is_empty key = (case key of [] \<Rightarrow> Inl OutOfBounds | k # _ \<Rightarrow> Inr (k = 0))"

section \<open>Encryption and decryption\<close>

text \<open>
  The bodies of the two loops over the string; each statement assigns a \<open>char\<close> the
  low byte of an \<open>unsigned\<close> expression.
\<close>

definition enc_char :: "u32 \<Rightarrow> u32 \<Rightarrow> u32 \<Rightarrow> byte \<Rightarrow> byte" where
  "enc_char m1 hash m2 c =
     (let c = u32_to_char (char_to_u32 c XOR m1);
          c = u32_to_char (char_to_u32 c - hash)
      in u32_to_char (char_to_u32 c XOR m2))"

definition dec_char :: "u32 \<Rightarrow> u32 \<Rightarrow> u32 \<Rightarrow> byte \<Rightarrow> byte" where
  "dec_char m1 hash m2 c =
     (let c = u32_to_char (char_to_u32 c XOR m2);
          c = u32_to_char (char_to_u32 c + hash)
      in u32_to_char (char_to_u32 c XOR m1))"

fun str_loop :: "(byte \<Rightarrow> byte) \<Rightarrow> nat \<Rightarrow> byte list \<Rightarrow> byte list" where
  "str_loop f 0 str = str"
| "str_loop f (Suc n) [] = []"
| "str_loop f (Suc n) (c # str) = f c # str_loop f n str"

definition crypto_encrypt :: "byte list \<Rightarrow> byte list \<Rightarrow> byte list res" where
  "crypto_encrypt str key =
     rbind (crypto_get_hash key) (\<lambda>h. let hash = h AND 0xff in
     rbind (strlen str) (\<lambda>str_len.
     rbind (strlen key) (\<lambda>key_len.
       let m1 = mix_loop key key_len 1 0 0;
           m2 = mix_loop key key_len 1 1 0
       in Inr (str_loop (enc_char m1 hash m2) str_len str))))"

definition crypto_decrypt :: "byte list \<Rightarrow> byte list \<Rightarrow> byte list res" where
  "crypto_decrypt str key =
     rbind (crypto_get_hash key) (\<lambda>hash.
     rbind (strlen str) (\<lambda>str_len.
     rbind (strlen key) (\<lambda>key_len.
       let m1 = mix_loop key key_len 1 0 0;
           m2 = mix_loop key key_len 1 1 0
       in Inr (str_loop (dec_char m1 hash m2) str_len str))))"

section \<open>Key generation\<close>

definition sid :: "byte list" where
  "sid = of_str ''0123456789ABCDEFGHIJKLMNOPQRSTUVWXYZabcdefghijklmnopqrstuvwxyz''"

text \<open>
  The array \<open>sid\<close> has no terminator, so \<open>strlen(sid)\<close> reads into the bytes that the
  linker placed after it: the argument \<open>after\<close>.  \<open>rnd i\<close> is the value of the \<open>i\<close>-th call
  of \<open>rand()\<close>, \<open>key\<close> the memory that the argument points to.
\<close>

definition crypto_gen_key :: "byte list \<Rightarrow> (nat \<Rightarrow> nat) \<Rightarrow> byte list \<Rightarrow> nat \<Rightarrow> byte list res" where
  "crypto_gen_key after rnd key len =
     rbind (strlen (sid @ after)) (\<lambda>sid_len.
       if len < length key
       then Inr (map (\<lambda>i. (sid @ after) ! (rnd i mod (sid_len - 1))) [0..<len] @ 0 # drop (Suc len) key)
       else Inl OutOfBounds)"

section \<open>The cipher on a single byte\<close>

lemma enc_char_eq:
  "enc_char m1 hash m2 c = ((c XOR u32_to_char m1) - u32_to_char hash) XOR u32_to_char m2"
  by (simp add: enc_char_def u32_to_char_xor u32_to_char_minus)

lemma dec_char_eq:
  "dec_char m1 hash m2 c = ((c XOR u32_to_char m2) + u32_to_char hash) XOR u32_to_char m1"
  by (simp add: dec_char_def u32_to_char_xor u32_to_char_plus)

lemma xor_cancel [simp]: "((x :: 'a::len word) XOR y) XOR y = x"
  by (simp add: xor.assoc)

lemma dec_enc_char: "dec_char m1 hash m2 (enc_char m1 hash m2 c) = c"
  by (simp add: enc_char_eq dec_char_eq)

lemma u32_to_char_mask: "u32_to_char (h AND 0xff) = u32_to_char h"
proof -
  have "(0xff :: u32) = mask 8"
    by (simp add: mask_eq_exp_minus_1)
  then show ?thesis
    by (auto simp: u32_to_char_def bit_eq_iff bit_simps)
qed

lemma enc_char_mask: "enc_char m1 (h AND 0xff) m2 = enc_char m1 h m2"
  by (rule ext) (simp add: enc_char_eq u32_to_char_mask)

lemma enc_char_eq_0_iff:
  "enc_char m1 hash m2 c = 0 \<longleftrightarrow> c = (u32_to_char m2 + u32_to_char hash) XOR u32_to_char m1"
proof
  assume "enc_char m1 hash m2 c = 0"
  then have "dec_char m1 hash m2 0 = c"
    using dec_enc_char by metis
  then show "c = (u32_to_char m2 + u32_to_char hash) XOR u32_to_char m1"
    by (simp add: dec_char_eq)
qed (simp add: enc_char_eq)

section \<open>The loop over the string\<close>

lemma length_str_loop [simp]: "length (str_loop f n bs) = length bs"
  by (induction f n bs rule: str_loop.induct) auto

lemma str_loop_append [simp]:
  "length s = n \<Longrightarrow> str_loop f n (s @ rest) = map f s @ rest"
  by (induction f n s rule: str_loop.induct) auto

lemma takeWhile_zero_append:
  "0 \<in> set s \<Longrightarrow> cstr (s @ rest) = cstr s"
  by (induction s) auto

text \<open>The key schedule of a key, as the two functions compute it.\<close>

definition key_m1 :: "byte list \<Rightarrow> u32" where
  "key_m1 key = mix_loop key (length (cstr key)) 1 0 0"

definition key_m2 :: "byte list \<Rightarrow> u32" where
  "key_m2 key = mix_loop key (length (cstr key)) 1 1 0"

definition key_hash :: "byte list \<Rightarrow> u32" where
  "key_hash key = mix_loop key (length (cstr key)) 0 0 0"

abbreviation enc_with :: "byte list \<Rightarrow> byte \<Rightarrow> byte" where
  "enc_with key \<equiv> enc_char (key_m1 key) (key_hash key) (key_m2 key)"

abbreviation dec_with :: "byte list \<Rightarrow> byte \<Rightarrow> byte" where
  "dec_with key \<equiv> dec_char (key_m1 key) (key_hash key) (key_m2 key)"

lemma crypto_encrypt_eq:
  assumes "terminated str" "terminated key"
  shows "crypto_encrypt str key = Inr (str_loop (enc_with key) (length (cstr str)) str)"
  using assms
  by (simp add: crypto_encrypt_def crypto_get_hash_def strlen_ok Let_def key_m1_def key_m2_def
      key_hash_def enc_char_mask)

lemma crypto_decrypt_eq:
  assumes "terminated str" "terminated key"
  shows "crypto_decrypt str key = Inr (str_loop (dec_with key) (length (cstr str)) str)"
  using assms
  by (simp add: crypto_decrypt_def crypto_get_hash_def strlen_ok Let_def key_m1_def key_m2_def
      key_hash_def)

lemma crypto_encrypt_split:
  assumes "0 \<notin> set s" "terminated key"
  shows "crypto_encrypt (s @ 0 # rest) key = Inr (map (enc_with key) s @ 0 # rest)"
  using assms by (simp add: crypto_encrypt_eq cstr_append_zero)

lemma crypto_decrypt_split:
  assumes "0 \<notin> set s" "terminated key"
  shows "crypto_decrypt (s @ 0 # rest) key = Inr (map (dec_with key) s @ 0 # rest)"
  using assms by (simp add: crypto_decrypt_eq cstr_append_zero)

text \<open>The one byte value that the cipher turns into a terminator under a key.\<close>

definition unsafe_byte :: "byte list \<Rightarrow> byte" where
  "unsafe_byte key =
     (u32_to_char (key_m2 key) + u32_to_char (key_hash key)) XOR u32_to_char (key_m1 key)"

lemma enc_with_zero_iff: "enc_with key c = 0 \<longleftrightarrow> c = unsafe_byte key"
  by (simp add: enc_char_eq_0_iff unsafe_byte_def)

lemma zero_in_map_enc: "0 \<in> set (map (enc_with key) s) \<longleftrightarrow> unsafe_byte key \<in> set s"
  by (metis (no_types, lifting) enc_with_zero_iff imageE imageI list.set_map)

lemma map_dec_enc: "map (dec_with key) (map (enc_with key) s) = s"
  by (induction s) (simp_all add: dec_enc_char)

section \<open>Properties\<close>

lemma decrypt_encrypt_safe:
  assumes "0 \<notin> set s" "terminated key" "unsafe_byte key \<notin> set s"
  shows "rbind (crypto_encrypt (s @ 0 # rest) key) (\<lambda>c. crypto_decrypt c key) = Inr (s @ 0 # rest)"
proof -
  have "0 \<notin> set (map (enc_with key) s)"
    using assms(3) zero_in_map_enc by blast
  from crypto_decrypt_split [OF this assms(2)] show ?thesis
    by (simp only: crypto_encrypt_split [OF assms(1,2)] rbind_Inr map_dec_enc)
qed

lemma decrypt_encrypt_unsafe:
  assumes "0 \<notin> set s" "terminated key" "unsafe_byte key \<in> set s"
  shows "rbind (crypto_encrypt (s @ 0 # rest) key) (\<lambda>c. crypto_decrypt c key) \<noteq> Inr (s @ 0 # rest)"
proof -
  obtain a b where s: "s = a @ unsafe_byte key # b" and a: "unsafe_byte key \<notin> set a"
    using split_list_first [OF assms(3)] by blast
  have z: "0 \<notin> set (map (enc_with key) a)"
    using a zero_in_map_enc by blast
  have "enc_with key (unsafe_byte key) = 0"
    by (simp only: enc_with_zero_iff)
  then have "crypto_encrypt (s @ 0 # rest) key
      = Inr (map (enc_with key) a @ 0 # (map (enc_with key) b @ 0 # rest))"
    using crypto_encrypt_split [OF assms(1,2), of rest] by (simp add: s)
  then have "rbind (crypto_encrypt (s @ 0 # rest) key) (\<lambda>c. crypto_decrypt c key)
      = Inr (a @ 0 # (map (enc_with key) b @ 0 # rest))"
    by (simp only: rbind_Inr crypto_decrypt_split [OF z assms(2)] map_dec_enc)
  moreover have "unsafe_byte key \<noteq> 0"
    using assms(1,3) by metis
  ultimately show ?thesis
    by (simp add: s)
qed

lemma decrypt_encrypt_iff:
  assumes "terminated str" and "terminated key"
  shows "rbind (crypto_encrypt str key) (\<lambda>c. crypto_decrypt c key) = Inr str
    \<longleftrightarrow> unsafe_byte key \<notin> set (cstr str)"
  using assms(1)
proof (rule terminatedE)
  fix s rest
  assume "str = s @ 0 # rest" "0 \<notin> set s" "cstr str = s"
  then show ?thesis
    using decrypt_encrypt_safe decrypt_encrypt_unsafe assms(2) by metis
qed

text \<open>
  C32. Decrypting what was encrypted under the same key gives back the whole buffer
  exactly when the plaintext does not contain the one byte value that the key maps to
  the terminator; a message that contains it is cut there and its tail stays encrypted.
\<close>

theorem crypto_roundtrip:
  assumes "terminated str" and "terminated key"
  shows "rbind (crypto_encrypt str key) (\<lambda>c. crypto_decrypt c key) = Inr str
    \<longleftrightarrow> unsafe_byte key \<notin> set (cstr str)"
  by (rule decrypt_encrypt_iff [OF assms])

lemma crypto_roundtrip_witness:
  "rbind (crypto_encrypt (of_str ''go west'' @ [0]) (of_str ''k3y'' @ [0]))
     (\<lambda>c. crypto_decrypt c (of_str ''k3y'' @ [0])) = Inr (of_str ''go west'' @ [0])"
proof -
  have "terminated (of_str ''go west'' @ [0])" "terminated (of_str ''k3y'' @ [0])"
    by simp_all
  moreover have "unsafe_byte (of_str ''k3y'' @ [0]) \<notin> set (cstr (of_str ''go west'' @ [0]))"
    by code_simp
  ultimately show ?thesis
    using crypto_roundtrip by blast
qed

lemma length_sid: "length sid = 62"
  by code_simp

lemma sid_nonzero: "0 \<notin> set sid"
  by code_simp

lemma strlen_sid: "strlen (sid @ 0 # after) = Inr 62"
  using sid_nonzero by (simp add: strlen_ok cstr_append_zero length_sid)

lemma sid_draw: "i < 61 \<Longrightarrow> sid ! i \<in> set (butlast sid)"
proof -
  assume i: "i < 61"
  then have "butlast sid ! i = sid ! i"
    by (simp add: nth_butlast length_sid)
  moreover have "i < length (butlast sid)"
    using i by (simp add: length_sid)
  ultimately show ?thesis
    by (metis nth_mem)
qed

lemma sid_prefix: "i < 61 \<Longrightarrow> (sid @ after) ! i = sid ! i"
  by (simp add: nth_append length_sid)

lemma generated_key:
  fixes rnd :: "nat \<Rightarrow> nat"
  defines "ks \<equiv> \<lambda>len. map (\<lambda>i. sid ! (rnd i mod 61)) [0..<len]"
  shows "set (ks len) \<subseteq> set (butlast sid)" and "cstr (ks len @ 0 # rest) = ks len"
proof -
  show sub: "set (ks len) \<subseteq> set (butlast sid)"
    by (auto simp: ks_def intro: sid_draw)
  have "0 \<notin> set (ks len)"
    using sub sid_nonzero in_set_butlastD by fastforce
  then show "cstr (ks len @ 0 # rest) = ks len"
    by (rule cstr_append_zero)
qed

lemma crypto_gen_key_eq:
  "crypto_gen_key (0 # after) rnd key len =
     (if len < length key
      then Inr (map (\<lambda>i. sid ! (rnd i mod 61)) [0..<len] @ 0 # drop (Suc len) key)
      else Inl OutOfBounds)"
  by (simp add: crypto_gen_key_def strlen_sid sid_prefix)

text \<open>
  A generated key: the block must be longer than the requested length, since the
  terminator is written behind the last character; the characters come from \<open>sid\<close> (when
  a terminator follows that array in memory), never its last one, so none of them is a
  terminator and the key is a non-empty string of exactly the requested length.
\<close>

theorem crypto_gen_key_string:
  "case crypto_gen_key (0 # after) rnd key len of
     Inl f \<Rightarrow> f = OutOfBounds \<and> length key \<le> len
   | Inr k \<Rightarrow> len < length key \<and> length k = length key \<and> drop (Suc len) k = drop (Suc len) key
       \<and> length (cstr k) = len
       \<and> set (cstr k) \<subseteq> set sid - {of_char CHR ''z''}"
proof -
  have "set (butlast sid) \<subseteq> set sid - {of_char CHR ''z''}"
    by code_simp
  then show ?thesis
    using generated_key(1) [of rnd len] by (auto simp: crypto_gen_key_eq generated_key(2))
qed

end
