(* ===== verification/Network.thy ===== *)
theory Network
  imports Crypto
begin

text \<open>
  Messages and datagrams (\<open>server/network.h\<close>, \<open>server/network.c\<close>; the client's copies
  are the same code).  A \<open>msg_t\<close> is kept as the bytes of its members in the layout of the
  platform (x86-64): three bytes of padding follow the 33 bytes of \<open>key\<close>, and the datagram
  is the object from \<open>type\<close> on.  Sockets are not modelled: \<open>msg_send\<close> yields the bytes given
  to \<open>sendto\<close>, \<open>msg_recv\<close> takes what \<open>recvfrom\<close> delivered.
\<close>

section \<open>Data\<close>

definition BODY_LEN :: nat where "BODY_LEN = 1024"
definition TOKEN_LEN :: nat where "TOKEN_LEN = 33"

text \<open>The padding between \<open>key\<close> and the 8-byte aligned \<open>len\<close>.\<close>

definition KEY_PAD :: nat where "KEY_PAD = 3"

type_synonym msg_type_t = u32

definition conn_test :: msg_type_t where "conn_test = 0"
definition user_msg :: msg_type_t where "user_msg = 1"
definition main_msg :: msg_type_t where "main_msg = 2"
definition chat_msg :: msg_type_t where "chat_msg = 3"
definition online_list :: msg_type_t where "online_list = 4"
definition map_update :: msg_type_t where "map_update = 5"
definition char_info :: msg_type_t where "char_info = 6"
definition logged_in :: msg_type_t where "logged_in = 100"
definition logged_out :: msg_type_t where "logged_out = 101"
definition timed_out :: msg_type_t where "timed_out = 102"

lemmas msg_type_defs = conn_test_def user_msg_def main_msg_def chat_msg_def online_list_def
  map_update_def char_info_def logged_in_def logged_out_def timed_out_def

record sockaddr_in =
  sin_family :: u16
  sin_port :: u16
  s_addr :: u32

text \<open>\<open>m_key\<close> holds the 33 bytes of the member and the padding behind it.\<close>

record msg_t =
  m_addr :: sockaddr_in
  m_type :: msg_type_t
  m_key :: "byte list"
  m_len :: u64
  m_body :: "byte list"

definition msg_wf :: "msg_t \<Rightarrow> bool" where
  "msg_wf m \<longleftrightarrow> length (m_key m) = TOKEN_LEN + KEY_PAD \<and> length (m_body m) = BODY_LEN"

section \<open>Little-endian members\<close>

fun le_bytes :: "nat \<Rightarrow> nat \<Rightarrow> byte list" where
  "le_bytes 0 n = []"
| "le_bytes (Suc k) n = of_nat (n mod 256) # le_bytes k (n div 256)"

fun le_val :: "byte list \<Rightarrow> nat" where
  "le_val [] = 0"
| "le_val (b # bs) = unat b + 256 * le_val bs"

lemma length_le_bytes [simp]: "length (le_bytes k n) = k"
  by (induction k n rule: le_bytes.induct) auto

lemma le_val_bytes: "n < 256 ^ k \<Longrightarrow> le_val (le_bytes k n) = n"
proof (induction k n rule: le_bytes.induct)
  case (1 n)
  then show ?case by simp
next
  case (2 k n)
  then have "n div 256 < 256 ^ k"
    by (simp add: less_mult_imp_div_less mult.commute)
  with 2 have "le_val (le_bytes k (n div 256)) = n div 256"
    by simp
  then show ?case
    by (simp add: unat_of_nat)
qed

lemma le_val_u32: "of_nat (le_val (le_bytes 4 (unat (x :: u32)))) = x"
proof -
  have "unat x < 256 ^ 4"
    using unsigned_less [of x, where ?'a = nat] by simp
  then show ?thesis
    by (simp add: le_val_bytes)
qed

lemma le_val_u64: "of_nat (le_val (le_bytes 8 (unat (x :: u64)))) = x"
proof -
  have "unat x < 256 ^ 8"
    using unsigned_less [of x, where ?'a = nat] by simp
  then show ?thesis
    by (simp add: le_val_bytes)
qed

text \<open>
  The object from \<open>type\<close> on (\<open>sizeof(msg_t) - sizeof(struct sockaddr)\<close> = 1072 bytes), and
  the members read back from such bytes.
\<close>

definition msg_bytes :: "msg_t \<Rightarrow> byte list" where
  "msg_bytes m = le_bytes 4 (unat (m_type m)) @ m_key m @ le_bytes 8 (unat (m_len m)) @ m_body m"

definition msg_of_bytes :: "sockaddr_in \<Rightarrow> byte list \<Rightarrow> msg_t" where
  "msg_of_bytes a bs = \<lparr>m_addr = a, m_type = of_nat (le_val (take 4 bs)),
     m_key = take 36 (drop 4 bs), m_len = of_nat (le_val (take 8 (drop 40 bs))),
     m_body = drop 48 bs\<rparr>"

text \<open>What a string function sees that starts at \<open>key\<close>: it runs on into \<open>len\<close> and \<open>body\<close>.\<close>

definition key_mem :: "msg_t \<Rightarrow> byte list" where
  "key_mem m = m_key m @ le_bytes 8 (unat (m_len m)) @ m_body m"

lemma msg_of_bytes_msg_bytes:
  assumes "msg_wf m"
  shows "msg_of_bytes (m_addr m) (msg_bytes m) = m"
  using assms
  by (simp add: msg_of_bytes_def msg_bytes_def msg_wf_def TOKEN_LEN_def KEY_PAD_def
      le_val_u32 le_val_u64)

section \<open>Operations\<close>

text \<open>
  \<open>fresh\<close> is the content of the block that \<open>malloc\<close> returned (\<open>None\<close>: it returned null).
\<close>

definition msg_init :: "msg_t option \<Rightarrow> sockaddr_in option \<Rightarrow> msg_t option" where
  "msg_init fresh con = (case fresh of None \<Rightarrow> None
     | Some m \<Rightarrow>
         let m = m\<lparr>m_len := 0\<rparr>;
             m = (case con of None \<Rightarrow> m | Some a \<Rightarrow> m\<lparr>m_addr := a\<rparr>)
         in Some (m\<lparr>m_key := replicate TOKEN_LEN 0 @ drop TOKEN_LEN (m_key m),
                    m_body := replicate BODY_LEN 0\<rparr>))"

definition msg_set_key :: "msg_t \<Rightarrow> byte list \<Rightarrow> msg_t res" where
  "msg_set_key m key =
     (if TOKEN_LEN \<le> length key
      then rbind (memcpy (m_key m) 0 (take TOKEN_LEN key)) (\<lambda>k. Inr (m\<lparr>m_key := k\<rparr>))
      else Inl OutOfBounds)"

definition msg_set_type :: "msg_t \<Rightarrow> msg_type_t \<Rightarrow> msg_t" where
  "msg_set_type m t = m\<lparr>m_type := t\<rparr>"

definition msg_set_body :: "msg_t \<Rightarrow> byte list \<Rightarrow> msg_t res" where
  "msg_set_body m body =
     rbind (strlen body) (\<lambda>n.
     rbind (memcpy (m_body m) 0 (take n body)) (\<lambda>b.
       Inr (m\<lparr>m_len := of_nat n, m_body := b\<rparr>)))"

definition msg_send :: "msg_t \<Rightarrow> (msg_t \<times> byte list) res" where
  "msg_send m =
     rbind (crypto_key_is_empty (m_key m)) (\<lambda>e.
     rbind (if \<not> e then rbind (crypto_encrypt (m_body m) (key_mem m)) (\<lambda>b. Inr (m\<lparr>m_body := b\<rparr>))
            else Inr m) (\<lambda>m.
       Inr (m, msg_bytes m)))"

text \<open>
  \<open>recvd\<close> is what \<open>recvfrom\<close> stored: \<open>None\<close> for a negative return value, otherwise the
  sender's address and the bytes received, at most as many as asked for.
\<close>

definition msg_recv :: "msg_t option \<Rightarrow> (sockaddr_in \<times> byte list) option \<Rightarrow> msg_t option res" where
  "msg_recv fresh recvd = (case msg_init fresh None of None \<Rightarrow> Inl NullDeref
     | Some m \<Rightarrow> (case recvd of None \<Rightarrow> Inr None
       | Some (a, bs) \<Rightarrow>
           let bs = take (length (msg_bytes m)) bs;
               m = msg_of_bytes a (bs @ drop (length bs) (msg_bytes m)) in
           rbind (crypto_key_is_empty (m_key m)) (\<lambda>e.
             if \<not> e then rbind (crypto_decrypt (m_body m) (key_mem m)) (\<lambda>b. Inr (Some (m\<lparr>m_body := b\<rparr>)))
             else Inr (Some m))))"

section \<open>Well-formedness\<close>

lemma length_msg_bytes: "msg_wf m \<Longrightarrow> length (msg_bytes m) = 1072"
  by (simp add: msg_wf_def msg_bytes_def TOKEN_LEN_def KEY_PAD_def BODY_LEN_def)

lemma msg_init_wf: "msg_wf f \<Longrightarrow> msg_init (Some f) con = Some m \<Longrightarrow> msg_wf m"
  by (auto simp: msg_init_def msg_wf_def TOKEN_LEN_def Let_def split: option.splits)

lemma msg_init_None: "msg_wf f \<Longrightarrow> \<exists>m. msg_init (Some f) None = Some m \<and> msg_wf m"
  by (simp add: msg_init_def msg_wf_def TOKEN_LEN_def Let_def)

lemma msg_set_key_wf: "msg_wf m \<Longrightarrow> msg_set_key m key = Inr m' \<Longrightarrow> msg_wf m'"
  by (auto simp: msg_set_key_def msg_wf_def res_simps split: if_splits)

lemma msg_set_body_wf: "msg_wf m \<Longrightarrow> msg_set_body m body = Inr m' \<Longrightarrow> msg_wf m'"
  by (auto simp: msg_set_body_def msg_wf_def res_simps)

lemma msg_of_bytes_wf: "length bs = 1072 \<Longrightarrow> msg_wf (msg_of_bytes a bs)"
  by (simp add: msg_of_bytes_def msg_wf_def TOKEN_LEN_def KEY_PAD_def BODY_LEN_def)

lemma crypto_encrypt_length: "crypto_encrypt b k = Inr b' \<Longrightarrow> length b' = length b"
  by (auto simp: crypto_encrypt_def Let_def res_simps)

lemma crypto_decrypt_length: "crypto_decrypt b k = Inr b' \<Longrightarrow> length b' = length b"
  by (auto simp: crypto_decrypt_def Let_def res_simps)

lemma msg_send_wf: "msg_wf m \<Longrightarrow> msg_send m = Inr (m', w) \<Longrightarrow> msg_wf m' \<and> w = msg_bytes m'"
  by (auto simp: msg_send_def msg_wf_def res_simps dest: crypto_encrypt_length split: if_splits)

lemma msg_recv_wf:
  assumes "msg_wf f" "msg_recv (Some f) r = Inr (Some m)"
  shows "msg_wf m"
proof -
  obtain m0 where m0: "msg_init (Some f) None = Some m0" "msg_wf m0"
    using msg_init_None [OF assms(1)] by blast
  obtain a bs where r: "r = Some (a, bs)"
    using assms(2) m0 by (auto simp: msg_recv_def split: option.splits)
  let ?m = "msg_of_bytes a (take 1072 bs @ drop (min (length bs) 1072) (msg_bytes m0))"
  have "msg_wf ?m"
    by (rule msg_of_bytes_wf) (simp add: length_msg_bytes [OF m0(2)])
  moreover have "m = ?m \<or> (\<exists>b. crypto_decrypt (m_body ?m) (key_mem ?m) = Inr b \<and> m = ?m\<lparr>m_body := b\<rparr>)"
    using assms(2) m0(1)
    by (auto simp: msg_recv_def Let_def res_simps r length_msg_bytes [OF m0(2)] split: if_splits)
  ultimately show ?thesis
    by (auto simp: msg_wf_def dest: crypto_decrypt_length)
qed

section \<open>The key decides the cipher\<close>

lemma mix_loop_append:
  "len \<le> length a \<Longrightarrow> mix_loop (a @ b) len st i m = mix_loop a len st i m"
proof (induction a len st i m rule: mix_loop.induct)
  case (1 a len st i m)
  then show ?case
    by (simp add: mix_loop.simps [of _ len st i m] nth_append)
qed

lemma key_schedule_append:
  assumes "terminated k"
  shows "key_m1 (k @ r) = key_m1 k" "key_m2 (k @ r) = key_m2 k" "key_hash (k @ r) = key_hash k"
  using assms length_cstr_le [of k]
  by (simp_all add: key_m1_def key_m2_def key_hash_def terminated_def takeWhile_zero_append
      mix_loop_append)

lemma crypto_key_append:
  assumes "terminated k" "terminated s"
  shows "crypto_encrypt s (k @ r) = crypto_encrypt s k"
    and "crypto_decrypt s (k @ r) = crypto_decrypt s k"
proof -
  have "terminated (k @ r)"
    using assms(1) by (simp add: terminated_def)
  then show "crypto_encrypt s (k @ r) = crypto_encrypt s k"
      and "crypto_decrypt s (k @ r) = crypto_decrypt s k"
    using assms by (simp_all only: crypto_encrypt_eq crypto_decrypt_eq key_schedule_append)
qed

lemma encrypt_terminated:
  "terminated s \<Longrightarrow> terminated k \<Longrightarrow> crypto_encrypt s k = Inr c \<Longrightarrow> terminated c"
  by (erule terminatedE) (auto simp: crypto_encrypt_split)

lemma msg_recv_wire:
  assumes "msg_wf f" "msg_wf m"
  shows "msg_recv (Some f) (Some (a, msg_bytes m)) =
    rbind (crypto_key_is_empty (m_key m)) (\<lambda>e.
      if \<not> e then rbind (crypto_decrypt (m_body m) (key_mem m)) (\<lambda>b. Inr (Some (m\<lparr>m_addr := a, m_body := b\<rparr>)))
      else Inr (Some (m\<lparr>m_addr := a\<rparr>)))"
proof -
  obtain m0 where m0: "msg_init (Some f) None = Some m0" "msg_wf m0"
    using msg_init_None [OF assms(1)] by blast
  have "msg_of_bytes a (msg_bytes m) = m\<lparr>m_addr := a\<rparr>"
    using msg_of_bytes_msg_bytes [of "m\<lparr>m_addr := a\<rparr>"] assms(2)
    by (simp add: msg_wf_def msg_bytes_def)
  then show ?thesis
    by (simp add: msg_recv_def m0 length_msg_bytes [OF m0(2)] length_msg_bytes [OF assms(2)]
        key_mem_def Let_def cong: if_cong)
qed

lemma msg_send_recv_iff:
  assumes "msg_wf m" "msg_wf f" "terminated (m_key m)" "terminated (m_body m)"
  shows "rbind (msg_send m) (\<lambda>(m', wire). msg_recv (Some f) (Some (a, wire)))
      = Inr (Some (m\<lparr>m_addr := a\<rparr>))
    \<longleftrightarrow> hd (m_key m) = 0 \<or> unsafe_byte (m_key m) \<notin> set (cstr (m_body m))"
proof (cases "hd (m_key m) = 0")
  case True
  moreover have "m_key m \<noteq> []"
    using assms(1) by (auto simp: msg_wf_def TOKEN_LEN_def)
  ultimately have "crypto_key_is_empty (m_key m) = Inr True"
    by (cases "m_key m") (simp_all add: crypto_key_is_empty_def)
  then show ?thesis
    using True assms by (simp add: msg_send_def msg_recv_wire)
next
  case False
  have ne: "crypto_key_is_empty (m_key m) = Inr False"
    using False assms(3) by (cases "m_key m") (simp_all add: crypto_key_is_empty_def terminated_def)
  obtain c where c: "crypto_encrypt (m_body m) (m_key m) = Inr c"
    using crypto_encrypt_eq [OF assms(4,3)] by blast
  have wf: "msg_wf (m\<lparr>m_body := c\<rparr>)"
    using assms(1) crypto_encrypt_length [OF c] by (simp add: msg_wf_def)
  have "rbind (msg_send m) (\<lambda>(m', wire). msg_recv (Some f) (Some (a, wire)))
      = rbind (crypto_decrypt c (m_key m)) (\<lambda>b. Inr (Some (m\<lparr>m_addr := a, m_body := b\<rparr>)))"
    using ne c assms msg_recv_wire [OF assms(2) wf] encrypt_terminated [OF assms(4,3) c]
    by (simp add: msg_send_def key_mem_def crypto_key_append)
  also have "\<dots> = Inr (Some (m\<lparr>m_addr := a\<rparr>)) \<longleftrightarrow> crypto_decrypt c (m_key m) = Inr (m_body m)"
    by (cases m) (auto simp: res_simps)
  also have "\<dots> \<longleftrightarrow> unsafe_byte (m_key m) \<notin> set (cstr (m_body m))"
    using decrypt_encrypt_iff [OF assms(4,3)] c by simp
  finally show ?thesis
    using False by simp
qed

lemma msg_send_recv:
  assumes "msg_wf m" "msg_wf f" "terminated (m_key m)" "terminated (m_body m)"
    and "hd (m_key m) = 0 \<or> unsafe_byte (m_key m) \<notin> set (cstr (m_body m))"
  obtains m' w where "msg_send m = Inr (m', w)" "msg_recv (Some f) (Some (a, w)) = Inr (Some (m\<lparr>m_addr := a\<rparr>))"
  using msg_send_recv_iff [OF assms(1-4), of a] assms(5) by (auto simp: rbind_eq_Inr)

text \<open>The unsafe byte of a key depends on its string only.\<close>

lemma unsafe_byte_cstr:
  assumes "terminated k" "terminated k'" "cstr k = cstr k'"
  shows "unsafe_byte k = unsafe_byte k'"
proof -
  have "unsafe_byte k = unsafe_byte (cstr k @ [0])" if "terminated k" for k
  proof -
    define rest where "rest = drop (Suc (length (cstr k))) k"
    have k: "k = (cstr k @ [0]) @ rest"
      using terminated_split [OF that] by (simp add: rest_def)
    have "terminated (cstr k @ [0])"
      by simp
    from key_schedule_append [OF this, of rest] show ?thesis
      unfolding unsafe_byte_def k [symmetric] by simp
  qed
  then show ?thesis
    using assms by metis
qed

text \<open>
  C33. A message that is sent and received whole arrives as it was, up to the sender's
  address, exactly when its key is empty (nothing is encrypted) or its body does not
  contain the unsafe byte of its key.
\<close>

theorem msg_roundtrip:
  assumes "msg_wf m" "msg_wf f" "terminated (m_key m)" "terminated (m_body m)"
  shows "rbind (msg_send m) (\<lambda>(m', wire). msg_recv (Some f) (Some (a, wire)))
      = Inr (Some (m\<lparr>m_addr := a\<rparr>))
    \<longleftrightarrow> hd (m_key m) = 0 \<or> unsafe_byte (m_key m) \<notin> set (cstr (m_body m))"
  by (rule msg_send_recv_iff [OF assms])

lemma msg_roundtrip_witness:
  defines "m \<equiv> \<lparr>m_addr = \<lparr>sin_family = 2, sin_port = 27015, s_addr = 0\<rparr>, m_type = user_msg,
    m_key = of_str ''k3y'' @ replicate 33 0, m_len = 7, m_body = of_str ''go west'' @ replicate 1017 0\<rparr>"
  shows "rbind (msg_send m) (\<lambda>(m', wire). msg_recv (Some m) (Some (m_addr m, wire)))
    = Inr (Some (m\<lparr>m_addr := m_addr m\<rparr>))"
proof -
  have wf: "msg_wf m"
    by (simp add: m_def msg_wf_def TOKEN_LEN_def KEY_PAD_def BODY_LEN_def of_str_def)
  have t: "terminated (m_key m)" "terminated (m_body m)"
    by (simp_all add: m_def terminated_def)
  have "unsafe_byte (of_str ''k3y'' @ replicate 33 0) \<notin> set (cstr (of_str ''go west'' @ replicate 1017 0))"
    by code_simp
  then have "unsafe_byte (m_key m) \<notin> set (cstr (m_body m))"
    by (simp add: m_def)
  with msg_roundtrip [OF wf wf t] show ?thesis
    by blast
qed

end
