(* ===== verification/Fifo.thy ===== *)
theory Fifo
  imports TmmoPrelude
begin

text \<open>
  The contract of the two queues of the server: a queue stands for the list of its
  elements, \<open>enq\<close> appends while memory is left, \<open>deq\<close> takes the oldest element or reports
  that there is none.  What their clients rely on, the order of delivery over any
  sequence of operations, is proved once here.
\<close>

datatype 'a qop = Enq 'a | Deq

text \<open>A sequence of operations, with the results of the \<open>Deq\<close>s.\<close>

fun qrun :: "('a \<Rightarrow> 'q \<Rightarrow> 'q res) \<Rightarrow> ('q \<Rightarrow> ('a option \<times> 'q) res) \<Rightarrow> 'q \<Rightarrow> 'a qop list
    \<Rightarrow> ('a option list \<times> 'q) res" where
  "qrun enq deq q [] = Inr ([], q)"
| "qrun enq deq q (Enq x # ops) = rbind (enq x q) (\<lambda>q. qrun enq deq q ops)"
| "qrun enq deq q (Deq # ops) = rbind (deq q) (\<lambda>(r, q).
     rbind (qrun enq deq q ops) (\<lambda>(rs, q). Inr (r # rs, q)))"

fun enqueued :: "'a qop list \<Rightarrow> 'a list" where
  "enqueued [] = []"
| "enqueued (Enq x # ops) = x # enqueued ops"
| "enqueued (Deq # ops) = enqueued ops"

text \<open>The same sequence on lists: the specification.\<close>

fun spec_run :: "'a list \<Rightarrow> 'a qop list \<Rightarrow> 'a option list \<times> 'a list" where
  "spec_run xs [] = ([], xs)"
| "spec_run xs (Enq x # ops) = spec_run (xs @ [x]) ops"
| "spec_run [] (Deq # ops) = (let (rs, ys) = spec_run [] ops in (None # rs, ys))"
| "spec_run (x # xs) (Deq # ops) = (let (rs, ys) = spec_run xs ops in (Some x # rs, ys))"

definition delivered :: "'a option list \<Rightarrow> 'a list" where
  "delivered rs = map the (filter (\<lambda>r. r \<noteq> None) rs)"

lemma delivered_simps [simp]:
  "delivered [] = []" "delivered (None # rs) = delivered rs"
  "delivered (Some x # rs) = x # delivered rs"
  by (simp_all add: delivered_def)

lemma spec_run_order: "spec_run xs ops = (rs, ys) \<Longrightarrow> delivered rs @ ys = xs @ enqueued ops"
  by (induction xs ops arbitrary: rs ys rule: spec_run.induct) (auto split: prod.splits)

locale fifo =
  fixes enq :: "'a \<Rightarrow> 'q \<Rightarrow> 'q res"
    and deq :: "'q \<Rightarrow> ('a option \<times> 'q) res"
    and is_empty :: "'q \<Rightarrow> bool"
    and contents :: "'q \<Rightarrow> 'a list"
    and inv :: "'q \<Rightarrow> bool"
    and room :: "'q \<Rightarrow> nat"
  assumes enq_spec: "inv q \<Longrightarrow> 0 < room q \<Longrightarrow>
      \<exists>q'. enq x q = Inr q' \<and> inv q' \<and> contents q' = contents q @ [x] \<and> room q' = room q - 1"
    and deq_empty: "inv q \<Longrightarrow> contents q = [] \<Longrightarrow> deq q = Inr (None, q)"
    and deq_spec: "inv q \<Longrightarrow> contents q = x # xs \<Longrightarrow>
      \<exists>q'. deq q = Inr (Some x, q') \<and> inv q' \<and> contents q' = xs \<and> room q' = room q"
    and is_empty_spec: "inv q \<Longrightarrow> is_empty q = (contents q = [])"
begin

lemma run_refines_spec:
  assumes "inv q" "length (enqueued ops) \<le> room q" "spec_run (contents q) ops = (rs, ys)"
  shows "\<exists>q'. qrun enq deq q ops = Inr (rs, q') \<and> inv q' \<and> contents q' = ys"
  using assms
proof (induction ops arbitrary: q rs)
  case Nil
  then show ?case by simp
next
  case (Cons op ops)
  show ?case
  proof (cases op)
    case (Enq x)
    with Cons.prems enq_spec [of q x] obtain q' where
      q': "enq x q = Inr q'" "inv q'" "contents q' = contents q @ [x]" "room q' = room q - 1"
      by fastforce
    with Enq Cons.prems Cons.IH [of q' rs] show ?thesis
      by simp
  next
    case Deq
    show ?thesis
    proof (cases "contents q")
      case Nil
      with Deq Cons.prems obtain rs' where "rs = None # rs'" "spec_run (contents q) ops = (rs', ys)"
        by (auto split: prod.splits)
      with Nil Deq Cons.prems Cons.IH [of q rs'] deq_empty [of q] show ?thesis
        by fastforce
    next
      case (Cons x xs)
      with Deq Cons.prems obtain rs' where rs': "rs = Some x # rs'" "spec_run xs ops = (rs', ys)"
        by (auto split: prod.splits)
      obtain q' where "deq q = Inr (Some x, q')" "inv q'" "contents q' = xs" "room q' = room q"
        using deq_spec [OF \<open>inv q\<close> Cons] by blast
      with Deq rs' Cons.prems Cons.IH [of q' rs'] show ?thesis
        by fastforce
    qed
  qed
qed

lemma run_order:
  assumes "inv q" "length (enqueued ops) \<le> room q"
  shows "\<exists>rs q'. qrun enq deq q ops = Inr (rs, q') \<and> inv q'
    \<and> delivered rs @ contents q' = contents q @ enqueued ops"
proof -
  obtain rs ys where "spec_run (contents q) ops = (rs, ys)"
    by fastforce
  with run_refines_spec [OF assms] spec_run_order show ?thesis
    by metis
qed

end

end
