(* ===== verification/Queue.thy ===== *)
theory Queue
  imports Fifo
begin

text \<open>
  The queue of messages to send (\<open>server/queue.h\<close>, \<open>server/queue.c\<close>), also used by the
  flood fill of \<open>game_processing/map.c\<close>: a chain of nodes on the heap, a count, and
  pointers to the first and the last node.  A node comes out of \<open>malloc\<close> with an
  arbitrary \<open>next\<close> (\<open>q_junk\<close>), which the code never sets for the last node; the count, not a
  null pointer, says where the chain ends.  \<open>q_quota\<close> is how often \<open>malloc\<close> will still succeed.
  The operations are those of one thread at a time, as the mutex makes them.
\<close>

section \<open>Data and operations\<close>

record 'd queue_node_t =
  qn_next :: ptr
  qn_data :: 'd

record 'd queue_t =
  q_count :: int
  q_first :: ptr
  q_last :: ptr
  q_heap :: "'d queue_node_t heap"
  q_quota :: nat
  q_junk :: "nat \<Rightarrow> ptr"

definition queue_init_empty :: "'d queue_t \<Rightarrow> 'd queue_t" where
  "queue_init_empty q = q\<lparr>q_count := 0, q_first := None, q_last := None\<rparr>"

text \<open>\<open>block\<close> is the content of the fresh block, \<open>None\<close> if \<open>malloc\<close> fails.\<close>

definition queue_init :: "'d queue_t option \<Rightarrow> 'd queue_t option" where
  "queue_init block = (case block of None \<Rightarrow> None
     | Some q \<Rightarrow> Some ((queue_init_empty q)\<lparr>q_count := 0\<rparr>))"

definition queue_is_empty :: "'d queue_t \<Rightarrow> bool" where
  "queue_is_empty q = (if q_count q > 0 then False else True)"

definition queue_enqueue :: "'d \<Rightarrow> 'd queue_t \<Rightarrow> 'd queue_t res" where
  "queue_enqueue d q =
     (if q_quota q = 0 then Inr q
      else
        let (node, h) = alloc (q_heap q) \<lparr>qn_next = q_junk q (length (q_heap q)), qn_data = d\<rparr>;
            q = q\<lparr>q_heap := h, q_quota := q_quota q - 1\<rparr> in
        rbind
          (if \<not> queue_is_empty q
           then rbind (load (q_heap q) (q_last q)) (\<lambda>n.
                rbind (store (q_heap q) (q_last q) (n\<lparr>qn_next := node\<rparr>)) (\<lambda>h.
                  Inr (q\<lparr>q_heap := h, q_last := node\<rparr>)))
           else Inr (q\<lparr>q_last := node, q_first := node\<rparr>))
          (\<lambda>q. Inr (q\<lparr>q_count := q_count q + 1\<rparr>)))"

definition queue_dequeue :: "'d queue_t \<Rightarrow> ('d option \<times> 'd queue_t) res" where
  "queue_dequeue q =
     (let node = q_first q in
      if queue_is_empty q then Inr (None, q)
      else
        rbind (load (q_heap q) node) (\<lambda>n.
        rbind (free (q_heap q) node) (\<lambda>h.
          Inr (Some (qn_data n),
               q\<lparr>q_first := qn_next n, q_count := q_count q - 1, q_heap := h\<rparr>))))"

text \<open>
  The loop of \<open>queue_destroy\<close> runs \<open>count\<close> times; the result lists what the callback was
  called with (nothing for a null callback).
\<close>

fun queue_destroy_loop :: "nat \<Rightarrow> bool \<Rightarrow> 'd queue_t \<Rightarrow> ('d list \<times> 'd queue_t) res" where
  "queue_destroy_loop 0 callback q = Inr ([], q)"
| "queue_destroy_loop (Suc k) callback q =
     (let node = q_first q in
      rbind (load (q_heap q) node) (\<lambda>n.
      rbind (free (q_heap q) node) (\<lambda>h.
      rbind (queue_destroy_loop k callback
               (q\<lparr>q_first := qn_next n, q_count := q_count q - 1, q_heap := h\<rparr>)) (\<lambda>(ds, q).
        Inr (if callback then qn_data n # ds else ds, q)))))"

definition queue_destroy :: "'d queue_t \<Rightarrow> bool \<Rightarrow> ('d list \<times> 'd queue_t) res" where
  "queue_destroy q callback = queue_destroy_loop (nat (q_count q)) callback q"

section \<open>Abstraction and invariant\<close>

definition q_addrs :: "'d queue_t \<Rightarrow> nat list option" where
  "q_addrs q = walk qn_next (q_heap q) (nat (q_count q)) (q_first q)"

definition q_inv :: "'d queue_t \<Rightarrow> bool" where
  "q_inv q \<longleftrightarrow> 0 \<le> q_count q \<and> (case q_addrs q of None \<Rightarrow> False
     | Some as \<Rightarrow> distinct as \<and> (as \<noteq> [] \<longrightarrow> q_last q = Some (last as)))"

definition block_data :: "'d queue_node_t heap \<Rightarrow> nat \<Rightarrow> 'd" where
  "block_data h a = qn_data (the (h ! a))"

definition q_contents :: "'d queue_t \<Rightarrow> 'd list" where
  "q_contents q = (case q_addrs q of None \<Rightarrow> [] | Some as \<Rightarrow> map (block_data (q_heap q)) as)"

text \<open>The chain behind a queue that satisfies the invariant.\<close>

definition q_rep :: "'d queue_t \<Rightarrow> nat list \<Rightarrow> ptr \<Rightarrow> bool" where
  "q_rep q as e \<longleftrightarrow> q_count q = int (length as) \<and> chain qn_next (q_heap q) (q_first q) as e
     \<and> distinct as \<and> (as \<noteq> [] \<longrightarrow> q_last q = Some (last as))"

lemma q_rep_addrs: "q_rep q as e \<Longrightarrow> q_addrs q = Some as"
  by (auto simp: q_rep_def q_addrs_def walk_eq_Some)

lemma q_rep_inv: "q_rep q as e \<Longrightarrow> q_inv q"
  by (frule q_rep_addrs) (simp add: q_inv_def q_rep_def)

lemma q_rep_contents: "q_rep q as e \<Longrightarrow> q_contents q = map (block_data (q_heap q)) as"
  by (drule q_rep_addrs) (simp add: q_contents_def)

lemma q_inv_rep: "q_inv q \<Longrightarrow> \<exists>as e. q_rep q as e"
  unfolding q_inv_def q_rep_def q_addrs_def
  by (auto simp: walk_eq_Some split: option.splits) (metis int_nat_eq)+

lemma queue_is_empty_iff: "q_inv q \<Longrightarrow> queue_is_empty q = (q_contents q = [])"
  using q_inv_rep [of q] by (auto simp: q_rep_contents) (auto simp: q_rep_def queue_is_empty_def split: if_splits)

lemma queue_init_inv: "queue_init (Some q) = Some q' \<Longrightarrow> q_inv q' \<and> q_contents q' = []"
  by (auto simp: queue_init_def queue_init_empty_def q_inv_def q_contents_def q_addrs_def)

lemma map_block_data_update_other:
  "a \<notin> set as \<Longrightarrow> map (block_data (h[a := x])) as = map (block_data h) as"
  by (induction as) (simp_all add: block_data_def)

lemma map_block_data_append:
  "(\<And>a. a \<in> set as \<Longrightarrow> a < length h) \<Longrightarrow> map (block_data (h @ [x])) as = map (block_data h) as"
  by (auto simp: block_data_def nth_append)

section \<open>Correctness of the operations\<close>

lemma queue_enqueue_first:
  assumes "q_inv q" "0 < q_quota q" "q_contents q = []"
  shows "\<exists>q'. queue_enqueue d q = Inr q' \<and> q_inv q' \<and> q_contents q' = q_contents q @ [d]
    \<and> q_quota q' = q_quota q - 1"
proof -
  let ?a = "length (q_heap q)"
  let ?n = "\<lparr>qn_next = q_junk q ?a, qn_data = d\<rparr>"
  let ?q = "q\<lparr>q_heap := q_heap q @ [Some ?n], q_quota := q_quota q - 1, q_last := Some ?a,
    q_first := Some ?a, q_count := 1\<rparr>"
  have c: "q_count q = 0"
    using assms q_inv_rep [OF assms(1)] by (auto simp: q_rep_contents) (auto simp: q_rep_def)
  have "queue_enqueue d q = Inr ?q"
    using assms(2) c by (simp add: queue_enqueue_def alloc_def queue_is_empty_def)
  moreover have "q_rep ?q [?a] (q_junk q ?a)"
    by (simp add: q_rep_def load_alloc_new)
  ultimately show ?thesis
    by (simp add: q_rep_inv q_rep_contents assms(3) block_data_def)
qed

lemma queue_enqueue_next:
  assumes "q_inv q" "0 < q_quota q" "q_contents q \<noteq> []"
  shows "\<exists>q'. queue_enqueue d q = Inr q' \<and> q_inv q' \<and> q_contents q' = q_contents q @ [d]
    \<and> q_quota q' = q_quota q - 1"
proof -
  obtain as e where as: "q_rep q as e"
    using q_inv_rep [OF assms(1)] by blast
  with assms(3) have "as \<noteq> []"
    by (auto simp: q_rep_contents)
  then obtain bs z where z: "as = bs @ [z]"
    by (cases as rule: rev_cases) auto
  let ?a = "length (q_heap q)"
  let ?h = "q_heap q @ [Some \<lparr>qn_next = q_junk q ?a, qn_data = d\<rparr>]"
  have rep: "q_count q = int (length as)" "q_last q = Some z" "z \<notin> set bs" "distinct bs"
    and ch0: "chain qn_next (q_heap q) (q_first q) as e"
    using as by (auto simp: q_rep_def z)
  have bound: "\<And>b. b \<in> set as \<Longrightarrow> b < ?a"
    using chain_bound [OF ch0] .
  have zb: "z < ?a" "?a \<notin> set bs" "?a \<noteq> z"
    using bound by (auto simp: z)
  have ch: "chain qn_next ?h (q_first q) bs (Some z)"
    using chain_alloc [OF ch0] unfolding z chain_snoc by blast
  obtain n where n0: "load (q_heap q) (Some z) = Inr n"
    using ch0 unfolding z chain_snoc by blast
  have n: "load ?h (Some z) = Inr n"
    by (rule load_alloc_old [OF n0])
  let ?h' = "?h[z := Some (n\<lparr>qn_next := Some ?a\<rparr>)]"
  let ?q = "q\<lparr>q_heap := ?h', q_quota := q_quota q - 1, q_last := Some ?a, q_count := q_count q + 1\<rparr>"
  have "\<not> queue_is_empty q"
    using assms(3) queue_is_empty_iff [OF assms(1)] by simp
  then have "queue_enqueue d q = Inr ?q"
    using assms(2) rep(2) n
    by (simp add: queue_enqueue_def alloc_def store_ok queue_is_empty_def)
  moreover have "chain qn_next ?h' (Some z) [z, ?a] (q_junk q ?a)"
    using zb(1,3) by (simp add: load_def nth_append nth_list_update)
  then have "chain qn_next ?h' (q_first q) (bs @ [z, ?a]) (q_junk q ?a)"
    using ch rep(3) unfolding chain_append by (metis chain_update_other)
  then have "q_rep ?q (bs @ [z, ?a]) (q_junk q ?a)"
    using rep zb by (simp add: q_rep_def z)
  moreover have "map (block_data ?h') (bs @ [z, ?a]) = map (block_data (q_heap q)) as @ [d]"
  proof -
    have "map (block_data ?h') bs = map (block_data (q_heap q)) bs"
      by (subst map_block_data_update_other [OF rep(3)], rule map_block_data_append)
        (simp add: bound z)
    moreover have "block_data ?h' z = block_data (q_heap q) z" "block_data ?h' ?a = d"
      using zb(1) n0 by (auto simp: block_data_def nth_append nth_list_update load_eq_Inr)
    ultimately show ?thesis
      by (simp add: z)
  qed
  ultimately show ?thesis
    by (simp add: q_rep_inv q_rep_contents q_rep_contents [OF as])
qed

lemma queue_enqueue_spec:
  assumes "q_inv q" "0 < q_quota q"
  shows "\<exists>q'. queue_enqueue d q = Inr q' \<and> q_inv q' \<and> q_contents q' = q_contents q @ [d]
    \<and> q_quota q' = q_quota q - 1"
proof (cases "q_contents q = []")
  case True
  with assms show ?thesis by (rule queue_enqueue_first)
next
  case False
  with assms show ?thesis by (rule queue_enqueue_next)
qed

lemma queue_pop_node:
  assumes "q_inv q" "q_contents q = x # xs"
  shows "\<exists>n h. load (q_heap q) (q_first q) = Inr n \<and> free (q_heap q) (q_first q) = Inr h
    \<and> qn_data n = x
    \<and> q_inv (q\<lparr>q_first := qn_next n, q_count := q_count q - 1, q_heap := h\<rparr>)
    \<and> q_contents (q\<lparr>q_first := qn_next n, q_count := q_count q - 1, q_heap := h\<rparr>) = xs"
proof -
  obtain as e where as: "q_rep q as e"
    using q_inv_rep [OF assms(1)] by blast
  then obtain a bs where a: "as = a # bs" "block_data (q_heap q) a = x"
    "map (block_data (q_heap q)) bs = xs"
    using assms(2) by (cases as) (auto simp: q_rep_contents)
  then obtain n where n: "q_first q = Some a" "load (q_heap q) (Some a) = Inr n"
    "chain qn_next (q_heap q) (qn_next n) bs e"
    using as unfolding q_rep_def a chain_Cons_iff by blast
  let ?h = "(q_heap q)[a := None]"
  let ?q = "q\<lparr>q_first := qn_next n, q_count := q_count q - 1, q_heap := ?h\<rparr>"
  have "a \<notin> set bs"
    using as by (simp add: a q_rep_def)
  then have "q_rep ?q bs e" "map (block_data ?h) bs = xs"
    using as n(3) a(3) by (auto simp: a(1) q_rep_def chain_update_other map_block_data_update_other)
  moreover have "qn_data n = x"
    using n(2) a(2) by (simp add: load_eq_Inr block_data_def)
  ultimately show ?thesis
    using n by (simp add: free_ok q_rep_inv q_rep_contents)
qed

lemma queue_dequeue_spec:
  assumes "q_inv q" "q_contents q = x # xs"
  shows "\<exists>q'. queue_dequeue q = Inr (Some x, q') \<and> q_inv q' \<and> q_contents q' = xs
    \<and> q_quota q' = q_quota q"
proof -
  have "\<not> queue_is_empty q"
    using assms(2) queue_is_empty_iff [OF assms(1)] by simp
  with queue_pop_node [OF assms] show ?thesis
    by (auto simp: queue_dequeue_def)
qed

lemma queue_dequeue_empty: "q_inv q \<Longrightarrow> q_contents q = [] \<Longrightarrow> queue_dequeue q = Inr (None, q)"
  by (simp add: queue_dequeue_def queue_is_empty_iff)

interpretation sq: fifo queue_enqueue queue_dequeue queue_is_empty q_contents q_inv q_quota
  by unfold_locales
    (fact queue_enqueue_spec queue_dequeue_empty queue_dequeue_spec queue_is_empty_iff)+

lemma queue_destroy_loop_spec:
  "q_inv q \<Longrightarrow> \<exists>q'. queue_destroy_loop (length (q_contents q)) callback q
     = Inr (if callback then q_contents q else [], q') \<and> q_inv q' \<and> q_contents q' = []"
proof (induction "q_contents q" arbitrary: q)
  case Nil
  then show ?case by (auto simp: Nil(1) [symmetric])
next
  case (Cons x xs)
  obtain n h where n: "load (q_heap q) (q_first q) = Inr n" "free (q_heap q) (q_first q) = Inr h"
    "qn_data n = x"
    "q_inv (q\<lparr>q_first := qn_next n, q_count := q_count q - 1, q_heap := h\<rparr>)"
    "q_contents (q\<lparr>q_first := qn_next n, q_count := q_count q - 1, q_heap := h\<rparr>) = xs"
    using queue_pop_node [OF Cons.prems Cons(2) [symmetric]] by blast
  show ?case
    using Cons(1) [OF n(5) [symmetric] n(4)] n(1-3,5) by (auto simp: Cons(2) [symmetric])
qed

lemma queue_destroy_spec:
  assumes "q_inv q"
  shows "\<exists>q'. queue_destroy q callback = Inr (if callback then q_contents q else [], q') \<and> q_contents q' = []"
proof -
  obtain as e where "q_rep q as e"
    using q_inv_rep [OF assms] by blast
  then have "nat (q_count q) = length (q_contents q)"
    by (simp add: q_rep_contents) (simp add: q_rep_def)
  with queue_destroy_loop_spec [OF assms, of callback] show ?thesis
    by (auto simp: queue_destroy_def)
qed

section \<open>Properties\<close>


definition sample_queue :: "nat queue_t" where
  "sample_queue = \<lparr>q_count = 0, q_first = Some 3, q_last = Some 9, q_heap = [], q_quota = 5,
     q_junk = (\<lambda>_. Some 7)\<rparr>"


text \<open>
  \<open>queue_destroy\<close> on a queue in use hands every remaining element to the callback, in
  order, frees each node once and never follows the uninitialised \<open>next\<close> of the last node.
\<close>

theorem queue_destroy_calls_back:
  assumes "queue_init (Some block) = Some q" and "length (enqueued ops) \<le> q_quota q"
  shows "\<exists>q' q''. qrun queue_enqueue queue_dequeue q ops = Inr (fst (spec_run [] ops), q')
    \<and> queue_destroy q' True = Inr (snd (spec_run [] ops), q'')"
proof -
  have q: "q_inv q" "q_contents q = []"
    using queue_init_inv [OF assms(1)] by simp_all
  have "spec_run (q_contents q) ops = (fst (spec_run [] ops), snd (spec_run [] ops))"
    by (simp add: q(2))
  then obtain q' where q': "qrun queue_enqueue queue_dequeue q ops = Inr (fst (spec_run [] ops), q')"
    "q_inv q'" "q_contents q' = snd (spec_run [] ops)"
    using sq.run_refines_spec [OF q(1) assms(2)] by blast
  from queue_destroy_spec [OF q'(2), of True] obtain q'' where
    "queue_destroy q' True = Inr (snd (spec_run [] ops), q'')"
    by (auto simp: q'(3))
  with q'(1) show ?thesis by blast
qed

lemma queue_destroy_calls_back_witness:
  "\<exists>q q' q''. queue_init (Some sample_queue) = Some q
    \<and> qrun queue_enqueue queue_dequeue q [Enq 1, Enq 2, Deq, Enq 3] = Inr ([Some 1], q')
    \<and> queue_destroy q' True = Inr ([2, 3], q'')"
proof -
  let ?q = "sample_queue\<lparr>q_count := 0, q_first := None, q_last := None\<rparr>"
  have i: "queue_init (Some sample_queue) = Some ?q"
    by (simp add: queue_init_def queue_init_empty_def)
  show ?thesis
    using queue_destroy_calls_back [OF i, of "[Enq 1, Enq 2, Deq, Enq 3]"] i
    by (auto simp: sample_queue_def)
qed

end
