(* ===== verification/JobQueue.thy ===== *)
theory JobQueue
  imports Fifo
begin

text \<open>
  The job queue of the thread pool (\<open>game_processing/job_queue.h\<close>, \<open>job_queue.c\<close>).  The
  code lets \<open>last_node\<close> point at the head structure itself when the queue is empty,
  whose first member overlays the \<open>next\<close> of a node: \<open>Head\<close> is that pointer, and writing
  \<open>next\<close> through it writes \<open>first_node\<close>.  Each \<open>jqueue_add_job\<close> calls \<open>malloc\<close> twice and
  does not look at the results.
\<close>

section \<open>Data and operations\<close>

datatype jref = Head | Node nat

record ('f, 'a) job_t =
  job_function :: 'f
  job_arg1 :: 'a

record job_queue_node_t =
  jn_next :: ptr
  jn_qjob :: ptr

record ('f, 'a) jqueue_t =
  jq_first_node :: ptr
  jq_last_node :: jref
  jq_nodes :: "job_queue_node_t heap"
  jq_jobs :: "('f, 'a) job_t heap"
  jq_quota :: nat

definition jqueue_create :: "nat \<Rightarrow> ('f, 'a) jqueue_t" where
  "jqueue_create quota =
     \<lparr>jq_first_node = None, jq_last_node = Head, jq_nodes = [], jq_jobs = [], jq_quota = quota\<rparr>"

text \<open>\<open>r->next = v\<close> for a node pointer that may be the head in disguise.\<close>

definition set_next :: "('f, 'a) jqueue_t \<Rightarrow> jref \<Rightarrow> ptr \<Rightarrow> ('f, 'a) jqueue_t res" where
  "set_next q r v = (case r of
     Head \<Rightarrow> Inr (q\<lparr>jq_first_node := v\<rparr>)
   | Node a \<Rightarrow> rbind (load (jq_nodes q) (Some a)) (\<lambda>n.
               rbind (store (jq_nodes q) (Some a) (n\<lparr>jn_next := v\<rparr>)) (\<lambda>h.
                 Inr (q\<lparr>jq_nodes := h\<rparr>))))"

definition jqueue_add_job :: "'f \<Rightarrow> 'a \<Rightarrow> ('f, 'a) jqueue_t \<Rightarrow> ('f, 'a) jqueue_t res" where
  "jqueue_add_job f arg q =
     (if jq_quota q < 2 then Inl NullDeref
      else
        let (jb, jobs) = alloc (jq_jobs q) \<lparr>job_function = f, job_arg1 = arg\<rparr>;
            a = length (jq_nodes q);
            (new, nodes) = alloc (jq_nodes q) \<lparr>jn_next = None, jn_qjob = jb\<rparr>;
            q = q\<lparr>jq_jobs := jobs, jq_nodes := nodes, jq_quota := jq_quota q - 2\<rparr> in
        rbind (set_next q (jq_last_node q) new) (\<lambda>q.
          Inr (q\<lparr>jq_last_node := Node a\<rparr>)))"

definition jqueue_get_job :: "('f, 'a) jqueue_t \<Rightarrow> (ptr \<times> ('f, 'a) jqueue_t) res" where
  "jqueue_get_job q =
     (case jq_first_node q of
        None \<Rightarrow> Inr (None, q)
      | Some a \<Rightarrow>
          rbind (load (jq_nodes q) (Some a)) (\<lambda>n.
            let ret_job = jn_qjob n;
                q = q\<lparr>jq_first_node := jn_next n\<rparr>;
                q = (if jq_last_node q = Node a then q\<lparr>jq_last_node := Head\<rparr> else q) in
            rbind (free (jq_nodes q) (Some a)) (\<lambda>h.
              Inr (ret_job, q\<lparr>jq_nodes := h\<rparr>))))"

definition jqueue_is_empty :: "('f, 'a) jqueue_t \<Rightarrow> bool" where
  "jqueue_is_empty q \<longleftrightarrow> jq_first_node q = None"

text \<open>The call that \<open>do_job\<close> makes.\<close>

definition do_job :: "('f, 'a) jqueue_t \<Rightarrow> ptr \<Rightarrow> ('f \<times> 'a) res" where
  "do_job q job = rbind (load (jq_jobs q) job) (\<lambda>j. Inr (job_function j, job_arg1 j))"

text \<open>One round of a worker: \<open>job = jqueue_get_job(q); if (job != NULL) do_job(job)\<close>.\<close>

definition work_once :: "('f, 'a) jqueue_t \<Rightarrow> (('f \<times> 'a) option \<times> ('f, 'a) jqueue_t) res" where
  "work_once q = rbind (jqueue_get_job q) (\<lambda>(job, q).
     if job \<noteq> None then rbind (do_job q job) (\<lambda>c. Inr (Some c, q)) else Inr (None, q))"

text \<open>
  \<open>jqueue_destroy\<close>: \<open>None\<close> is the freed head; fuel bounds the loop over the nodes.
\<close>

fun jqueue_destroy_loop :: "nat \<Rightarrow> ('f, 'a) jqueue_t \<Rightarrow> ptr \<Rightarrow> ('f, 'a) jqueue_t res" where
  "jqueue_destroy_loop fuel q None = Inr q"
| "jqueue_destroy_loop 0 q (Some a) = Inl Diverges"
| "jqueue_destroy_loop (Suc fuel) q (Some a) =
     rbind (load (jq_nodes q) (Some a)) (\<lambda>n.
     rbind (free (jq_jobs q) (jn_qjob n)) (\<lambda>jobs.
       let q = q\<lparr>jq_jobs := jobs, jq_first_node := jn_next n\<rparr> in
     rbind (free (jq_nodes q) (Some a)) (\<lambda>nodes.
       let q = q\<lparr>jq_nodes := nodes\<rparr> in
       jqueue_destroy_loop fuel q (jq_first_node q))))"

definition jqueue_destroy :: "('f, 'a) jqueue_t \<Rightarrow> ('f, 'a) jqueue_t res" where
  "jqueue_destroy q = jqueue_destroy_loop (length (jq_nodes q)) q (jq_first_node q)"

section \<open>Abstraction and invariant\<close>

definition jq_addrs :: "('f, 'a) jqueue_t \<Rightarrow> nat list option" where
  "jq_addrs q = walk_null jn_next (jq_nodes q) (length (jq_nodes q)) (jq_first_node q)"

definition node_job :: "('f, 'a) jqueue_t \<Rightarrow> nat \<Rightarrow> ('f \<times> 'a) res" where
  "node_job q a = rbind (load (jq_nodes q) (Some a)) (\<lambda>n. do_job q (jn_qjob n))"

definition node_qjob :: "('f, 'a) jqueue_t \<Rightarrow> nat \<Rightarrow> ptr" where
  "node_qjob q a = (case load (jq_nodes q) (Some a) of Inl _ \<Rightarrow> None | Inr n \<Rightarrow> jn_qjob n)"

definition jref_of :: "nat list \<Rightarrow> jref" where
  "jref_of as = (if as = [] then Head else Node (last as))"

definition jq_inv :: "('f, 'a) jqueue_t \<Rightarrow> bool" where
  "jq_inv q \<longleftrightarrow> (case jq_addrs q of None \<Rightarrow> False
     | Some as \<Rightarrow> jq_last_node q = jref_of as \<and> list_all (\<lambda>a. is_ok (node_job q a)) as
         \<and> distinct (map (node_qjob q) as))"

definition get_ok :: "'b res \<Rightarrow> 'b" where
  "get_ok r = (case r of Inr x \<Rightarrow> x)"

definition jq_contents :: "('f, 'a) jqueue_t \<Rightarrow> ('f \<times> 'a) list" where
  "jq_contents q = (case jq_addrs q of None \<Rightarrow> [] | Some as \<Rightarrow> map (\<lambda>a. get_ok (node_job q a)) as)"

definition jq_room :: "('f, 'a) jqueue_t \<Rightarrow> nat" where
  "jq_room q = jq_quota q div 2"

definition jq_rep :: "('f, 'a) jqueue_t \<Rightarrow> nat list \<Rightarrow> ('f \<times> 'a) list \<Rightarrow> bool" where
  "jq_rep q as js \<longleftrightarrow> chain jn_next (jq_nodes q) (jq_first_node q) as None
     \<and> jq_last_node q = jref_of as \<and> map (node_job q) as = map Inr js
     \<and> distinct (map (node_qjob q) as)"

lemma jq_rep_addrs: "jq_rep q as js \<Longrightarrow> jq_addrs q = Some as"
  by (auto simp: jq_rep_def jq_addrs_def walk_null_eq_Some chain_length_le)

lemma get_ok_Inr [simp]: "get_ok (Inr x) = x"
  by (simp add: get_ok_def)

lemma map_Inr_ok: "map f as = map Inr js \<Longrightarrow> a \<in> set as \<Longrightarrow> is_ok (f a)"
  by (induction as arbitrary: js) auto

lemma jq_rep_inv: "jq_rep q as js \<Longrightarrow> jq_inv q"
proof -
  assume r: "jq_rep q as js"
  then have "\<forall>a \<in> set as. is_ok (node_job q a)"
    unfolding jq_rep_def using map_Inr_ok [of "node_job q" as js] by simp
  with r show ?thesis
    using jq_rep_addrs [OF r] by (simp add: jq_inv_def jq_rep_def list_all_iff)
qed

lemma jq_rep_contents: "jq_rep q as js \<Longrightarrow> jq_contents q = js"
proof -
  assume r: "jq_rep q as js"
  then have "map get_ok (map (node_job q) as) = map get_ok (map Inr js)"
    by (simp add: jq_rep_def)
  then show ?thesis
    using jq_rep_addrs [OF r] by (simp add: jq_contents_def comp_def)
qed

lemma jq_inv_rep:
  assumes "jq_inv q"
  shows "\<exists>as. jq_rep q as (jq_contents q)"
proof -
  obtain as where as: "jq_addrs q = Some as" "jq_last_node q = jref_of as"
    "\<forall>a \<in> set as. is_ok (node_job q a)" "distinct (map (node_qjob q) as)"
    using assms by (auto simp: jq_inv_def list_all_iff split: option.splits)
  have "map (node_job q) as = map Inr (map (\<lambda>a. get_ok (node_job q a)) as)"
    using as(3) by (auto simp: is_ok_iff)
  then have "jq_rep q as (jq_contents q)"
    using as by (simp add: jq_rep_def jq_contents_def) (simp add: jq_addrs_def walk_null_eq_Some)
  then show ?thesis ..
qed

section \<open>Correctness of the operations\<close>

lemma jqueue_create_inv: "jq_inv (jqueue_create n)" "jq_contents (jqueue_create n) = []"
    "jq_room (jqueue_create n) = n div 2"
  by (simp_all add: jqueue_create_def jq_inv_def jq_contents_def jq_addrs_def jref_of_def jq_room_def)

lemma jqueue_is_empty_iff: "jq_inv q \<Longrightarrow> jqueue_is_empty q = (jq_contents q = [])"
proof -
  assume "jq_inv q"
  then obtain as where "jq_rep q as (jq_contents q)"
    using jq_inv_rep by blast
  then show ?thesis
    by (cases as) (auto simp: jq_rep_def jqueue_is_empty_def)
qed

lemma set_next_chain:
  assumes "chain jn_next (jq_nodes q) (jq_first_node q) as None"
  shows "\<exists>q'. set_next q (jref_of as) v = Inr q'
    \<and> chain jn_next (jq_nodes q') (jq_first_node q') as v
    \<and> (\<forall>b. b \<notin> set as \<longrightarrow> load (jq_nodes q') (Some b) = load (jq_nodes q) (Some b))
    \<and> (\<forall>b. node_job q' b = node_job q b) \<and> (\<forall>b. node_qjob q' b = node_qjob q b)
    \<and> jq_jobs q' = jq_jobs q \<and> jq_quota q' = jq_quota q \<and> jq_last_node q' = jq_last_node q"
proof (cases as rule: rev_cases)
  case Nil
  then show ?thesis
    by (simp add: set_next_def jref_of_def node_job_def do_job_def node_qjob_def)
next
  case (snoc bs z)
  obtain n where n: "load (jq_nodes q) (Some z) = Inr n" "chain jn_next (jq_nodes q) (jq_first_node q) bs (Some z)"
    using assms unfolding snoc chain_snoc by blast
  have z: "z \<notin> set bs"
    using chain_null_distinct [OF assms] by (simp add: snoc)
  let ?h = "(jq_nodes q)[z := Some (n\<lparr>jn_next := v\<rparr>)]"
  have "set_next q (jref_of as) v = Inr (q\<lparr>jq_nodes := ?h\<rparr>)"
    using n(1) by (simp add: set_next_def jref_of_def snoc store_ok)
  moreover have lz: "load ?h (Some b) = (if b = z then Inr (n\<lparr>jn_next := v\<rparr>) else load (jq_nodes q) (Some b))" for b
    using n(1) by (auto simp: load_eq_Inr load_update)
  moreover have "chain jn_next ?h (jq_first_node q) as v"
    using n(2) z unfolding snoc chain_snoc by (simp add: chain_update_other lz)
  moreover have "node_job (q\<lparr>jq_nodes := ?h\<rparr>) b = node_job q b" for b
    using n(1) by (simp add: node_job_def do_job_def lz)
  moreover have "node_qjob (q\<lparr>jq_nodes := ?h\<rparr>) b = node_qjob q b" for b
    using n(1) by (simp add: node_qjob_def lz)
  ultimately show ?thesis
    by (auto simp: snoc)
qed

lemma jqueue_add_job_spec:
  assumes "jq_inv q" "0 < jq_room q"
  shows "\<exists>q'. jqueue_add_job f x q = Inr q' \<and> jq_inv q' \<and> jq_contents q' = jq_contents q @ [(f, x)]
    \<and> jq_room q' = jq_room q - 1"
proof -
  obtain as where as: "jq_rep q as (jq_contents q)"
    using jq_inv_rep [OF assms(1)] by blast
  let ?j = "\<lparr>job_function = f, job_arg1 = x\<rparr>"
  let ?a = "length (jq_nodes q)"
  let ?n = "\<lparr>jn_next = None, jn_qjob = Some (length (jq_jobs q))\<rparr>"
  let ?q = "q\<lparr>jq_jobs := jq_jobs q @ [Some ?j], jq_nodes := jq_nodes q @ [Some ?n],
    jq_quota := jq_quota q - 2\<rparr>"
  have ch: "chain jn_next (jq_nodes ?q) (jq_first_node ?q) as None"
    using as by (simp add: jq_rep_def chain_alloc)
  have old: "node_job ?q b = Inr j" if "node_job q b = Inr j" for b j
    using that by (auto simp: node_job_def do_job_def res_simps intro!: load_alloc_old)
  have new: "node_job ?q ?a = Inr (f, x)"
    by (simp add: node_job_def do_job_def load_alloc_new)
  obtain q' where q': "set_next ?q (jref_of as) (Some ?a) = Inr q'"
    "chain jn_next (jq_nodes q') (jq_first_node q') as (Some ?a)"
    "\<forall>b. b \<notin> set as \<longrightarrow> load (jq_nodes q') (Some b) = load (jq_nodes ?q) (Some b)"
    "\<forall>b. node_job q' b = node_job ?q b" "\<forall>b. node_qjob q' b = node_qjob ?q b" "jq_quota q' = jq_quota ?q"
    using set_next_chain [OF ch, of "Some ?a"] by blast
  let ?q' = "q'\<lparr>jq_last_node := Node ?a\<rparr>"
  have "?a \<notin> set as"
    using as chain_bound [of jn_next "jq_nodes q" _ as None ?a] by (auto simp: jq_rep_def)
  then have "load (jq_nodes q') (Some ?a) = Inr ?n"
    using q'(3) by (simp add: load_alloc_new)
  then have "chain jn_next (jq_nodes ?q') (jq_first_node ?q') (as @ [?a]) None"
    using q'(2) by (simp add: chain_snoc)
  moreover have "map (node_job ?q') as = map Inr (jq_contents q)"
  proof -
    have "node_job ?q' b = node_job q b" if "b \<in> set as" for b
    proof -
      have "is_ok (node_job q b)"
        using as that map_Inr_ok [of "node_job q" as _ b] by (auto simp: jq_rep_def)
      then obtain j where j: "node_job q b = Inr j"
        by (auto simp: is_ok_iff)
      have "node_job ?q' b = node_job q' b"
        by (simp add: node_job_def do_job_def)
      with old [OF j] j q'(4) show ?thesis
        by simp
    qed
    then show ?thesis
      using as by (simp add: jq_rep_def cong: map_cong)
  qed
  moreover have "node_job ?q' ?a = Inr (f, x)"
    using new q'(4) by (simp add: node_job_def do_job_def)
  moreover have "distinct (map (node_qjob ?q') (as @ [?a]))"
  proof -
    have qj: "node_qjob ?q' b = node_qjob ?q b" for b
      using q'(5) by (simp add: node_qjob_def)
    have b: "node_qjob ?q b = node_qjob q b \<and> node_qjob q b \<noteq> Some (length (jq_jobs q))"
      if "b \<in> set as" for b
    proof -
      have "is_ok (node_job q b)"
        using as that map_Inr_ok [of "node_job q" as _ b] by (auto simp: jq_rep_def)
      then obtain n where "load (jq_nodes q) (Some b) = Inr n" "is_ok (load (jq_jobs q) (jn_qjob n))"
        by (auto simp: node_job_def do_job_def res_simps is_ok_iff)
      then show ?thesis
        using load_alloc_old [of "jq_nodes q" "Some b" n]
        by (auto simp: node_qjob_def is_ok_iff load_def)
    qed
    have "map (node_qjob ?q') as = map (node_qjob q) as"
      using b by (simp add: qj)
    then have "distinct (map (node_qjob ?q') as)" "set (map (node_qjob ?q') as) = node_qjob q ` set as"
      using as by (simp_all only: jq_rep_def set_map)
    moreover have "node_qjob ?q' ?a = Some (length (jq_jobs q))"
      by (simp add: qj) (simp add: node_qjob_def load_alloc_new)
    moreover have "Some (length (jq_jobs q)) \<notin> node_qjob q ` set as"
      using b by force
    ultimately show ?thesis
      by (simp only: map_append list.map distinct_append distinct.simps) auto
  qed
  ultimately have "jq_rep ?q' (as @ [?a]) (jq_contents q @ [(f, x)])"
    by (simp add: jq_rep_def jref_of_def)
  moreover have "jqueue_add_job f x q = Inr ?q'"
    using assms(2) as q'(1)
    by (simp add: jqueue_add_job_def alloc_def jq_room_def jq_rep_def not_less Suc_le_eq)
  moreover have "jq_room ?q' = jq_room q - 1"
    using assms(2) q'(6) by (simp add: jq_room_def)
  ultimately show ?thesis
    using jq_rep_inv jq_rep_contents by blast
qed

lemma jqueue_get_job_spec:
  assumes "jq_inv q" "jq_contents q = j # js"
  shows "\<exists>p q'. jqueue_get_job q = Inr (p, q') \<and> p \<noteq> None \<and> do_job q' p = Inr j
    \<and> jq_inv q' \<and> jq_contents q' = js \<and> jq_room q' = jq_room q"
proof -
  obtain as where as: "jq_rep q as (j # js)"
    using jq_inv_rep [OF assms(1)] assms(2) by auto
  then obtain a bs where a: "as = a # bs" "node_job q a = Inr j" "map (node_job q) bs = map Inr js"
    by (cases as) (auto simp: jq_rep_def)
  then obtain n where n: "jq_first_node q = Some a" "load (jq_nodes q) (Some a) = Inr n"
    "chain jn_next (jq_nodes q) (jn_next n) bs None"
    using as unfolding jq_rep_def a chain_Cons_iff by blast
  have dist: "a \<notin> set bs"
    using as chain_null_distinct [of jn_next "jq_nodes q" _ as] by (auto simp: jq_rep_def a)
  let ?q = "q\<lparr>jq_first_node := jn_next n, jq_last_node := jref_of bs,
    jq_nodes := (jq_nodes q)[a := None]\<rparr>"
  have last: "(if jq_last_node q = Node a then Head else jq_last_node q) = jref_of bs"
    using as dist last_in_set [of bs]
    by (cases "bs = []") (auto simp: jq_rep_def a(1) jref_of_def)
  have get: "jqueue_get_job q = Inr (jn_qjob n, ?q)"
    using n last by (auto simp: jqueue_get_job_def Let_def free_ok split: if_splits)
  have job: "jn_qjob n \<noteq> None \<and> do_job ?q (jn_qjob n) = Inr j"
    using a(2) n(2) by (auto simp: node_job_def do_job_def res_simps dest: load_InrD)
  have "node_job ?q b = node_job q b" if "b \<in> set bs" for b
    using that dist by (simp add: node_job_def do_job_def load_update_notin)
  then have "map (node_job ?q) bs = map Inr js"
    using a(3) by (simp cong: map_cong)
  moreover have "map (node_qjob ?q) bs = map (node_qjob q) bs"
    using dist by (auto simp: node_qjob_def load_update_notin)
  then have "distinct (map (node_qjob ?q) bs)"
    using as by (simp only: jq_rep_def a(1) list.map distinct.simps)
  ultimately have "jq_rep ?q bs js"
    using n(3) dist by (simp add: jq_rep_def chain_update_other)
  with get job show ?thesis
    using jq_rep_inv jq_rep_contents by (fastforce simp: jq_room_def)
qed

lemma jqueue_get_job_empty: "jq_inv q \<Longrightarrow> jq_contents q = [] \<Longrightarrow> jqueue_get_job q = Inr (None, q)"
  using jqueue_is_empty_iff [of q] by (simp add: jqueue_get_job_def jqueue_is_empty_def)

lemma work_once_spec:
  "jq_inv q \<Longrightarrow> jq_contents q = j # js \<Longrightarrow>
    \<exists>q'. work_once q = Inr (Some j, q') \<and> jq_inv q' \<and> jq_contents q' = js \<and> jq_room q' = jq_room q"
  using jqueue_get_job_spec [of q j js] by (auto simp: work_once_def)

lemma work_once_empty: "jq_inv q \<Longrightarrow> jq_contents q = [] \<Longrightarrow> work_once q = Inr (None, q)"
  by (simp add: work_once_def jqueue_get_job_empty)

interpretation jq: fifo "\<lambda>(f, x). jqueue_add_job f x" work_once jqueue_is_empty jq_contents jq_inv jq_room
proof (unfold_locales, goal_cases)
  case (1 q x)
  then show ?case
    using jqueue_add_job_spec [of q "fst x" "snd x"] by (cases x) simp
qed (fact work_once_spec work_once_empty jqueue_is_empty_iff)+

section \<open>Destruction\<close>

lemma node_job_okE:
  assumes "is_ok (node_job q a)"
  obtains n p j where "load (jq_nodes q) (Some a) = Inr n" "jn_qjob n = Some p"
    "load (jq_jobs q) (Some p) = Inr j" "node_qjob q a = Some p"
proof -
  obtain n j where n: "load (jq_nodes q) (Some a) = Inr n" "load (jq_jobs q) (jn_qjob n) = Inr j"
    using assms by (auto simp: node_job_def do_job_def is_ok_iff res_simps)
  moreover obtain p where "jn_qjob n = Some p"
    using load_InrD [OF n(2)] by blast
  ultimately show thesis
    using that by (simp add: node_qjob_def)
qed

lemma jqueue_destroy_loop_ok:
  assumes "chain jn_next (jq_nodes q) p as None" "\<forall>a \<in> set as. is_ok (node_job q a)"
    "distinct (map (node_qjob q) as)" "length as \<le> fuel"
  shows "\<exists>q'. jqueue_destroy_loop fuel q p = Inr q' \<and> (as \<noteq> [] \<longrightarrow> jq_first_node q' = None)"
  using assms
proof (induction as arbitrary: q p fuel)
  case Nil
  then show ?case by simp
next
  case (Cons a as)
  obtain k where k: "fuel = Suc k"
    using Cons.prems(4) by (cases fuel) auto
  obtain n jp j where n: "load (jq_nodes q) (Some a) = Inr n" "jn_qjob n = Some jp"
    "load (jq_jobs q) (Some jp) = Inr j" "node_qjob q a = Some jp"
    using Cons.prems(2) by (auto elim: node_job_okE)
  have p: "p = Some a" "chain jn_next (jq_nodes q) (jn_next n) as None"
    using Cons.prems(1) n(1) by (simp_all del: chain.simps add: chain_Cons_iff)
  have a: "a \<notin> set as"
    using chain_null_distinct [OF Cons.prems(1)] by simp
  let ?q = "q\<lparr>jq_jobs := (jq_jobs q)[jp := None], jq_first_node := jn_next n,
    jq_nodes := (jq_nodes q)[a := None]\<rparr>"
  have nq: "node_qjob ?q b = node_qjob q b" if "b \<in> set as" for b
    using that a by (simp add: node_qjob_def load_update_notin)
  then have "map (node_qjob ?q) as = map (node_qjob q) as"
    by simp
  then have 3: "distinct (map (node_qjob ?q) as)"
    using Cons.prems(3) unfolding list.map distinct.simps by metis
  have "is_ok (node_job ?q b)" if b: "b \<in> set as" for b
  proof -
    obtain m mp mj where m: "load (jq_nodes q) (Some b) = Inr m" "jn_qjob m = Some mp"
      "load (jq_jobs q) (Some mp) = Inr mj" "node_qjob q b = Some mp"
      using Cons.prems(2) b by (metis node_job_okE list.set_intros(2))
    have "node_qjob q a \<notin> set (map (node_qjob q) as)"
      using Cons.prems(3) unfolding list.map distinct.simps by blast
    then have "mp \<noteq> jp"
      using b m(4) n(4) by force
    then show ?thesis
      using m b a by (simp add: node_job_def do_job_def load_update_notin load_update_other)
  qed
  then have 2: "\<forall>b \<in> set as. is_ok (node_job ?q b)"
    by blast
  have 1: "chain jn_next (jq_nodes ?q) (jn_next n) as None" and 4: "length as \<le> k"
    using p(2) a Cons.prems(4) k by (simp_all add: chain_update_other)
  obtain q' where "jqueue_destroy_loop k ?q (jn_next n) = Inr q'"
    "as \<noteq> [] \<longrightarrow> jq_first_node q' = None"
    using Cons.IH [OF 1 2 3 4] by blast
  moreover have "as = [] \<Longrightarrow> jn_next n = None"
    using p(2) by simp
  ultimately show ?case
    using n p(1) k by (cases "as = []") (auto simp: free_ok Let_def)
qed

lemma jqueue_destroy_ok:
  assumes "jq_inv q"
  shows "\<exists>q'. jqueue_destroy q = Inr q' \<and> jqueue_is_empty q'"
proof -
  obtain as where as: "jq_rep q as (jq_contents q)"
    using jq_inv_rep [OF assms] by blast
  have "\<forall>a \<in> set as. is_ok (node_job q a)"
    using as map_Inr_ok [of "node_job q" as] by (auto simp: jq_rep_def)
  then obtain q' where q': "jqueue_destroy q = Inr q'" "as \<noteq> [] \<longrightarrow> jq_first_node q' = None"
    using as jqueue_destroy_loop_ok [of q _ as "length (jq_nodes q)"] chain_length_le
    unfolding jq_rep_def jqueue_destroy_def by blast
  moreover have "as = [] \<Longrightarrow> jq_first_node q = None"
    using as by (simp add: jq_rep_def)
  ultimately show ?thesis
    by (cases "as = []") (auto simp: jqueue_is_empty_def jqueue_destroy_def)
qed

section \<open>Properties\<close>

text \<open>
  A worker takes the jobs in the order in which they were added, whatever the
  interleaving of adds and takes: the queue whose \<open>last_node\<close> points into its own head
  behaves as a list, and destroying it at any point frees every node and job once.
\<close>

theorem job_queue_fifo:
  assumes "length (enqueued ops) \<le> quota div 2"
  shows "\<exists>q q'. qrun (\<lambda>(f, x). jqueue_add_job f x) work_once (jqueue_create quota) ops
      = Inr (fst (spec_run [] ops), q)
    \<and> jq_contents q = snd (spec_run [] ops)
    \<and> jqueue_destroy q = Inr q' \<and> jqueue_is_empty q'"
proof -
  have "spec_run (jq_contents (jqueue_create quota)) ops = (fst (spec_run [] ops), snd (spec_run [] ops))"
    by (simp add: jqueue_create_inv(2))
  then obtain q where q: "qrun (\<lambda>(f, x). jqueue_add_job f x) work_once (jqueue_create quota) ops
      = Inr (fst (spec_run [] ops), q)" "jq_inv q" "jq_contents q = snd (spec_run [] ops)"
    using jq.run_refines_spec [OF jqueue_create_inv(1)] assms jqueue_create_inv(3) by metis
  with jqueue_destroy_ok [OF q(2)] show ?thesis
    by auto
qed

lemma job_queue_fifo_witness:
  "\<exists>q q'. qrun (\<lambda>(f, x). jqueue_add_job f x) work_once (jqueue_create 9)
        [Enq (''a'', 1::nat), Deq, Deq, Enq (''b'', 2), Enq (''c'', 3)]
      = Inr ([Some (''a'', 1), None], q)
    \<and> jq_contents q = [(''b'', 2), (''c'', 3)]
    \<and> jqueue_destroy q = Inr q' \<and> jqueue_is_empty q'"
  using job_queue_fifo [of "[Enq (''a'', 1::nat), Deq, Deq, Enq (''b'', 2), Enq (''c'', 3)]" 9]
  by simp

end
