(* ===== verification/ThreadPool.thy ===== *)
theory ThreadPool
  imports JobQueue "HOL-Library.Multiset"
begin

text \<open>
  The thread pool that works on the job queue (\<open>game_processing/threadpool.h\<close>,
  \<open>threadpool.c\<close>): creating it, its workers, the threads that add jobs and its destruction,
  all running at once.  Each thread is a program counter and an action is what one
  of them does between two points where another may come in; a schedule is a list of
  actions.  An action on a thread that cannot go on, because it waits for the mutex,
  sleeps on the condition variable or has to join a thread that still runs, is not
  possible.
\<close>

section \<open>State\<close>

text \<open>
  Where a worker is in \<open>thread_function\<close>: before the test of \<open>threads_active\<close>, before
  \<open>pthread_mutex_lock\<close>, at the test of the inner loop, before \<open>pthread_cond_wait\<close>, in it,
  waking up in it (the mutex has to be taken again), before \<open>jqueue_get_job\<close>, before
  \<open>pthread_mutex_unlock\<close> and before the call of the job, the last two with the job in
  hand; or it has returned.
\<close>

datatype worker_pc = LoopTest | Lock | WaitTest | WaitCall | Asleep | Woken | Take
  | Unlock ptr | CallJob ptr | Finished

text \<open>
  Where the caller of \<open>threadpool_destroy\<close> is: it has not called it, it has sent a number
  of signals, it has joined a number of threads, or the pool is freed.
\<close>

datatype destroy_pc = Running | Signalling nat | Joining nat | Gone

text \<open>
  The mutex is the thread that holds it.  A thread that adds a job takes it only inside of
  \<open>jqueue_add_job\<close> and signals after giving it back: \<open>tp_owed\<close> counts the signals that
  are still to be sent.  \<open>tp_calls\<close> lists the calls of jobs so far.  The queue is \<open>None\<close>
  once it is freed.
\<close>

record ('f, 'a) threadpool_t =
  tp_threads :: "worker_pc list"
  tp_jqueue :: "('f, 'a) jqueue_t option"
  tp_active :: bool
  tp_mutex :: "nat option"
  tp_threads_cnt :: nat
  tp_owed :: nat
  tp_destroy :: destroy_pc
  tp_calls :: "('f \<times> 'a) list"

text \<open>
  \<open>threadpool_create\<close>; the last argument counts the blocks that \<open>malloc\<close> still gives.  The
  block of the pool and the head of the queue are used unchecked.
\<close>

definition threadpool_create :: "nat \<Rightarrow> nat \<Rightarrow> ('f, 'a) threadpool_t option res" where
  "threadpool_create threads_cnt quota =
     (if quota = 0 then Inl NullDeref
      else if quota = 1 then Inr None
      else if quota = 2 then Inl NullDeref
      else Inr (Some
        \<lparr>tp_threads = replicate threads_cnt LoopTest, tp_jqueue = Some (jqueue_create (quota - 3)),
         tp_active = True, tp_mutex = None, tp_threads_cnt = threads_cnt, tp_owed = 0,
         tp_destroy = Running, tp_calls = []\<rparr>))"

definition threadpool_get_jqueue :: "('f, 'a) threadpool_t option \<Rightarrow> ('f, 'a) jqueue_t option" where
  "threadpool_get_jqueue p = (case p of Some s \<Rightarrow> tp_jqueue s | None \<Rightarrow> None)"

section \<open>Actions\<close>

definition goto :: "nat \<Rightarrow> worker_pc \<Rightarrow> ('f, 'a) threadpool_t \<Rightarrow> ('f, 'a) threadpool_t" where
  "goto i pc s = s\<lparr>tp_threads := (tp_threads s)[i := pc]\<rparr>"

text \<open>One action of worker \<open>i\<close>; \<open>None\<close> when it cannot go on.\<close>

definition take_mutex :: "nat \<Rightarrow> ('f, 'a) threadpool_t \<Rightarrow> ('f, 'a) threadpool_t res option" where
  "take_mutex i s =
     (if tp_mutex s = None then Some (Inr (goto i WaitTest (s\<lparr>tp_mutex := Some i\<rparr>))) else None)"

definition on_queue :: "(('f, 'a) jqueue_t \<Rightarrow> 'b res) \<Rightarrow> ('f, 'a) threadpool_t \<Rightarrow> 'b res" where
  "on_queue f s = (case tp_jqueue s of None \<Rightarrow> Inl UseAfterFree | Some q \<Rightarrow> f q)"

definition thread_function :: "nat \<Rightarrow> ('f, 'a) threadpool_t \<Rightarrow> ('f, 'a) threadpool_t res option" where
  "thread_function i s =
     (if length (tp_threads s) \<le> i then None
      else case tp_threads s ! i of
        LoopTest \<Rightarrow> Some (Inr (goto i (if tp_active s then Lock else Finished) s))
      | Lock \<Rightarrow> take_mutex i s
      | WaitTest \<Rightarrow> Some (on_queue (\<lambda>q.
          Inr (goto i (if jqueue_is_empty q \<and> tp_active s then WaitCall else Take) s)) s)
      | WaitCall \<Rightarrow> Some (Inr (goto i Asleep (s\<lparr>tp_mutex := None\<rparr>)))
      | Asleep \<Rightarrow> None
      | Woken \<Rightarrow> take_mutex i s
      | Take \<Rightarrow> Some (on_queue (\<lambda>q. rbind (jqueue_get_job q) (\<lambda>(job, q).
          Inr (goto i (Unlock job) (s\<lparr>tp_jqueue := Some q\<rparr>)))) s)
      | Unlock job \<Rightarrow> Some (Inr (goto i (CallJob job) (s\<lparr>tp_mutex := None\<rparr>)))
      | CallJob job \<Rightarrow> Some
          (if job \<noteq> None
           then on_queue (\<lambda>q. rbind (do_job q job) (\<lambda>c.
             Inr (goto i LoopTest (s\<lparr>tp_calls := tp_calls s @ [c]\<rparr>)))) s
           else Inr (goto i LoopTest s))
      | Finished \<Rightarrow> None)"

text \<open>
  \<open>pthread_cond_signal\<close>: the thread that it wakes, one of those asleep if there are any.
\<close>

definition cond_signal :: "nat option \<Rightarrow> worker_pc list \<Rightarrow> worker_pc list option" where
  "cond_signal w ts = (case w of
     None \<Rightarrow> if list_ex (\<lambda>pc. pc = Asleep) ts then None else Some ts
   | Some i \<Rightarrow> if i < length ts \<and> ts ! i = Asleep then Some (ts[i := Woken]) else None)"

text \<open>A thread of the server adds a job: up to the unlocking of the mutex, and the signal.\<close>

definition add_job :: "'f \<Rightarrow> 'a \<Rightarrow> ('f, 'a) threadpool_t \<Rightarrow> ('f, 'a) threadpool_t res option" where
  "add_job f x s =
     (if tp_mutex s \<noteq> None then None
      else Some (on_queue (\<lambda>q. rbind (jqueue_add_job f x q) (\<lambda>q.
        Inr (s\<lparr>tp_jqueue := Some q, tp_owed := tp_owed s + 1\<rparr>))) s))"

definition signal_job :: "nat option \<Rightarrow> ('f, 'a) threadpool_t \<Rightarrow> ('f, 'a) threadpool_t res option" where
  "signal_job w s =
     (if tp_owed s = 0 then None
      else map_option (\<lambda>ts. on_queue (\<lambda>q.
        Inr (s\<lparr>tp_threads := ts, tp_owed := tp_owed s - 1\<rparr>)) s) (cond_signal w (tp_threads s)))"

text \<open>POSIX lets \<open>pthread_cond_wait\<close> return without a signal.\<close>

definition spurious_wakeup :: "nat \<Rightarrow> ('f, 'a) threadpool_t \<Rightarrow> ('f, 'a) threadpool_t res option" where
  "spurious_wakeup i s =
     map_option (\<lambda>ts. Inr (s\<lparr>tp_threads := ts\<rparr>)) (cond_signal (Some i) (tp_threads s))"

text \<open>One action of the thread that destroys the pool.\<close>

definition threadpool_destroy :: "nat option \<Rightarrow> ('f, 'a) threadpool_t
    \<Rightarrow> ('f, 'a) threadpool_t res option" where
  "threadpool_destroy w s = (case tp_destroy s of
     Running \<Rightarrow> Some (Inr (s\<lparr>tp_active := False, tp_destroy := Signalling 0\<rparr>))
   | Signalling k \<Rightarrow>
       if k < tp_threads_cnt s
       then map_option (\<lambda>ts. Inr (s\<lparr>tp_threads := ts, tp_destroy := Signalling (k + 1)\<rparr>))
         (cond_signal w (tp_threads s))
       else Some (Inr (s\<lparr>tp_destroy := Joining 0\<rparr>))
   | Joining k \<Rightarrow>
       if k < tp_threads_cnt s
       then if tp_threads s ! k = Finished then Some (Inr (s\<lparr>tp_destroy := Joining (k + 1)\<rparr>)) else None
       else if tp_mutex s \<noteq> None then None
       else Some (on_queue (\<lambda>q. rbind (jqueue_destroy q) (\<lambda>_.
         Inr (s\<lparr>tp_jqueue := None, tp_destroy := Gone\<rparr>))) s)
   | Gone \<Rightarrow> None)"

datatype ('f, 'a) act = Work nat | AddJob 'f 'a | SignalJob "nat option" | Spurious nat
  | Destroy "nat option"

fun pool_act :: "('f, 'a) act \<Rightarrow> ('f, 'a) threadpool_t \<Rightarrow> ('f, 'a) threadpool_t res option" where
  "pool_act (Work i) s = thread_function i s"
| "pool_act (AddJob f x) s = add_job f x s"
| "pool_act (SignalJob w) s = signal_job w s"
| "pool_act (Spurious i) s = spurious_wakeup i s"
| "pool_act (Destroy w) s = threadpool_destroy w s"

text \<open>A schedule; it ends with the first fault.\<close>

fun pool_run :: "('f, 'a) act list \<Rightarrow> ('f, 'a) threadpool_t \<Rightarrow> ('f, 'a) threadpool_t res option" where
  "pool_run [] s = Some (Inr s)"
| "pool_run (a # as) s = (case pool_act a s of
     None \<Rightarrow> None
   | Some (Inl e) \<Rightarrow> Some (Inl e)
   | Some (Inr s') \<Rightarrow> pool_run as s')"

fun added :: "('f, 'a) act list \<Rightarrow> ('f \<times> 'a) list" where
  "added [] = []"
| "added (AddJob f x # as) = (f, x) # added as"
| "added (_ # as) = added as"

section \<open>Invariant\<close>

text \<open>Worker \<open>i\<close> is between taking the mutex and giving it back.\<close>

definition in_section :: "worker_pc \<Rightarrow> bool" where
  "in_section pc = (case pc of WaitTest \<Rightarrow> True | WaitCall \<Rightarrow> True | Take \<Rightarrow> True
     | Unlock job \<Rightarrow> True | _ \<Rightarrow> False)"

definition pc_job :: "worker_pc \<Rightarrow> ptr" where
  "pc_job pc = (case pc of Unlock job \<Rightarrow> job | CallJob job \<Rightarrow> job | _ \<Rightarrow> None)"

definition hand :: "('f, 'a) jqueue_t \<Rightarrow> worker_pc \<Rightarrow> ('f \<times> 'a) list" where
  "hand q pc = (if pc_job pc = None then [] else [get_ok (do_job q (pc_job pc))])"

text \<open>The jobs that workers have in hand, and those that wait.\<close>

definition in_hand :: "('f, 'a) threadpool_t \<Rightarrow> ('f \<times> 'a) list" where
  "in_hand s = (case tp_jqueue s of None \<Rightarrow> [] | Some q \<Rightarrow> concat (map (hand q) (tp_threads s)))"

definition waiting :: "('f, 'a) threadpool_t \<Rightarrow> ('f \<times> 'a) list" where
  "waiting s = (case tp_jqueue s of None \<Rightarrow> [] | Some q \<Rightarrow> jq_contents q)"

definition lock_ok :: "('f, 'a) threadpool_t \<Rightarrow> bool" where
  "lock_ok s \<longleftrightarrow> tp_threads_cnt s = length (tp_threads s)
     \<and> (\<forall>i < length (tp_threads s). in_section (tp_threads s ! i) = (tp_mutex s = Some i))
     \<and> (\<forall>i. tp_mutex s = Some i \<longrightarrow> i < length (tp_threads s))"

definition stop_ok :: "('f, 'a) threadpool_t \<Rightarrow> bool" where
  "stop_ok s \<longleftrightarrow> tp_active s = (tp_destroy s = Running)
     \<and> (tp_active s \<longrightarrow> Finished \<notin> set (tp_threads s))
     \<and> (\<forall>k. tp_destroy s = Joining k \<longrightarrow>
          k \<le> length (tp_threads s) \<and> (\<forall>i < k. tp_threads s ! i = Finished))
     \<and> (tp_destroy s = Gone \<longrightarrow> (\<forall>i < length (tp_threads s). tp_threads s ! i = Finished))
     \<and> (tp_jqueue s = None) = (tp_destroy s = Gone)"

definition jobs_ok :: "nat \<Rightarrow> ('f \<times> 'a) list \<Rightarrow> ('f, 'a) threadpool_t \<Rightarrow> bool" where
  "jobs_ok room js s \<longleftrightarrow> (case tp_jqueue s of
     None \<Rightarrow> mset (tp_calls s) \<subseteq># mset js
   | Some q \<Rightarrow> jq_inv q \<and> jq_room q + length js = room
       \<and> (\<forall>pc \<in> set (tp_threads s). pc_job pc \<noteq> None \<longrightarrow> is_ok (do_job q (pc_job pc)))
       \<and> (\<exists>ys. js = ys @ jq_contents q)
       \<and> mset (tp_calls s) + mset (in_hand s) + mset (jq_contents q) = mset js)"

text \<open>
  While the pool is active no worker takes from an empty queue, none goes to sleep on one
  that is not empty, and a job that waits has a signal on its way or a worker that is not
  asleep.
\<close>

definition wake_ok :: "('f, 'a) threadpool_t \<Rightarrow> bool" where
  "wake_ok s \<longleftrightarrow> tp_active s \<longrightarrow> (Take \<in> set (tp_threads s) \<longrightarrow> waiting s \<noteq> [])
     \<and> (WaitCall \<in> set (tp_threads s) \<longrightarrow> waiting s = [])
     \<and> (waiting s \<noteq> [] \<longrightarrow> tp_threads s = [] \<or> 0 < tp_owed s \<or> (\<exists>pc \<in> set (tp_threads s). pc \<noteq> Asleep))"

definition pool_inv :: "nat \<Rightarrow> ('f \<times> 'a) list \<Rightarrow> ('f, 'a) threadpool_t \<Rightarrow> bool" where
  "pool_inv room js s \<longleftrightarrow> lock_ok s \<and> stop_ok s \<and> jobs_ok room js s \<and> wake_ok s"

lemmas pool_simps = goto_def take_mutex_def on_queue_def cond_signal_def

lemma in_section_simps [simp]:
  "in_section WaitTest" "in_section WaitCall" "in_section Take" "in_section (Unlock p)"
  "\<not> in_section LoopTest" "\<not> in_section Lock" "\<not> in_section Asleep" "\<not> in_section Woken"
  "\<not> in_section (CallJob p)" "\<not> in_section Finished"
  by (simp_all add: in_section_def)

lemma pc_job_simps [simp]:
  "pc_job (Unlock p) = p" "pc_job (CallJob p) = p" "pc_job LoopTest = None" "pc_job Lock = None"
  "pc_job WaitTest = None" "pc_job WaitCall = None" "pc_job Asleep = None" "pc_job Woken = None"
  "pc_job Take = None" "pc_job Finished = None"
  by (simp_all add: pc_job_def)

lemma mset_concat_update:
  "i < length xs \<Longrightarrow>
    mset (concat (map h (xs[i := y]))) + mset (h (xs ! i)) = mset (concat (map h xs)) + mset (h y)"
  by (induction xs arbitrary: i) (auto split: nat.splits)

lemma do_job_get: "jqueue_get_job q = Inr (p, q') \<Longrightarrow> do_job q' x = do_job q x"
  by (auto simp: jqueue_get_job_def do_job_def Let_def res_simps split: option.splits if_splits)

lemma do_job_add:
  assumes "jqueue_add_job f x q = Inr q'" "is_ok (do_job q p)"
  shows "do_job q' p = do_job q p"
proof -
  have "jq_jobs q' = jq_jobs q @ [Some \<lparr>job_function = f, job_arg1 = x\<rparr>]"
    using assms(1) by (auto simp: jqueue_add_job_def set_next_def Let_def alloc_def res_simps
      split: jref.splits if_splits)
  moreover obtain j where "load (jq_jobs q) p = Inr j"
    using assms(2) by (auto simp: do_job_def is_ok_iff res_simps)
  ultimately show ?thesis
    by (simp add: do_job_def load_alloc_old)
qed

text \<open>What a move of one worker needs for each part of the invariant.\<close>

lemma lock_ok_move:
  assumes "lock_ok s" "i < length (tp_threads s)"
    "tp_threads s' = (tp_threads s)[i := pc]" "tp_threads_cnt s' = tp_threads_cnt s"
    "in_section pc = (tp_mutex s' = Some i)"
    "tp_mutex s' = tp_mutex s \<or> tp_mutex s = None \<and> tp_mutex s' = Some i
       \<or> tp_mutex s = Some i \<and> tp_mutex s' = None"
  shows "lock_ok s'"
  using assms unfolding lock_ok_def by (auto simp: nth_list_update)

lemma not_in_update: "x \<notin> set ys \<Longrightarrow> y \<noteq> x \<Longrightarrow> x \<notin> set (ys[i := y])"
  using set_update_subset_insert [of ys i y] by blast

lemma stop_ok_move:
  assumes "stop_ok s" "i < length (tp_threads s)" "tp_threads s ! i \<noteq> Finished"
    "tp_threads s' = (tp_threads s)[i := pc]" "pc = Finished \<longrightarrow> \<not> tp_active s"
    "tp_active s' = tp_active s" "tp_destroy s' = tp_destroy s"
    "(tp_jqueue s' = None) = (tp_jqueue s = None)"
  shows "stop_ok s'"
proof -
  have "Finished \<notin> set (tp_threads s')" if "tp_active s"
    using assms that not_in_update [of Finished "tp_threads s" pc i] by (auto simp: stop_ok_def)
  moreover have "tp_threads s' ! j = Finished" if "tp_threads s ! j = Finished" for j
    using assms that by (cases "i = j") auto
  ultimately show ?thesis
    using assms by (auto simp: stop_ok_def)
qed

lemma mset_balance:
  fixes a b c :: "'b multiset"
  assumes "a' + h + c' = a + g + c" "b' + g = b + h"
  shows "a' + b' + c' = a + b + c"
proof (rule multiset_eqI)
  fix x
  show "count (a' + b' + c') x = count (a + b + c) x"
    using arg_cong [OF assms(1), of "\<lambda>m. count m x"] arg_cong [OF assms(2), of "\<lambda>m. count m x"]
    by simp
qed

lemma jobs_ok_move:
  assumes "jobs_ok room js s" "i < length (tp_threads s)" "tp_jqueue s = Some q"
    "tp_threads s' = (tp_threads s)[i := pc]" "tp_jqueue s' = Some q'"
    "jq_inv q'" "jq_room q' = jq_room q" "\<forall>p. do_job q' p = do_job q p"
    "jq_contents q' = jq_contents q \<or> jq_contents q' = tl (jq_contents q)"
    "pc_job pc \<noteq> None \<longrightarrow> is_ok (do_job q (pc_job pc))"
    "mset (tp_calls s') + mset (hand q pc) + mset (jq_contents q')
      = mset (tp_calls s) + mset (hand q (tp_threads s ! i)) + mset (jq_contents q)"
  shows "jobs_ok room js s'"
proof -
  have h: "hand q' = hand q"
    using assms(8) by (auto simp: hand_def)
  have "mset (in_hand s') + mset (hand q (tp_threads s ! i)) = mset (in_hand s) + mset (hand q pc)"
    using mset_concat_update [OF assms(2), of "hand q" pc] assms(3-5) by (simp add: in_hand_def h)
  moreover have "mset (tp_calls s) + mset (in_hand s) + mset (jq_contents q) = mset js"
    using assms(1,3) by (simp add: jobs_ok_def)
  ultimately have "mset (tp_calls s') + mset (in_hand s') + mset (jq_contents q') = mset js"
    using mset_balance [OF assms(11)] by simp
  moreover have "\<forall>c \<in> set (tp_threads s'). pc_job c \<noteq> None \<longrightarrow> is_ok (do_job q' (pc_job c))"
    using assms set_update_subset_insert [of "tp_threads s" i pc] by (auto simp: jobs_ok_def)
  moreover obtain ys where "js = ys @ jq_contents q"
    using assms(1,3) by (auto simp: jobs_ok_def)
  then have "\<exists>ys. js = ys @ jq_contents q'"
    using assms(9) by (cases "jq_contents q") (auto intro: exI [of _ "ys @ [hd (jq_contents q)]"])
  ultimately show ?thesis
    using assms by (simp add: jobs_ok_def)
qed

lemma wake_ok_move:
  assumes "wake_ok s" "i < length (tp_threads s)" "tp_threads s' = (tp_threads s)[i := pc]"
    "tp_active s' = tp_active s" "tp_active s \<and> (pc = Asleep \<or> pc = WaitCall) \<longrightarrow> waiting s = []"
    "tp_active s \<and> pc = Take \<longrightarrow> waiting s \<noteq> []"
    "waiting s' = waiting s \<or> pc \<noteq> Asleep \<and> Take \<notin> set (tp_threads s') \<and> WaitCall \<notin> set (tp_threads s')"
  shows "wake_ok s'"
proof -
  have "pc \<in> set (tp_threads s')"
    using assms(2,3) by (simp add: set_update_memI)
  moreover have "Take \<in> set (tp_threads s') \<Longrightarrow> Take \<in> set (tp_threads s) \<or> pc = Take"
    using not_in_update [of Take "tp_threads s" pc i] assms(3) by auto
  moreover have "WaitCall \<in> set (tp_threads s') \<Longrightarrow> WaitCall \<in> set (tp_threads s) \<or> pc = WaitCall"
    using not_in_update [of WaitCall "tp_threads s" pc i] assms(3) by auto
  ultimately show ?thesis
    using assms unfolding wake_ok_def by metis
qed

lemma pool_invD: "pool_inv room js s \<Longrightarrow> lock_ok s" "pool_inv room js s \<Longrightarrow> stop_ok s"
    "pool_inv room js s \<Longrightarrow> jobs_ok room js s" "pool_inv room js s \<Longrightarrow> wake_ok s"
  by (simp_all add: pool_inv_def)

text \<open>A worker that runs has a queue; a move that leaves the queue and the calls alone.\<close>

lemma worker_queue:
  assumes "pool_inv room js s" "i < length (tp_threads s)" "tp_threads s ! i \<noteq> Finished"
  obtains q where "tp_jqueue s = Some q" "jq_inv q" "waiting s = jq_contents q"
    "\<And>p. pc_job (tp_threads s ! i) = Some p \<Longrightarrow> is_ok (do_job q (Some p))"
proof -
  obtain q where q: "tp_jqueue s = Some q"
    using assms by (cases "tp_jqueue s") (auto simp: pool_inv_def stop_ok_def)
  moreover have "is_ok (do_job q (Some p))" if "pc_job (tp_threads s ! i) = Some p" for p
    using pool_invD(3) [OF assms(1)] nth_mem [OF assms(2)] that by (auto simp: jobs_ok_def q)
  ultimately show thesis
    using that [of q] pool_invD(3) [OF assms(1)] by (simp add: jobs_ok_def waiting_def)
qed

lemma quiet_move:
  assumes "pool_inv room js s" "i < length (tp_threads s)" "tp_threads s ! i \<noteq> Finished"
    "pc_job pc = pc_job (tp_threads s ! i)" "pc = Finished \<longrightarrow> \<not> tp_active s"
    "in_section pc = (m = Some i)"
    "m = tp_mutex s \<or> tp_mutex s = None \<and> m = Some i \<or> tp_mutex s = Some i \<and> m = None"
    "tp_active s \<and> (pc = Asleep \<or> pc = WaitCall) \<longrightarrow> waiting s = []"
    "tp_active s \<and> pc = Take \<longrightarrow> waiting s \<noteq> []"
  shows "pool_inv room js (goto i pc (s\<lparr>tp_mutex := m\<rparr>))"
proof -
  let ?s = "goto i pc (s\<lparr>tp_mutex := m\<rparr>)"
  obtain q where q: "tp_jqueue s = Some q" "jq_inv q" "waiting s = jq_contents q"
    "\<And>p. pc_job (tp_threads s ! i) = Some p \<Longrightarrow> is_ok (do_job q (Some p))"
    using worker_queue [OF assms(1-3)] by blast
  have "lock_ok ?s"
    by (rule lock_ok_move [where s = s and i = i and pc = pc])
      (use pool_invD(1) [OF assms(1)] assms(2,6,7) in \<open>simp_all add: goto_def\<close>)
  moreover have "stop_ok ?s"
    by (rule stop_ok_move [where s = s and i = i and pc = pc])
      (use pool_invD(2) [OF assms(1)] assms(2,3,5) in \<open>simp_all add: goto_def\<close>)
  moreover have "jobs_ok room js ?s"
  proof (rule jobs_ok_move [OF pool_invD(3) [OF assms(1)] assms(2) q(1)])
    show "pc_job pc \<noteq> None \<longrightarrow> is_ok (do_job q (pc_job pc))"
      by (cases "pc_job (tp_threads s ! i)") (simp_all add: q(4) assms(4))
    show "mset (tp_calls ?s) + mset (hand q pc) + mset (jq_contents q)
        = mset (tp_calls s) + mset (hand q (tp_threads s ! i)) + mset (jq_contents q)"
      unfolding hand_def assms(4) by (simp add: goto_def)
  qed (simp_all add: goto_def q(1,2))
  moreover have "wake_ok ?s"
    by (rule wake_ok_move [where s = s and i = i and pc = pc])
      (use pool_invD(4) [OF assms(1)] assms(2,8,9) in \<open>simp_all add: goto_def waiting_def\<close>)
  ultimately show ?thesis
    by (simp add: pool_inv_def)
qed

lemma goto_mutex_same: "tp_mutex s = m \<Longrightarrow> goto i pc (s\<lparr>tp_mutex := m\<rparr>) = goto i pc s"
  by (auto simp: goto_def)

lemma one_in_section:
  assumes "lock_ok s" "i < length (tp_threads s)" "in_section (tp_threads s ! i)"
    "pc \<in> set ((tp_threads s)[i := pc'])" "in_section pc"
  shows "pc = pc'"
  using assms by (auto simp: lock_ok_def in_set_conv_nth nth_list_update split: if_splits)

lemma take_move:
  assumes "pool_inv room js s" "i < length (tp_threads s)" "tp_threads s ! i = Take"
  shows "\<exists>p q' s'. s' = goto i (Unlock p) (s\<lparr>tp_jqueue := Some q'\<rparr>)
    \<and> thread_function i s = Some (Inr s') \<and> pool_inv room js s'
    \<and> waiting s' = tl (waiting s) \<and> (p = None) = (waiting s = [])"
proof -
  obtain q where q: "tp_jqueue s = Some q" "jq_inv q" "waiting s = jq_contents q"
    using worker_queue [OF assms(1,2)] assms(3) by auto
  have "\<exists>p q'. jqueue_get_job q = Inr (p, q') \<and> jq_inv q' \<and> jq_contents q' = tl (jq_contents q)
    \<and> jq_room q' = jq_room q \<and> (p = None) = (jq_contents q = [])
    \<and> (p \<noteq> None \<longrightarrow> do_job q p = Inr (hd (jq_contents q)))"
  proof (cases "jq_contents q")
    case Nil
    then show ?thesis
      using jqueue_get_job_empty [OF q(2)] q(2) by simp
  next
    case (Cons j js')
    from jqueue_get_job_spec [OF q(2) this] do_job_get Cons show ?thesis
      by fastforce
  qed
  then obtain p q' where q': "jqueue_get_job q = Inr (p, q')" "jq_inv q'"
    "jq_contents q' = tl (jq_contents q)" "jq_room q' = jq_room q" "(p = None) = (jq_contents q = [])"
    "p \<noteq> None \<longrightarrow> do_job q p = Inr (hd (jq_contents q))"
    by blast
  let ?s = "goto i (Unlock p) (s\<lparr>tp_jqueue := Some q'\<rparr>)"
  have m: "tp_mutex s = Some i"
    using pool_invD(1) [OF assms(1)] assms(2,3) by (auto simp: lock_ok_def)
  have "lock_ok ?s"
    by (rule lock_ok_move [where s = s and i = i and pc = "Unlock p"])
      (use pool_invD(1) [OF assms(1)] assms(2) m in \<open>simp_all add: goto_def\<close>)
  moreover have "stop_ok ?s"
    by (rule stop_ok_move [where s = s and i = i and pc = "Unlock p"])
      (use pool_invD(2) [OF assms(1)] assms(2,3) q(1) in \<open>simp_all add: goto_def\<close>)
  moreover have "jobs_ok room js ?s"
  proof (rule jobs_ok_move [OF pool_invD(3) [OF assms(1)] assms(2) q(1)])
    show "pc_job (Unlock p) \<noteq> None \<longrightarrow> is_ok (do_job q (pc_job (Unlock p)))"
      using q'(6) by auto
    have "mset (hand q (Unlock p)) + mset (jq_contents q') = mset (jq_contents q)"
      using q'(3,5,6) by (cases "jq_contents q") (auto simp: hand_def)
    then show "mset (tp_calls ?s) + mset (hand q (Unlock p)) + mset (jq_contents q')
        = mset (tp_calls s) + mset (hand q (tp_threads s ! i)) + mset (jq_contents q)"
      using assms(3) by (simp add: goto_def hand_def)
  qed (simp_all add: goto_def q'(2-4) do_job_get [OF q'(1)])
  moreover have nt: "Take \<notin> set (tp_threads ?s)" "WaitCall \<notin> set (tp_threads ?s)"
    using one_in_section [OF pool_invD(1) [OF assms(1)] assms(2), of Take "Unlock p"]
      one_in_section [OF pool_invD(1) [OF assms(1)] assms(2), of WaitCall "Unlock p"] assms(3)
    by (auto simp: goto_def)
  have "wake_ok ?s"
    by (rule wake_ok_move [where s = s and i = i and pc = "Unlock p"])
      (use pool_invD(4) [OF assms(1)] assms(2) nt in \<open>simp_all add: goto_def\<close>)
  ultimately have "pool_inv room js ?s"
    by (simp add: pool_inv_def)
  moreover have "thread_function i s = Some (Inr ?s)"
    using assms(2,3) q(1) q'(1) by (simp add: thread_function_def on_queue_def)
  moreover have "waiting ?s = tl (waiting s)"
    using q(3) q'(3) by (simp add: waiting_def goto_def)
  ultimately show ?thesis
    using q(3) q'(5) by (intro exI [of _ p] exI [of _ q'] exI [of _ ?s]) simp
qed

lemma call_move:
  assumes "pool_inv room js s" "i < length (tp_threads s)" "tp_threads s ! i = CallJob p"
  shows "\<exists>s' cs. thread_function i s = Some (Inr s')
    \<and> s' = goto i LoopTest (s\<lparr>tp_calls := tp_calls s @ cs\<rparr>) \<and> pool_inv room js s'"
proof -
  obtain q where q: "tp_jqueue s = Some q" "jq_inv q" "waiting s = jq_contents q"
    "\<And>x. p = Some x \<Longrightarrow> is_ok (do_job q (Some x))"
    using worker_queue [OF assms(1,2)] assms(3) by auto
  let ?s = "goto i LoopTest (s\<lparr>tp_calls := tp_calls s @ hand q (CallJob p)\<rparr>)"
  have "lock_ok ?s"
    by (rule lock_ok_move [where s = s and i = i and pc = LoopTest])
      (use pool_invD(1) [OF assms(1)] assms(2,3) in \<open>auto simp: goto_def lock_ok_def\<close>)
  moreover have "stop_ok ?s"
    by (rule stop_ok_move [where s = s and i = i and pc = LoopTest])
      (use pool_invD(2) [OF assms(1)] assms(2,3) q(1) in \<open>simp_all add: goto_def\<close>)
  moreover have "jobs_ok room js ?s"
    by (rule jobs_ok_move [OF pool_invD(3) [OF assms(1)] assms(2) q(1), where pc = LoopTest and q' = q])
      (simp_all add: goto_def q(1,2) assms(3) hand_def)
  moreover have "wake_ok ?s"
    by (rule wake_ok_move [where s = s and i = i and pc = LoopTest])
      (use pool_invD(4) [OF assms(1)] assms(2) in \<open>simp_all add: goto_def waiting_def\<close>)
  ultimately have "pool_inv room js ?s"
    by (simp add: pool_inv_def)
  moreover have "thread_function i s = Some (Inr ?s)"
  proof (cases p)
    case None
    then show ?thesis
      using assms(2,3) by (simp add: thread_function_def hand_def goto_def)
  next
    case (Some x)
    with q(4) obtain c where "do_job q (Some x) = Inr c"
      by (auto simp: is_ok_iff)
    then show ?thesis
      using assms(2,3) q(1) Some by (simp add: thread_function_def hand_def on_queue_def)
  qed
  ultimately show ?thesis
    by blast
qed

text \<open>A worker never faults and keeps the invariant.\<close>

lemma worker_inv:
  assumes "pool_inv room js s" "thread_function i s = Some r"
  shows "\<exists>s'. r = Inr s' \<and> pool_inv room js s' \<and> tp_destroy s' = tp_destroy s
    \<and> tp_active s' = tp_active s \<and> tp_owed s' = tp_owed s \<and> tp_threads_cnt s' = tp_threads_cnt s
    \<and> (\<exists>pc. tp_threads s' = (tp_threads s)[i := pc])"
proof -
  have i: "i < length (tp_threads s)"
    using assms(2) by (simp add: thread_function_def split: if_splits)
  have m: "in_section (tp_threads s ! i) = (tp_mutex s = Some i)"
    using pool_invD(1) [OF assms(1)] i by (simp add: lock_ok_def)
  note move = quiet_move [OF assms(1) i]
  have i': "\<not> length (tp_threads s) \<le> i"
    using i by simp
  note eqs = i i' goto_def take_mutex_def thread_function_def
  show ?thesis
  proof (cases "tp_threads s ! i")
    case LoopTest
    let ?pc = "if tp_active s then Lock else Finished"
    have "pool_inv room js (goto i ?pc s)"
      using move [of ?pc "tp_mutex s"] LoopTest m by (simp add: goto_mutex_same)
    moreover have "r = Inr (goto i ?pc s)"
      using assms(2) LoopTest i by (simp add: thread_function_def)
    ultimately show ?thesis
      by (auto simp: goto_def)
  next
    case Lock
    then have "pool_inv room js (goto i WaitTest (s\<lparr>tp_mutex := Some i\<rparr>))" if "tp_mutex s = None"
      using move [of WaitTest "Some i"] that by simp
    then show ?thesis
      using assms(2) Lock by (auto simp: eqs split: if_splits)
  next
    case WaitTest
    obtain q where q: "tp_jqueue s = Some q" "jq_inv q" "waiting s = jq_contents q"
      using worker_queue [OF assms(1) i] WaitTest by auto
    let ?pc = "if jqueue_is_empty q \<and> tp_active s then WaitCall else Take"
    have "jqueue_is_empty q = (waiting s = [])" "tp_mutex s = Some i"
      using jqueue_is_empty_iff [OF q(2)] q(3) m WaitTest by simp_all
    then have "pool_inv room js (goto i ?pc (s\<lparr>tp_mutex := tp_mutex s\<rparr>))"
      by (intro move) (auto simp: WaitTest)
    then have "pool_inv room js (goto i ?pc s)"
      by simp
    moreover have "r = Inr (goto i ?pc s)"
      using assms(2) WaitTest q(1) i by (simp add: thread_function_def on_queue_def)
    ultimately show ?thesis
      by (auto simp: goto_def)
  next
    case Woken
    then have "pool_inv room js (goto i WaitTest (s\<lparr>tp_mutex := Some i\<rparr>))" if "tp_mutex s = None"
      using move [of WaitTest "Some i"] that by simp
    then show ?thesis
      using assms(2) Woken by (auto simp: eqs split: if_splits)
  next
    case Take
    from take_move [OF assms(1) i Take] assms(2) show ?thesis
      by (auto simp: goto_def)
  next
    case (Unlock p)
    then have "pool_inv room js (goto i (CallJob p) (s\<lparr>tp_mutex := None\<rparr>))"
      using move [of "CallJob p" None] m by simp
    then show ?thesis
      using assms(2) Unlock by (auto simp: eqs)
  next
    case (CallJob p)
    from call_move [OF assms(1) i CallJob] assms(2) show ?thesis
      by (auto simp: goto_def)
  next
    case WaitCall
    then have "tp_active s \<longrightarrow> waiting s = []"
      using pool_invD(4) [OF assms(1)] nth_mem [OF i] by (auto simp: wake_ok_def)
    then have "pool_inv room js (goto i Asleep (s\<lparr>tp_mutex := None\<rparr>))"
      using move [of Asleep None] WaitCall m by simp
    then show ?thesis
      using assms(2) WaitCall by (auto simp: eqs)
  qed (use assms(2) i in \<open>simp_all add: thread_function_def\<close>)
qed

lemma cond_signal_cases:
  assumes "cond_signal w ts = Some ts'"
  obtains "ts' = ts" "Asleep \<notin> set ts"
  | i where "w = Some i" "i < length ts" "ts ! i = Asleep" "ts' = ts[i := Woken]"
  using assms by (auto simp: cond_signal_def list_ex_iff split: option.splits if_splits)

lemma jobs_ok_cong:
  assumes "tp_threads s' = tp_threads s" "tp_jqueue s' = tp_jqueue s" "tp_calls s' = tp_calls s"
  shows "jobs_ok room js s' = jobs_ok room js s"
  using assms by (cases "tp_jqueue s") (simp_all add: jobs_ok_def in_hand_def)

lemma signal_inv:
  assumes "pool_inv room js s" "cond_signal w (tp_threads s) = Some ts"
  shows "pool_inv room js (s\<lparr>tp_threads := ts, tp_owed := n\<rparr>)"
proof -
  have inv: "pool_inv room js (s\<lparr>tp_threads := ts\<rparr>) \<and> (ts = [] \<or> (\<exists>pc \<in> set ts. pc \<noteq> Asleep))"
  proof (rule cond_signal_cases [OF assms(2)])
    assume ts: "ts = tp_threads s" "Asleep \<notin> set (tp_threads s)"
    then have "tp_threads s = [] \<or> (\<exists>pc \<in> set (tp_threads s). pc \<noteq> Asleep)"
      by (metis hd_in_set)
    then show ?thesis
      using assms(1) by (simp add: ts(1))
  next
    fix i
    assume i: "i < length (tp_threads s)" "tp_threads s ! i = Asleep" "ts = (tp_threads s)[i := Woken]"
    have "in_section (tp_threads s ! i) = (tp_mutex s = Some i)"
      using pool_invD(1) [OF assms(1)] i(1) by (simp add: lock_ok_def)
    then have "pool_inv room js (goto i Woken (s\<lparr>tp_mutex := tp_mutex s\<rparr>))"
      using i(1,2) by (intro quiet_move [OF assms(1)]) auto
    moreover have "Woken \<in> set ts"
      unfolding i(3) using i(1) by (rule set_update_memI)
    ultimately show ?thesis
      by (auto simp: goto_def i(3))
  qed
  let ?s = "s\<lparr>tp_threads := ts, tp_owed := n\<rparr>"
  have "jobs_ok room js ?s"
    using inv jobs_ok_cong [of ?s "s\<lparr>tp_threads := ts\<rparr>"] by (simp add: pool_inv_def)
  then show ?thesis
    using inv by (auto simp: pool_inv_def lock_ok_def stop_ok_def wake_ok_def waiting_def)
qed

lemma add_inv:
  assumes "pool_inv room js s" "add_job f x s = Some r" "tp_jqueue s \<noteq> None" "length js < room"
  shows "\<exists>q'. r = Inr (s\<lparr>tp_jqueue := Some q', tp_owed := tp_owed s + 1\<rparr>)
    \<and> pool_inv room (js @ [(f, x)]) (s\<lparr>tp_jqueue := Some q', tp_owed := tp_owed s + 1\<rparr>)"
proof -
  obtain q where q: "tp_jqueue s = Some q"
    using assms(3) by blast
  have jobs: "jq_inv q" "jq_room q + length js = room"
    "\<forall>pc \<in> set (tp_threads s). pc_job pc \<noteq> None \<longrightarrow> is_ok (do_job q (pc_job pc))"
    "mset (tp_calls s) + mset (in_hand s) + mset (jq_contents q) = mset js"
    "\<exists>ys. js = ys @ jq_contents q"
    using pool_invD(3) [OF assms(1)] by (simp_all add: jobs_ok_def q)
  have "0 < jq_room q"
    using jobs(2) assms(4) by linarith
  from jqueue_add_job_spec [OF jobs(1) this, of f x] obtain q' where
    q': "jqueue_add_job f x q = Inr q'" "jq_inv q'" "jq_contents q' = jq_contents q @ [(f, x)]"
      "jq_room q' = jq_room q - 1"
    by blast
  let ?s = "s\<lparr>tp_jqueue := Some q', tp_owed := tp_owed s + 1\<rparr>"
  have m: "tp_mutex s = None"
    using assms(2) by (simp add: add_job_def split: if_splits)
  have same: "\<forall>pc \<in> set (tp_threads s). pc_job pc \<noteq> None \<longrightarrow> do_job q' (pc_job pc) = do_job q (pc_job pc)"
    using jobs(3) do_job_add [OF q'(1)] by blast
  then have "map (hand q') (tp_threads s) = map (hand q) (tp_threads s)"
    by (auto simp: hand_def)
  from arg_cong [OF this, of concat] have "in_hand ?s = in_hand s"
    by (simp add: in_hand_def q)
  then have "jobs_ok room (js @ [(f, x)]) ?s"
    using jobs same q'(2-4) \<open>0 < jq_room q\<close> by (auto simp: jobs_ok_def)
  moreover have "lock_ok ?s" "stop_ok ?s"
    using pool_invD(1,2) [OF assms(1)] q
    by (simp_all add: lock_ok_def stop_ok_def)
  moreover have "Take \<notin> set (tp_threads s)" "WaitCall \<notin> set (tp_threads s)"
    using pool_invD(1) [OF assms(1)] m in_section_simps(2,3) by (auto simp: lock_ok_def in_set_conv_nth)
  then have "wake_ok ?s"
    by (simp add: wake_ok_def)
  ultimately have "pool_inv room (js @ [(f, x)]) ?s"
    by (simp add: pool_inv_def)
  then show ?thesis
    using assms(2) q m q'(1) by (auto simp: add_job_def on_queue_def)
qed

text \<open>The thread that destroys the pool.\<close>

lemma stop_update:
  assumes "pool_inv room js s" "tp_threads s' = tp_threads s" "tp_jqueue s' = tp_jqueue s"
    "tp_calls s' = tp_calls s" "tp_threads_cnt s' = tp_threads_cnt s" "tp_mutex s' = tp_mutex s"
    "\<not> tp_active s'" "stop_ok s'"
  shows "pool_inv room js s'"
  using assms jobs_ok_cong [OF assms(2-4)] by (simp add: pool_inv_def lock_ok_def wake_ok_def)

lemma destroy_inv:
  assumes "pool_inv room js s" "threadpool_destroy w s = Some r"
  shows "\<exists>s'. r = Inr s' \<and> pool_inv room js s'"
proof (cases "tp_destroy s")
  case Running
  then have "stop_ok (s\<lparr>tp_active := False, tp_destroy := Signalling 0\<rparr>)"
    using pool_invD(2) [OF assms(1)] by (simp add: stop_ok_def)
  then have "pool_inv room js (s\<lparr>tp_active := False, tp_destroy := Signalling 0\<rparr>)"
    by (intro stop_update [OF assms(1)]) simp_all
  then show ?thesis
    using assms(2) Running by (auto simp: threadpool_destroy_def)
next
  case (Signalling k)
  have inactive: "\<not> tp_active s" and q: "tp_jqueue s \<noteq> None"
    using pool_invD(2) [OF assms(1)] Signalling by (auto simp: stop_ok_def)
  show ?thesis
  proof (cases "k < tp_threads_cnt s")
    case True
    then obtain ts where ts: "cond_signal w (tp_threads s) = Some ts"
      "r = Inr (s\<lparr>tp_threads := ts, tp_destroy := Signalling (k + 1)\<rparr>)"
      using assms(2) Signalling by (auto simp: threadpool_destroy_def)
    have "pool_inv room js (s\<lparr>tp_threads := ts, tp_owed := tp_owed s\<rparr>)"
      by (rule signal_inv [OF assms(1) ts(1)])
    then have "pool_inv room js (s\<lparr>tp_threads := ts\<rparr>)"
      by simp
    then have "pool_inv room js (s\<lparr>tp_threads := ts, tp_destroy := Signalling (k + 1)\<rparr>)"
      by (rule stop_update) (simp_all add: inactive q stop_ok_def)
    then show ?thesis
      using ts(2) by blast
  next
    case False
    have "pool_inv room js (s\<lparr>tp_destroy := Joining 0\<rparr>)"
      by (rule stop_update [OF assms(1)]) (simp_all add: inactive q stop_ok_def)
    then show ?thesis
      using assms(2) Signalling False by (auto simp: threadpool_destroy_def)
  qed
next
  case (Joining k)
  have inv: "\<not> tp_active s" "k \<le> length (tp_threads s)" "\<forall>i < k. tp_threads s ! i = Finished"
    "tp_threads_cnt s = length (tp_threads s)"
    using pool_invD(1,2) [OF assms(1)] Joining by (auto simp: stop_ok_def lock_ok_def)
  obtain q where q: "tp_jqueue s = Some q"
    using pool_invD(2) [OF assms(1)] Joining by (auto simp: stop_ok_def)
  show ?thesis
  proof (cases "k < tp_threads_cnt s")
    case True
    then have r: "tp_threads s ! k = Finished" "r = Inr (s\<lparr>tp_destroy := Joining (k + 1)\<rparr>)"
      using assms(2) Joining by (auto simp: threadpool_destroy_def split: if_splits)
    have "stop_ok (s\<lparr>tp_destroy := Joining (k + 1)\<rparr>)"
      using inv r(1) True q by (auto simp: stop_ok_def less_Suc_eq)
    then have "pool_inv room js (s\<lparr>tp_destroy := Joining (k + 1)\<rparr>)"
      by (intro stop_update [OF assms(1)]) (simp_all add: inv)
    with r(2) show ?thesis
      by blast
  next
    case False
    then have k: "k = length (tp_threads s)"
      using inv by simp
    obtain q' where "jqueue_destroy q = Inr q'"
      using jqueue_destroy_ok [of q] pool_invD(3) [OF assms(1)] by (auto simp: jobs_ok_def q)
    then have "r = Inr (s\<lparr>tp_jqueue := None, tp_destroy := Gone\<rparr>)"
      using assms(2) Joining k inv(4) q
      by (auto simp: threadpool_destroy_def on_queue_def split: if_splits)
    moreover have "mset (tp_calls s) \<subseteq># mset js"
    proof -
      have "mset (tp_calls s) + (mset (in_hand s) + mset (jq_contents q)) = mset js"
        using pool_invD(3) [OF assms(1)] by (simp add: jobs_ok_def q add.assoc)
      then show ?thesis
        by (metis mset_subset_eq_add_left)
    qed
    then have "pool_inv room js (s\<lparr>tp_jqueue := None, tp_destroy := Gone\<rparr>)"
      using assms(1) inv k by (auto simp: pool_inv_def lock_ok_def stop_ok_def jobs_ok_def wake_ok_def)
    ultimately show ?thesis
      by blast
  qed
next
  case Gone
  then show ?thesis
    using assms(2) by (simp add: threadpool_destroy_def)
qed

section \<open>Schedules\<close>

text \<open>What the threads of the server do with the pool, and the thread that destroys it.\<close>

definition is_server :: "('f, 'a) act \<Rightarrow> bool" where
  "is_server a = (case a of AddJob f x \<Rightarrow> True | SignalJob w \<Rightarrow> True | _ \<Rightarrow> False)"

definition is_destroy :: "('f, 'a) act \<Rightarrow> bool" where
  "is_destroy a = (case a of Destroy w \<Rightarrow> True | _ \<Rightarrow> False)"

lemma added_append [simp]: "added (as @ bs) = added as @ added bs"
  by (induction as rule: added.induct) simp_all

lemma added_not_server: "list_all (\<lambda>a. \<not> is_server a) as \<Longrightarrow> added as = []"
  by (induction as rule: added.induct) (simp_all add: is_server_def)

lemma pool_act_inv:
  assumes "pool_inv room js s" "pool_act a s = Some r" "is_server a \<longrightarrow> tp_jqueue s \<noteq> None"
    "length (js @ added [a]) \<le> room"
  shows "\<exists>s'. r = Inr s' \<and> pool_inv room (js @ added [a]) s'
    \<and> (\<not> is_destroy a \<longrightarrow> tp_destroy s' = tp_destroy s)"
proof (cases a)
  case (Work i)
  then show ?thesis
    using worker_inv [OF assms(1), of i r] assms(2) by auto
next
  case (AddJob f x)
  then show ?thesis
    using add_inv [OF assms(1), of f x r] assms(2-4) by (auto simp: is_server_def)
next
  case (SignalJob w)
  then obtain q ts where q: "tp_jqueue s = Some q" "cond_signal w (tp_threads s) = Some ts"
    "r = Inr (s\<lparr>tp_threads := ts, tp_owed := tp_owed s - 1\<rparr>)"
    using assms(2,3) by (auto simp: is_server_def signal_job_def on_queue_def split: if_splits)
  then show ?thesis
    using signal_inv [OF assms(1) q(2), of "tp_owed s - 1"] SignalJob by simp
next
  case (Spurious i)
  then obtain ts where ts: "cond_signal (Some i) (tp_threads s) = Some ts" "r = Inr (s\<lparr>tp_threads := ts\<rparr>)"
    using assms(2) by (auto simp: spurious_wakeup_def)
  have "pool_inv room js (s\<lparr>tp_threads := ts, tp_owed := tp_owed s\<rparr>)"
    by (rule signal_inv [OF assms(1) ts(1)])
  then show ?thesis
    using ts(2) Spurious by simp
next
  case (Destroy w)
  then show ?thesis
    using destroy_inv [OF assms(1), of w r] assms(2) by (auto simp: is_destroy_def)
qed

text \<open>Schedules before the pool is destroyed, and schedules without the threads of the server.\<close>

lemma run_inv:
  assumes "pool_inv room js s" "pool_run as s = Some r" "length (js @ added as) \<le> room"
    "list_all (\<lambda>a. \<not> is_destroy a) as \<and> tp_destroy s = Running \<or> list_all (\<lambda>a. \<not> is_server a) as"
  shows "\<exists>s'. r = Inr s' \<and> pool_inv room (js @ added as) s'
    \<and> (list_all (\<lambda>a. \<not> is_destroy a) as \<longrightarrow> tp_destroy s' = tp_destroy s)"
  using assms
proof (induction as arbitrary: js s)
  case Nil
  then show ?case by auto
next
  case (Cons a as)
  obtain r1 where r1: "pool_act a s = Some r1"
    using Cons.prems(2) by (auto split: option.splits)
  have "is_server a \<longrightarrow> tp_jqueue s \<noteq> None"
    using Cons.prems(4) pool_invD(2) [OF Cons.prems(1)] by (auto simp: stop_ok_def)
  moreover have ad: "added (a # as) = added [a] @ added as"
    using added_append [of "[a]" as] by simp
  ultimately obtain s1 where s1: "r1 = Inr s1" "pool_inv room (js @ added [a]) s1"
    "\<not> is_destroy a \<longrightarrow> tp_destroy s1 = tp_destroy s"
    using pool_act_inv [OF Cons.prems(1) r1] Cons.prems(3) by auto
  then have "\<exists>s'. r = Inr s' \<and> pool_inv room ((js @ added [a]) @ added as) s'
      \<and> (list_all (\<lambda>a. \<not> is_destroy a) as \<longrightarrow> tp_destroy s' = tp_destroy s1)"
    using Cons.prems r1 ad by (intro Cons.IH) auto
  then show ?case
    using ad s1(3) by auto
qed

lemma act_cnt: "pool_act a s = Some (Inr s') \<Longrightarrow> tp_threads_cnt s' = tp_threads_cnt s"
proof (cases a)
  case (Work i)
  then show "pool_act a s = Some (Inr s') \<Longrightarrow> ?thesis"
    by (auto simp: thread_function_def take_mutex_def goto_def on_queue_def res_simps
      split: if_splits worker_pc.splits option.splits)
next
  case (Destroy w)
  then show "pool_act a s = Some (Inr s') \<Longrightarrow> ?thesis"
    by (auto simp: threadpool_destroy_def on_queue_def res_simps
      split: if_splits destroy_pc.splits option.splits)
qed (auto simp: add_job_def signal_job_def spurious_wakeup_def on_queue_def res_simps
  split: if_splits option.splits)

lemma run_cnt: "pool_run as s = Some (Inr s') \<Longrightarrow> tp_threads_cnt s' = tp_threads_cnt s"
  by (induction as arbitrary: s) (auto dest: act_cnt split: option.splits sum.splits)

lemma create_inv:
  assumes "threadpool_create n quota = Inr (Some s)"
  shows "pool_inv ((quota - 3) div 2) [] s" "tp_destroy s = Running" "tp_owed s = 0"
    "tp_threads s = replicate n LoopTest" "tp_threads_cnt s = n"
proof -
  have s: "tp_threads s = replicate n LoopTest" "tp_jqueue s = Some (jqueue_create (quota - 3))"
    "tp_active s" "tp_mutex s = None" "tp_threads_cnt s = n" "tp_owed s = 0" "tp_destroy s = Running"
    "tp_calls s = []"
    using assms by (auto simp: threadpool_create_def split: if_splits)
  have "in_hand s = []" "waiting s = []"
    by (simp_all add: in_hand_def waiting_def s jqueue_create_inv hand_def)
  then show "pool_inv ((quota - 3) div 2) [] s"
    using s by (simp add: pool_inv_def lock_ok_def stop_ok_def jobs_ok_def wake_ok_def jqueue_create_inv)
qed (use assms in \<open>auto simp: threadpool_create_def split: if_splits\<close>)

text \<open>The pool of the server, with room for three jobs.\<close>

definition sample_pool :: "(string, nat) threadpool_t" where
  "sample_pool =
     \<lparr>tp_threads = [LoopTest, LoopTest], tp_jqueue = Some (jqueue_create 6), tp_active = True,
      tp_mutex = None, tp_threads_cnt = 2, tp_owed = 0, tp_destroy = Running, tp_calls = []\<rparr>"

definition sample_schedule :: "(string, nat) act list" where
  "sample_schedule = [AddJob ''f'' 1, AddJob ''g'' 2, Work 1, Work 1, Work 1, Work 0, Work 1]"

lemma sample_create: "threadpool_create 2 9 = Inr (Some sample_pool)"
  by (simp add: threadpool_create_def sample_pool_def numeral_2_eq_2)

lemma sample_schedule_simps:
  "added sample_schedule = [(''f'', 1), (''g'', 2)]"
  "list_all (\<lambda>a. \<not> is_destroy a) sample_schedule"
  by (simp_all add: sample_schedule_def is_destroy_def)

lemma pool_sample_run: "\<exists>s. pool_run sample_schedule sample_pool = Some (Inr s)
    \<and> tp_threads s = [Lock, Unlock (Some 0)]"
  by (simp add: sample_pool_def sample_schedule_def thread_function_def take_mutex_def on_queue_def
    goto_def add_job_def jqueue_create_def jqueue_add_job_def set_next_def alloc_def jqueue_get_job_def
    jqueue_is_empty_def Let_def load_def store_def free_def)

section \<open>Properties\<close>

text \<open>
  C7. Until the pool is destroyed no schedule of its workers and of threads that add jobs
  faults, two workers are never between lock and unlock at once, and the jobs that were
  called or are in a worker's hand are exactly the oldest ones added, each once; the others
  wait in the order in which they were added.
\<close>

theorem threadpool_once:
  assumes "threadpool_create n quota = Inr (Some s0)" "list_all (\<lambda>a. \<not> is_destroy a) as"
    "pool_run as s0 = Some r" "length (added as) \<le> (quota - 3) div 2"
  shows "\<exists>s taken. r = Inr s \<and> added as = taken @ waiting s
    \<and> mset (tp_calls s) + mset (in_hand s) = mset taken
    \<and> (\<forall>i j. i < n \<longrightarrow> j < n \<longrightarrow> in_section (tp_threads s ! i) \<longrightarrow> in_section (tp_threads s ! j) \<longrightarrow> i = j)"
proof -
  note c = create_inv [OF assms(1)]
  obtain s where s: "r = Inr s" "pool_inv ((quota - 3) div 2) (added as) s" "tp_destroy s = Running"
    using run_inv [OF c(1) assms(3)] assms(2,4) c(2) by auto
  obtain q where q: "tp_jqueue s = Some q"
    using pool_invD(2) [OF s(2)] s(3) by (auto simp: stop_ok_def)
  obtain ys where ys: "added as = ys @ waiting s"
    "mset (tp_calls s) + mset (in_hand s) + mset (waiting s) = mset (added as)"
    using pool_invD(3) [OF s(2)] by (auto simp: jobs_ok_def q waiting_def)
  then have "mset (tp_calls s) + mset (in_hand s) = mset ys"
    by simp
  moreover have "length (tp_threads s) = n"
    using run_cnt [of as s0 s] pool_invD(1) [OF s(2)] assms(3) s(1) c(5) by (simp add: lock_ok_def)
  then have "\<forall>i j. i < n \<longrightarrow> j < n \<longrightarrow> in_section (tp_threads s ! i) \<longrightarrow> in_section (tp_threads s ! j) \<longrightarrow> i = j"
    using pool_invD(1) [OF s(2)] by (auto simp: lock_ok_def)
  ultimately show ?thesis
    using s(1) ys(1) by blast
qed

lemma threadpool_once_witness:
  "\<exists>s taken. pool_run sample_schedule sample_pool = Some (Inr s)
    \<and> [(''f'', 1), (''g'', 2)] = taken @ waiting s
    \<and> mset (tp_calls s) + mset (in_hand s) = mset taken
    \<and> (\<forall>i j. i < 2 \<longrightarrow> j < 2 \<longrightarrow> in_section (tp_threads s ! i) \<longrightarrow> in_section (tp_threads s ! j) \<longrightarrow> i = j)"
proof -
  obtain s where s: "pool_run sample_schedule sample_pool = Some (Inr s)"
    using pool_sample_run by blast
  show ?thesis
    using threadpool_once [OF sample_create sample_schedule_simps(2) s] s
    by (simp add: sample_schedule_simps(1))
qed

end
