(* ===== verification/ThreadPoolRun.thy ===== *)
theory ThreadPoolRun
  imports ThreadPool
begin

text \<open>
  That the thread pool gets on: a pool to which nobody adds jobs calls all that it has and
  comes to rest, and a pool that is destroyed is freed unless a worker was just about to
  wait for the condition variable, which may keep \<open>threadpool_destroy\<close> from returning.
\<close>

section \<open>Progress\<close>

text \<open>
  How far a worker can still go without another job, while the pool is active and once it
  is not; a job that waits and a signal count more than what they set off.
\<close>

definition drain_weight :: "worker_pc \<Rightarrow> nat" where
  "drain_weight pc = (case pc of Unlock job \<Rightarrow> 6 | CallJob job \<Rightarrow> 5 | LoopTest \<Rightarrow> 4 | Lock \<Rightarrow> 3
     | Woken \<Rightarrow> 3 | WaitTest \<Rightarrow> 2 | WaitCall \<Rightarrow> 1 | Take \<Rightarrow> 1 | Asleep \<Rightarrow> 0 | Finished \<Rightarrow> 0)"

definition stop_weight :: "worker_pc \<Rightarrow> nat" where
  "stop_weight pc = (case pc of WaitCall \<Rightarrow> 7 | Woken \<Rightarrow> 6 | Lock \<Rightarrow> 6 | WaitTest \<Rightarrow> 5 | Take \<Rightarrow> 4
     | Unlock job \<Rightarrow> 3 | CallJob job \<Rightarrow> 2 | LoopTest \<Rightarrow> 1 | Finished \<Rightarrow> 0 | Asleep \<Rightarrow> 0)"

definition destroy_weight :: "nat \<Rightarrow> destroy_pc \<Rightarrow> nat" where
  "destroy_weight n d = (case d of Running \<Rightarrow> 8 * n + 4 | Signalling k \<Rightarrow> 7 * (n - k) + n + 3
     | Joining k \<Rightarrow> n - k + 2 | Gone \<Rightarrow> 0)"

definition drain_measure :: "('f, 'a) threadpool_t \<Rightarrow> nat" where
  "drain_measure s =
     sum_list (map drain_weight (tp_threads s)) + 6 * length (waiting s) + 4 * tp_owed s"

definition stop_measure :: "('f, 'a) threadpool_t \<Rightarrow> nat" where
  "stop_measure s =
     sum_list (map stop_weight (tp_threads s)) + destroy_weight (tp_threads_cnt s) (tp_destroy s)"

lemma sum_list_map_update:
  fixes w :: "'b \<Rightarrow> nat"
  shows "i < length xs \<Longrightarrow> sum_list (map w (xs[i := y])) + w (xs ! i) = sum_list (map w xs) + w y"
  by (induction xs arbitrary: i) (auto split: nat.splits)

lemma worker_progress:
  assumes "pool_inv room js s" "thread_function i s = Some (Inr s')"
  obtains pc where "i < length (tp_threads s)" "tp_threads s' = (tp_threads s)[i := pc]"
    "tp_active s \<Longrightarrow> drain_weight pc + 6 * length (waiting s')
       < drain_weight (tp_threads s ! i) + 6 * length (waiting s)"
    "\<not> tp_active s \<Longrightarrow> stop_weight pc < stop_weight (tp_threads s ! i)"
    "\<not> tp_active s \<Longrightarrow> pc \<noteq> WaitCall" "pc = Asleep \<Longrightarrow> tp_threads s ! i = WaitCall"
proof -
  have i: "i < length (tp_threads s)" "\<not> length (tp_threads s) \<le> i"
    using assms(2) by (simp_all add: thread_function_def split: if_splits)
  note eqs = i goto_def take_mutex_def thread_function_def waiting_def
  note weights = drain_weight_def stop_weight_def
  show thesis
  proof (cases "tp_threads s ! i")
    case LoopTest
    with assms(2) that [of "if tp_active s then Lock else Finished"] show thesis
      by (auto simp: eqs weights split: if_splits)
  next
    case WaitTest
    then obtain q where q: "tp_jqueue s = Some q"
      using worker_queue [OF assms(1) i(1)] by auto
    let ?pc = "if jqueue_is_empty q \<and> tp_active s then WaitCall else Take"
    have w: "drain_weight ?pc = 1" "\<not> tp_active s \<Longrightarrow> stop_weight ?pc = 4 \<and> ?pc \<noteq> WaitCall"
      "?pc \<noteq> Asleep"
      by (simp_all add: weights)
    have s': "s' = goto i ?pc s"
      using assms(2) WaitTest q i by (simp add: thread_function_def on_queue_def)
    show thesis
    proof (rule that [of ?pc])
      show "drain_weight ?pc + 6 * length (waiting s')
          < drain_weight (tp_threads s ! i) + 6 * length (waiting s)"
        using w(1) WaitTest by (simp add: s' goto_def waiting_def) (simp add: weights)
    qed (use w WaitTest i in \<open>simp_all add: s' goto_def\<close>, simp add: weights)
  next
    case Take
    then obtain p q' where t: "s' = goto i (Unlock p) (s\<lparr>tp_jqueue := Some q'\<rparr>)"
      "waiting s' = tl (waiting s)"
      using take_move [OF assms(1) i(1)] assms(2) by auto
    moreover have "tp_active s \<Longrightarrow> waiting s \<noteq> []"
      using pool_invD(4) [OF assms(1)] Take nth_mem [OF i(1)] by (auto simp: wake_ok_def)
    ultimately show thesis
      using that [of "Unlock p"] Take i by (cases "waiting s") (auto simp: weights goto_def)
  next
    case (CallJob p)
    then obtain cs where "s' = goto i LoopTest (s\<lparr>tp_calls := tp_calls s @ cs\<rparr>)"
      using call_move [OF assms(1) i(1)] assms(2) by auto
    then show thesis
      using that [of LoopTest] CallJob i by (auto simp: weights goto_def waiting_def)
  next
    case Lock
    with assms(2) that [of WaitTest] show thesis
      by (auto simp: eqs weights split: if_splits)
  next
    case Woken
    with assms(2) that [of WaitTest] show thesis
      by (auto simp: eqs weights split: if_splits)
  next
    case (Unlock p)
    with assms(2) that [of "CallJob p"] show thesis
      by (auto simp: eqs weights)
  next
    case WaitCall
    with assms(2) that [of Asleep] show thesis
      by (auto simp: eqs weights)
  qed (use assms(2) i in \<open>simp_all add: thread_function_def\<close>)
qed

text \<open>When no worker can go on all of them are asleep or have returned.\<close>

lemma workers_stuck:
  assumes "pool_inv room js s" "\<forall>i. thread_function i s = None" "pc \<in> set (tp_threads s)"
  shows "pc = Asleep \<or> pc = Finished" and "tp_mutex s = None"
proof -
  have lock: "lock_ok s"
    using pool_invD(1) [OF assms(1)] .
  show m: "tp_mutex s = None"
  proof (rule ccontr)
    assume "tp_mutex s \<noteq> None"
    then obtain j where "j < length (tp_threads s)" "in_section (tp_threads s ! j)"
      using lock by (auto simp: lock_ok_def)
    then have "thread_function j s \<noteq> None"
      by (auto simp: thread_function_def in_section_def split: worker_pc.splits)
    with assms(2) show False
      by simp
  qed
  obtain i where "i < length (tp_threads s)" "tp_threads s ! i = pc"
    using assms(3) by (auto simp: in_set_conv_nth)
  moreover have "thread_function i s = None"
    using assms(2) by blast
  ultimately show "pc = Asleep \<or> pc = Finished"
    using m by (cases pc) (auto simp: thread_function_def take_mutex_def split: if_splits)
qed

lemma in_hand_stuck:
  "\<forall>pc \<in> set (tp_threads s). pc = Asleep \<or> pc = Finished \<Longrightarrow> in_hand s = []"
  by (cases "tp_jqueue s") (auto simp: in_hand_def hand_def)

lemma cond_signal_possible: "\<exists>w ts'. cond_signal w ts = Some ts'"
proof (cases "Asleep \<in> set ts")
  case True
  then obtain i where "i < length ts" "ts ! i = Asleep"
    by (auto simp: in_set_conv_nth)
  then have "cond_signal (Some i) ts = Some (ts[i := Woken])"
    by (simp add: cond_signal_def)
  then show ?thesis by blast
next
  case False
  then have "cond_signal None ts = Some ts"
    by (auto simp: cond_signal_def list_ex_iff)
  then show ?thesis by blast
qed

text \<open>What goes on while nobody adds a job: the workers, and the signals still owed.\<close>

definition is_internal :: "('f, 'a) act \<Rightarrow> bool" where
  "is_internal a = (case a of Work i \<Rightarrow> True | SignalJob w \<Rightarrow> True | _ \<Rightarrow> False)"

lemma cond_signal_drain:
  "cond_signal w ts = Some ts' \<Longrightarrow> sum_list (map drain_weight ts') \<le> sum_list (map drain_weight ts) + 3"
  by (erule cond_signal_cases)
    (use sum_list_map_update [of _ ts drain_weight Woken] in \<open>fastforce simp: drain_weight_def\<close>)+

lemma drain_act:
  assumes "pool_inv room js s" "tp_active s" "pool_act a s = Some r" "is_internal a"
  shows "\<exists>s'. r = Inr s' \<and> pool_inv room js s' \<and> tp_active s' \<and> drain_measure s' < drain_measure s
    \<and> length (tp_threads s') = length (tp_threads s)"
proof (cases a)
  case (Work i)
  then obtain s' pc where s': "r = Inr s'" "pool_inv room js s'" "tp_active s' = tp_active s"
    "tp_owed s' = tp_owed s" "tp_threads s' = (tp_threads s)[i := pc]"
    using worker_inv [OF assms(1), of i r] assms(3) by auto
  have t: "thread_function i s = Some (Inr s')"
    using assms(3) Work s'(1) by simp
  obtain pc' where pc': "i < length (tp_threads s)" "tp_threads s' = (tp_threads s)[i := pc']"
    "drain_weight pc' + 6 * length (waiting s') < drain_weight (tp_threads s ! i) + 6 * length (waiting s)"
    using assms(2) by (rule_tac worker_progress [OF assms(1) t]) blast
  then have "drain_measure s' < drain_measure s"
    using sum_list_map_update [OF pc'(1), of drain_weight pc'] s'(4) by (simp add: drain_measure_def)
  then show ?thesis
    using s' assms(2) by simp
next
  case (SignalJob w)
  obtain q where q: "tp_jqueue s = Some q"
    using pool_invD(2) [OF assms(1)] assms(2) by (auto simp: stop_ok_def)
  then obtain ts where ts: "cond_signal w (tp_threads s) = Some ts" "0 < tp_owed s"
    "r = Inr (s\<lparr>tp_threads := ts, tp_owed := tp_owed s - 1\<rparr>)"
    using SignalJob assms(3) by (auto simp: signal_job_def on_queue_def split: if_splits)
  have "length ts = length (tp_threads s)"
    by (rule cond_signal_cases [OF ts(1)]) simp_all
  then show ?thesis
    using signal_inv [OF assms(1) ts(1), of "tp_owed s - 1"] cond_signal_drain [OF ts(1)] ts(2,3) assms(2)
    by (auto simp: drain_measure_def waiting_def)
qed (use assms(4) in \<open>simp_all add: is_internal_def\<close>)

lemma drain_run:
  assumes "pool_inv room js s" "tp_active s" "list_all is_internal as" "pool_run as s = Some r"
  shows "\<exists>s'. r = Inr s' \<and> pool_inv room js s' \<and> tp_active s'
    \<and> length as + drain_measure s' \<le> drain_measure s \<and> length (tp_threads s') = length (tp_threads s)"
  using assms
proof (induction as arbitrary: s)
  case Nil
  then show ?case by auto
next
  case (Cons a as)
  obtain r1 where r1: "pool_act a s = Some r1"
    using Cons.prems(4) by (auto split: option.splits)
  then obtain s1 where s1: "r1 = Inr s1" "pool_inv room js s1" "tp_active s1"
    "drain_measure s1 < drain_measure s" "length (tp_threads s1) = length (tp_threads s)"
    using drain_act [OF Cons.prems(1,2) r1] Cons.prems(3) by auto
  moreover have "pool_run as s1 = Some r"
    using Cons.prems(4) r1 s1(1) by simp
  ultimately show ?case
    using Cons.IH [of s1] Cons.prems(3) by fastforce
qed

text \<open>A pool that cannot go on without another job has no job left.\<close>

lemma drained:
  assumes "pool_inv room js s" "tp_active s" "\<forall>a. is_internal a \<longrightarrow> pool_act a s = None"
    "tp_threads s \<noteq> []"
  shows "mset (tp_calls s) = mset js \<and> waiting s = []"
proof -
  have "thread_function i s = None" for i
    using assms(3) [rule_format, of "Work i"] by (simp add: is_internal_def)
  then have stuck: "\<forall>i. thread_function i s = None"
    by blast
  have fin: "Finished \<notin> set (tp_threads s)"
    using pool_invD(2) [OF assms(1)] assms(2) by (simp add: stop_ok_def)
  have asleep: "\<forall>pc \<in> set (tp_threads s). pc = Asleep"
    using workers_stuck(1) [OF assms(1) stuck] fin by blast
  obtain w ts where "cond_signal w (tp_threads s) = Some ts"
    using cond_signal_possible by blast
  moreover have "signal_job w s = None"
    using assms(3) [rule_format, of "SignalJob w"] by (simp add: is_internal_def)
  ultimately have "tp_owed s = 0"
    by (simp add: signal_job_def split: if_splits)
  then have w: "waiting s = []"
    using pool_invD(4) [OF assms(1)] assms(2,4) asleep by (auto simp: wake_ok_def)
  obtain q where "tp_jqueue s = Some q"
    using pool_invD(2) [OF assms(1)] assms(2) by (auto simp: stop_ok_def)
  then show ?thesis
    using pool_invD(3) [OF assms(1)] w in_hand_stuck [of s] asleep
    by (simp add: jobs_ok_def waiting_def)
qed

section \<open>Destruction\<close>

text \<open>
  No worker is about to go to sleep and there are at least as many signals to come as workers
  asleep.
\<close>

definition wakes_all :: "('f, 'a) threadpool_t \<Rightarrow> bool" where
  "wakes_all s \<longleftrightarrow> \<not> tp_active s \<and> WaitCall \<notin> set (tp_threads s)
     \<and> (\<forall>k. tp_destroy s = Signalling k \<longrightarrow>
          length (filter (\<lambda>pc. pc = Asleep) (tp_threads s)) + k \<le> tp_threads_cnt s)
     \<and> (\<forall>k. tp_destroy s = Joining k \<longrightarrow> Asleep \<notin> set (tp_threads s))"

text \<open>What goes on once the pool is being destroyed: the workers and the destroying thread.\<close>

definition is_closing :: "('f, 'a) act \<Rightarrow> bool" where
  "is_closing a = (case a of Work i \<Rightarrow> True | Destroy w \<Rightarrow> True | _ \<Rightarrow> False)"

lemma count_asleep_update:
  "i < length ts \<Longrightarrow> pc \<noteq> Asleep \<Longrightarrow>
    length (filter (\<lambda>pc. pc = Asleep) (ts[i := pc])) + (if ts ! i = Asleep then 1 else 0)
      = length (filter (\<lambda>pc. pc = Asleep) ts)"
proof (induction ts arbitrary: i)
  case (Cons c ts)
  then show ?case
    by (cases i) (auto dest: Cons.IH)
qed simp

lemma work_closing:
  assumes "pool_inv room js s" "wakes_all s" "thread_function i s = Some (Inr s')"
    "tp_destroy s' = tp_destroy s" "tp_active s' = tp_active s" "tp_threads_cnt s' = tp_threads_cnt s"
  shows "wakes_all s' \<and> stop_measure s' < stop_measure s"
proof -
  have inactive: "\<not> tp_active s" and wc: "WaitCall \<notin> set (tp_threads s)"
    using assms(2) by (simp_all add: wakes_all_def)
  obtain pc where pc: "i < length (tp_threads s)" "tp_threads s' = (tp_threads s)[i := pc]"
    "stop_weight pc < stop_weight (tp_threads s ! i)" "pc \<noteq> WaitCall"
    "pc = Asleep \<Longrightarrow> tp_threads s ! i = WaitCall"
    using inactive by (rule_tac worker_progress [OF assms(1,3)]) blast
  have na: "pc \<noteq> Asleep"
    using pc(1,5) wc nth_mem by force
  have "Asleep \<in> set (tp_threads s') \<Longrightarrow> Asleep \<in> set (tp_threads s)"
    using not_in_update [of Asleep "tp_threads s" pc i] na pc(2) by auto
  moreover have "WaitCall \<notin> set (tp_threads s')"
    using not_in_update [of WaitCall "tp_threads s" pc i] wc pc(2,4) by auto
  moreover have "length (filter (\<lambda>pc. pc = Asleep) (tp_threads s'))
      \<le> length (filter (\<lambda>pc. pc = Asleep) (tp_threads s))"
    using count_asleep_update [OF pc(1) na] pc(2) by simp
  ultimately have "wakes_all s'"
    using assms(2,4-6) by (fastforce simp: wakes_all_def)
  moreover have "stop_measure s' < stop_measure s"
    using sum_list_map_update [OF pc(1), of stop_weight pc] pc(2,3) assms(4,6)
    by (simp add: stop_measure_def)
  ultimately show ?thesis
    by blast
qed

lemma signal_closing:
  assumes "cond_signal w ts = Some ts'" "WaitCall \<notin> set ts" "length (filter (\<lambda>pc. pc = Asleep) ts) + k \<le> n"
    "k < n"
  shows "WaitCall \<notin> set ts' \<and> length (filter (\<lambda>pc. pc = Asleep) ts') + Suc k \<le> n
    \<and> sum_list (map stop_weight ts') \<le> sum_list (map stop_weight ts) + 6"
proof (rule cond_signal_cases [OF assms(1)])
  assume ts: "ts' = ts" "Asleep \<notin> set ts"
  then have "filter (\<lambda>pc. pc = Asleep) ts = []"
    by (auto simp: filter_empty_conv)
  then show ?thesis
    using assms(2,4) ts(1) by simp
next
  fix i
  assume i: "i < length ts" "ts ! i = Asleep" "ts' = ts[i := Woken]"
  then show ?thesis
    using assms(2,3) count_asleep_update [OF i(1), of Woken] sum_list_map_update [OF i(1), of stop_weight Woken]
      not_in_update [of WaitCall ts Woken i]
    by (auto simp: stop_weight_def)
qed

lemma destroy_closing:
  assumes "pool_inv room js s" "wakes_all s" "threadpool_destroy w s = Some (Inr s')"
  shows "wakes_all s' \<and> stop_measure s' < stop_measure s"
proof (cases "tp_destroy s")
  case Running
  then show ?thesis
    using pool_invD(2) [OF assms(1)] assms(2) by (simp add: stop_ok_def wakes_all_def)
next
  case (Signalling k)
  have wk: "\<not> tp_active s" "WaitCall \<notin> set (tp_threads s)"
    "length (filter (\<lambda>pc. pc = Asleep) (tp_threads s)) + k \<le> tp_threads_cnt s"
    using assms(2) Signalling by (simp_all add: wakes_all_def)
  show ?thesis
  proof (cases "k < tp_threads_cnt s")
    case True
    then obtain ts where ts: "cond_signal w (tp_threads s) = Some ts"
      "s' = s\<lparr>tp_threads := ts, tp_destroy := Signalling (k + 1)\<rparr>"
      using assms(3) Signalling by (auto simp: threadpool_destroy_def)
    obtain d where "tp_threads_cnt s = Suc (k + d)"
      using less_imp_Suc_add [OF True] by blast
    then show ?thesis
      using signal_closing [OF ts(1) wk(2,3) True] wk(1)
      by (simp add: ts(2) wakes_all_def stop_measure_def destroy_weight_def Signalling)
  next
    case False
    then have "length (filter (\<lambda>pc. pc = Asleep) (tp_threads s)) + k \<le> k"
      using wk(3) by linarith
    then have "filter (\<lambda>pc. pc = Asleep) (tp_threads s) = []"
      by simp
    then have "Asleep \<notin> set (tp_threads s)"
      by (auto simp: filter_empty_conv)
    moreover have "s' = s\<lparr>tp_destroy := Joining 0\<rparr>"
      using assms(3) Signalling False by (simp add: threadpool_destroy_def)
    ultimately show ?thesis
      using wk by (simp add: wakes_all_def stop_measure_def destroy_weight_def Signalling)
  qed
next
  case (Joining k)
  then show ?thesis
    using assms(2,3) by (auto simp: threadpool_destroy_def on_queue_def wakes_all_def stop_measure_def
      destroy_weight_def res_simps split: if_splits option.splits)
next
  case Gone
  then show ?thesis
    using assms(3) by (simp add: threadpool_destroy_def)
qed

lemma closing_act:
  assumes "pool_inv room js s" "wakes_all s" "pool_act a s = Some r" "is_closing a"
  shows "\<exists>s'. r = Inr s' \<and> pool_inv room js s' \<and> wakes_all s' \<and> stop_measure s' < stop_measure s"
proof (cases a)
  case (Work i)
  then obtain s' where s': "r = Inr s'" "pool_inv room js s'" "tp_destroy s' = tp_destroy s"
    "tp_active s' = tp_active s" "tp_threads_cnt s' = tp_threads_cnt s"
    using worker_inv [OF assms(1), of i r] assms(3) by auto
  with work_closing [OF assms(1,2), of i s'] assms(3) Work show ?thesis
    by simp
next
  case (Destroy w)
  then obtain s' where "r = Inr s'" "pool_inv room js s'"
    using destroy_inv [OF assms(1), of w r] assms(3) by auto
  with destroy_closing [OF assms(1,2), of w s'] assms(3) Destroy show ?thesis
    by simp
qed (use assms(4) in \<open>simp_all add: is_closing_def\<close>)

lemma closing_run:
  assumes "pool_inv room js s" "wakes_all s" "list_all is_closing as" "pool_run as s = Some r"
  shows "\<exists>s'. r = Inr s' \<and> pool_inv room js s' \<and> wakes_all s' \<and> length as + stop_measure s' \<le> stop_measure s"
  using assms
proof (induction as arbitrary: s)
  case Nil
  then show ?case by auto
next
  case (Cons a as)
  obtain r1 where r1: "pool_act a s = Some r1"
    using Cons.prems(4) by (auto split: option.splits)
  then obtain s1 where s1: "r1 = Inr s1" "pool_inv room js s1" "wakes_all s1" "stop_measure s1 < stop_measure s"
    using closing_act [OF Cons.prems(1,2) r1] Cons.prems(3) by auto
  moreover have "pool_run as s1 = Some r"
    using Cons.prems(4) r1 s1(1) by simp
  ultimately show ?case
    using Cons.IH [of s1] Cons.prems(3) by fastforce
qed

text \<open>When nothing can go on any more the pool is freed.\<close>

lemma closed:
  assumes "pool_inv room js s" "wakes_all s" "\<forall>a. is_closing a \<longrightarrow> pool_act a s = None"
  shows "tp_destroy s = Gone"
proof -
  have "thread_function i s = None" for i
    using assms(3) [rule_format, of "Work i"] by (simp add: is_closing_def)
  then have stuck: "\<forall>i. thread_function i s = None"
    by blast
  obtain w ts where w: "cond_signal w (tp_threads s) = Some ts"
    using cond_signal_possible by blast
  have d: "threadpool_destroy w s = None"
    using assms(3) [rule_format, of "Destroy w"] by (simp add: is_closing_def)
  then obtain k where k: "tp_destroy s = Gone \<or> tp_destroy s = Joining k"
    using w by (cases "tp_destroy s") (auto simp: threadpool_destroy_def split: if_splits)
  show ?thesis
  proof (rule ccontr)
    assume "tp_destroy s \<noteq> Gone"
    with k have j: "tp_destroy s = Joining k"
      by simp
    have cnt: "tp_threads_cnt s = length (tp_threads s)"
      using pool_invD(1) [OF assms(1)] by (simp add: lock_ok_def)
    show False
    proof (cases "k < length (tp_threads s)")
      case True
      then have "tp_threads s ! k = Asleep"
        using d j cnt workers_stuck(1) [OF assms(1) stuck nth_mem [OF True]]
        by (auto simp: threadpool_destroy_def split: if_splits)
      then show False
        using assms(2) j nth_mem [OF True] by (simp add: wakes_all_def)
    next
      case False
      have "tp_threads s = [] \<Longrightarrow> tp_mutex s = None"
        using pool_invD(1) [OF assms(1)] by (cases "tp_mutex s") (auto simp: lock_ok_def)
      then have "tp_mutex s = None"
        using workers_stuck(2) [OF assms(1) stuck, of "hd (tp_threads s)"] by fastforce
      then show False
        using d j cnt False by (simp add: threadpool_destroy_def)
    qed
  qed
qed

text \<open>From the beginning of the destruction on.\<close>

lemma destroy_run:
  assumes "pool_inv room js s" "tp_destroy s = Running" "WaitCall \<notin> set (tp_threads s)"
    "list_all is_closing bs" "pool_run (Destroy w # bs) s = Some r"
  shows "\<exists>s'. r = Inr s' \<and> pool_inv room js s'
    \<and> length bs \<le> stop_measure (s\<lparr>tp_active := False, tp_destroy := Signalling 0\<rparr>)
    \<and> ((\<forall>a. is_closing a \<longrightarrow> pool_act a s' = None) \<longrightarrow> tp_destroy s' = Gone)"
proof -
  let ?s = "s\<lparr>tp_active := False, tp_destroy := Signalling 0\<rparr>"
  have stop: "threadpool_destroy w s = Some (Inr ?s)"
    using assms(2) by (simp add: threadpool_destroy_def)
  then have inv: "pool_inv room js ?s"
    using destroy_inv [OF assms(1)] by auto
  have wakes: "wakes_all ?s"
    using pool_invD(1) [OF assms(1)] assms(3) by (simp add: wakes_all_def lock_ok_def)
  have "pool_run bs ?s = Some r"
    using assms(5) stop by simp
  from closing_run [OF inv wakes assms(4) this] show ?thesis
    using closed by fastforce
qed

section \<open>Properties\<close>

text \<open>
  C8. No job is stranded.  Whatever has happened before the pool is destroyed, once nobody
  adds a job the workers and the signals still owed can go on for a bounded number of
  actions only, none of them faults, and when none is possible any more every job that was
  added has been called exactly once and none waits.
\<close>

theorem threadpool_drains:
  assumes "threadpool_create n quota = Inr (Some s0)" "0 < n" "list_all (\<lambda>a. \<not> is_destroy a) as"
    "pool_run as s0 = Some r" "length (added as) \<le> (quota - 3) div 2"
  shows "\<exists>s N. r = Inr s \<and> (\<forall>bs r'. list_all is_internal bs \<and> pool_run bs s = Some r' \<longrightarrow>
    length bs \<le> N \<and> (\<exists>s'. r' = Inr s'
      \<and> ((\<forall>a. is_internal a \<longrightarrow> pool_act a s' = None) \<longrightarrow>
           mset (tp_calls s') = mset (added as) \<and> waiting s' = [])))"
proof -
  note c = create_inv [OF assms(1)]
  obtain s where s: "r = Inr s" "pool_inv ((quota - 3) div 2) (added as) s" "tp_destroy s = Running"
    using run_inv [OF c(1) assms(4)] assms(3,5) c(2) by auto
  have active: "tp_active s"
    using pool_invD(2) [OF s(2)] s(3) by (simp add: stop_ok_def)
  have n: "tp_threads_cnt s = n"
    using run_cnt [of as s0 s] assms(4) s(1) c(5) by simp
  have "length bs \<le> drain_measure s \<and> (\<exists>s'. r' = Inr s'
      \<and> ((\<forall>a. is_internal a \<longrightarrow> pool_act a s' = None) \<longrightarrow>
           mset (tp_calls s') = mset (added as) \<and> waiting s' = []))"
    if bs: "list_all is_internal bs" "pool_run bs s = Some r'" for bs r'
  proof -
    obtain s' where s': "r' = Inr s'" "pool_inv ((quota - 3) div 2) (added as) s'" "tp_active s'"
      "length bs + drain_measure s' \<le> drain_measure s" "length (tp_threads s') = length (tp_threads s)"
      using drain_run [OF s(2) active bs] by blast
    moreover have "tp_threads s' \<noteq> []"
      using s'(5) n assms(2) pool_invD(1) [OF s(2)] by (auto simp: lock_ok_def)
    ultimately show ?thesis
      using drained [OF s'(2,3)] by auto
  qed
  with s(1) show ?thesis
    by blast
qed

lemma threadpool_drains_witness:
  "\<exists>s N. pool_run sample_schedule sample_pool = Some (Inr s)
    \<and> (\<forall>bs r'. list_all is_internal bs \<and> pool_run bs s = Some r' \<longrightarrow>
    length bs \<le> N \<and> (\<exists>s'. r' = Inr s'
      \<and> ((\<forall>a. is_internal a \<longrightarrow> pool_act a s' = None) \<longrightarrow>
           mset (tp_calls s') = mset [(''f'', 1), (''g'', 2)] \<and> waiting s' = [])))"
proof -
  obtain s where s: "pool_run sample_schedule sample_pool = Some (Inr s)"
    using pool_sample_run by blast
  show ?thesis
    using threadpool_drains [OF sample_create _ sample_schedule_simps(2) s] s
    by (simp add: sample_schedule_simps(1))
qed

text \<open>
  C9. \<open>threadpool_destroy\<close> returns if no worker stands between the test of the inner loop
  and \<open>pthread_cond_wait\<close> when it sets \<open>threads_active\<close>: the workers and the destroying
  thread can go on for a bounded number of actions only, none of them faults, and when none
  is possible any more every worker has returned and the queue is freed.
\<close>

theorem threadpool_destroy_returns:
  assumes "threadpool_create n quota = Inr (Some s0)" "list_all (\<lambda>a. \<not> is_destroy a) as"
    "pool_run as s0 = Some (Inr s)" "length (added as) \<le> (quota - 3) div 2"
    "WaitCall \<notin> set (tp_threads s)"
  shows "\<exists>N. \<forall>bs r. list_all is_closing bs \<and> pool_run (Destroy w # bs) s = Some r \<longrightarrow>
    length bs \<le> N \<and> (\<exists>s'. r = Inr s'
      \<and> ((\<forall>a. is_closing a \<longrightarrow> pool_act a s' = None) \<longrightarrow>
           tp_destroy s' = Gone \<and> tp_jqueue s' = None \<and> (\<forall>i < n. tp_threads s' ! i = Finished)))"
proof -
  note c = create_inv [OF assms(1)]
  have s: "pool_inv ((quota - 3) div 2) (added as) s" "tp_destroy s = Running"
    using run_inv [OF c(1) assms(3)] assms(2,4) c(2) by auto
  let ?N = "stop_measure (s\<lparr>tp_active := False, tp_destroy := Signalling 0\<rparr>)"
  have "length bs \<le> ?N \<and> (\<exists>s'. r = Inr s'
      \<and> ((\<forall>a. is_closing a \<longrightarrow> pool_act a s' = None) \<longrightarrow>
           tp_destroy s' = Gone \<and> tp_jqueue s' = None \<and> (\<forall>i < n. tp_threads s' ! i = Finished)))"
    if bs: "list_all is_closing bs" "pool_run (Destroy w # bs) s = Some r" for bs r
  proof -
    obtain s' where s': "r = Inr s'" "pool_inv ((quota - 3) div 2) (added as) s'" "length bs \<le> ?N"
        "(\<forall>a. is_closing a \<longrightarrow> pool_act a s' = None) \<longrightarrow> tp_destroy s' = Gone"
      using destroy_run [OF s assms(5) bs] by blast
    have "tp_threads_cnt s' = n"
      using run_cnt [of "Destroy w # bs" s s'] run_cnt [OF assms(3)] bs(2) s'(1) c(5) by simp
    then have "length (tp_threads s') = n"
      using pool_invD(1) [OF s'(2)] by (simp add: lock_ok_def)
    then show ?thesis
      using s' pool_invD(2) [OF s'(2)] by (auto simp: stop_ok_def)
  qed
  then show ?thesis
    by blast
qed

lemma threadpool_destroy_returns_witness:
  "\<exists>s N. pool_run sample_schedule sample_pool = Some (Inr s)
    \<and> (\<forall>bs r. list_all is_closing bs \<and> pool_run (Destroy None # bs) s = Some r \<longrightarrow>
    length bs \<le> N \<and> (\<exists>s'. r = Inr s'
      \<and> ((\<forall>a. is_closing a \<longrightarrow> pool_act a s' = None) \<longrightarrow>
           tp_destroy s' = Gone \<and> tp_jqueue s' = None \<and> (\<forall>i < 2. tp_threads s' ! i = Finished))))"
proof -
  obtain s where s: "pool_run sample_schedule sample_pool = Some (Inr s)" "WaitCall \<notin> set (tp_threads s)"
    using pool_sample_run by auto
  have "length (added sample_schedule) \<le> (9 - 3) div 2"
    by (simp add: sample_schedule_simps(1))
  from threadpool_destroy_returns [OF sample_create sample_schedule_simps(2) s(1) this s(2), of None] s(1)
  show ?thesis
    by blast
qed

text \<open>Signals that nobody waits for.\<close>

lemma lost_signals:
  assumes "tp_destroy s = Signalling k" "k + m = tp_threads_cnt s" "Asleep \<notin> set (tp_threads s)"
  shows "pool_run (replicate m (Destroy None)) s = Some (Inr (s\<lparr>tp_destroy := Signalling (k + m)\<rparr>))"
  using assms
proof (induction m arbitrary: s k)
  case 0
  then show ?case by simp
next
  case (Suc m)
  have "cond_signal None (tp_threads s) = Some (tp_threads s)"
    using Suc.prems(3) by (auto simp: cond_signal_def list_ex_iff)
  moreover have "k < tp_threads_cnt s"
    using Suc.prems(2) by linarith
  ultimately show ?case
    using Suc.prems Suc.IH [of "s\<lparr>tp_destroy := Signalling (Suc k)\<rparr>" "Suc k"]
    by (simp add: threadpool_destroy_def)
qed

lemma pool_run_append:
  "pool_run as s = Some (Inr s') \<Longrightarrow> pool_run (as @ bs) s = pool_run bs s'"
  by (induction as arbitrary: s) (auto split: option.splits sum.splits)

text \<open>A thread to be joined that sleeps after the last signal.\<close>

lemma join_sleeper:
  assumes "pool_inv room js s" "tp_destroy s = Joining 0" "tp_threads s ! 0 = Asleep"
    "0 < tp_threads_cnt s" "list_all is_closing bs" "pool_run bs s = Some r"
  shows "\<exists>s'. r = Inr s' \<and> tp_destroy s' = Joining 0"
  using assms
proof (induction bs arbitrary: s)
  case Nil
  then show ?case by auto
next
  case (Cons b bs)
  have len: "0 < length (tp_threads s)"
    using pool_invD(1) [OF Cons.prems(1)] Cons.prems(4) by (simp add: lock_ok_def)
  obtain r1 where r1: "pool_act b s = Some r1"
    using Cons.prems(6) by (auto split: option.splits)
  then obtain i where i: "b = Work i"
    using Cons.prems(2-5) by (cases b) (auto simp: is_closing_def threadpool_destroy_def)
  then obtain s1 pc where s1: "r1 = Inr s1" "pool_inv room js s1" "tp_destroy s1 = Joining 0"
    "tp_threads_cnt s1 = tp_threads_cnt s" "tp_threads s1 = (tp_threads s)[i := pc]"
    using worker_inv [OF Cons.prems(1), of i r1] r1 Cons.prems(2) by auto
  have "thread_function 0 s = None"
    using Cons.prems(3) by (simp add: thread_function_def)
  then have "i \<noteq> 0"
    using r1 i by (cases "i = 0") simp_all
  then show ?case
    using Cons.IH [OF s1(2,3)] Cons.prems(3-6) s1 r1 by simp
qed

text \<open>
  C35. \<open>threadpool_destroy\<close> may never return, whatever the number of workers: it does not
  take the mutex, so that a worker that has tested \<open>threads_active\<close> may be about to wait
  when the flag is cleared and all the signals are sent, sleeps after the last of them, and
  is waited for by \<open>pthread_join\<close> for ever.
\<close>

theorem threadpool_destroy_deadlock:
  assumes "threadpool_create n quota = Inr (Some s0)" "0 < n"
  shows "\<exists>as s. pool_run as s0 = Some (Inr s) \<and> list_all is_closing as
    \<and> (\<forall>bs r. list_all is_closing bs \<and> pool_run bs s = Some r \<longrightarrow>
         (\<exists>s'. r = Inr s' \<and> tp_destroy s' = Joining 0))"
proof -
  note c = create_inv [OF assms(1)]
  let ?as = "[Work 0, Work 0, Work 0, Destroy None]"
  have s0: "tp_active s0" "tp_mutex s0 = None" "tp_jqueue s0 = Some (jqueue_create (quota - 3))"
    using assms(1) by (auto simp: threadpool_create_def split: if_splits)
  let ?s1 = "s0\<lparr>tp_threads := (replicate n LoopTest)[0 := WaitCall], tp_active := False,
    tp_mutex := Some 0, tp_destroy := Signalling 0\<rparr>"
  have 1: "pool_run ?as s0 = Some (Inr ?s1)"
    using assms(2) c s0 by (simp add: thread_function_def take_mutex_def goto_def on_queue_def
      threadpool_destroy_def jqueue_create_def jqueue_is_empty_def)
  have "Asleep \<notin> set (tp_threads ?s1)"
    using not_in_update [of Asleep "replicate n LoopTest" WaitCall 0] by simp
  then have 2: "pool_run (replicate n (Destroy None)) ?s1 = Some (Inr (?s1\<lparr>tp_destroy := Signalling n\<rparr>))"
    using lost_signals [of ?s1 0 n] c(5) by simp
  let ?s3 = "?s1\<lparr>tp_threads := (replicate n LoopTest)[0 := Asleep], tp_mutex := None,
    tp_destroy := Joining 0\<rparr>"
  have 3: "pool_run [Destroy None, Work 0] (?s1\<lparr>tp_destroy := Signalling n\<rparr>) = Some (Inr ?s3)"
    using assms(2) c(5) by (simp add: thread_function_def goto_def threadpool_destroy_def)
  let ?bs = "?as @ replicate n (Destroy None) @ [Destroy None, Work 0]"
  have run: "pool_run ?bs s0 = Some (Inr ?s3)"
    using pool_run_append [OF 1] pool_run_append [OF 2] 3 by simp
  have "list_all is_closing ?bs" "list_all (\<lambda>a. \<not> is_server a) ?bs"
    by (simp_all add: is_closing_def is_server_def list_all_iff)
  with run obtain bs where bs: "pool_run bs s0 = Some (Inr ?s3)" "list_all is_closing bs"
    "list_all (\<lambda>a. \<not> is_server a) bs"
    by blast
  have inv: "pool_inv ((quota - 3) div 2) [] ?s3"
    using run_inv [OF c(1) bs(1)] bs(3) added_not_server [OF bs(3)] by simp
  have "\<exists>s'. r = Inr s' \<and> tp_destroy s' = Joining 0"
    if "list_all is_closing cs" "pool_run cs ?s3 = Some r" for cs r
    using join_sleeper [OF inv _ _ _ that] assms(2) c(5) by simp
  with bs(1,2) show ?thesis
    by blast
qed

lemma threadpool_destroy_deadlock_witness:
  "\<exists>as s. pool_run as sample_pool = Some (Inr s) \<and> list_all is_closing as
    \<and> (\<forall>bs r. list_all is_closing bs \<and> pool_run bs s = Some r \<longrightarrow>
         (\<exists>s'. r = Inr s' \<and> tp_destroy s' = Joining 0))"
  by (rule threadpool_destroy_deadlock [OF sample_create]) simp

end
