(* ===== verification/SlotTable.thy ===== *)
theory SlotTable
  imports TmmoPrelude
begin

text \<open>
  The hash that \<open>game_processing/str_hashtable.c\<close> and \<open>server/config.c\<close> both implement, and
  the contract of the two tables built on it: a key is known to the table only through
  its slot (the hash code there, the masked hash here), so two keys of one slot are the
  same key.  What the callers need, that a list of entries of different slots can be
  stored and then found, is proved once over the contract.
\<close>

section \<open>Bob Jenkins's one-at-a-time hash\<close>

definition jenkins_round :: "u32 \<Rightarrow> byte \<Rightarrow> u32" where
  "jenkins_round hash c =
     (let hash = hash + char_to_u32 c;
          hash = hash + push_bit 10 hash
      in hash XOR drop_bit 6 hash)"

definition jenkins_final :: "u32 \<Rightarrow> u32" where
  "jenkins_final hash =
     (let hash = hash + push_bit 3 hash;
          hash = hash XOR drop_bit 11 hash
      in hash + push_bit 15 hash)"

definition jenkins :: "byte list \<Rightarrow> u32" where
  "jenkins str = jenkins_final (foldl jenkins_round 0 str)"

section \<open>Tables that see slots\<close>

fun insert_all :: "('k \<Rightarrow> 'v \<Rightarrow> 't \<Rightarrow> 't res) \<Rightarrow> ('k \<times> 'v) list \<Rightarrow> 't \<Rightarrow> 't res" where
  "insert_all ins [] t = Inr t"
| "insert_all ins ((k, v) # kvs) t = rbind (ins k v t) (insert_all ins kvs)"

locale slot_table =
  fixes insert :: "'k \<Rightarrow> 'v \<Rightarrow> 't \<Rightarrow> 't res"
    and find :: "'k \<Rightarrow> 't \<Rightarrow> 'w option"
    and view :: "'v \<Rightarrow> 'w"
    and slot :: "'k \<Rightarrow> 's"
    and inv :: "'t \<Rightarrow> bool"
    and valid :: "'k \<Rightarrow> bool"
    and vacant :: "'t \<Rightarrow> 's \<Rightarrow> bool"
  assumes insert_spec: "inv t \<Longrightarrow> valid k \<Longrightarrow> vacant t (slot k) \<Longrightarrow>
      \<exists>t'. insert k v t = Inr t' \<and> inv t'
        \<and> (\<forall>k'. valid k' \<longrightarrow> find k' t' = (if slot k' = slot k then Some (view v) else find k' t))
        \<and> (\<forall>s. s \<noteq> slot k \<longrightarrow> vacant t s \<longrightarrow> vacant t' s)"
begin

lemma insert_all_spec:
  assumes "inv t" "list_all (\<lambda>(k, v). valid k \<and> vacant t (slot k)) kvs"
    "distinct (map (\<lambda>(k, v). slot k) kvs)"
  shows "\<exists>t'. insert_all insert kvs t = Inr t' \<and> inv t'
    \<and> (\<forall>k. valid k \<longrightarrow> find k t' =
          (case map_of (map (\<lambda>(k, v). (slot k, v)) kvs) (slot k) of Some v \<Rightarrow> Some (view v) | None \<Rightarrow> find k t))"
  using assms
proof (induction kvs arbitrary: t)
  case Nil
  then show ?case by simp
next
  case (Cons kv kvs)
  obtain k v where kv: "kv = (k, v)"
    by (cases kv)
  obtain t' where t': "insert k v t = Inr t'" "inv t'"
    "\<forall>k'. valid k' \<longrightarrow> find k' t' = (if slot k' = slot k then Some (view v) else find k' t)"
    "\<forall>s. s \<noteq> slot k \<longrightarrow> vacant t s \<longrightarrow> vacant t' s"
    using insert_spec [of t k v] Cons.prems by (auto simp: kv)
  have "slot k \<notin> (\<lambda>(k, v). slot k) ` set kvs"
    using Cons.prems(3) by (simp add: kv)
  have "list_all (\<lambda>(k, v). valid k \<and> vacant t' (slot k)) kvs"
    unfolding list_all_iff
  proof clarify
    fix j w
    assume j: "(j, w) \<in> set kvs"
    then have "slot j \<noteq> slot k"
      using \<open>slot k \<notin> (\<lambda>(k, v). slot k) ` set kvs\<close> by (metis (mono_tags, lifting) case_prod_conv image_eqI)
    moreover have "valid j \<and> vacant t (slot j)"
      using Cons.prems(2) j by (auto simp: list_all_iff)
    ultimately show "valid j \<and> vacant t' (slot j)"
      using t'(4) by blast
  qed
  moreover have "distinct (map (\<lambda>(k, v). slot k) kvs)"
    using Cons.prems(3) by simp
  moreover have "slot k \<notin> fst ` set (map (\<lambda>(k, v). (slot k, v)) kvs)"
    using \<open>slot k \<notin> (\<lambda>(k, v). slot k) ` set kvs\<close> by force
  then have "map_of (map (\<lambda>(k, v). (slot k, v)) kvs) (slot k) = None"
    by (metis map_of_eq_None_iff)
  ultimately obtain t'' where t'': "insert_all insert kvs t' = Inr t''" "inv t''"
    "\<And>k. valid k \<Longrightarrow> find k t'' =
          (case map_of (map (\<lambda>(k, v). (slot k, v)) kvs) (slot k) of Some v \<Rightarrow> Some (view v) | None \<Rightarrow> find k t')"
    and none: "map_of (map (\<lambda>(k, v). (slot k, v)) kvs) (slot k) = None"
    using Cons.IH [OF t'(2)] by blast
  have "find j t'' = (case map_of (map (\<lambda>(k, v). (slot k, v)) (kv # kvs)) (slot j) of
      Some v \<Rightarrow> Some (view v) | None \<Rightarrow> find j t)" if "valid j" for j
    using t''(3) [OF that] t'(3) that none by (auto simp: kv split: option.splits)
  with t'(1) t''(1,2) show ?case
    by (auto simp: kv)
qed

end

end
