(* ===== verification/StrHashtable.thy ===== *)
theory StrHashtable
  imports SlotTable
begin

text \<open>
  The string table of \<open>game_processing/str_hashtable.c\<close>, which maps the names of the game
  functions to the functions.  A bucket is the list of its nodes; its first node lives
  in the \<open>head\<close> array and exists from the start, with a null value and hash code 0.  The
  mutex is a plain one: a second lock by the same thread never returns (\<open>Deadlock\<close>).
  Allocation of a node is taken to succeed, the code does not check it.
\<close>

section \<open>Data and operations\<close>

record 'v str_hashtable_node_t =
  hn_value :: "'v option"
  hn_hashcode :: u32

record 'v str_hashtable_t =
  ht_head :: "'v str_hashtable_node_t list list"
  ht_size :: nat
  ht_locked :: bool

definition empty_node :: "'v str_hashtable_node_t" where
  "empty_node = \<lparr>hn_value = None, hn_hashcode = 0\<rparr>"

text \<open>The counter of the loop has 32 bits, the length 64.\<close>

definition jenkins_one_at_a_time_hash :: "byte list \<Rightarrow> nat \<Rightarrow> u32 res" where
  "jenkins_one_at_a_time_hash key len =
     (if len < 2 ^ 32 then Inr (jenkins (take len key)) else Inl Diverges)"

definition str_hashtable_create :: "nat \<Rightarrow> 'v str_hashtable_t" where
  "str_hashtable_create n =
     \<lparr>ht_head = replicate n [empty_node], ht_size = n, ht_locked = False\<rparr>"

definition ht_lock :: "'v str_hashtable_t \<Rightarrow> 'v str_hashtable_t res" where
  "ht_lock t = (if ht_locked t then Inl Deadlock else Inr (t\<lparr>ht_locked := True\<rparr>))"

definition ht_unlock :: "'v str_hashtable_t \<Rightarrow> 'v str_hashtable_t" where
  "ht_unlock t = t\<lparr>ht_locked := False\<rparr>"

text \<open>\<open>while (node->hashcode != hash && node->next != NULL) node = node->next;\<close>\<close>

fun find_or_last :: "u32 \<Rightarrow> 'v str_hashtable_node_t list \<Rightarrow> 'v str_hashtable_node_t" where
  "find_or_last hash [] = empty_node"
| "find_or_last hash [n] = n"
| "find_or_last hash (n # m # ns) =
     (if hn_hashcode n \<noteq> hash then find_or_last hash (m # ns) else n)"

definition ht_index :: "'v str_hashtable_t \<Rightarrow> u32 \<Rightarrow> nat res" where
  "ht_index t hash = (if ht_size t = 0 then Inl DivByZero else Inr (unat hash mod ht_size t))"

text \<open>The table, the returned flag and what is stored through \<open>str_hashcode\<close>.\<close>

definition str_hashtable_add ::
    "'v str_hashtable_t option \<Rightarrow> byte list option \<Rightarrow> 'v option
      \<Rightarrow> (bool \<times> u32 option \<times> 'v str_hashtable_t option) res" where
  "str_hashtable_add hsht str value =
     (case (hsht, value, str) of
        (Some t, Some v, Some s) \<Rightarrow>
          rbind (strlen s) (\<lambda>len.
          rbind (jenkins_one_at_a_time_hash s len) (\<lambda>hash.
          rbind (ht_index t hash) (\<lambda>i.
          rbind (ht_lock t) (\<lambda>t.
            let bucket = ht_head t ! i;
                node = \<lparr>hn_value = Some v, hn_hashcode = hash\<rparr> in
            if hn_value (hd bucket) \<noteq> None then
              if hn_hashcode (find_or_last hash bucket) = hash then Inr (False, None, Some t)
              else Inr (True, Some hash,
                     Some (ht_unlock (t\<lparr>ht_head := (ht_head t)[i := bucket @ [node]]\<rparr>)))
            else Inr (True, Some hash, Some (ht_unlock (t\<lparr>ht_head := (ht_head t)[i := [node]]\<rparr>)))))))
      | _ \<Rightarrow> Inr (False, None, hsht))"

fun find_node :: "u32 \<Rightarrow> 'v str_hashtable_node_t list \<Rightarrow> 'v option" where
  "find_node hash [] = None"
| "find_node hash (n # ns) = (if hn_hashcode n = hash then hn_value n else find_node hash ns)"

definition str_hashtable_get ::
    "'v str_hashtable_t option \<Rightarrow> byte list option \<Rightarrow> ('v option \<times> 'v str_hashtable_t option) res" where
  "str_hashtable_get hsht str =
     (case (hsht, str) of
        (Some t, Some s) \<Rightarrow>
          rbind (strlen s) (\<lambda>len.
          rbind (jenkins_one_at_a_time_hash s len) (\<lambda>hash.
          rbind (ht_index t hash) (\<lambda>i.
          rbind (ht_lock t) (\<lambda>t. Inr (find_node hash (ht_head t ! i), Some (ht_unlock t))))))
      | _ \<Rightarrow> Inr (None, hsht))"

text \<open>What \<open>str_hashtable_destroy\<close> gives to \<open>free\<close> before the table itself: the chained nodes.\<close>

definition str_hashtable_destroy :: "'v str_hashtable_t \<Rightarrow> 'v str_hashtable_node_t list res" where
  "str_hashtable_destroy t = rbind (ht_lock t) (\<lambda>t. Inr (concat (map tl (take (ht_size t) (ht_head t)))))"

section \<open>Invariant and abstraction\<close>

definition bucket_ok :: "nat \<Rightarrow> nat \<Rightarrow> 'v str_hashtable_node_t list \<Rightarrow> bool" where
  "bucket_ok sz i ns \<longleftrightarrow> ns = [empty_node] \<or>
     (ns \<noteq> [] \<and> list_all (\<lambda>n. hn_value n \<noteq> None \<and> unat (hn_hashcode n) mod sz = i) ns
      \<and> distinct (map hn_hashcode ns))"

definition ht_inv :: "'v str_hashtable_t \<Rightarrow> bool" where
  "ht_inv t \<longleftrightarrow> 0 < ht_size t \<and> length (ht_head t) = ht_size t \<and> \<not> ht_locked t
     \<and> list_all (\<lambda>i. bucket_ok (ht_size t) i (ht_head t ! i)) [0..<ht_size t]"

definition ht_lookup :: "'v str_hashtable_t \<Rightarrow> u32 \<Rightarrow> 'v option" where
  "ht_lookup t hash = find_node hash (ht_head t ! (unat hash mod ht_size t))"

definition valid_str :: "byte list \<Rightarrow> bool" where
  "valid_str s \<longleftrightarrow> terminated s \<and> length s < 2 ^ 32"

definition str_hash :: "byte list \<Rightarrow> u32" where
  "str_hash s = jenkins (cstr s)"

lemma hash_valid:
  "valid_str s \<Longrightarrow> strlen s = Inr (length (cstr s)) \<and>
     jenkins_one_at_a_time_hash s (length (cstr s)) = Inr (str_hash s)"
  using length_cstr_le [of s]
  by (simp add: valid_str_def strlen_ok jenkins_one_at_a_time_hash_def str_hash_def take_cstr)

lemma find_or_last_hash:
  "ns \<noteq> [] \<Longrightarrow> hn_hashcode (find_or_last hash ns) = hash \<longleftrightarrow> hash \<in> hn_hashcode ` set ns"
  by (induction hash ns rule: find_or_last.induct) auto

lemma find_node_notin: "hash \<notin> hn_hashcode ` set ns \<Longrightarrow> find_node hash ns = None"
  by (induction ns) auto

lemma find_node_append:
  "find_node hash (ns @ ms) = (if hash \<in> hn_hashcode ` set ns then find_node hash ns else find_node hash ms)"
  by (induction ns) auto

lemma find_node_eq_None:
  "list_all (\<lambda>n. hn_value n \<noteq> None) ns \<Longrightarrow> find_node hash ns = None \<longleftrightarrow> hash \<notin> hn_hashcode ` set ns"
  by (induction ns) auto

lemma ht_invD:
  assumes "ht_inv t"
  shows "0 < ht_size t" "length (ht_head t) = ht_size t" "\<not> ht_locked t"
    "i < ht_size t \<Longrightarrow> bucket_ok (ht_size t) i (ht_head t ! i)"
  using assms by (auto simp: ht_inv_def list_all_iff)

lemma ht_create_inv: "0 < n \<Longrightarrow> ht_inv (str_hashtable_create n)"
  by (auto simp: ht_inv_def str_hashtable_create_def list_all_iff bucket_ok_def)

lemma ht_create_lookup: "0 < n \<Longrightarrow> ht_lookup (str_hashtable_create n) h = None"
  by (simp add: ht_lookup_def str_hashtable_create_def empty_node_def)

lemma ht_get_spec:
  "ht_inv t \<Longrightarrow> valid_str s \<Longrightarrow> str_hashtable_get (Some t) (Some s) = Inr (ht_lookup t (str_hash s), Some t)"
  by (auto simp: str_hashtable_get_def hash_valid ht_index_def ht_lock_def ht_unlock_def ht_lookup_def
      dest: ht_invD(1,3))

section \<open>Insertion\<close>

text \<open>The new bucket: the node alone, or behind the others.\<close>

definition add_node :: "'v str_hashtable_node_t \<Rightarrow> 'v str_hashtable_node_t list
    \<Rightarrow> 'v str_hashtable_node_t list" where
  "add_node n ns = (if hn_value (hd ns) \<noteq> None then ns @ [n] else [n])"

lemma add_node_ok:
  assumes "bucket_ok sz i ns" "find_node h ns = None" "unat h mod sz = i"
  shows "bucket_ok sz i (add_node \<lparr>hn_value = Some v, hn_hashcode = h\<rparr> ns)"
    and "find_node h' (add_node \<lparr>hn_value = Some v, hn_hashcode = h\<rparr> ns)
      = (if h' = h then Some v else find_node h' ns)"
proof -
  let ?n = "\<lparr>hn_value = Some v, hn_hashcode = h\<rparr>"
  have "ns = [empty_node] \<or> (ns \<noteq> [] \<and> hn_value (hd ns) \<noteq> None
      \<and> list_all (\<lambda>n. hn_value n \<noteq> None \<and> unat (hn_hashcode n) mod sz = i) ns
      \<and> distinct (map hn_hashcode ns) \<and> h \<notin> hn_hashcode ` set ns)"
    using assms(1,2) find_node_eq_None [of ns h]
    by (cases ns) (auto simp: bucket_ok_def list_all_iff)
  then show "bucket_ok sz i (add_node ?n ns)"
    and "find_node h' (add_node ?n ns) = (if h' = h then Some v else find_node h' ns)"
    using assms(3) find_node_notin [of h' ns]
    by (auto simp: bucket_ok_def add_node_def empty_node_def find_node_append list_all_iff
        split: if_splits)
qed

lemma add_spec:
  assumes "ht_inv t" "valid_str s" "ht_lookup t (str_hash s) = None"
  shows "\<exists>t'. str_hashtable_add (Some t) (Some s) (Some v) = Inr (True, Some (str_hash s), Some t')
    \<and> ht_inv t' \<and> (\<forall>h. ht_lookup t' h = (if h = str_hash s then Some v else ht_lookup t h))"
proof -
  let ?h = "str_hash s"
  let ?i = "unat ?h mod ht_size t"
  let ?b = "ht_head t ! ?i"
  let ?n = "\<lparr>hn_value = Some v, hn_hashcode = ?h\<rparr>"
  let ?t = "t\<lparr>ht_head := (ht_head t)[?i := add_node ?n ?b]\<rparr>"
  note inv = ht_invD [OF assms(1)]
  have i: "?i < ht_size t"
    using inv(1) by simp
  note b = inv(4) [OF i]
  have f: "find_node ?h ?b = None"
    using assms(3) by (simp add: ht_lookup_def)
  have ne: "?b \<noteq> []"
    using b by (auto simp: bucket_ok_def)
  have "hn_hashcode (find_or_last ?h ?b) \<noteq> ?h" if "hn_value (hd ?b) \<noteq> None"
    using b f that ne find_node_eq_None [of ?b ?h]
    by (auto simp: bucket_ok_def find_or_last_hash empty_node_def list_all_iff)
  moreover have "t\<lparr>ht_locked := True, ht_head := x, ht_locked := False\<rparr> = t\<lparr>ht_head := x\<rparr>" for x
    using inv(3) by simp
  ultimately have "str_hashtable_add (Some t) (Some s) (Some v) = Inr (True, Some ?h, Some ?t)"
    using inv(1,3) hash_valid [OF assms(2)]
    by (auto simp: str_hashtable_add_def ht_index_def ht_lock_def ht_unlock_def Let_def add_node_def)
  moreover have "ht_inv ?t"
    using inv add_node_ok(1) [OF b f refl] by (auto simp: ht_inv_def list_all_iff nth_list_update)
  moreover have "ht_lookup ?t h = (if h = ?h then Some v else ht_lookup t h)" for h
    using inv(1,2) i add_node_ok(2) [OF b f refl]
    by (auto simp: ht_lookup_def nth_list_update)
  ultimately show ?thesis
    by blast
qed

lemma add_present:
  assumes "ht_inv t" "valid_str s" "ht_lookup t (str_hash s) = Some w"
  shows "str_hashtable_add (Some t) (Some s) (Some v) = Inr (False, None, Some (t\<lparr>ht_locked := True\<rparr>))"
proof -
  let ?h = "str_hash s"
  let ?b = "ht_head t ! (unat ?h mod ht_size t)"
  note inv = ht_invD [OF assms(1)]
  have b: "bucket_ok (ht_size t) (unat ?h mod ht_size t) ?b" and f: "find_node ?h ?b = Some w"
    using inv assms(3) by (simp_all add: ht_lookup_def)
  then have "?b \<noteq> [empty_node]"
    by (auto simp: empty_node_def split: if_splits)
  then have "?b \<noteq> []" "list_all (\<lambda>n. hn_value n \<noteq> None) ?b"
    using b by (auto simp: bucket_ok_def list_all_iff)
  then have "hn_value (hd ?b) \<noteq> None" "hn_hashcode (find_or_last ?h ?b) = ?h"
    using f find_node_notin [of ?h ?b] by (auto simp: find_or_last_hash list_all_iff)
  then show ?thesis
    using inv(1,3) hash_valid [OF assms(2)]
    by (simp add: str_hashtable_add_def ht_index_def ht_lock_def Let_def)
qed

text \<open>The table as its callers use it: \<open>add\<close> of an entry that must succeed, \<open>get\<close>.\<close>

definition ht_insert :: "byte list \<Rightarrow> 'v \<Rightarrow> 'v str_hashtable_t \<Rightarrow> 'v str_hashtable_t res" where
  "ht_insert s v t = rbind (str_hashtable_add (Some t) (Some s) (Some v)) (\<lambda>(ok, h, t').
     case t' of Some t' \<Rightarrow> if ok then Inr t' else Inl AssertFail | None \<Rightarrow> Inl NullDeref)"

interpretation ht: slot_table ht_insert "\<lambda>s t. ht_lookup t (str_hash s)" "\<lambda>v. v" str_hash ht_inv valid_str
  "\<lambda>t h. ht_lookup t h = None"
proof (unfold_locales, goal_cases)
  case (1 t s v)
  then show ?case
    using add_spec [of t s v] by (auto simp: ht_insert_def)
qed

section \<open>Properties\<close>



text \<open>
  Adding a name whose hash code is already there is refused, but the refusing branch
  returns without releasing the mutex: every later add or lookup by the same thread
  deadlocks, and so does the destruction of the table.
\<close>

theorem str_hashtable_duplicate_deadlocks:
  assumes "ht_inv t" and "valid_str s" and "valid_str s'" and "ht_lookup t (str_hash s) \<noteq> None"
  shows "\<exists>t'. str_hashtable_add (Some t) (Some s) (Some v) = Inr (False, None, Some t')
    \<and> str_hashtable_add (Some t') (Some s') (Some w) = Inl Deadlock
    \<and> str_hashtable_get (Some t') (Some s') = Inl Deadlock
    \<and> str_hashtable_destroy t' = Inl Deadlock"
proof -
  obtain w' where "ht_lookup t (str_hash s) = Some w'"
    using assms(4) by blast
  note add = add_present [OF assms(1,2) this, of v]
  let ?t = "t\<lparr>ht_locked := True\<rparr>"
  have "str_hashtable_add (Some ?t) (Some s') (Some w) = Inl Deadlock"
      "str_hashtable_get (Some ?t) (Some s') = Inl Deadlock" "str_hashtable_destroy ?t = Inl Deadlock"
    using hash_valid [OF assms(3)] ht_invD(1) [OF assms(1)]
    by (simp_all add: str_hashtable_add_def str_hashtable_get_def ht_index_def ht_lock_def
        str_hashtable_destroy_def)
  with add show ?thesis
    by blast
qed

lemma str_hashtable_duplicate_deadlocks_witness:
  "\<exists>t t'. str_hashtable_add (Some (str_hashtable_create 5)) (Some (of_str ''go'' @ [0])) (Some (1::nat))
      = Inr (True, Some (str_hash (of_str ''go'' @ [0])), Some t)
    \<and> str_hashtable_add (Some t) (Some (of_str ''go'' @ [0])) (Some 2) = Inr (False, None, Some t')
    \<and> str_hashtable_get (Some t') (Some (of_str ''say'' @ [0])) = Inl Deadlock"
proof -
  have v: "valid_str (of_str ''go'' @ [0])" "valid_str (of_str ''say'' @ [0])"
    by (simp_all add: valid_str_def terminated_def of_str_def)
  have e: "ht_inv (str_hashtable_create 5 :: nat str_hashtable_t)"
      "ht_lookup (str_hashtable_create 5 :: nat str_hashtable_t) (str_hash (of_str ''go'' @ [0])) = None"
    by (simp_all add: ht_create_inv ht_create_lookup)
  obtain t where t: "str_hashtable_add (Some (str_hashtable_create 5)) (Some (of_str ''go'' @ [0])) (Some (1::nat))
      = Inr (True, Some (str_hash (of_str ''go'' @ [0])), Some t)" "ht_inv t"
    "ht_lookup t (str_hash (of_str ''go'' @ [0])) = Some 1"
    using add_spec [OF e(1) v(1) e(2), of "1 :: nat"] by auto
  show ?thesis
    using str_hashtable_duplicate_deadlocks [OF t(2) v, of 2] t(1,3) by auto
qed

end
