(* ===== verification/SharedFuncs.thy ===== *)
theory SharedFuncs
  imports TmmoPrelude
begin

text \<open>
  The tokenizer of \<open>game_processing/shared_funcs.c\<close>, which cuts the next word out of a
  command in place: the buffer and the position in it are passed and returned.
  \<open>isspace\<close> and \<open>tolower\<close> are those of the C locale.
\<close>

definition isspace :: "byte \<Rightarrow> bool" where
  "isspace c \<longleftrightarrow> c = 32 \<or> (9 \<le> c \<and> c \<le> 13)"

definition tolower :: "byte \<Rightarrow> byte" where
  "tolower c = (if 65 \<le> c \<and> c \<le> 90 then c + 32 else c)"

text \<open>\<open>while (isspace( *pos) && *pos != 0) pos++;\<close>\<close>

function skip_space :: "byte list \<Rightarrow> nat \<Rightarrow> nat res" where
  "skip_space buf pos =
     (if pos < length buf
      then if isspace (buf ! pos) \<and> buf ! pos \<noteq> 0 then skip_space buf (Suc pos) else Inr pos
      else Inl OutOfBounds)"
  by pat_completeness auto
termination
  by (relation "measure (\<lambda>(buf, pos). length buf - pos)") auto

text \<open>The second loop, which lowers the word and overwrites the space behind it.\<close>

function word_loop :: "byte list \<Rightarrow> nat \<Rightarrow> (byte list \<times> nat) res" where
  "word_loop buf pos =
     (if pos < length buf
      then if buf ! pos \<noteq> 0
           then if \<not> isspace (buf ! pos) then word_loop (buf[pos := tolower (buf ! pos)]) (Suc pos)
                else Inr (buf[pos := 0], Suc pos)
           else Inr (buf, pos)
      else Inl OutOfBounds)"
  by pat_completeness auto
termination
  by (relation "measure (\<lambda>(buf, pos). length buf - pos)") auto

declare skip_space.simps [simp del] word_loop.simps [simp del]

definition get_word :: "byte list \<Rightarrow> nat \<Rightarrow> (nat option \<times> byte list \<times> nat) res" where
  "get_word buf position =
     rbind (skip_space buf position) (\<lambda>w_start.
     rbind (word_loop buf w_start) (\<lambda>(buf, pos).
       Inr (if w_start \<noteq> pos then Some w_start else None, buf, pos)))"

section \<open>The loops on a split buffer\<close>

lemma isspace_nonzero: "isspace c \<Longrightarrow> c \<noteq> 0"
  by (auto simp: isspace_def)

lemma tolower_nonzero: "c \<noteq> 0 \<Longrightarrow> tolower c \<noteq> 0"
proof (cases "65 \<le> c \<and> c \<le> 90")
  case True
  then have "unat (c + 32) = unat c + 32"
    by (simp add: word_le_nat_alt unat_word_ariths)
  then have "c + 32 \<noteq> 0"
    by (metis add_eq_0_iff_both_eq_0 unat_0 zero_neq_numeral)
  with True show ?thesis
    by (simp add: tolower_def)
qed (auto simp: tolower_def)

lemma skip_space_split:
  "list_all isspace sp \<Longrightarrow> \<not> isspace c \<Longrightarrow>
    skip_space (pre @ sp @ c # post) (length pre) = Inr (length pre + length sp)"
proof (induction sp arbitrary: pre)
  case Nil
  then show ?case by (simp add: skip_space.simps)
next
  case (Cons s sp)
  then show ?case
    using Cons.IH [of "pre @ [s]"] isspace_nonzero [of s]
    by (simp add: skip_space.simps [of _ "length pre"])
qed

lemma word_loop_split:
  "list_all (\<lambda>b. \<not> isspace b \<and> b \<noteq> 0) w \<Longrightarrow> isspace c \<or> c = 0 \<Longrightarrow>
    word_loop (pre @ w @ c # post) (length pre) =
      Inr (pre @ map tolower w @ 0 # post, length pre + length w + (if c = 0 then 0 else 1))"
proof (induction w arbitrary: pre)
  case Nil
  then show ?case
    by (subst word_loop.simps) (auto dest: isspace_nonzero)
next
  case (Cons b w)
  then show ?case
    using Cons.IH [of "pre @ [tolower b]"] by (simp add: word_loop.simps [of _ "length pre"])
qed

lemma in_set_tl: "x \<in> set (tl xs) \<Longrightarrow> x \<in> set xs"
  by (cases xs) auto

text \<open>What \<open>get_word\<close> does to a string, as a function on strings.\<close>

definition next_word :: "byte list \<Rightarrow> byte list" where
  "next_word s = takeWhile (\<lambda>b. \<not> isspace b) (dropWhile isspace s)"

definition after_word :: "byte list \<Rightarrow> byte list" where
  "after_word s = tl (dropWhile (\<lambda>b. \<not> isspace b) (dropWhile isspace s))"

lemma not_isspace_0 [simp]: "\<not> isspace 0"
  by (simp add: isspace_def)

lemma get_word_split:
  assumes "0 \<notin> set s"
  shows "\<exists>buf' pos'. get_word (pre @ s @ 0 # post) (length pre)
      = Inr (if next_word s = [] then None else Some (length pre + length (takeWhile isspace s)), buf', pos')
    \<and> length buf' = length (pre @ s @ 0 # post) \<and> take (length pre) buf' = pre
    \<and> (\<exists>t. drop (length pre + length (takeWhile isspace s)) buf' = map tolower (next_word s) @ 0 # t)
    \<and> (\<exists>t. drop pos' buf' = after_word s @ 0 # t)"
proof -
  define sp where "sp = takeWhile isspace s"
  define w where "w = next_word s"
  define r where "r = dropWhile (\<lambda>b. \<not> isspace b) (dropWhile isspace s)"
  have s: "s = sp @ w @ r"
    by (simp add: sp_def w_def r_def next_word_def)
  have nz: "0 \<notin> set w" "0 \<notin> set r"
    using assms by (auto simp: s)
  have sp: "list_all isspace sp"
    by (auto simp: sp_def list_all_iff dest: set_takeWhileD)
  have w: "list_all (\<lambda>b. \<not> isspace b \<and> b \<noteq> 0) w"
    using nz(1) by (auto simp: w_def next_word_def list_all_iff dest: set_takeWhileD)
  have r: "r = [] \<or> isspace (hd r)"
    using hd_dropWhile [of "\<lambda>b. \<not> isspace b"] by (auto simp: r_def)
  obtain c rest where c: "r @ 0 # post = c # rest" "isspace c \<or> c = 0" "r = [] \<longleftrightarrow> c = 0"
    using r nz(2) by (cases r) auto
  have buf: "pre @ s @ 0 # post = (pre @ sp) @ w @ c # rest"
    by (simp add: s c(1) [symmetric])
  have hd: "\<exists>d t. w @ c # rest = d # t \<and> \<not> isspace d"
  proof (cases w)
    case Nil
    then have "dropWhile isspace s = r"
      using takeWhile_dropWhile_id [of "\<lambda>b. \<not> isspace b" "dropWhile isspace s"]
      by (simp add: r_def w_def next_word_def)
    then have "r = []"
      using hd_dropWhile [of isspace s] r by force
    then show ?thesis using c by (simp add: Nil)
  next
    case (Cons d t)
    then show ?thesis using w by simp
  qed
  then have skip: "skip_space (pre @ s @ 0 # post) (length pre) = Inr (length (pre @ sp))"
    using skip_space_split [OF sp] by (force simp: buf)
  let ?buf = "(pre @ sp) @ map tolower w @ 0 # rest"
  let ?pos = "length (pre @ sp) + length w + (if c = 0 then 0 else 1)"
  have loop: "word_loop (pre @ s @ 0 # post) (length (pre @ sp)) = Inr (?buf, ?pos)"
    unfolding buf by (rule word_loop_split [OF w c(2)])
  have "w = [] \<longleftrightarrow> length (pre @ sp) = ?pos"
  proof
    assume "w = []"
    then have "c = 0" using hd c(2) by auto
    with \<open>w = []\<close> show "length (pre @ sp) = ?pos" by simp
  qed simp
  then have "get_word (pre @ s @ 0 # post) (length pre)
      = Inr (if w = [] then None else Some (length pre + length sp), ?buf, ?pos)"
    using skip loop by (simp add: get_word_def del: append_assoc)
  moreover have "\<exists>t. drop ?pos ?buf = after_word s @ 0 # t"
    using c by (cases r) (auto simp: after_word_def r_def [symmetric])
  moreover have "drop (length pre + length sp) ?buf = map tolower w @ 0 # rest"
    by simp
  moreover have "length ?buf = length (pre @ s @ 0 # post)"
    using arg_cong [OF c(1), of length] by (simp add: s)
  ultimately show ?thesis
    unfolding sp_def [symmetric] w_def [symmetric] by fastforce
qed

text \<open>
  On a terminated buffer \<open>get_word\<close> stays inside it, returns a null pointer exactly
  when only white space is left, otherwise the start of the next white-space separated
  word, lowered and terminated in place, and moves the position to the text behind the
  separator; nothing before the position changes.
\<close>

theorem get_word_spec:
  assumes "terminated (drop pos buf)" and "s = cstr (drop pos buf)"
  shows "\<exists>r buf' pos'. get_word buf pos = Inr (r, buf', pos')
    \<and> (case r of None \<Rightarrow> list_all isspace s
       | Some w \<Rightarrow> next_word s \<noteq> [] \<and> cstr (drop w buf') = map tolower (next_word s))
    \<and> terminated (drop pos' buf') \<and> cstr (drop pos' buf') = after_word s
    \<and> length buf' = length buf \<and> take pos buf' = take pos buf"
  using assms(1)
proof (rule terminatedE)
  fix t post
  assume split: "drop pos buf = t @ 0 # post" and nz: "0 \<notin> set t" and c: "cstr (drop pos buf) = t"
  have s: "s = t" using assms(2) c by simp
  have len: "length (take pos buf) = pos"
    using split by (cases "pos \<le> length buf") auto
  have buf: "buf = take pos buf @ t @ 0 # post"
    by (metis append_take_drop_id split)
  have aft: "0 \<notin> set (after_word t)"
    using nz by (auto simp: after_word_def dest!: in_set_tl set_dropWhileD)
  have low: "0 \<notin> set (map tolower (next_word t))"
    using nz tolower_nonzero by (auto simp: next_word_def dest!: set_takeWhileD set_dropWhileD) metis
  have empty: "next_word t = [] \<longleftrightarrow> list_all isspace t"
    using hd_dropWhile [of isspace t]
    by (cases "dropWhile isspace t = []") (auto simp: next_word_def takeWhile_eq_Nil_iff list_all_iff)
  obtain buf' pos' u v where g: "get_word buf pos
      = Inr (if next_word t = [] then None else Some (pos + length (takeWhile isspace t)), buf', pos')"
    "length buf' = length buf" "take pos buf' = take pos buf"
    "drop (pos + length (takeWhile isspace t)) buf' = map tolower (next_word t) @ 0 # u"
    "drop pos' buf' = after_word t @ 0 # v"
    using get_word_split [OF nz, of "take pos buf" post] unfolding buf [symmetric] len by blast
  show ?thesis
  proof (intro exI conjI)
    show "get_word buf pos = Inr (if next_word t = [] then None
        else Some (pos + length (takeWhile isspace t)), buf', pos')"
      by (fact g(1))
  qed (simp_all add: s g empty cstr_append_zero [OF aft] cstr_append_zero [OF low])
qed

lemma get_word_spec_witness:
  "get_word (of_str ''  Go West'' @ [0]) 0 = Inr (Some 2, of_str ''  go'' @ [0] @ of_str ''West'' @ [0], 5)
   \<and> (\<exists>r buf' pos'. get_word (of_str ''  Go West'' @ [0]) 0 = Inr (r, buf', pos')
      \<and> cstr (drop pos' buf') = of_str ''West'')"
proof -
  have t: "terminated (drop 0 (of_str ''  Go West'' @ [0]))"
    by (simp add: terminated_def)
  have "after_word (cstr (drop 0 (of_str ''  Go West'' @ [0]))) = of_str ''West''"
    by code_simp
  with get_word_spec [OF t refl]
  have "\<exists>r buf' pos'. get_word (of_str ''  Go West'' @ [0]) 0 = Inr (r, buf', pos')
      \<and> cstr (drop pos' buf') = of_str ''West''"
    by metis
  moreover have "get_word (of_str ''  Go West'' @ [0]) 0
      = Inr (Some 2, of_str ''  go'' @ [0] @ of_str ''West'' @ [0], 5)"
    by code_simp
  ultimately show ?thesis by blast
qed

end
