(* ===== verification/Config.thy ===== *)
theory Config
  imports SlotTable
begin

text \<open>
  The server's configuration (\<open>server/config.c\<close>, and \<open>config_default\<close> of \<open>server/main.c\<close>): a
  table of pointers indexed by a masked hash, whose options are also chained in the order
  of the calls of \<open>config_setopt\<close> for saving.  A block of characters is the list of the
  bytes it was allocated for; \<open>behind\<close> stands for the memory that follows such a block,
  which \<open>%s\<close> reaches because the blocks are allocated without room for a terminator.
\<close>

section \<open>Data\<close>

definition MAX_OPTS :: nat where "MAX_OPTS = 32"
definition MAX_LEN :: nat where "MAX_LEN = 1024"

record cfg_opt_t =
  o_key :: "byte list"
  o_value :: "byte list"
  o_next :: ptr

record cfg_t =
  c_size :: nat
  c_mask :: u32
  c_opts :: "ptr list"
  c_first :: ptr
  c_lastopt :: int
  c_heap :: "cfg_opt_t heap"

section \<open>Operations\<close>

definition config_get_hash :: "byte list \<Rightarrow> u32 res" where
  "config_get_hash str = rbind (strlen str) (\<lambda>len. Inr (jenkins (take len str)))"

text \<open>
  \<open>calloc(size, sizeof(cfg_opt_t))\<close> is room for three times as many pointers as slots.
  \<open>mem\<close> counts the allocations that succeed in a call.
\<close>

definition config_init :: "nat \<Rightarrow> nat \<Rightarrow> cfg_t option" where
  "config_init mem n =
     (if mem < 2 then None
      else Some \<lparr>c_size = n, c_mask = of_nat n - 1, c_opts = replicate (3 * n) None,
                 c_first = None, c_lastopt = - 1, c_heap = []\<rparr>)"

definition config_opt_init :: "nat \<Rightarrow> byte list \<Rightarrow> byte list \<Rightarrow> cfg_opt_t option res" where
  "config_opt_init mem key value =
     (if mem < 1 then Inr None
      else
        rbind (strlen key) (\<lambda>kn.
        rbind (strlen value) (\<lambda>vn.
          if mem < 3 then Inr None
          else Inr (Some \<lparr>o_key = take kn key, o_value = take vn value, o_next = None\<rparr>))))"

definition config_setopt :: "nat \<Rightarrow> cfg_t \<Rightarrow> byte list \<Rightarrow> byte list \<Rightarrow> cfg_t res" where
  "config_setopt mem cfg key value =
     (let lastopt = c_lastopt cfg in
      rbind (config_get_hash key) (\<lambda>hash.
        let pos = unat (hash AND c_mask cfg) in
        rbind (config_opt_init mem key value) (\<lambda>opt.
          let (p, h) = (case opt of None \<Rightarrow> (None, c_heap cfg) | Some o1 \<Rightarrow> alloc (c_heap cfg) o1) in
          rbind (if pos < length (c_opts cfg)
                 then Inr (cfg\<lparr>c_opts := (c_opts cfg)[pos := p], c_heap := h\<rparr>)
                 else Inl OutOfBounds) (\<lambda>cfg.
          rbind (if lastopt < 0 then Inr (cfg\<lparr>c_first := p\<rparr>)
                 else
                   let l = c_opts cfg ! nat lastopt in
                   rbind (load (c_heap cfg) l) (\<lambda>o1.
                   rbind (store (c_heap cfg) l (o1\<lparr>o_next := p\<rparr>)) (\<lambda>h.
                     Inr (cfg\<lparr>c_heap := h\<rparr>)))) (\<lambda>cfg.
            Inr (cfg\<lparr>c_lastopt := int pos\<rparr>))))))"

text \<open>The value's block, without the key being compared.\<close>

definition config_getopt :: "cfg_t \<Rightarrow> byte list \<Rightarrow> byte list option res" where
  "config_getopt cfg key =
     rbind (config_get_hash key) (\<lambda>hash.
       let pos = unat (hash AND c_mask cfg) in
       if pos < length (c_opts cfg)
       then (if c_opts cfg ! pos \<noteq> None
             then rbind (load (c_heap cfg) (c_opts cfg ! pos)) (\<lambda>o1. Inr (Some (o_value o1)))
             else Inr None)
       else Inl OutOfBounds)"

text \<open>What \<open>%s\<close> prints.\<close>

definition print_str :: "byte list \<Rightarrow> byte list \<Rightarrow> byte list res" where
  "print_str behind block = (if terminated (block @ behind) then Inr (cstr (block @ behind)) else Inl Unterminated)"

fun config_save_loop :: "byte list \<Rightarrow> nat \<Rightarrow> cfg_opt_t heap \<Rightarrow> ptr \<Rightarrow> byte list res" where
  "config_save_loop behind fuel h None = Inr []"
| "config_save_loop behind 0 h (Some a) = Inl Diverges"
| "config_save_loop behind (Suc fuel) h (Some a) =
     rbind (load h (Some a)) (\<lambda>o1.
     rbind (print_str behind (o_key o1)) (\<lambda>k.
     rbind (print_str behind (o_value o1)) (\<lambda>v.
     rbind (config_save_loop behind fuel h (o_next o1)) (\<lambda>out.
       Inr (k @ of_str '' = '' @ v @ [10] @ out)))))"

definition config_save :: "byte list \<Rightarrow> nat \<Rightarrow> cfg_t \<Rightarrow> byte list res" where
  "config_save behind fuel cfg = config_save_loop behind fuel (c_heap cfg) (c_first cfg)"

definition config_opt_destroy :: "cfg_opt_t heap \<Rightarrow> ptr \<Rightarrow> cfg_opt_t heap res" where
  "config_opt_destroy h opt = rbind (load h opt) (\<lambda>_. free h opt)"

fun config_destroy_loop :: "nat \<Rightarrow> cfg_t \<Rightarrow> cfg_t res" where
  "config_destroy_loop 0 cfg = Inr cfg"
| "config_destroy_loop (Suc k) cfg =
     (let p = c_opts cfg ! (c_size cfg - Suc k) in
      rbind (if p \<noteq> None
             then rbind (config_opt_destroy (c_heap cfg) p) (\<lambda>h. Inr (cfg\<lparr>c_heap := h\<rparr>))
             else Inr cfg) (config_destroy_loop k))"

definition config_destroy :: "cfg_t option \<Rightarrow> cfg_t res" where
  "config_destroy cfg = (case cfg of None \<Rightarrow> Inl NullDeref
     | Some cfg \<Rightarrow> config_destroy_loop (c_size cfg) cfg)"

section \<open>Reading a file\<close>

text \<open>
  A file is the list of the bytes not yet read.  \<open>get_chars\<close> reads at most \<open>n\<close> of them up to
  and with a newline; the flag says whether the end was met, which \<open>feof\<close> reports.
\<close>

fun get_chars :: "nat \<Rightarrow> byte list \<Rightarrow> byte list \<times> byte list \<times> bool" where
  "get_chars 0 file = ([], file, False)"
| "get_chars (Suc n) [] = ([], [], True)"
| "get_chars (Suc n) (c # cs) =
     (if c = 10 then ([c], cs, False)
      else let (l, r, e) = get_chars n cs in (c # l, r, e))"

text \<open>The buffer after \<open>file_get_line\<close> that read the bytes \<open>l\<close>; \<open>fgets\<close> keeps it when there are none.\<close>

definition file_get_line :: "byte list \<Rightarrow> byte list \<Rightarrow> byte list res" where
  "file_get_line l buffer =
     (if l = [] then Inr buffer
      else
        rbind (memcpy buffer 0 (l @ [0])) (\<lambda>buffer.
        rbind (strlen buffer) (\<lambda>n.
          if n = 0 then Inl OutOfBounds
          else if buffer ! (n - 1) = 10 then Inr (buffer[n - 1 := 0]) else Inr buffer)))"

definition is_delim :: "byte \<Rightarrow> bool" where
  "is_delim c \<longleftrightarrow> c = 32 \<or> c = 61"

function scan_while :: "(byte \<Rightarrow> bool) \<Rightarrow> byte list \<Rightarrow> nat \<Rightarrow> nat res" where
  "scan_while P buf pos =
     (if pos < length buf
      then if P (buf ! pos) then scan_while P buf (Suc pos) else Inr pos
      else Inl Unterminated)"
  by pat_completeness auto
termination
  by (relation "measure (\<lambda>(P, buf, pos). length buf - pos)") auto

declare scan_while.simps [simp del]

text \<open>\<open>strtok\<close> from the saved position: the token, the buffer and the position it saves.\<close>

definition strtok_at :: "byte list \<Rightarrow> nat \<Rightarrow> (nat option \<times> byte list \<times> nat) res" where
  "strtok_at buf pos =
     rbind (scan_while is_delim buf pos) (\<lambda>start.
       if buf ! start = 0 then Inr (None, buf, start)
       else
         rbind (scan_while (\<lambda>c. c \<noteq> 0 \<and> \<not> is_delim c) buf start) (\<lambda>e.
           if buf ! e = 0 then Inr (Some start, buf, e)
           else Inr (Some start, buf[e := 0], Suc e)))"

definition config_load_line :: "nat \<Rightarrow> byte list \<Rightarrow> cfg_t option \<Rightarrow> (byte list \<times> cfg_t option) res" where
  "config_load_line mem buffer cfg =
     rbind (strtok_at buffer 0) (\<lambda>(key, buffer, pos).
     rbind (strtok_at buffer pos) (\<lambda>(value, buffer, pos).
       case (key, value) of
         (Some k, Some v) \<Rightarrow> (case cfg of None \<Rightarrow> Inl NullDeref
           | Some cfg \<Rightarrow>
               rbind (config_setopt mem cfg (drop k buffer) (drop v buffer)) (\<lambda>cfg.
                 Inr (buffer, Some cfg)))
       | _ \<Rightarrow> Inr (buffer, cfg)))"

lemma get_chars_length:
  "get_chars n inp = (l, r, e) \<Longrightarrow> n \<noteq> 0 \<Longrightarrow> \<not> e \<Longrightarrow> length r < length inp"
proof (induction n inp arbitrary: l r e rule: get_chars.induct)
  case (3 n c cs)
  obtain l' r' e' where *: "get_chars n cs = (l', r', e')"
    by (metis prod_cases3)
  show ?case
    using 3 * by (cases "n = 0") (auto simp: less_Suc_eq split: if_splits)
qed auto

function config_load_loop :: "nat \<Rightarrow> byte list \<Rightarrow> byte list \<Rightarrow> cfg_t option \<Rightarrow> cfg_t option res" where
  "config_load_loop mem file buffer cfg =
     (let (l, r, eof) = get_chars (MAX_LEN - 1) file in
      rbind (file_get_line l buffer) (\<lambda>buffer.
      rbind (config_load_line mem buffer cfg) (\<lambda>(buffer, cfg).
        if eof then Inr cfg else config_load_loop mem r buffer cfg)))"
  by pat_completeness auto
termination
proof (relation "measure (\<lambda>(mem, file, buffer, cfg). length file)", goal_cases)
  case 1
  show ?case by simp
next
  case (2 mem inp buffer cfg x l y r e)
  then show ?case
    using get_chars_length [of "MAX_LEN - 1" inp l r False] by (auto simp: MAX_LEN_def)
qed

declare config_load_loop.simps [simp del]

text \<open>\<open>file\<close> is \<open>None\<close> when it cannot be opened; \<open>buffer\<close> is the uninitialised array.\<close>

definition config_load :: "nat \<Rightarrow> byte list \<Rightarrow> byte list option \<Rightarrow> cfg_t option res" where
  "config_load mem buffer file =
     (let cfg = config_init mem MAX_OPTS in
      case file of
        None \<Rightarrow> rbind (config_destroy cfg) (\<lambda>_. Inr None)
      | Some bs \<Rightarrow> config_load_loop mem bs buffer cfg)"

definition c_str :: "string \<Rightarrow> byte list" where
  "c_str s = of_str s @ [0]"

definition config_defaults :: "(byte list \<times> byte list) list" where
  "config_defaults = [
     (c_str ''max_players'', of_str ''100''),
     (c_str ''server_port'', of_str ''27015''),
     (c_str ''shard_enabled'', of_str ''false''),
     (c_str ''map'', of_str ''ver1.map''),
     (c_str ''timeout'', of_str ''100'')]"

text \<open>\<open>config_setopt\<close> with memory at hand and a string literal for the value.\<close>

definition config_set_literal :: "byte list \<Rightarrow> byte list \<Rightarrow> cfg_t \<Rightarrow> cfg_t res" where
  "config_set_literal key text cfg = config_setopt 3 cfg key (text @ [0])"

text \<open>\<open>config_default\<close>: the table and the text that it saves.\<close>

definition config_default :: "byte list \<Rightarrow> nat \<Rightarrow> (cfg_t \<times> byte list) res" where
  "config_default behind fuel =
     (case config_init 2 MAX_OPTS of None \<Rightarrow> Inl NullDeref
      | Some cfg \<Rightarrow>
          rbind (insert_all config_set_literal config_defaults cfg) (\<lambda>cfg.
          rbind (config_save behind fuel cfg) (\<lambda>text. Inr (cfg, text))))"

section \<open>Invariant and abstraction\<close>

text \<open>
  The slots of a table of \<open>MAX_OPTS\<close> options, the value a slot holds, and the options in the
  order of the chain.
\<close>

definition cfg_slot :: "byte list \<Rightarrow> nat" where
  "cfg_slot key = unat (jenkins (cstr key) AND (of_nat MAX_OPTS - 1))"

definition cfg_value :: "cfg_t \<Rightarrow> nat \<Rightarrow> byte list option" where
  "cfg_value cfg s = (case load (c_heap cfg) (c_opts cfg ! s) of Inl _ \<Rightarrow> None | Inr b \<Rightarrow> Some (o_value b))"

definition cfg_addrs :: "cfg_t \<Rightarrow> nat list option" where
  "cfg_addrs cfg = walk_null o_next (c_heap cfg) (length (c_heap cfg)) (c_first cfg)"

definition cfg_entry :: "cfg_t \<Rightarrow> nat \<Rightarrow> byte list \<times> byte list" where
  "cfg_entry cfg a = (let b = the (c_heap cfg ! a) in (o_key b, o_value b))"

definition cfg_log :: "cfg_t \<Rightarrow> (byte list \<times> byte list) list" where
  "cfg_log cfg = (case cfg_addrs cfg of None \<Rightarrow> [] | Some as \<Rightarrow> map (cfg_entry cfg) as)"

definition cfg_rep :: "cfg_t \<Rightarrow> nat list \<Rightarrow> bool" where
  "cfg_rep cfg as \<longleftrightarrow> c_size cfg = MAX_OPTS \<and> c_mask cfg = of_nat MAX_OPTS - 1
     \<and> length (c_opts cfg) = 3 * MAX_OPTS
     \<and> (\<forall>p \<in> set (c_opts cfg). p = None \<or> is_ok (load (c_heap cfg) p))
     \<and> chain o_next (c_heap cfg) (c_first cfg) as None
     \<and> (if as = [] then c_lastopt cfg = - 1
        else 0 \<le> c_lastopt cfg \<and> c_lastopt cfg < int MAX_OPTS
          \<and> c_opts cfg ! nat (c_lastopt cfg) = Some (last as))"

definition cfg_inv :: "cfg_t \<Rightarrow> bool" where
  "cfg_inv cfg \<longleftrightarrow> (case cfg_addrs cfg of None \<Rightarrow> False | Some as \<Rightarrow> cfg_rep cfg as)"

lemma cfg_rep_addrs: "cfg_rep cfg as \<Longrightarrow> cfg_addrs cfg = Some as"
  unfolding cfg_rep_def cfg_addrs_def walk_null_eq_Some by (elim conjE) (simp add: chain_length_le)

lemma cfg_rep_inv: "cfg_rep cfg as \<Longrightarrow> cfg_inv cfg"
  by (simp add: cfg_inv_def cfg_rep_addrs)

lemma cfg_inv_rep: "cfg_inv cfg \<Longrightarrow> \<exists>as. cfg_rep cfg as"
  by (auto simp: cfg_inv_def split: option.splits)

lemma cfg_rep_log: "cfg_rep cfg as \<Longrightarrow> cfg_log cfg = map (cfg_entry cfg) as"
  by (simp add: cfg_log_def cfg_rep_addrs)

lemma cfg_slot_less: "cfg_slot key < MAX_OPTS"
proof -
  have "jenkins (cstr key) AND 31 \<le> 31"
    by (rule word_and_le1)
  then show ?thesis
    by (simp add: cfg_slot_def MAX_OPTS_def word_le_nat_alt)
qed

lemma cfg_slot_int: "uint (jenkins (cstr key) AND (of_nat MAX_OPTS - 1)) = int (cfg_slot key)"
  by (simp add: cfg_slot_def)

lemmas slot_simps = cfg_slot_def [symmetric] cfg_slot_int

lemma config_get_hash_eq: "terminated key \<Longrightarrow> config_get_hash key = Inr (jenkins (cstr key))"
  by (simp add: config_get_hash_def strlen_ok take_cstr)

lemma config_opt_init_eq:
  "terminated key \<Longrightarrow> terminated value \<Longrightarrow> 3 \<le> mem \<Longrightarrow>
    config_opt_init mem key value = Inr (Some \<lparr>o_key = cstr key, o_value = cstr value, o_next = None\<rparr>)"
  by (simp add: config_opt_init_def strlen_ok take_cstr)

lemma config_init_rep: "config_init mem MAX_OPTS = Some cfg \<Longrightarrow> cfg_rep cfg []"
  by (auto simp: config_init_def cfg_rep_def split: if_splits)

lemma config_init_value: "config_init mem MAX_OPTS = Some cfg \<Longrightarrow> s < MAX_OPTS \<Longrightarrow> cfg_value cfg s = None"
  by (auto simp: config_init_def cfg_value_def split: if_splits)

section \<open>Setting an option\<close>

lemma getopt_eq:
  assumes "cfg_rep cfg as" "terminated key"
  shows "config_getopt cfg key = Inr (cfg_value cfg (cfg_slot key))"
proof -
  let ?p = "c_opts cfg ! cfg_slot key"
  have len: "cfg_slot key < length (c_opts cfg)"
    using assms(1) cfg_slot_less [of key] by (simp add: cfg_rep_def)
  have "?p = None \<or> is_ok (load (c_heap cfg) ?p)"
    using assms(1) nth_mem [OF len] by (auto simp: cfg_rep_def)
  then have "config_getopt cfg key = Inr (case load (c_heap cfg) ?p of Inl _ \<Rightarrow> None | Inr b \<Rightarrow> Some (o_value b))"
    using assms len
    by (cases "load (c_heap cfg) ?p")
      (auto simp: config_getopt_def config_get_hash_eq slot_simps cfg_rep_def Let_def dest: load_InrD)
  then show ?thesis
    by (simp add: cfg_value_def)
qed

text \<open>What \<open>config_setopt\<close> stores: the new block at the end of the heap, the link to it.\<close>

definition setopt_block :: "byte list \<Rightarrow> byte list \<Rightarrow> cfg_opt_t" where
  "setopt_block key value = \<lparr>o_key = cstr key, o_value = cstr value, o_next = None\<rparr>"

lemma setopt_first:
  assumes "cfg_rep cfg []" "terminated key" "terminated value" "3 \<le> mem"
  shows "config_setopt mem cfg key value = Inr (cfg\<lparr>
    c_opts := (c_opts cfg)[cfg_slot key := Some (length (c_heap cfg))],
    c_heap := c_heap cfg @ [Some (setopt_block key value)],
    c_first := Some (length (c_heap cfg)), c_lastopt := int (cfg_slot key)\<rparr>)"
  using assms cfg_slot_less [of key]
  by (simp add: config_setopt_def config_get_hash_eq config_opt_init_eq cfg_rep_def alloc_def
      slot_simps setopt_block_def Let_def)

lemma setopt_later:
  assumes "cfg_rep cfg as" "as \<noteq> []" "c_lastopt cfg \<noteq> int (cfg_slot key)"
    "load (c_heap cfg) (Some (last as)) = Inr b"
    "terminated key" "terminated value" "3 \<le> mem"
  shows "config_setopt mem cfg key value = Inr (cfg\<lparr>
    c_opts := (c_opts cfg)[cfg_slot key := Some (length (c_heap cfg))],
    c_heap := (c_heap cfg @ [Some (setopt_block key value)])
        [last as := Some (b\<lparr>o_next := Some (length (c_heap cfg))\<rparr>)],
    c_lastopt := int (cfg_slot key)\<rparr>)"
proof -
  have "cfg_slot key \<noteq> nat (c_lastopt cfg)"
    using assms(1-3) by (auto simp: cfg_rep_def)
  then show ?thesis
    using assms cfg_slot_less [of key] load_alloc_old [OF assms(4)]
    by (simp add: config_setopt_def config_get_hash_eq config_opt_init_eq cfg_rep_def alloc_def
        slot_simps setopt_block_def Let_def store_ok)
qed

lemma setopt_again:
  assumes "cfg_rep cfg as" "c_lastopt cfg = int (cfg_slot key)"
    "terminated key" "terminated value" "3 \<le> mem"
  shows "config_setopt mem cfg key value = Inr (cfg\<lparr>
    c_opts := (c_opts cfg)[cfg_slot key := Some (length (c_heap cfg))],
    c_heap := c_heap cfg @ [Some (setopt_block key value\<lparr>o_next := Some (length (c_heap cfg))\<rparr>)],
    c_lastopt := int (cfg_slot key)\<rparr>)"
  using assms cfg_slot_less [of key] load_alloc_new [of "c_heap cfg" "setopt_block key value"]
  by (simp add: config_setopt_def config_get_hash_eq config_opt_init_eq cfg_rep_def alloc_def
      slot_simps setopt_block_def Let_def store_ok)

text \<open>The values of the slots and the entries of the blocks after one of these updates.\<close>

lemma value_update:
  assumes "length (c_opts cfg) = 3 * MAX_OPTS" "\<forall>p \<in> set (c_opts cfg). p = None \<or> is_ok (load (c_heap cfg) p)"
    "s < MAX_OPTS" "s' < MAX_OPTS"
    "\<And>p b. load (c_heap cfg) p = Inr b \<Longrightarrow> \<exists>b'. load h p = Inr b' \<and> o_value b' = o_value b"
    "load h (Some a) = Inr b" "o_value b = v"
  shows "cfg_value (cfg\<lparr>c_opts := (c_opts cfg)[s := Some a], c_heap := h\<rparr>) s'
      = (if s' = s then Some v else cfg_value cfg s')"
proof (cases "s' = s")
  case True
  then show ?thesis using assms by (simp add: cfg_value_def)
next
  case False
  have "c_opts cfg ! s' \<in> set (c_opts cfg)"
    using assms(1,4) by simp
  then show ?thesis
    using assms(2) assms(5) [of "c_opts cfg ! s'"] False
    by (cases "load (c_heap cfg) (c_opts cfg ! s')") (fastforce simp: cfg_value_def is_ok_iff)+
qed

lemma slots_update:
  assumes "\<forall>p \<in> set ps. p = None \<or> is_ok (load h p)"
    "\<And>p b. load h p = Inr b \<Longrightarrow> \<exists>b'. load h' p = Inr b'" "load h' (Some a) = Inr b"
  shows "\<forall>p \<in> set (ps[s := Some a]). p = None \<or> is_ok (load h' p)"
proof
  fix p
  assume "p \<in> set (ps[s := Some a])"
  then have "p = Some a \<or> p \<in> set ps"
    using set_update_subset_insert [of ps s "Some a"] by blast
  then show "p = None \<or> is_ok (load h' p)"
    using assms by (auto simp: is_ok_iff)
qed

lemma cfg_entry_eq: "load (c_heap cfg) (Some a) = Inr b \<Longrightarrow> cfg_entry cfg a = (o_key b, o_value b)"
  by (simp add: cfg_entry_def load_eq_Inr)

lemma setopt_first_rep:
  assumes "cfg_rep cfg []" "terminated key" "terminated value" "3 \<le> mem"
  shows "\<exists>cfg' as'. config_setopt mem cfg key value = Inr cfg' \<and> cfg_rep cfg' as'
    \<and> c_lastopt cfg' = int (cfg_slot key)
    \<and> (\<forall>s < MAX_OPTS. cfg_value cfg' s = (if s = cfg_slot key then Some (cstr value) else cfg_value cfg s))
    \<and> cfg_log cfg' = cfg_log cfg @ [(cstr key, cstr value)]"
proof -
  let ?a = "length (c_heap cfg)" and ?s = "cfg_slot key"
  let ?h = "c_heap cfg @ [Some (setopt_block key value)]"
  let ?c = "cfg\<lparr>c_opts := (c_opts cfg)[?s := Some ?a], c_heap := ?h\<rparr>"
  let ?cfg = "?c\<lparr>c_first := Some ?a, c_lastopt := int ?s\<rparr>"
  note r = assms(1) [unfolded cfg_rep_def, simplified]
  have l: "load ?h (Some ?a) = Inr (setopt_block key value)"
    by (rule load_alloc_new)
  have len: "?s < length (c_opts cfg)"
    using r cfg_slot_less [of key] by simp
  have "\<forall>p \<in> set (c_opts ?cfg). p = None \<or> is_ok (load ?h p)"
    using r slots_update [OF _ _ l] load_alloc_old by fastforce
  then have rep: "cfg_rep ?cfg [?a]"
    using r l len cfg_slot_less [of key]
    by (auto simp: cfg_rep_def setopt_block_def)
  have old: "\<exists>b'. load ?h p = Inr b' \<and> o_value b' = o_value b" if "load (c_heap cfg) p = Inr b" for p b
    using load_alloc_old [OF that] by blast
  have val: "cfg_value ?c s' = (if s' = ?s then Some (cstr value) else cfg_value cfg s')" if "s' < MAX_OPTS" for s'
    using r value_update [OF _ _ cfg_slot_less that old l] by (simp add: setopt_block_def)
  have "cfg_value ?cfg s' = cfg_value ?c s'" for s'
    by (simp add: cfg_value_def)
  moreover have "cfg_log ?cfg = [(cstr key, cstr value)]"
    unfolding cfg_rep_log [OF rep] using cfg_entry_eq [of ?cfg ?a] l by (simp add: setopt_block_def)
  ultimately show ?thesis
    using rep val setopt_first [OF assms] by (auto simp: cfg_rep_log [OF assms(1)])
qed

lemma setopt_later_rep:
  assumes "cfg_rep cfg as" "as \<noteq> []" "c_lastopt cfg \<noteq> int (cfg_slot key)"
    "terminated key" "terminated value" "3 \<le> mem"
  shows "\<exists>cfg' as'. config_setopt mem cfg key value = Inr cfg' \<and> cfg_rep cfg' as'
    \<and> c_lastopt cfg' = int (cfg_slot key)
    \<and> (\<forall>s < MAX_OPTS. cfg_value cfg' s = (if s = cfg_slot key then Some (cstr value) else cfg_value cfg s))
    \<and> cfg_log cfg' = cfg_log cfg @ [(cstr key, cstr value)]"
proof -
  obtain bs l where as: "as = bs @ [l]"
    using assms(2) by (cases as rule: rev_cases) auto
  let ?a = "length (c_heap cfg)" and ?s = "cfg_slot key" and ?n = "Some (setopt_block key value)"
  note r = assms(1) [unfolded cfg_rep_def]
  have c: "chain o_next (c_heap cfg) (c_first cfg) (bs @ [l]) None"
    using r by (simp add: as)
  then obtain b where cb: "chain o_next (c_heap cfg) (c_first cfg) bs (Some l)"
      and lb: "load (c_heap cfg) (Some l) = Inr b" "o_next b = None"
    by (auto simp: chain_snoc)
  have d: "l \<notin> set bs" and bnd: "\<And>x. x \<in> set as \<Longrightarrow> x < ?a"
    using chain_null_distinct [OF c] chain_bound [OF c] by (simp_all add: as)
  then have la: "l \<noteq> ?a" by (force simp: as)
  let ?b = "b\<lparr>o_next := Some ?a\<rparr>"
  let ?h = "(c_heap cfg @ [?n])[l := Some ?b]"
  let ?c = "cfg\<lparr>c_opts := (c_opts cfg)[?s := Some ?a], c_heap := ?h\<rparr>"
  let ?cfg = "?c\<lparr>c_lastopt := int ?s\<rparr>"
  have l: "load ?h (Some ?a) = Inr (setopt_block key value)"
    using la load_alloc_new by (simp add: load_update_other)
  have lb': "load ?h (Some l) = Inr ?b"
    using bnd [of l] by (simp add: as load_update)
  have old: "\<exists>b'. load ?h p = Inr b' \<and> o_value b' = o_value b \<and> o_key b' = o_key b"
    if "load (c_heap cfg) p = Inr b" for p b
    using load_alloc_old [OF that, of ?n] load_InrD [OF that] lb lb' that
    by (cases "p = Some l") (auto simp: load_update_other)
  have len: "?s < length (c_opts cfg)"
    using r cfg_slot_less [of key] by simp
  have "chain o_next ?h (c_first cfg) bs (Some l)"
    using chain_alloc [OF cb] d by (simp add: chain_update_other)
  then have ch: "chain o_next ?h (c_first cfg) (as @ [?a]) None"
    using lb' l by (simp add: as chain_append setopt_block_def)
  have sl: "\<forall>p \<in> set ((c_opts cfg)[?s := Some ?a]). p = None \<or> is_ok (load ?h p)"
  proof (rule slots_update [OF _ _ l])
    show "\<forall>p \<in> set (c_opts cfg). p = None \<or> is_ok (load (c_heap cfg) p)"
      using r by blast
    show "\<exists>b'. load ?h p = Inr b'" if "load (c_heap cfg) p = Inr b" for p b
      using old [OF that] by blast
  qed
  have sizes: "c_size cfg = MAX_OPTS" "c_mask cfg = of_nat MAX_OPTS - 1" "length (c_opts cfg) = 3 * MAX_OPTS"
    using r by blast+
  have rep: "cfg_rep ?cfg (as @ [?a])"
    unfolding cfg_rep_def by (intro conjI) (use ch sl len in \<open>simp_all add: sizes cfg_slot_less\<close>)
  have val: "cfg_value ?c s' = (if s' = ?s then Some (cstr value) else cfg_value cfg s')" if "s' < MAX_OPTS" for s'
  proof (rule value_update [OF sizes(3) _ cfg_slot_less that _ l])
    show "\<forall>p \<in> set (c_opts cfg). p = None \<or> is_ok (load (c_heap cfg) p)"
      using r by blast
    show "\<exists>b'. load ?h p = Inr b' \<and> o_value b' = o_value b" if "load (c_heap cfg) p = Inr b" for p b
      using old [OF that] by blast
  qed (simp add: setopt_block_def)
  have "cfg_value ?cfg s' = cfg_value ?c s'" for s'
    by (simp add: cfg_value_def)
  moreover have "cfg_entry ?cfg x = cfg_entry cfg x" if x: "x \<in> set as" for x
  proof -
    obtain b0 where "load (c_heap cfg) (Some x) = Inr b0"
      using r chain_load [of o_next "c_heap cfg" "c_first cfg" "as" None x] x by auto
    then show ?thesis
      using old [of "Some x" b0] by (auto simp: cfg_entry_eq)
  qed
  then have "cfg_log ?cfg = cfg_log cfg @ [(cstr key, cstr value)]"
    unfolding cfg_rep_log [OF rep] cfg_rep_log [OF assms(1)]
    using cfg_entry_eq [of ?cfg ?a] l by (simp add: setopt_block_def)
  ultimately show ?thesis
    using rep val setopt_later [OF assms(1-3) _ assms(4-6), of b] lb(1) by (auto simp: as)
qed

lemma setopt_rep:
  assumes "cfg_rep cfg as" "c_lastopt cfg \<noteq> int (cfg_slot key)"
    "terminated key" "terminated value" "3 \<le> mem"
  shows "\<exists>cfg' as'. config_setopt mem cfg key value = Inr cfg' \<and> cfg_rep cfg' as'
    \<and> c_lastopt cfg' = int (cfg_slot key)
    \<and> (\<forall>s < MAX_OPTS. cfg_value cfg' s = (if s = cfg_slot key then Some (cstr value) else cfg_value cfg s))
    \<and> cfg_log cfg' = cfg_log cfg @ [(cstr key, cstr value)]"
  using setopt_first_rep [of cfg key "value" mem] setopt_later_rep [of cfg "as" key "value" mem] assms
  by (cases "as = []") auto

interpretation cf: slot_table config_set_literal "\<lambda>key cfg. cfg_value cfg (cfg_slot key)"
  "\<lambda>text. cstr (text @ [0])" cfg_slot cfg_inv terminated "\<lambda>cfg s. c_lastopt cfg \<noteq> int s"
proof (unfold_locales, goal_cases)
  case (1 cfg key v)
  then obtain as where "cfg_rep cfg as"
    using cfg_inv_rep by blast
  then obtain cfg' as' where "config_setopt 3 cfg key (v @ [0]) = Inr cfg'" "cfg_rep cfg' as'"
    "c_lastopt cfg' = int (cfg_slot key)"
    "\<forall>s < MAX_OPTS. cfg_value cfg' s = (if s = cfg_slot key then Some (cstr (v @ [0])) else cfg_value cfg s)"
    using setopt_rep [of cfg "as" key "v @ [0]" 3] 1 by auto
  then show ?case
    by (auto simp: config_set_literal_def cfg_slot_less cfg_rep_inv)
qed

text \<open>The order of the calls is the order of the chain as long as no call hits the slot of the one before.\<close>

lemma insert_all_log:
  assumes "cfg_rep cfg as" "list_all (\<lambda>(k, v). terminated k) kvs"
    "distinct_adj (c_lastopt cfg # map (\<lambda>(k, v). int (cfg_slot k)) kvs)"
  shows "\<exists>cfg' as'. insert_all config_set_literal kvs cfg = Inr cfg' \<and> cfg_rep cfg' as'
    \<and> cfg_log cfg' = cfg_log cfg @ map (\<lambda>(k, v). (cstr k, cstr (v @ [0]))) kvs"
  using assms
proof (induction kvs arbitrary: cfg "as")
  case Nil
  then show ?case by auto
next
  case (Cons kv kvs)
  obtain k v where kv: "kv = (k, v)" by (cases kv)
  obtain cfg' as' where c: "config_setopt 3 cfg k (v @ [0]) = Inr cfg'" "cfg_rep cfg' as'"
    "c_lastopt cfg' = int (cfg_slot k)" "cfg_log cfg' = cfg_log cfg @ [(cstr k, cstr (v @ [0]))]"
    using setopt_rep [OF Cons.prems(1), of k "v @ [0]" 3] Cons.prems(2,3) by (auto simp: kv)
  show ?case
    using Cons.IH [OF c(2)] Cons.prems(2,3) c by (auto simp: kv config_set_literal_def)
qed

section \<open>The saved text\<close>

fun cfg_text :: "(byte list \<times> byte list) list \<Rightarrow> byte list" where
  "cfg_text [] = []"
| "cfg_text ((k, v) # kvs) = k @ of_str '' = '' @ v @ [10] @ cfg_text kvs"

definition plain :: "byte list \<times> byte list \<Rightarrow> bool" where
  "plain = (\<lambda>(k, v). 0 \<notin> set k \<and> 0 \<notin> set v)"

lemma print_plain: "0 \<notin> set s \<Longrightarrow> print_str (0 # r) s = Inr s" "0 \<notin> set s \<Longrightarrow> print_str [] s = Inl Unterminated"
  by (simp_all add: print_str_def cstr_append_zero) (simp add: terminated_def)

lemma save_chain:
  assumes "chain o_next (c_heap cfg) p as None" "length as \<le> fuel" "list_all plain (map (cfg_entry cfg) as)"
  shows "config_save_loop (0 # r) fuel (c_heap cfg) p = Inr (cfg_text (map (cfg_entry cfg) as))
    \<and> (as \<noteq> [] \<longrightarrow> config_save_loop [] fuel (c_heap cfg) p = Inl Unterminated)"
  using assms
proof (induction as arbitrary: p fuel)
  case Nil
  then show ?case by simp
next
  case (Cons a as)
  then obtain b n where b: "p = Some a" "load (c_heap cfg) (Some a) = Inr b"
      "chain o_next (c_heap cfg) (o_next b) as None" "fuel = Suc n"
    by (cases fuel) (auto simp: chain_Cons_iff simp del: chain.simps(2))
  show ?case
    using Cons.IH [OF b(3), of n] Cons.prems b
    by (simp add: cfg_entry_eq plain_def print_plain)
qed

lemma config_save_log:
  assumes "cfg_rep cfg as" "list_all plain (cfg_log cfg)" "length (cfg_log cfg) \<le> fuel"
  shows "config_save (0 # r) fuel cfg = Inr (cfg_text (cfg_log cfg))"
    and "cfg_log cfg \<noteq> [] \<Longrightarrow> config_save [] fuel cfg = Inl Unterminated"
  using save_chain [of cfg "c_first cfg" "as" fuel r] assms
  by (simp_all add: config_save_def cfg_rep_log [OF assms(1)] cfg_rep_def)

section \<open>Reading a saved text\<close>

lemma get_chars_line:
  "10 \<notin> set l \<Longrightarrow> length l < n \<Longrightarrow> get_chars n (l @ 10 # rest) = (l @ [10], rest, False)"
proof (induction l arbitrary: n)
  case Nil
  then show ?case by (cases n) auto
next
  case (Cons c l)
  then show ?case by (cases n) auto
qed

lemma get_chars_Nil: "n \<noteq> 0 \<Longrightarrow> get_chars n [] = ([], [], True)"
  by (cases n) auto

lemma file_get_line_eq:
  assumes "0 \<notin> set l" "length l + 2 \<le> length buffer"
  shows "file_get_line (l @ [10]) buffer = Inr (l @ 0 # 0 # drop (length l + 2) buffer)"
proof -
  have "memcpy buffer 0 (l @ [10, 0]) = Inr ((l @ [10]) @ 0 # drop (length l + 2) buffer)"
    using assms(2) by (simp add: memcpy_def)
  moreover have "strlen ((l @ [10]) @ 0 # drop (length l + 2) buffer) = Inr (Suc (length l))"
    using assms(1) cstr_append_zero [of "l @ [10]"] by (simp add: strlen_ok del: append_assoc)
  ultimately show ?thesis
    by (simp add: file_get_line_def list_update_append nth_append)
qed

lemma scan_while_split:
  "list_all P w \<Longrightarrow> \<not> P c \<Longrightarrow>
    scan_while P (pre @ w @ c # post) (length pre) = Inr (length pre + length w)"
proof (induction w arbitrary: pre)
  case Nil
  then show ?case by (subst scan_while.simps) simp
next
  case (Cons b w)
  then show ?case
    using Cons.IH [of "pre @ [b]"] by (subst scan_while.simps) simp
qed

text \<open>A word that \<open>strtok\<close> takes whole.\<close>

definition token :: "byte list \<Rightarrow> bool" where
  "token w \<longleftrightarrow> w \<noteq> [] \<and> list_all (\<lambda>c. c \<noteq> 0 \<and> c \<noteq> 10 \<and> \<not> is_delim c) w"

lemma strtok_at_split:
  assumes "list_all is_delim d" "token w" "c = 0 \<or> is_delim c"
  shows "strtok_at (pre @ d @ w @ c # post) (length pre) =
    Inr (Some (length (pre @ d)), pre @ d @ w @ 0 # post,
      length (pre @ d) + length w + (if c = 0 then 0 else 1))"
proof -
  obtain b w' where w: "w = b # w'" "b \<noteq> 0" "\<not> is_delim b"
    using assms(2) by (cases w) (auto simp: token_def)
  have 1: "scan_while is_delim (pre @ d @ w @ c # post) (length pre) = Inr (length (pre @ d))"
    using scan_while_split [OF assms(1) w(3), of pre] by (simp add: w(1))
  have 2: "scan_while (\<lambda>c. c \<noteq> 0 \<and> \<not> is_delim c) (pre @ d @ w @ c # post) (length (pre @ d))
      = Inr (length (pre @ d) + length w)"
    using scan_while_split [of "\<lambda>c. c \<noteq> 0 \<and> \<not> is_delim c" w c "pre @ d" post] assms
    by (auto simp: token_def list_all_iff)
  have "(pre @ d @ w @ c # post) ! length (pre @ d) \<noteq> 0"
    using w by (simp add: nth_append)
  moreover have "(pre @ d @ w @ c # post) ! (length (pre @ d) + length w) = c"
    using nth_append_length [of "pre @ d @ w" c post] by (simp add: add.assoc)
  moreover have "(pre @ d @ w @ c # post)[length (pre @ d) + length w := 0] = pre @ d @ w @ 0 # post"
    using list_update_length [of "pre @ d @ w" c post 0] by (simp add: add.assoc)
  ultimately show ?thesis
    using 1 2 assms(3) by (auto simp: strtok_at_def)
qed

lemma strtok_at_end: "strtok_at (pre @ 0 # post) (length pre) = Inr (None, pre @ 0 # post, length pre)"
  using scan_while_split [of is_delim "[]" 0 pre post]
  by (simp add: strtok_at_def is_delim_def)

lemma setopt_cstr:
  assumes "terminated key" "terminated value"
  shows "config_setopt mem cfg key value = config_setopt mem cfg (cstr key @ [0]) (cstr value @ [0])"
proof -
  have "config_opt_init mem key value = config_opt_init mem (cstr key @ [0]) (cstr value @ [0])"
    using assms by (simp add: config_opt_init_def strlen_ok cstr_append_zero take_cstr)
  moreover have "config_get_hash key = config_get_hash (cstr key @ [0])"
    using assms by (simp add: config_get_hash_eq cstr_append_zero)
  ultimately show ?thesis
    by (simp add: config_setopt_def)
qed

lemma load_line_entry:
  assumes "token k" "token v"
  shows "config_load_line mem (k @ 32 # 61 # 32 # v @ 0 # post) (Some cfg) =
    rbind (config_setopt mem cfg (k @ [0]) (v @ [0])) (\<lambda>cfg.
      Inr (k @ 0 # 61 # 32 # v @ 0 # post, Some cfg))"
proof -
  have 1: "strtok_at (k @ 32 # 61 # 32 # v @ 0 # post) 0 =
      Inr (Some 0, k @ 0 # 61 # 32 # v @ 0 # post, Suc (length k))"
    using strtok_at_split [of "[]" k 32 "[]"] assms(1) by (simp add: is_delim_def)
  have 2: "strtok_at (k @ 0 # 61 # 32 # v @ 0 # post) (Suc (length k)) =
      Inr (Some (length k + 3), k @ 0 # 61 # 32 # v @ 0 # post, length k + 3 + length v)"
    using strtok_at_split [of "[61, 32]" v 0 "k @ [0]" post] assms(2) by (simp add: is_delim_def)
  have nz: "0 \<notin> set k" "0 \<notin> set v"
    using assms by (auto simp: token_def list_all_iff)
  show ?thesis
    using setopt_cstr [of "k @ 0 # 61 # 32 # v @ 0 # post" "v @ 0 # post" mem cfg]
    by (simp add: config_load_line_def 1 2 nz cstr_append_zero)
qed

lemma load_line_stale:
  assumes "token k"
  shows "config_load_line mem (k @ 0 # post) cfg = Inr (k @ 0 # post, cfg)"
proof -
  have "strtok_at (k @ 0 # post) 0 = Inr (Some 0, k @ 0 # post, length k)"
    using strtok_at_split [of "[]" k 0 "[]" post] assms by simp
  then show ?thesis
    using strtok_at_end [of k post] by (simp add: config_load_line_def)
qed

text \<open>Entries whose line fits into the buffer.\<close>

definition loadable :: "byte list \<times> byte list \<Rightarrow> bool" where
  "loadable = (\<lambda>(k, v). token k \<and> token v \<and> length k + length v + 4 < MAX_LEN)"

lemma load_loop_entries:
  assumes "list_all loadable kvs" "length buffer = MAX_LEN"
    "kvs \<noteq> [] \<or> (\<exists>k post. token k \<and> buffer = k @ 0 # post)"
  shows "config_load_loop 3 (cfg_text kvs) buffer (Some cfg) =
    rbind (insert_all config_set_literal (map (\<lambda>(k, v). (k @ [0], v)) kvs) cfg) (\<lambda>cfg. Inr (Some cfg))"
  using assms
proof (induction kvs arbitrary: buffer cfg)
  case Nil
  then obtain k post where "token k" "buffer = k @ 0 # post" by auto
  then show ?case
    using load_line_stale [of k 3 post]
    by (subst config_load_loop.simps) (simp add: get_chars_Nil MAX_LEN_def file_get_line_def)
next
  case (Cons kv kvs)
  obtain k v where kv: "kv = (k, v)" by (cases kv)
  let ?l = "k @ 32 # 61 # 32 # v"
  have t: "token k" "token v" "length ?l < MAX_LEN - 1" "length ?l + 2 \<le> length buffer"
    using Cons.prems(1,2) by (auto simp: kv loadable_def)
  have nl: "10 \<notin> set ?l" "0 \<notin> set ?l"
    using t(1,2) by (auto simp: token_def list_all_iff)
  let ?post = "0 # drop (length ?l + 2) buffer"
  have tx: "cfg_text (kv # kvs) = ?l @ 10 # cfg_text kvs"
    by (simp add: kv of_str_def)
  have line: "config_load_line 3 (?l @ 0 # ?post) (Some cfg) =
      rbind (config_set_literal (k @ [0]) v cfg) (\<lambda>cfg. Inr (k @ 0 # 61 # 32 # v @ 0 # ?post, Some cfg))"
    using load_line_entry [OF t(1,2), of 3 ?post cfg] by (simp add: config_set_literal_def)
  have len: "length (k @ 0 # 61 # 32 # v @ 0 # ?post) = MAX_LEN"
    using t(4) Cons.prems(2) by simp
  have IH: "config_load_loop 3 (cfg_text kvs) (k @ 0 # 61 # 32 # v @ 0 # ?post) (Some c) =
      rbind (insert_all config_set_literal (map (\<lambda>(k, v). (k @ [0], v)) kvs) c) (\<lambda>cfg. Inr (Some cfg))" for c
    using Cons.prems(1) t(1) by (intro Cons.IH [OF _ len]) auto
  have "config_load_loop 3 (cfg_text (kv # kvs)) buffer (Some cfg) =
      rbind (config_load_line 3 (?l @ 0 # ?post) (Some cfg))
        (\<lambda>(buffer, cfg). config_load_loop 3 (cfg_text kvs) buffer cfg)"
    unfolding tx
    by (subst config_load_loop.simps, subst get_chars_line [OF nl(1) t(3)])
      (simp only: file_get_line_eq [OF nl(2) t(4)] Let_def case_prod_conv rbind_Inr if_False)
  also have "\<dots> = rbind (config_set_literal (k @ [0]) v cfg) (\<lambda>c.
      config_load_loop 3 (cfg_text kvs) (k @ 0 # 61 # 32 # v @ 0 # ?post) (Some c))"
    unfolding line by (simp add: rbind_assoc)
  finally show ?case
    unfolding IH by (simp add: kv rbind_assoc)
qed

section \<open>Destroying the table\<close>

text \<open>The slots hold different live options.\<close>

definition slots_ok :: "cfg_t \<Rightarrow> bool" where
  "slots_ok cfg \<longleftrightarrow> c_size cfg \<le> length (c_opts cfg)
     \<and> (\<forall>i < length (c_opts cfg). \<forall>a. c_opts cfg ! i = Some a \<longrightarrow>
          is_ok (load (c_heap cfg) (Some a)) \<and> (\<forall>j < length (c_opts cfg). j \<noteq> i \<longrightarrow> c_opts cfg ! j \<noteq> Some a))"

lemma config_init_slots: "config_init mem n = Some cfg \<Longrightarrow> slots_ok cfg"
  by (auto simp: config_init_def slots_ok_def split: if_splits)

lemma config_setopt_slots:
  assumes "config_setopt mem cfg key value = Inr cfg'" "slots_ok cfg"
  shows "slots_ok cfg'"
proof -
  obtain hash opt where 1: "config_get_hash key = Inr hash" "config_opt_init mem key value = Inr opt"
    using assms(1) by (auto simp: config_setopt_def Let_def rbind_eq_Inr)
  define pos where "pos = unat (hash AND c_mask cfg)"
  obtain p h where ph: "(case opt of None \<Rightarrow> (None, c_heap cfg) | Some o1 \<Rightarrow> alloc (c_heap cfg) o1) = (p, h)"
    by fastforce
  then have p: "p = None \<and> h = c_heap cfg \<or> (\<exists>b. p = Some (length (c_heap cfg)) \<and> h = c_heap cfg @ [Some b])"
    by (auto simp: alloc_def split: option.splits)
  note run = assms(1) [unfolded config_setopt_def Let_def 1 rbind_Inr ph case_prod_conv pos_def [symmetric]]
  have pos: "pos < length (c_opts cfg)"
    using run by (simp split: if_splits)
  have h': "c_opts cfg' = (c_opts cfg)[pos := p]" "c_size cfg' = c_size cfg"
      "c_heap cfg' = h \<or> (\<exists>a b b'. load h (Some a) = Inr b' \<and> c_heap cfg' = h[a := Some b])"
  proof -
    have "c_opts cfg' = (c_opts cfg)[pos := p] \<and> c_size cfg' = c_size cfg
      \<and> (c_heap cfg' = h \<or> (\<exists>a b b'. load h (Some a) = Inr b' \<and> c_heap cfg' = h[a := Some b]))"
    proof (cases "c_lastopt cfg < 0")
      case True
      then show ?thesis
        using run pos by auto
    next
      case False
      let ?l = "(c_opts cfg)[pos := p] ! nat (c_lastopt cfg)"
      obtain b h1 where "load h ?l = Inr b" "store h ?l (b\<lparr>o_next := p\<rparr>) = Inr h1"
          "cfg' = cfg\<lparr>c_opts := (c_opts cfg)[pos := p], c_heap := h1, c_lastopt := int pos\<rparr>"
        using run pos False by (auto simp: rbind_eq_Inr)
      then show ?thesis
        by (cases ?l) (auto simp: store_def)
    qed
    then show "c_opts cfg' = (c_opts cfg)[pos := p]" "c_size cfg' = c_size cfg"
      "c_heap cfg' = h \<or> (\<exists>a b b'. load h (Some a) = Inr b' \<and> c_heap cfg' = h[a := Some b])"
      by blast+
  qed
  have old: "is_ok (load (c_heap cfg') (Some a))" if "is_ok (load (c_heap cfg) (Some a))" for a
    using that p h'(3) load_alloc_old [of "c_heap cfg" "Some a"] by (auto simp: is_ok_iff load_update)
  have new: "is_ok (load (c_heap cfg') p)" if "p \<noteq> None"
    using that p h'(3) load_alloc_new [of "c_heap cfg"] by (auto simp: is_ok_iff load_update)
  have fresh: "c_opts cfg ! i \<noteq> Some (length (c_heap cfg))" if "i < length (c_opts cfg)" for i
    using assms(2) that by (auto simp: slots_ok_def is_ok_iff load_eq_Inr)
  have live: "is_ok (load (c_heap cfg) (Some a))" "j \<noteq> i \<Longrightarrow> c_opts cfg ! j \<noteq> Some a"
    if "i < length (c_opts cfg)" "c_opts cfg ! i = Some a" "j < length (c_opts cfg)" for i j a
    using assms(2) that unfolding slots_ok_def by blast+
  have "is_ok (load (c_heap cfg') (Some a)) \<and> (\<forall>j < length (c_opts cfg'). j \<noteq> i \<longrightarrow> c_opts cfg' ! j \<noteq> Some a)"
    if i: "i < length (c_opts cfg')" "c_opts cfg' ! i = Some a" for i a
  proof (cases "i = pos")
    case True
    then have "p = Some a" "a = length (c_heap cfg)"
      using i p pos by (auto simp: h'(1))
    then show ?thesis
      using new fresh True by (simp add: h'(1))
  next
    case False
    then have o': "i < length (c_opts cfg)" "c_opts cfg ! i = Some a"
      using i by (simp_all add: h'(1))
    have "p \<noteq> Some a"
      using fresh [OF o'(1)] o'(2) p by auto
    then show ?thesis
      using live [OF o'] old o'(1) pos by (auto simp: h'(1) nth_list_update)
  qed
  then show ?thesis
    using assms(2) by (simp add: slots_ok_def h'(1,2))
qed

lemma config_load_line_slots:
  assumes "config_load_line mem buffer cfg = Inr (buffer', cfg')" "pred_option slots_ok cfg"
  shows "pred_option slots_ok cfg'"
  using assms config_setopt_slots
  by (fastforce simp: config_load_line_def rbind_eq_Inr split: option.splits)

lemma config_load_loop_slots:
  "config_load_loop mem inp buffer cfg = Inr cfg' \<Longrightarrow> pred_option slots_ok cfg \<Longrightarrow> pred_option slots_ok cfg'"
proof (induction mem inp buffer cfg rule: config_load_loop.induct)
  case (1 mem inp buffer cfg)
  obtain l r eof where l: "get_chars (MAX_LEN - 1) inp = (l, r, eof)"
    by (metis prod_cases3)
  obtain buffer1 buffer2 cfg2 where s: "file_get_line l buffer = Inr buffer1"
      "config_load_line mem buffer1 cfg = Inr (buffer2, cfg2)"
      "(if eof then Inr cfg2 else config_load_loop mem r buffer2 cfg2) = Inr cfg'"
    using "1.prems"(1) [unfolded config_load_loop.simps [of mem inp]] by (auto simp: l [simplified] rbind_eq_Inr)
  have "pred_option slots_ok cfg2"
    by (rule config_load_line_slots [OF s(2) "1.prems"(2)])
  then show ?case
    using s(3) "1.IH" [OF l [symmetric] refl refl s(1,2) refl] by (auto split: if_splits)
qed

lemma insert_literals_slots:
  "insert_all config_set_literal kvs cfg = Inr cfg' \<Longrightarrow> slots_ok cfg \<Longrightarrow> slots_ok cfg'"
proof (induction kvs arbitrary: cfg)
  case (Cons kv kvs)
  obtain k v cfg1 where "kv = (k, v)" "config_set_literal k v cfg = Inr cfg1" "insert_all config_set_literal kvs cfg1 = Inr cfg'"
    using Cons.prems(1) by (cases kv) (auto simp: rbind_eq_Inr)
  moreover have "slots_ok cfg1"
    using calculation(2) config_setopt_slots Cons.prems(2) by (auto simp: config_set_literal_def)
  ultimately show ?case
    using Cons.IH by blast
qed simp

text \<open>Each option in the table is freed, and none twice.\<close>

lemma config_destroy_loop_ok:
  assumes "k \<le> c_size cfg" "c_size cfg \<le> length (c_opts cfg)"
    "\<forall>i a. c_size cfg - k \<le> i \<and> i < c_size cfg \<and> c_opts cfg ! i = Some a \<longrightarrow> is_ok (load (c_heap cfg) (Some a))
      \<and> (\<forall>j < c_size cfg. j \<noteq> i \<longrightarrow> c_opts cfg ! j \<noteq> Some a)"
  shows "\<exists>h. config_destroy_loop k cfg = Inr (cfg\<lparr>c_heap := h\<rparr>) \<and> length h = length (c_heap cfg)
    \<and> (\<forall>a < length h. h ! a = (if \<exists>i. c_size cfg - k \<le> i \<and> i < c_size cfg \<and> c_opts cfg ! i = Some a
        then None else c_heap cfg ! a))"
  using assms
proof (induction k arbitrary: cfg)
  case 0
  then show ?case
    by (intro exI [of _ "c_heap cfg"]) auto
next
  case (Suc k)
  let ?i = "c_size cfg - Suc k"
  have i: "?i < c_size cfg" "c_size cfg - k = Suc ?i"
    using Suc.prems(1) by auto
  obtain h where h: "(if c_opts cfg ! ?i \<noteq> None then rbind (config_opt_destroy (c_heap cfg) (c_opts cfg ! ?i))
        (\<lambda>h. Inr (cfg\<lparr>c_heap := h\<rparr>)) else Inr cfg) = Inr (cfg\<lparr>c_heap := h\<rparr>)"
      "h = (case c_opts cfg ! ?i of None \<Rightarrow> c_heap cfg | Some a \<Rightarrow> (c_heap cfg)[a := None])"
    using spec [OF Suc.prems(3), of ?i] i(1)
    by (cases "c_opts cfg ! ?i") (auto simp: config_opt_destroy_def is_ok_iff free_ok)
  have rest: "is_ok (load h (Some a))"
    if "Suc ?i \<le> j" "j < c_size cfg" "c_opts cfg ! j = Some a" for j a
  proof -
    have "c_opts cfg ! ?i \<noteq> Some a" "is_ok (load (c_heap cfg) (Some a))"
      using Suc.prems(3) [rule_format, of j a] that i(1) by auto
    then show ?thesis
      using h(2) load_update_other [of _ a "c_heap cfg" None] by (auto split: option.splits)
  qed
  have "\<exists>h'. config_destroy_loop k (cfg\<lparr>c_heap := h\<rparr>) = Inr (cfg\<lparr>c_heap := h\<rparr>\<lparr>c_heap := h'\<rparr>) \<and> length h' = length h
    \<and> (\<forall>a < length h'. h' ! a = (if \<exists>j. Suc ?i \<le> j \<and> j < c_size cfg \<and> c_opts cfg ! j = Some a then None else h ! a))"
  proof -
    have "\<forall>i a. Suc ?i \<le> i \<and> i < c_size cfg \<and> c_opts cfg ! i = Some a \<longrightarrow> is_ok (load h (Some a))
        \<and> (\<forall>j < c_size cfg. j \<noteq> i \<longrightarrow> c_opts cfg ! j \<noteq> Some a)"
      using rest Suc.prems(3) by (metis Suc_leD)
    then show ?thesis
      using Suc.IH [of "cfg\<lparr>c_heap := h\<rparr>"] Suc.prems(1,2) by (simp add: i(2) cong: if_cong)
  qed
  then obtain h' where h': "config_destroy_loop k (cfg\<lparr>c_heap := h\<rparr>) = Inr (cfg\<lparr>c_heap := h'\<rparr>)" "length h' = length h"
      "\<forall>a < length h'. h' ! a = (if \<exists>j. Suc ?i \<le> j \<and> j < c_size cfg \<and> c_opts cfg ! j = Some a then None else h ! a)"
    by auto
  have "length h = length (c_heap cfg)"
    using h(2) by (simp split: option.splits)
  moreover have "h ! a = (if c_opts cfg ! ?i = Some a then None else c_heap cfg ! a)" if "a < length (c_heap cfg)" for a
    using h(2) that by (auto simp: nth_list_update split: option.splits)
  moreover have "(\<exists>j. ?i \<le> j \<and> j < c_size cfg \<and> c_opts cfg ! j = Some a)
      \<longleftrightarrow> c_opts cfg ! ?i = Some a \<or> (\<exists>j. Suc ?i \<le> j \<and> j < c_size cfg \<and> c_opts cfg ! j = Some a)" for a
    using i(1) by (metis Suc_leD le_antisym not_less_eq_eq order_refl)
  ultimately show ?case
    using h(1) h' by (intro exI [of _ h']) (auto simp: Let_def)
qed

lemma config_destroy_ok:
  assumes "slots_ok cfg"
  shows "\<exists>h. config_destroy (Some cfg) = Inr (cfg\<lparr>c_heap := h\<rparr>)
    \<and> (\<forall>a < length h. h ! a = (if Some a \<in> set (take (c_size cfg) (c_opts cfg)) then None else c_heap cfg ! a))"
proof -
  have len: "c_size cfg \<le> length (c_opts cfg)"
    using assms by (simp add: slots_ok_def)
  then have s: "Some a \<in> set (take (c_size cfg) (c_opts cfg)) \<longleftrightarrow> (\<exists>i < c_size cfg. c_opts cfg ! i = Some a)" for a
    by (auto simp: in_set_conv_nth min_def)
  have "is_ok (load (c_heap cfg) (Some a)) \<and> (\<forall>j < c_size cfg. j \<noteq> i \<longrightarrow> c_opts cfg ! j \<noteq> Some a)"
    if "i < c_size cfg" "c_opts cfg ! i = Some a" for i a
    using assms that len unfolding slots_ok_def by (meson less_le_trans)
  with config_destroy_loop_ok [OF order_refl len] obtain h where
    "config_destroy_loop (c_size cfg) cfg = Inr (cfg\<lparr>c_heap := h\<rparr>)"
    "\<forall>a < length h. h ! a = (if \<exists>i. i < c_size cfg \<and> c_opts cfg ! i = Some a then None else c_heap cfg ! a)"
    by auto
  then show ?thesis
    unfolding s by (intro exI [of _ h]) (simp add: config_destroy_def)
qed

section \<open>Properties\<close>

lemma defaults_slots: "distinct (map (\<lambda>(k, v). cfg_slot k) config_defaults)"
  by code_simp

lemma defaults_plain:
  "list_all (\<lambda>(k, v). terminated k \<and> 0 \<notin> set (cstr k) \<and> 0 \<notin> set v \<and> loadable (cstr k, v)) config_defaults"
  by code_simp

definition defaults_log :: "(byte list \<times> byte list) list" where
  "defaults_log = map (\<lambda>(k, v). (cstr k, v)) config_defaults"

lemma defaults_log_facts:
  "map (\<lambda>(k, v). (k @ [0], v)) defaults_log = config_defaults"
  "map (\<lambda>(k, v). (cstr k, cstr (v @ [0]))) config_defaults = defaults_log"
  "list_all plain defaults_log" "list_all loadable defaults_log" "length defaults_log = 5"
  by code_simp+

lemma insert_defaults:
  assumes "config_init mem MAX_OPTS = Some cfg0"
  shows "\<exists>cfg as. insert_all config_set_literal config_defaults cfg0 = Inr cfg \<and> cfg_rep cfg as
    \<and> cfg_log cfg = defaults_log
    \<and> (\<forall>(k, v) \<in> set config_defaults. config_getopt cfg k = Inr (Some v))"
proof -
  note r = config_init_rep [OF assms]
  have l: "c_lastopt cfg0 = - 1" "cfg_log cfg0 = []"
    using r by (simp_all add: cfg_rep_log [OF r]) (simp add: cfg_rep_def)
  have t: "list_all (\<lambda>(k, v). terminated k) config_defaults"
    using defaults_plain by (auto simp: list_all_iff)
  have "distinct_adj (map (\<lambda>(k, v). int (cfg_slot k)) config_defaults)"
    by code_simp
  then have "distinct_adj (c_lastopt cfg0 # map (\<lambda>(k, v). int (cfg_slot k)) config_defaults)"
    by (simp add: l config_defaults_def)
  from insert_all_log [OF r t this] obtain cfg as where
    c: "insert_all config_set_literal config_defaults cfg0 = Inr cfg" "cfg_rep cfg as" "cfg_log cfg = defaults_log"
    unfolding l(2) defaults_log_facts(2) by auto
  have "config_getopt cfg k = Inr (Some v)" if kv: "(k, v) \<in> set config_defaults" for k v
  proof -
    have k: "terminated k" and v: "cstr (v @ [0]) = v"
      using kv defaults_plain by (auto simp: list_all_iff cstr_append_zero)
    have "distinct (map fst (map (\<lambda>(k, v). (cfg_slot k, v)) config_defaults))"
      using defaults_slots by (simp add: comp_def case_prod_unfold)
    then have m: "map_of (map (\<lambda>(k, v). (cfg_slot k, v)) config_defaults) (cfg_slot k) = Some v"
      using kv by (intro map_of_is_SomeI) force+
    have "list_all (\<lambda>(k, v). terminated k \<and> c_lastopt cfg0 \<noteq> int (cfg_slot k)) config_defaults"
      using t l(1) by (auto simp: list_all_iff)
    from cf.insert_all_spec [OF cfg_rep_inv [OF r] this defaults_slots] k c(1) m
    have "cfg_value cfg (cfg_slot k) = Some (cstr (v @ [0]))"
      by auto
    then show ?thesis
      using getopt_eq [OF c(2) k] v by simp
  qed
  with c show ?thesis
    by blast
qed

lemma config_default_ok:
  assumes "5 \<le> fuel" and "length buffer = MAX_LEN"
  shows "(\<exists>cfg text. config_default (0 # r) fuel = Inr (cfg, text)
      \<and> (\<forall>(k, v) \<in> set config_defaults. config_getopt cfg k = Inr (Some v) \<and> \<not> terminated v)
      \<and> config_load 3 buffer (Some text) = Inr (Some cfg))
    \<and> config_default [] fuel = Inl Unterminated"
proof -
  define cfg0 where "cfg0 = the (config_init 2 MAX_OPTS)"
  have i: "config_init 2 MAX_OPTS = Some cfg0" "config_init 3 MAX_OPTS = Some cfg0"
    by (simp_all add: cfg0_def config_init_def)
  obtain cfg as where c: "insert_all config_set_literal config_defaults cfg0 = Inr cfg" "cfg_rep cfg as"
      "cfg_log cfg = defaults_log"
    and get: "\<forall>(k, v) \<in> set config_defaults. config_getopt cfg k = Inr (Some v)"
    using insert_defaults [OF i(1)] by blast
  have "\<forall>(k, v) \<in> set config_defaults. config_getopt cfg k = Inr (Some v) \<and> \<not> terminated v"
  proof clarify
    fix k v
    assume "(k, v) \<in> set config_defaults"
    then show "config_getopt cfg k = Inr (Some v) \<and> \<not> terminated v"
      using bspec [OF get, of "(k, v)"] bspec [OF defaults_plain [unfolded list_all_iff], of "(k, v)"]
      by (simp add: terminated_def del: zero_notin_cstr)
  qed
  moreover have ne: "defaults_log \<noteq> []"
    using defaults_log_facts(5) by force
  have "config_save (0 # r) fuel cfg = Inr (cfg_text defaults_log)" "config_save [] fuel cfg = Inl Unterminated"
    using config_save_log(1) [OF c(2), of fuel r] config_save_log(2) [OF c(2), of fuel] assms(1) ne
    by (simp_all add: c(3) defaults_log_facts)
  then have "config_default (0 # r) fuel = Inr (cfg, cfg_text defaults_log)"
      "config_default [] fuel = Inl Unterminated"
    by (simp_all add: config_default_def i c(1))
  moreover have "config_load 3 buffer (Some (cfg_text defaults_log)) = Inr (Some cfg)"
    using load_loop_entries [OF defaults_log_facts(4) assms(2), of cfg0] ne
    by (simp add: config_load_def i defaults_log_facts(1) c(1))
  ultimately show ?thesis
    by blast
qed

text \<open>
  The defaults: the five names hash to five slots, so that every option is found with its
  value, but each value is handed out without a terminator; where the memory behind
  the blocks happens to be zero, the saved text is one line per option, and loading it
  gives the same table again; read strictly, saving already runs past the first key.
\<close>

theorem config_default_saved_and_loaded:
  assumes "5 \<le> fuel" and "length buffer = MAX_LEN"
  shows "(\<exists>cfg text. config_default (0 # r) fuel = Inr (cfg, text)
      \<and> (\<forall>(k, v) \<in> set config_defaults. config_getopt cfg k = Inr (Some v) \<and> \<not> terminated v)
      \<and> config_load 3 buffer (Some text) = Inr (Some cfg))
    \<and> config_default [] fuel = Inl Unterminated"
  by (rule config_default_ok [OF assms])

lemma config_default_saved_and_loaded_witness:
  "config_default [] 5 = Inl Unterminated"
  using config_default_saved_and_loaded [of 5 "replicate MAX_LEN 0"] by simp

text \<open>
  Setting an option in a slot other than the one set last stores the value for every key of
  that slot, changes no other slot and appends the option to the saved text.
\<close>

theorem config_setopt_getopt:
  assumes "cfg_rep cfg as" and "c_lastopt cfg \<noteq> int (cfg_slot key)"
    and "terminated key" and "terminated value" and "terminated key'" and "3 \<le> mem"
  shows "\<exists>cfg' as'. config_setopt mem cfg key value = Inr cfg' \<and> cfg_rep cfg' as'
    \<and> config_getopt cfg' key' = (if cfg_slot key' = cfg_slot key then Inr (Some (cstr value))
        else config_getopt cfg key')
    \<and> cfg_log cfg' = cfg_log cfg @ [(cstr key, cstr value)]"
  using setopt_rep [OF assms(1-4,6)] getopt_eq [OF assms(1,5)] getopt_eq [OF _ assms(5)] cfg_slot_less [of key']
  by fastforce

lemma config_setopt_getopt_witness:
  "\<exists>cfg cfg'. config_init 2 MAX_OPTS = Some cfg
    \<and> config_setopt 3 cfg (c_str ''map'') (c_str ''ver1.map'') = Inr cfg'
    \<and> config_getopt cfg' (c_str ''map'') = Inr (Some (of_str ''ver1.map''))"
proof -
  define cfg where "cfg = the (config_init 2 MAX_OPTS)"
  have i: "config_init 2 MAX_OPTS = Some cfg" "c_lastopt cfg = - 1"
    by (simp_all add: cfg_def config_init_def)
  have t: "terminated (c_str ''map'')" "terminated (c_str ''ver1.map'')" "cstr (c_str ''ver1.map'') = of_str ''ver1.map''"
    by code_simp+
  show ?thesis
    using config_setopt_getopt [OF config_init_rep [OF i(1)] _ t(1,2,1), of 3] i t(3) by auto
qed

lemma save_loop_alloc:
  "chain o_next h p as None \<Longrightarrow> config_save_loop behind fuel (h @ [x]) p = config_save_loop behind fuel h p"
proof (induction as arbitrary: p fuel)
  case Nil
  then show ?case by simp
next
  case (Cons a as)
  then obtain b where b: "p = Some a" "load h (Some a) = Inr b" "chain o_next h (o_next b) as None"
    by (auto simp: chain_Cons_iff simp del: chain.simps(2))
  show ?case
  proof (cases fuel)
    case (Suc n)
    then show ?thesis
      using Cons.IH [OF b(3), of n] b load_alloc_old [OF b(2)] by simp
  qed (simp add: b(1))
qed

text \<open>
  Setting the same slot twice in a row links the new option to itself instead of to the
  chain: the new value is found, but a saved file stays what it was, for ever.
\<close>

theorem config_set_again_not_saved:
  assumes "cfg_rep cfg as" and "c_lastopt cfg = int (cfg_slot key)"
    and "terminated key" and "terminated value" and "3 \<le> mem"
  shows "\<exists>cfg' a. config_setopt mem cfg key value = Inr cfg'
    \<and> config_getopt cfg' key = Inr (Some (cstr value))
    \<and> c_opts cfg' ! nat (c_lastopt cfg') = Some a
    \<and> (\<exists>b. load (c_heap cfg') (Some a) = Inr b \<and> o_next b = Some a)
    \<and> config_save behind fuel cfg' = config_save behind fuel cfg"
proof -
  note set = setopt_again [OF assms]
  let ?b = "setopt_block key value\<lparr>o_next := Some (length (c_heap cfg))\<rparr>"
  have len: "cfg_slot key < length (c_opts cfg)" "c_mask cfg = of_nat MAX_OPTS - 1"
    using assms(1) cfg_slot_less [of key] by (simp_all add: cfg_rep_def)
  have l: "load (c_heap cfg @ [Some ?b]) (Some (length (c_heap cfg))) = Inr ?b"
    by (rule load_alloc_new)
  have "config_save behind fuel (cfg\<lparr>c_opts := o2, c_heap := c_heap cfg @ [x], c_lastopt := i\<rparr>)
      = config_save behind fuel cfg" for o2 x i
    using save_loop_alloc [of "c_heap cfg" "c_first cfg" "as"] assms(1)
    by (simp add: config_save_def cfg_rep_def)
  with l show ?thesis
    using len assms(3) unfolding set
    by (simp add: config_getopt_def config_get_hash_eq slot_simps) (simp add: setopt_block_def)
qed

lemma config_set_again_not_saved_witness:
  "\<exists>cfg cfg' as. cfg_rep cfg as \<and> config_save [0] 9 cfg = Inr (of_str ''map = a'' @ [10])
    \<and> config_setopt 3 cfg (c_str ''map'') (c_str ''b'') = Inr cfg'
    \<and> config_getopt cfg' (c_str ''map'') = Inr (Some (of_str ''b''))
    \<and> config_save [0] 9 cfg' = Inr (of_str ''map = a'' @ [10])"
proof -
  define c0 where "c0 = the (config_init 2 MAX_OPTS)"
  have i: "config_init 2 MAX_OPTS = Some c0" "c_lastopt c0 = - 1"
    by (simp_all add: c0_def config_init_def)
  have t: "terminated (c_str ''map'')" "terminated (c_str ''a'')" "terminated (c_str ''b'')"
      "cstr (c_str ''b'') = of_str ''b''"
    by code_simp+
  have l0: "cfg_log c0 = []"
    using cfg_rep_log [OF config_init_rep [OF i(1)]] by simp
  obtain cfg as where c: "cfg_rep cfg as" "c_lastopt cfg = int (cfg_slot (c_str ''map''))"
      "cfg_log cfg = [(cstr (c_str ''map''), cstr (c_str ''a''))]"
    using setopt_rep [OF config_init_rep [OF i(1)] _ t(1,2), of 3] i l0 by auto
  have "list_all plain (cfg_log cfg)" "cfg_text (cfg_log cfg) = of_str ''map = a'' @ [10]"
    unfolding c(3) by code_simp+
  then have "config_save [0] 9 cfg = Inr (of_str ''map = a'' @ [10])"
    using config_save_log(1) [OF c(1), of 9 "[]"] c(3) by simp
  then show ?thesis
    using config_set_again_not_saved [OF c(1,2) t(1,3), of 3 "[0]" 9] t(4) c(1) by auto
qed

end
