(* ===== verification/Player.thy ===== *)
theory Player
  imports Network
begin

text \<open>
  The table of online players (\<open>server/player.c\<close>): an array of pointers to player blocks with
  a fill count.  An entry that was never written is \<open>None\<close>; entries behind the count keep
  the stale pointers that deletions leave.  \<open>now\<close> is what \<open>time(NULL)\<close> returned.
\<close>

section \<open>Data and operations\<close>

record player_t =
  pl_token :: "byte list"
  pl_timestamp :: u64
  pl_addr :: sockaddr_in

record players_t =
  ps_p :: "ptr option list"
  ps_max :: nat
  ps_count :: nat
  ps_heap :: "player_t heap"

text \<open>\<open>!strncmp(a, b, n)\<close>.\<close>

fun strncmp_eq :: "nat \<Rightarrow> byte list \<Rightarrow> byte list \<Rightarrow> bool res" where
  "strncmp_eq 0 as bs = Inr True"
| "strncmp_eq (Suc n) (a # as) (b # bs) =
     (if a \<noteq> b then Inr False else if a = 0 then Inr True else strncmp_eq n as bs)"
| "strncmp_eq (Suc n) _ _ = Inl OutOfBounds"

definition player_init :: "byte list \<Rightarrow> sockaddr_in \<Rightarrow> u64 \<Rightarrow> player_t res" where
  "player_init token addr now =
     (if TOKEN_LEN \<le> length token
      then Inr \<lparr>pl_token = take TOKEN_LEN token, pl_timestamp = now, pl_addr = addr\<rparr>
      else Inl OutOfBounds)"

definition player_add :: "players_t \<Rightarrow> byte list \<Rightarrow> sockaddr_in \<Rightarrow> u64 \<Rightarrow> (bool \<times> players_t) res" where
  "player_add players token addr now =
     (if ps_count players = ps_max players then Inr (False, players)
      else
        rbind (player_init token addr now) (\<lambda>pl.
          let (p, h) = alloc (ps_heap players) pl in
          if ps_count players < length (ps_p players)
          then Inr (True, players\<lparr>ps_p := (ps_p players)[ps_count players := Some p],
                 ps_count := ps_count players + 1, ps_heap := h\<rparr>)
          else Inl OutOfBounds))"

text \<open>\<open>players->p[i]\<close>.\<close>

definition ps_entry :: "players_t \<Rightarrow> nat \<Rightarrow> ptr res" where
  "ps_entry players i =
     (if i < length (ps_p players)
      then (case ps_p players ! i of None \<Rightarrow> Inl Uninitialised | Some p \<Rightarrow> Inr p)
      else Inl OutOfBounds)"

fun player_get_loop :: "players_t \<Rightarrow> byte list \<Rightarrow> nat list \<Rightarrow> ptr res" where
  "player_get_loop players token [] = Inr None"
| "player_get_loop players token (i # is) =
     rbind (ps_entry players i) (\<lambda>p.
     rbind (load (ps_heap players) p) (\<lambda>pl.
     rbind (strncmp_eq TOKEN_LEN token (pl_token pl)) (\<lambda>eq.
       if eq then Inr p else player_get_loop players token is)))"

definition player_get :: "players_t \<Rightarrow> byte list \<Rightarrow> ptr res" where
  "player_get players token = player_get_loop players token [0..<ps_count players]"

text \<open>The address that is stored through the pointer, if the player is there.\<close>

definition player_get_addr :: "players_t \<Rightarrow> byte list \<Rightarrow> sockaddr_in option res" where
  "player_get_addr players token =
     rbind (player_get players token) (\<lambda>p.
       if p \<noteq> None then rbind (load (ps_heap players) p) (\<lambda>pl. Inr (Some (pl_addr pl)))
       else Inr None)"

text \<open>
  The block is freed, then \<open>memmove\<close> copies \<open>count - pos - 1\<close> bytes (the subtraction is
  modulo \<open>2 ^ 64\<close>) from the block of the next player into it.
\<close>

definition player_delete :: "players_t \<Rightarrow> nat \<Rightarrow> (bool \<times> players_t) res" where
  "player_delete players pos =
     (if ps_count players = 0 then Inr (False, players)
      else
        rbind (ps_entry players pos) (\<lambda>p.
        rbind (load (ps_heap players) p) (\<lambda>_.
        rbind (free (ps_heap players) p) (\<lambda>h.
        rbind (if pos + 1 < length (ps_p players) then Inr (ps_p players ! (pos + 1)) else Inl OutOfBounds) (\<lambda>src.
        let n = (int (ps_count players) - int pos - 1) mod 2 ^ 64 in
        rbind (if n = 0 then Inr h
               else case src of None \<Rightarrow> Inl Uninitialised
                 | Some src \<Rightarrow> rbind (load h src) (\<lambda>_. rbind (load h p) (\<lambda>_. Inr h))) (\<lambda>h.
          Inr (True, players\<lparr>ps_count := ps_count players - 1, ps_heap := h\<rparr>)))))))"

definition player_update :: "players_t \<Rightarrow> byte list \<Rightarrow> u64 \<Rightarrow> (bool \<times> players_t) res" where
  "player_update players token now =
     rbind (player_get players token) (\<lambda>p.
       if p \<noteq> None then
         rbind (load (ps_heap players) p) (\<lambda>pl.
         rbind (store (ps_heap players) p (pl\<lparr>pl_timestamp := now\<rparr>)) (\<lambda>h.
           Inr (True, players\<lparr>ps_heap := h\<rparr>)))
       else Inr (False, players))"

definition players_init :: "nat \<Rightarrow> players_t" where
  "players_init max_players =
     \<lparr>ps_p = replicate max_players None, ps_max = max_players, ps_count = 0, ps_heap = []\<rparr>"

fun players_destroy_loop :: "players_t \<Rightarrow> nat list \<Rightarrow> players_t res" where
  "players_destroy_loop players [] = Inr players"
| "players_destroy_loop players (i # is) =
     rbind (ps_entry players i) (\<lambda>p.
     rbind (free (ps_heap players) p) (\<lambda>h.
       players_destroy_loop (players\<lparr>ps_heap := h\<rparr>) is))"

definition players_destroy :: "players_t \<Rightarrow> players_t res" where
  "players_destroy players = players_destroy_loop players [0..<ps_count players]"

section \<open>Invariant and abstraction\<close>

text \<open>The addresses of the players in the table, and the players there.\<close>

definition ps_addrs :: "players_t \<Rightarrow> nat list" where
  "ps_addrs ps = map (\<lambda>p. the (the p)) (take (ps_count ps) (ps_p ps))"

definition ps_at :: "players_t \<Rightarrow> nat \<Rightarrow> player_t" where
  "ps_at ps a = the (ps_heap ps ! a)"

definition ps_players :: "players_t \<Rightarrow> player_t list" where
  "ps_players ps = map (ps_at ps) (ps_addrs ps)"

definition ps_inv :: "players_t \<Rightarrow> bool" where
  "ps_inv ps \<longleftrightarrow> ps_max ps < 2 ^ 64 \<and> ps_count ps \<le> ps_max ps \<and> length (ps_p ps) = ps_max ps
     \<and> list_all (\<lambda>p. p \<noteq> None \<and> p \<noteq> Some None) (take (ps_count ps) (ps_p ps))
     \<and> distinct (ps_addrs ps)
     \<and> list_all (\<lambda>a. is_ok (load (ps_heap ps) (Some a)) \<and> length (pl_token (ps_at ps a)) = TOKEN_LEN)
         (ps_addrs ps)"

text \<open>Two tokens are the same up to their terminators.\<close>

definition same_token :: "byte list \<Rightarrow> byte list \<Rightarrow> bool" where
  "same_token a b \<longleftrightarrow> cstr (take TOKEN_LEN a) = cstr (take TOKEN_LEN b)"

lemma strncmp_cstr:
  "n \<le> length as \<Longrightarrow> n \<le> length bs \<Longrightarrow>
    strncmp_eq n as bs = Inr (cstr (take n as) = cstr (take n bs))"
proof (induction n as bs rule: strncmp_eq.induct)
  case (2 n a as b bs)
  then show ?case
    by (auto simp: cstr_def dest: arg_cong [of _ _ "\<lambda>xs. 0 \<in> set xs"])
qed auto

lemma length_ps_addrs: "ps_inv ps \<Longrightarrow> length (ps_addrs ps) = ps_count ps"
  by (simp add: ps_inv_def ps_addrs_def)

lemma length_ps_players: "ps_inv ps \<Longrightarrow> length (ps_players ps) = ps_count ps"
  by (simp add: ps_players_def length_ps_addrs)

lemma ps_entry_ok:
  assumes "ps_inv ps" "i < ps_count ps"
  shows "ps_p ps ! i = Some (Some (ps_addrs ps ! i))"
    and "ps_entry ps i = Inr (Some (ps_addrs ps ! i))"
    and "load (ps_heap ps) (Some (ps_addrs ps ! i)) = Inr (ps_players ps ! i)"
    and "length (pl_token (ps_players ps ! i)) = TOKEN_LEN"
proof -
  have i: "i < length (take (ps_count ps) (ps_p ps))"
    using assms by (simp add: ps_inv_def)
  have "ps_p ps ! i \<noteq> None \<and> ps_p ps ! i \<noteq> Some None"
    using assms i by (auto simp: ps_inv_def list_all_length)
  then show e: "ps_p ps ! i = Some (Some (ps_addrs ps ! i))"
    using assms i by (auto simp: ps_addrs_def)
  then show "ps_entry ps i = Inr (Some (ps_addrs ps ! i))"
    using i by (simp add: ps_entry_def)
  have a: "ps_addrs ps ! i \<in> set (ps_addrs ps)"
    using assms by (simp add: length_ps_addrs)
  then have l: "is_ok (load (ps_heap ps) (Some (ps_addrs ps ! i)))"
      "length (pl_token (ps_at ps (ps_addrs ps ! i))) = TOKEN_LEN"
    using assms(1) by (auto simp: ps_inv_def list_all_iff)
  then show "load (ps_heap ps) (Some (ps_addrs ps ! i)) = Inr (ps_players ps ! i)"
      "length (pl_token (ps_players ps ! i)) = TOKEN_LEN"
    using assms by (auto simp: ps_players_def ps_at_def length_ps_addrs is_ok_iff load_eq_Inr)
qed

lemma player_get_loop_find:
  assumes "ps_inv ps" "TOKEN_LEN \<le> length token" "\<forall>i \<in> set is. i < ps_count ps"
  shows "player_get_loop ps token is =
    Inr (map_option (\<lambda>i. ps_addrs ps ! i) (find (\<lambda>i. same_token token (pl_token (ps_players ps ! i))) is))"
  using assms(3)
proof (induction "is")
  case (Cons i "is")
  then show ?case
    using ps_entry_ok [OF assms(1), of i] assms(2)
    by (simp add: strncmp_cstr same_token_def)
qed simp

lemma find_upt_nth:
  "case find (\<lambda>i. P (xs ! i)) [0..<length xs] of None \<Rightarrow> \<forall>x \<in> set xs. \<not> P x
    | Some i \<Rightarrow> i < length xs \<and> P (xs ! i) \<and> (\<forall>j < i. \<not> P (xs ! j))"
proof (cases "find (\<lambda>i. P (xs ! i)) [0..<length xs]")
  case None
  then have "\<not> P x" if "x \<in> set xs" for x
    using that unfolding find_None_iff in_set_conv_nth by fastforce
  with None show ?thesis by simp
next
  case (Some i)
  then have "i < length xs \<and> P (xs ! i) \<and> (\<forall>j < i. \<not> P (xs ! j))"
    by (auto simp: find_Some_iff)
  with Some show ?thesis by simp
qed

text \<open>The index of the first player of a token.\<close>

definition ps_find :: "players_t \<Rightarrow> byte list \<Rightarrow> nat option" where
  "ps_find ps token = find (\<lambda>i. same_token token (pl_token (ps_players ps ! i))) [0..<ps_count ps]"

lemma player_get_find:
  "ps_inv ps \<Longrightarrow> TOKEN_LEN \<le> length token \<Longrightarrow>
    player_get ps token = Inr (map_option (\<lambda>i. ps_addrs ps ! i) (ps_find ps token))"
  by (simp add: player_get_def ps_find_def player_get_loop_find)

lemma ps_find_cases:
  assumes "ps_inv ps"
  shows "case ps_find ps token of
      None \<Rightarrow> \<forall>pl \<in> set (ps_players ps). \<not> same_token token (pl_token pl)
    | Some i \<Rightarrow> i < ps_count ps \<and> same_token token (pl_token (ps_players ps ! i))
        \<and> (\<forall>j < i. \<not> same_token token (pl_token (ps_players ps ! j)))"
  using find_upt_nth [where P = "\<lambda>pl. same_token token (pl_token pl)" and xs = "ps_players ps"]
  unfolding ps_find_def length_ps_players [OF assms] .

section \<open>Each operation on the list of players\<close>

lemma players_init_inv: "n < 2 ^ 64 \<Longrightarrow> ps_inv (players_init n) \<and> ps_players (players_init n) = []"
  by (simp add: ps_inv_def players_init_def ps_players_def ps_addrs_def)

lemma player_add_full: "ps_count ps = ps_max ps \<Longrightarrow> player_add ps token addr now = Inr (False, ps)"
  by (simp add: player_add_def)

lemma player_add_room:
  assumes "ps_inv ps" "ps_count ps < ps_max ps" "TOKEN_LEN \<le> length token"
  shows "\<exists>ps'. player_add ps token addr now = Inr (True, ps') \<and> ps_inv ps' \<and> ps_max ps' = ps_max ps
    \<and> ps_players ps' = ps_players ps @ [\<lparr>pl_token = take TOKEN_LEN token, pl_timestamp = now, pl_addr = addr\<rparr>]"
proof -
  define pl where "pl = \<lparr>pl_token = take TOKEN_LEN token, pl_timestamp = now, pl_addr = addr\<rparr>"
  define n a where "n = ps_count ps" and "a = length (ps_heap ps)"
  define ps' where "ps' = ps\<lparr>ps_p := (ps_p ps)[n := Some (Some a)], ps_count := n + 1,
    ps_heap := ps_heap ps @ [Some pl]\<rparr>"
  have f: "ps_p ps' = (ps_p ps)[n := Some (Some a)]" "ps_count ps' = Suc n"
      "ps_heap ps' = ps_heap ps @ [Some pl]" "ps_max ps' = ps_max ps"
    by (simp_all add: ps'_def)
  have len: "n < length (ps_p ps)"
    using assms by (simp add: ps_inv_def n_def)
  have tk: "take (ps_count ps') (ps_p ps') = take n (ps_p ps) @ [Some (Some a)]"
    using len by (simp add: f take_Suc_conv_app_nth)
  have ad: "ps_addrs ps' = ps_addrs ps @ [a]"
    unfolding ps_addrs_def tk by (simp add: n_def)
  have lt: "x < a \<and> is_ok (load (ps_heap ps) (Some x)) \<and> length (pl_token (ps_at ps x)) = TOKEN_LEN"
      if "x \<in> set (ps_addrs ps)" for x
    using assms(1) that by (auto simp: ps_inv_def list_all_iff is_ok_iff load_eq_Inr a_def)
  have at: "ps_at ps' x = ps_at ps x \<and> is_ok (load (ps_heap ps') (Some x))" if "x \<in> set (ps_addrs ps)" for x
    using lt [OF that] load_alloc_old [of "ps_heap ps" "Some x"]
    by (auto simp: ps_at_def nth_append is_ok_iff f a_def)
  have new: "ps_at ps' a = pl" "is_ok (load (ps_heap ps') (Some a))"
    using load_alloc_new [of "ps_heap ps" pl] by (simp_all add: ps_at_def f a_def)
  have "ps_players ps' = ps_players ps @ [pl]"
    using at new(1) by (simp add: ps_players_def ad)
  moreover have "distinct (ps_addrs ps')"
    using assms(1) lt by (auto simp: ps_inv_def ad)
  then have "ps_inv ps'"
    using assms at lt new len
    unfolding ps_inv_def tk by (simp add: ad f(2,4) list_all_iff n_def f(1)) (simp add: pl_def)
  moreover have "player_add ps token addr now = Inr (True, ps')"
    using assms(2,3) len by (simp add: player_add_def player_init_def alloc_def ps'_def pl_def n_def a_def)
  ultimately show ?thesis
    by (auto simp: f(4) pl_def)
qed

lemma player_update_spec:
  assumes "ps_inv ps" "TOKEN_LEN \<le> length token"
  shows "\<exists>ps'. player_update ps token now = Inr (ps_find ps token \<noteq> None, ps') \<and> ps_inv ps'
    \<and> ps_max ps' = ps_max ps \<and> ps_count ps' = ps_count ps
    \<and> ps_players ps' = (case ps_find ps token of None \<Rightarrow> ps_players ps
        | Some i \<Rightarrow> (ps_players ps)[i := (ps_players ps ! i)\<lparr>pl_timestamp := now\<rparr>])"
proof (cases "ps_find ps token")
  case None
  then show ?thesis
    using assms by (simp add: player_update_def player_get_find)
next
  case (Some i)
  have i: "i < ps_count ps"
    using ps_find_cases [OF assms(1), of token] by (simp add: Some)
  note e = ps_entry_ok [OF assms(1) i]
  define a pl where "a = ps_addrs ps ! i" and "pl = (ps_players ps ! i)\<lparr>pl_timestamp := now\<rparr>"
  define ps' where "ps' = ps\<lparr>ps_heap := (ps_heap ps)[a := Some pl]\<rparr>"
  have f: "ps_p ps' = ps_p ps" "ps_count ps' = ps_count ps" "ps_max ps' = ps_max ps"
      "ps_heap ps' = (ps_heap ps)[a := Some pl]" "ps_addrs ps' = ps_addrs ps"
    by (simp_all add: ps'_def ps_addrs_def)
  have a: "a < length (ps_heap ps)" "length (pl_token pl) = TOKEN_LEN"
    using e(3,4) by (simp_all add: a_def pl_def load_eq_Inr)
  have at: "ps_at ps' x = (if x = a then pl else ps_at ps x)"
      "is_ok (load (ps_heap ps) (Some x)) \<Longrightarrow> is_ok (load (ps_heap ps') (Some x))" for x
    using a(1) by (auto simp: ps_at_def f nth_list_update load_update is_ok_iff)
  have len: "length (ps_addrs ps) = ps_count ps" and d: "distinct (ps_addrs ps)"
    using assms(1) by (simp add: length_ps_addrs) (use assms(1) in \<open>simp add: ps_inv_def\<close>)
  have pls: "ps_players ps' = (ps_players ps)[i := pl]"
  proof (rule nth_equalityI)
    fix j
    assume "j < length (ps_players ps')"
    then have j: "j < ps_count ps"
      by (simp add: ps_players_def f len)
    then show "ps_players ps' ! j = (ps_players ps)[i := pl] ! j"
      using i d len nth_eq_iff_index_eq [OF d, of j i]
      by (auto simp: ps_players_def f at(1) a_def nth_list_update)
  qed (simp add: ps_players_def f)
  have "ps_inv ps'"
    using assms(1) at a(2) unfolding ps_inv_def list_all_iff f(1-3,5) by auto
  moreover have "player_update ps token now = Inr (True, ps')"
    using assms e(3) Some
    by (simp add: player_update_def player_get_find ps'_def pl_def a_def store_ok)
  ultimately show ?thesis
    using Some pls f(2,3) by (auto simp: pl_def)
qed

lemma player_delete_last:
  assumes "ps_inv ps" "ps_count ps = Suc pos" "ps_count ps < ps_max ps"
  shows "\<exists>ps'. player_delete ps pos = Inr (True, ps') \<and> ps_inv ps' \<and> ps_max ps' = ps_max ps
    \<and> ps_players ps' = butlast (ps_players ps)"
proof -
  note e = ps_entry_ok [OF assms(1), of pos]
  define a where "a = ps_addrs ps ! pos"
  define ps' where "ps' = ps\<lparr>ps_count := pos, ps_heap := (ps_heap ps)[a := None]\<rparr>"
  have f: "ps_p ps' = ps_p ps" "ps_count ps' = pos" "ps_max ps' = ps_max ps"
      "ps_heap ps' = (ps_heap ps)[a := None]"
    by (simp_all add: ps'_def)
  have len: "length (ps_addrs ps) = Suc pos" "length (ps_p ps) = ps_max ps" and d: "distinct (ps_addrs ps)"
    using assms(1,2) by (simp_all add: length_ps_addrs ps_inv_def)
  have tk: "take pos (ps_p ps) = butlast (take (Suc pos) (ps_p ps))"
    using len(2) assms(2,3) by (simp add: butlast_take)
  have ad: "ps_addrs ps' = butlast (ps_addrs ps)"
    unfolding ps_addrs_def f tk assms(2) by (simp add: map_butlast)
  have "ps_addrs ps = butlast (ps_addrs ps) @ [a]"
    using len(1) append_butlast_last_id [of "ps_addrs ps"] by (force simp: a_def last_conv_nth)
  then have na: "x \<noteq> a" if "x \<in> set (butlast (ps_addrs ps))" for x
    using that d by (metis (no_types, lifting) distinct_append disjoint_insert(1) list.simps(15) mem_Collect_eq)
  have at: "ps_at ps' x = ps_at ps x" "load (ps_heap ps') (Some x) = load (ps_heap ps) (Some x)"
      if "x \<in> set (butlast (ps_addrs ps))" for x
    using na [OF that] by (simp_all add: ps_at_def f load_update_other)
  have "ps_players ps' = butlast (ps_players ps)"
    using at(1) by (simp add: ps_players_def ad map_butlast [symmetric])
  moreover have "ps_inv ps'"
    using assms(1) at assms(2) unfolding ps_inv_def list_all_iff ad f(1-3) tk
    by (auto dest: in_set_butlastD intro: distinct_butlast)
  moreover have "player_delete ps pos = Inr (True, ps')"
    using e assms(2,3) len(2) by (simp add: player_delete_def free_ok ps'_def a_def)
  ultimately show ?thesis
    using f(3) by blast
qed

lemma player_delete_inner:
  assumes "ps_inv ps" "pos + 1 < ps_count ps"
  shows "player_delete ps pos = Inl UseAfterFree"
proof -
  note e = ps_entry_ok [OF assms(1), of pos] and e' = ps_entry_ok [OF assms(1), of "pos + 1"]
  have len: "length (ps_addrs ps) = ps_count ps" "pos + 1 < length (ps_p ps)" "ps_count ps < 2 ^ 64"
      and d: "distinct (ps_addrs ps)"
    using assms by (auto simp: length_ps_addrs ps_inv_def)
  have ne: "ps_addrs ps ! pos \<noteq> ps_addrs ps ! (pos + 1)"
    using assms(2) len(1) nth_eq_iff_index_eq [OF d, of pos "pos + 1"] by simp
  have "int (ps_count ps) < 2 ^ 64"
    using len(3) by (simp only: of_nat_less_numeral_power_cancel_iff)
  then have "(int (ps_count ps) - int pos - 1) mod 2 ^ 64 = int (ps_count ps) - int pos - 1"
    using assms(2) by (intro mod_pos_pos_trivial) linarith+
  then have n: "(int (ps_count ps) - int pos - 1) mod 2 ^ 64 \<noteq> 0"
    using assms(2) by linarith
  have "load ((ps_heap ps)[ps_addrs ps ! pos := None]) (Some (ps_addrs ps ! pos)) = Inl UseAfterFree"
    using e(3) assms(2) by (simp add: load_def split: if_splits option.splits)
  then show ?thesis
    using e e' assms(2) len(2) ne n
    by (simp add: player_delete_def free_ok load_update_other Let_def)
qed

lemma player_delete_full:
  assumes "ps_inv ps" "ps_count ps = ps_max ps" "Suc pos = ps_count ps"
  shows "player_delete ps pos = Inl OutOfBounds"
  using ps_entry_ok [OF assms(1), of pos] assms
  by (simp add: player_delete_def free_ok ps_inv_def)

section \<open>Properties\<close>

text \<open>
  As long as no operation faults the table is the list of the players: an add below
  the maximum appends the player and keeps the others, at the maximum it is refused;
  an update restarts the clock of the first player of a token and of no other.
\<close>

theorem player_add_update:
  assumes "ps_inv ps" and "TOKEN_LEN \<le> length token"
  shows "\<exists>ps1 ps2. player_add ps token addr now = Inr (ps_count ps < ps_max ps, ps1) \<and> ps_inv ps1
    \<and> ps_players ps1 = ps_players ps @ (if ps_count ps < ps_max ps
        then [\<lparr>pl_token = take TOKEN_LEN token, pl_timestamp = now, pl_addr = addr\<rparr>] else [])
    \<and> player_update ps token now = Inr (ps_find ps token \<noteq> None, ps2) \<and> ps_inv ps2
    \<and> ps_players ps2 = (case ps_find ps token of None \<Rightarrow> ps_players ps
        | Some i \<Rightarrow> (ps_players ps)[i := (ps_players ps ! i)\<lparr>pl_timestamp := now\<rparr>])"
proof -
  have "ps_count ps \<le> ps_max ps"
    using assms(1) by (simp add: ps_inv_def)
  then have "\<exists>ps1. player_add ps token addr now = Inr (ps_count ps < ps_max ps, ps1) \<and> ps_inv ps1
    \<and> ps_players ps1 = ps_players ps @ (if ps_count ps < ps_max ps
        then [\<lparr>pl_token = take TOKEN_LEN token, pl_timestamp = now, pl_addr = addr\<rparr>] else [])"
    using player_add_room [OF assms(1) _ assms(2)] player_add_full [of ps token addr now] assms(1)
    by (cases "ps_count ps < ps_max ps") auto
  with player_update_spec [OF assms, of now] show ?thesis
    by blast
qed

lemma player_add_update_witness:
  "\<exists>ps1. player_add (players_init 2) (replicate 33 65) \<lparr>sin_family = 2, sin_port = 1, s_addr = 7\<rparr> 9 = Inr (True, ps1)
    \<and> ps_players ps1 = [\<lparr>pl_token = replicate 33 65, pl_timestamp = 9,
        pl_addr = \<lparr>sin_family = 2, sin_port = 1, s_addr = 7\<rparr>\<rparr>]"
  using player_add_update [of "players_init 2" "replicate 33 65" "\<lparr>sin_family = 2, sin_port = 1, s_addr = 7\<rparr>" 9]
    players_init_inv [of 2]
  by (auto simp: TOKEN_LEN_def players_init_def)

text \<open>
  \<open>player_get\<close> returns the first player whose token equals the given one up to the
  terminator, and null when there is none; \<open>player_get_addr\<close> its address.
\<close>

theorem player_get_first:
  assumes "ps_inv ps" and "TOKEN_LEN \<le> length token"
  shows "case find (\<lambda>pl. same_token token (pl_token pl)) (ps_players ps) of
      None \<Rightarrow> player_get ps token = Inr None \<and> player_get_addr ps token = Inr None
    | Some pl \<Rightarrow> (\<exists>p. player_get ps token = Inr p \<and> load (ps_heap ps) p = Inr pl)
        \<and> player_get_addr ps token = Inr (Some (pl_addr pl))"
proof (cases "ps_find ps token")
  case None
  then have "find (\<lambda>pl. same_token token (pl_token pl)) (ps_players ps) = None"
    using ps_find_cases [OF assms(1), of token] by (simp add: find_None_iff)
  with None show ?thesis
    using assms by (simp add: player_get_addr_def player_get_find)
next
  case (Some i)
  then have i: "i < ps_count ps" and "same_token token (pl_token (ps_players ps ! i))"
    "\<forall>j < i. \<not> same_token token (pl_token (ps_players ps ! j))"
    using ps_find_cases [OF assms(1), of token] by simp_all
  then have "find (\<lambda>pl. same_token token (pl_token pl)) (ps_players ps) = Some (ps_players ps ! i)"
    unfolding find_Some_iff length_ps_players [OF assms(1)] by blast
  with Some show ?thesis
    using assms ps_entry_ok(3) [OF assms(1) i] by (simp add: player_get_addr_def player_get_find)
qed

lemma player_get_first_witness:
  "player_get (players_init 2) (replicate 33 65) = Inr None"
  using player_get_first [of "players_init 2" "replicate 33 65"] players_init_inv [of 2]
  by (simp add: TOKEN_LEN_def)

text \<open>
  Deleting a player: \<open>memmove\<close> is given the blocks instead of the array entries, so for
  any player but the last it writes into the block just freed; deleting the last player
  of a full table reads past the array; only the last player of a table that is not full
  is removed.
\<close>

theorem player_delete_only_last:
  assumes "ps_inv ps" and "pos < ps_count ps"
  shows "if pos + 1 < ps_count ps then player_delete ps pos = Inl UseAfterFree
    else if ps_count ps = ps_max ps then player_delete ps pos = Inl OutOfBounds
    else \<exists>ps'. player_delete ps pos = Inr (True, ps') \<and> ps_inv ps' \<and> ps_players ps' = butlast (ps_players ps)"
proof -
  have "ps_count ps \<le> ps_max ps"
    using assms(1) by (simp add: ps_inv_def)
  then show ?thesis
    using player_delete_inner [OF assms(1), of pos] player_delete_full [OF assms(1), of pos]
      player_delete_last [OF assms(1), of pos] assms(2)
    by auto
qed

lemma player_delete_only_last_witness:
  "\<exists>ps ps'. player_add (players_init 2) (replicate 33 65) \<lparr>sin_family = 2, sin_port = 1, s_addr = 7\<rparr> 9 = Inr (True, ps)
    \<and> player_delete ps 0 = Inr (True, ps') \<and> ps_players ps' = []"
proof -
  obtain ps where ps: "player_add (players_init 2) (replicate 33 65) \<lparr>sin_family = 2, sin_port = 1, s_addr = 7\<rparr> 9 = Inr (True, ps)" "ps_inv ps"
      "ps_max ps = 2" "length (ps_players ps) = 1"
    using player_add_room [of "players_init 2" "replicate 33 65" "\<lparr>sin_family = 2, sin_port = 1, s_addr = 7\<rparr>" 9] players_init_inv [of 2]
    by (auto simp: TOKEN_LEN_def players_init_def)
  then show ?thesis
    using player_delete_only_last [OF ps(2), of 0] length_ps_players [OF ps(2)]
    by (cases "ps_players ps") auto
qed

end
