(* ===== verification/WorldMap.thy ===== *)
theory WorldMap
  imports TmmoPrelude
begin

text \<open>
  The map of the world (\<open>game_processing/map.h\<close>): its enumerations with their numbers, and a
  cell as a record.  A map is the list of its cells in the order of the memory, so that
  \<open>map + y * size_x + x\<close> is an index; reading outside of the list is a fault.
\<close>

section \<open>Enumerations\<close>

definition GROUND_TYPE_CNT :: nat where "GROUND_TYPE_CNT = 3"

datatype ground_type_t = soil | sand | grass | water

datatype object_type_t = nothing | player_obj | enemy

datatype surface_type_t = empty | wall | floor_surf

fun ground_code :: "ground_type_t \<Rightarrow> nat" where
  "ground_code soil = 0"
| "ground_code sand = 1"
| "ground_code grass = 2"
| "ground_code water = 3"

fun object_code :: "object_type_t \<Rightarrow> nat" where
  "object_code nothing = 0"
| "object_code player_obj = 1"
| "object_code enemy = 2"

fun surface_code :: "surface_type_t \<Rightarrow> nat" where
  "surface_code empty = 0"
| "surface_code wall = 1"
| "surface_code floor_surf = 2"

text \<open>\<open>i % GROUND_TYPE_CNT\<close> as a ground.\<close>

definition ground_mod :: "nat \<Rightarrow> ground_type_t" where
  "ground_mod i = (if i mod GROUND_TYPE_CNT = 0 then soil
     else if i mod GROUND_TYPE_CNT = 1 then sand else grass)"

lemma ground_code_inject: "ground_code g = ground_code g' \<longleftrightarrow> g = g'"
  by (cases g; cases g') simp_all

text \<open>The enumerations are compared as numbers.\<close>

instantiation ground_type_t :: linorder
begin

definition less_eq_ground_type_t :: "ground_type_t \<Rightarrow> ground_type_t \<Rightarrow> bool" where
  "g \<le> g' \<longleftrightarrow> ground_code g \<le> ground_code g'"

definition less_ground_type_t :: "ground_type_t \<Rightarrow> ground_type_t \<Rightarrow> bool" where
  "g < g' \<longleftrightarrow> ground_code g < ground_code g'"

instance
  by standard (auto simp: less_eq_ground_type_t_def less_ground_type_t_def ground_code_inject)

end

text \<open>\<open>ground < GROUND_TYPE_CNT\<close>.\<close>

definition walkable :: "ground_type_t \<Rightarrow> bool" where
  "walkable g \<longleftrightarrow> ground_code g < GROUND_TYPE_CNT"

lemma walkable_iff: "walkable g \<longleftrightarrow> g < water" "walkable g \<longleftrightarrow> g \<noteq> water"
  by (cases g; simp add: walkable_def GROUND_TYPE_CNT_def less_ground_type_t_def)+

section \<open>Cells\<close>

record map_point_t =
  mp_x :: int
  mp_y :: int
  mp_ground :: ground_type_t
  mp_surface :: surface_type_t
  mp_child_type :: object_type_t
  mp_child :: ptr
  mp_name_id :: int
  mp_region :: u64

type_synonym map_t = "map_point_t list"

text \<open>The cell \<open>map + y * size_x + x\<close>; the offset is computed as an integer, so a negative \<open>x\<close> may still be inside.\<close>

definition cell_index :: "nat \<Rightarrow> int \<Rightarrow> int \<Rightarrow> int" where
  "cell_index size_x x y = y * int size_x + x"

definition cell_at :: "map_t \<Rightarrow> nat \<Rightarrow> int \<Rightarrow> int \<Rightarrow> map_point_t res" where
  "cell_at m size_x x y =
     (let i = cell_index size_x x y in
      if 0 \<le> i \<and> i < int (length m) then Inr (m ! nat i) else Inl OutOfBounds)"

definition set_cell :: "map_t \<Rightarrow> nat \<Rightarrow> int \<Rightarrow> int \<Rightarrow> map_point_t \<Rightarrow> map_t res" where
  "set_cell m size_x x y p =
     rbind (cell_at m size_x x y) (\<lambda>_. Inr (m[nat (cell_index size_x x y) := p]))"

text \<open>The coordinates of the cells are their places.\<close>

definition grid_ok :: "nat \<Rightarrow> nat \<Rightarrow> map_t \<Rightarrow> bool" where
  "grid_ok size_x size_y m \<longleftrightarrow> length m = size_x * size_y \<and>
     list_all (\<lambda>i. mp_x (m ! i) = int (i mod size_x) \<and> mp_y (m ! i) = int (i div size_x)) [0..<length m]"

lemma grid_okD:
  assumes "grid_ok sx sy m"
  shows "length m = sx * sy" "i < length m \<Longrightarrow> mp_x (m ! i) = int (i mod sx)"
    "i < length m \<Longrightarrow> mp_y (m ! i) = int (i div sx)"
  using assms by (auto simp: grid_ok_def list_all_iff)

lemma index_bounds:
  fixes sx sy x y :: nat
  assumes "x < sx" "y < sy"
  shows "y * sx + x < sx * sy"
proof -
  have "y * sx + x < Suc y * sx"
    using assms(1) by simp
  also have "\<dots> \<le> sy * sx"
    using assms(2) by (intro mult_right_mono) auto
  finally show ?thesis
    by (simp add: mult.commute)
qed

lemma cell_index_nat: "cell_index sx (int x) (int y) = int (y * sx + x)"
  by (simp add: cell_index_def)

lemma cell_at_inside:
  assumes "length m = sx * sy" "0 \<le> x" "x < int sx" "0 \<le> y" "y < int sy"
  shows "cell_at m sx x y = Inr (m ! nat (cell_index sx x y))"
    and "0 \<le> cell_index sx x y" "nat (cell_index sx x y) < length m"
proof -
  obtain a b where ab: "x = int a" "y = int b" "a < sx" "b < sy"
    using assms(2-5) by (metis nonneg_int_cases of_nat_less_iff)
  define k where "k = b * sx + a"
  have i: "cell_index sx x y = int k"
    unfolding ab(1,2) k_def by (rule cell_index_nat)
  moreover have "k < length m"
    using index_bounds [OF ab(3,4)] assms(1) by (simp add: k_def)
  ultimately show "cell_at m sx x y = Inr (m ! nat (cell_index sx x y))"
    and "0 \<le> cell_index sx x y" "nat (cell_index sx x y) < length m"
    by (simp_all add: cell_at_def)
qed

lemma set_cell_inside:
  assumes "length m = sx * sy" "0 \<le> x" "x < int sx" "0 \<le> y" "y < int sy"
  shows "set_cell m sx x y p = Inr (m[nat (cell_index sx x y) := p])"
  using cell_at_inside [OF assms] by (simp add: set_cell_def)

end
