(* ===== verification/Grid.thy ===== *)
theory Grid
  imports WorldMap
begin

text \<open>
  The cells of a map as a graph: the neighbours of a cell in the order in which
  \<open>set_region\<close> visits them, and the cells that can be reached over cells of one ground.
  The flood fill of \<open>MapGen\<close> is shown to label one component of this graph.
\<close>

section \<open>Neighbours\<close>

definition nbrs :: "nat \<Rightarrow> nat \<Rightarrow> nat \<Rightarrow> nat list" where
  "nbrs sx sy i =
     (if 1 \<le> i div sx then [i - sx] else []) @ (if i div sx + 1 < sy then [i + sx] else [])
     @ (if 1 \<le> i mod sx then [i - 1] else []) @ (if i mod sx + 1 < sx then [i + 1] else [])"

lemma nbrs_less:
  assumes "i < sx * sy" "j \<in> set (nbrs sx sy i)"
  shows "j < sx * sy"
proof -
  have sx: "0 < sx"
    using assms(1) by (cases sx) auto
  have dm: "i = i div sx * sx + i mod sx"
    by simp
  have y: "i div sx < sy"
    using assms(1) by (simp add: less_mult_imp_div_less mult.commute)
  consider "j = i - sx" | "i div sx + 1 < sy" "j = i + sx" | "j = i - 1" | "i mod sx + 1 < sx" "j = i + 1"
    using assms(2) by (auto simp: nbrs_def split: if_splits)
  then show ?thesis
  proof cases
    case 2
    have "j = (i div sx + 1) * sx + i mod sx"
      using 2 dm by (simp add: algebra_simps)
    then show ?thesis
      using index_bounds [of "i mod sx" sx "i div sx + 1" sy] 2 sx by simp
  next
    case 4
    have "j = i div sx * sx + (i mod sx + 1)"
      using 4 dm by simp
    then show ?thesis
      using index_bounds [of "i mod sx + 1" sx "i div sx" sy] 4 y by simp
  qed (use assms(1) in auto)
qed

lemma div_mod_place:
  fixes j q r s :: nat
  assumes "j = q * s + r" "r < s"
  shows "j div s = q" "j mod s = r"
  using assms by simp_all

text \<open>In coordinates: two cells are neighbours when they differ by one in one coordinate.\<close>

lemma nbrs_coords:
  assumes "0 < sx" "i < sx * sy" "j < sx * sy"
  shows "j \<in> set (nbrs sx sy i) \<longleftrightarrow>
    (j mod sx = i mod sx \<and> (j div sx + 1 = i div sx \<or> i div sx + 1 = j div sx))
    \<or> (j div sx = i div sx \<and> (j mod sx + 1 = i mod sx \<or> i mod sx + 1 = j mod sx))"
    (is "_ \<longleftrightarrow> ?R")
proof
  have eq: "j = i" if "j div sx = i div sx" "j mod sx = i mod sx" for i j
    using that by (metis div_mult_mod_eq)
  have y: "i div sx < sy" "j div sx < sy"
    using assms by (simp_all add: less_mult_imp_div_less mult.commute)
  {
    assume "j \<in> set (nbrs sx sy i)"
    then consider "1 \<le> i div sx" "j = i - sx" | "j = i + sx"
      | "1 \<le> i mod sx" "j = i - 1" | "i mod sx + 1 < sx" "j = i + 1"
      by (auto simp: nbrs_def split: if_splits)
    then show ?R
    proof cases
      case 1
      then have "sx \<le> i"
        by (metis div_less not_le not_one_le_zero)
      with 1 have "i = j + sx" by simp
      moreover have "(j + sx) div sx = j div sx + 1" "(j + sx) mod sx = j mod sx"
        using assms(1) div_add_self2 [of sx j] by simp_all
      ultimately show ?thesis
        by simp
    next
      case 2
      then show ?thesis
        using assms(1) div_add_self2 [of sx i] by simp
    next
      case 3
      then have i: "i = i div sx * sx + (i mod sx - 1 + 1)" "i mod sx - 1 < sx"
        using assms(1) by (simp, metis less_imp_diff_less mod_less_divisor)
      then have "j = i div sx * sx + (i mod sx - 1)"
        using 3 by linarith
      from div_mod_place [OF this i(2)] show ?thesis
        using 3 by auto
    next
      case 4
      then have "j = i div sx * sx + (i mod sx + 1)"
        by simp
      from div_mod_place [OF this 4(1)] show ?thesis by simp
    qed
  }
  {
    assume ?R
    then consider "j mod sx = i mod sx" "j div sx + 1 = i div sx" | "j mod sx = i mod sx" "i div sx + 1 = j div sx"
      | "j div sx = i div sx" "j mod sx + 1 = i mod sx" | "j div sx = i div sx" "i mod sx + 1 = j mod sx"
      by blast
    then show "j \<in> set (nbrs sx sy i)"
    proof cases
      case 1
      have "i = i div sx * sx + i mod sx" "j = j div sx * sx + j mod sx" by simp_all
      then have "i = j + sx"
        using 1 by (metis add.assoc add.commute add_mult_distrib mult_1)
      then show ?thesis
        using 1 by (auto simp: nbrs_def)
    next
      case 2
      have "i = i div sx * sx + i mod sx" "j = j div sx * sx + j mod sx" by simp_all
      then have "j = i + sx"
        using 2 by (metis add.assoc add.commute add_mult_distrib mult_1)
      then show ?thesis
        using 2 y by (auto simp: nbrs_def)
    next
      case 3
      have "i = i div sx * sx + i mod sx" "j = j div sx * sx + j mod sx" by simp_all
      then have "j + 1 = i"
        using 3 by (metis add.assoc)
      then show ?thesis
        using 3 by (auto simp: nbrs_def)
    next
      case 4
      have "i = i div sx * sx + i mod sx" "j = j div sx * sx + j mod sx" by simp_all
      then have "j = i + 1"
        using 4 by (metis add.assoc)
      moreover have "j mod sx < sx"
        using assms(1) by simp
      ultimately show ?thesis
        using 4 by (auto simp: nbrs_def)
    qed
  }
qed

lemma nbrs_sym:
  assumes "i < sx * sy" "j \<in> set (nbrs sx sy i)"
  shows "i \<in> set (nbrs sx sy j)"
proof -
  have "0 < sx"
    using assms(1) by (cases sx) auto
  then show ?thesis
    using nbrs_coords [OF _ assms(1) nbrs_less [OF assms]] nbrs_coords [OF _ nbrs_less [OF assms] assms(1)]
      assms(2) by auto
qed

section \<open>Components\<close>

text \<open>Cells that can be reached over cells of one ground.\<close>

definition connected :: "nat \<Rightarrow> nat \<Rightarrow> map_t \<Rightarrow> nat \<Rightarrow> nat \<Rightarrow> bool" where
  "connected sx sy m i j \<longleftrightarrow>
     (i, j) \<in> {(i, j). i < sx * sy \<and> j \<in> set (nbrs sx sy i) \<and> mp_ground (m ! i) = mp_ground (m ! j)}\<^sup>*"

lemma connected_refl [simp]: "connected sx sy m i i"
  by (simp add: connected_def)

lemma connected_step:
  "connected sx sy m i j \<Longrightarrow> j < sx * sy \<Longrightarrow> k \<in> set (nbrs sx sy j) \<Longrightarrow>
    mp_ground (m ! j) = mp_ground (m ! k) \<Longrightarrow> connected sx sy m i k"
  unfolding connected_def by (rule rtrancl_into_rtrancl) auto

lemma connected_trans: "connected sx sy m i j \<Longrightarrow> connected sx sy m j k \<Longrightarrow> connected sx sy m i k"
  unfolding connected_def by (rule rtrancl_trans)

lemma connected_sym: "connected sx sy m i j \<Longrightarrow> connected sx sy m j i"
  unfolding connected_def
  by (rule symD [OF sym_rtrancl]) (auto intro!: symI dest: nbrs_sym intro: nbrs_less)

lemma connected_ground:
  "connected sx sy m i j \<Longrightarrow> mp_ground (m ! j) = mp_ground (m ! i)"
  unfolding connected_def by (induction rule: rtrancl_induct) auto

lemma connected_less:
  "connected sx sy m i j \<Longrightarrow> i < sx * sy \<Longrightarrow> j < sx * sy"
  unfolding connected_def by (induction rule: rtrancl_induct) (auto intro: nbrs_less)

lemma connected_cong:
  assumes "\<And>k. k < sx * sy \<Longrightarrow> mp_ground (m ! k) = mp_ground (m' ! k)"
  shows "connected sx sy m i j \<longleftrightarrow> connected sx sy m' i j"
proof -
  have "{(i, j). i < sx * sy \<and> j \<in> set (nbrs sx sy i) \<and> mp_ground (m ! i) = mp_ground (m ! j)}
      = {(i, j). i < sx * sy \<and> j \<in> set (nbrs sx sy i) \<and> mp_ground (m' ! i) = mp_ground (m' ! j)}"
    using assms nbrs_less by auto
  then show ?thesis
    by (simp add: connected_def)
qed

text \<open>A set of cells that contains a cell, stays in its component and is closed is the component.\<close>

lemma component_eqI:
  assumes "s \<in> L" "\<And>j. j \<in> L \<Longrightarrow> connected sx sy m s j" "s < sx * sy"
    "\<And>j k. j \<in> L \<Longrightarrow> k \<in> set (nbrs sx sy j) \<Longrightarrow> mp_ground (m ! k) = mp_ground (m ! s) \<Longrightarrow> k \<in> L"
  shows "j \<in> L \<longleftrightarrow> connected sx sy m s j"
proof
  assume "connected sx sy m s j"
  then show "j \<in> L"
    unfolding connected_def
  proof (induction rule: rtrancl_induct)
    case (step j k)
    then have "mp_ground (m ! k) = mp_ground (m ! s)"
      using connected_ground [of sx sy m s k] by (auto simp: connected_def intro: rtrancl_into_rtrancl)
    with step show ?case
      using assms(4) by blast
  qed (rule assms(1))
qed (rule assms(2))

end
