(* ===== verification/MapGen.thy ===== *)
theory MapGen
  imports Grid Queue
begin

text \<open>
  The generator of maps (\<open>game_processing/map.c\<close>): random sites and sites on the border decide
  the ground of the cells, then every component of equal ground gets a region number by a
  flood fill that keeps its cells in a \<open>queue_t\<close> (the queue of \<open>server/queue.c\<close>, here with
  cell indices for the pointers).  Distances are computed on integers, where the code uses
  doubles: the coordinates are ints whose squares a double holds exactly.  \<open>fuel\<close> bounds the
  loops whose ends are not syntactic; \<open>block\<close> is the memory behind each \<open>queue_init\<close>.
\<close>

section \<open>Ground\<close>

type_synonym site = "int \<times> int \<times> ground_type_t"

definition RAND_MAX :: nat where "RAND_MAX = 2147483647"

definition sum_sq :: "int \<Rightarrow> int \<Rightarrow> int" where
  "sum_sq x y = x * x + y * y"

text \<open>The loop over the sites; \<open>best\<close> is \<open>None\<close> while \<open>dist_min\<close> is still \<open>DBL_MAX\<close>.\<close>

fun nearest_loop :: "int \<Rightarrow> int \<Rightarrow> (int \<times> ground_type_t) option \<Rightarrow> site option list
    \<Rightarrow> (int \<times> ground_type_t) option res" where
  "nearest_loop x y best [] = Inr best"
| "nearest_loop x y best (None # ss) = Inl Uninitialised"
| "nearest_loop x y best (Some (sx, sy, g) # ss) =
     (let dist = sum_sq (x - sx) (y - sy) in
      nearest_loop x y
        (case best of None \<Rightarrow> Some (dist, g)
         | Some (dist_min, _) \<Rightarrow> if dist < dist_min then Some (dist, g) else best) ss)"

definition nearest_ground :: "int \<Rightarrow> int \<Rightarrow> site option list \<Rightarrow> nat \<Rightarrow> ground_type_t res" where
  "nearest_ground x y sites sites_cnt =
     rbind (nearest_loop x y None (take sites_cnt sites)) (\<lambda>best.
       case best of None \<Rightarrow> Inl Uninitialised | Some (_, g) \<Rightarrow> Inr g)"

section \<open>The flood fill\<close>

definition try_cell :: "nat \<Rightarrow> ground_type_t \<Rightarrow> u64 \<Rightarrow> int \<Rightarrow> int \<Rightarrow> map_t \<times> nat queue_t
    \<Rightarrow> (map_t \<times> nat queue_t) res" where
  "try_cell size_x ground region x y = (\<lambda>(m, points).
     rbind (cell_at m size_x x y) (\<lambda>p.
       if mp_ground p = ground \<and> mp_region p = - 1 then
         rbind (set_cell m size_x x y (p\<lparr>mp_region := region\<rparr>)) (\<lambda>m.
         rbind (queue_enqueue (nat (cell_index size_x x y)) points) (\<lambda>points. Inr (m, points)))
       else Inr (m, points)))"

definition cell_of :: "map_t \<Rightarrow> nat \<Rightarrow> map_point_t res" where
  "cell_of m i = (if i < length m then Inr (m ! i) else Inl OutOfBounds)"

text \<open>One round of the loop: a cell is taken and its four neighbours are tried.\<close>

definition fill_step :: "nat \<Rightarrow> nat \<Rightarrow> ground_type_t \<Rightarrow> u64 \<Rightarrow> map_t \<times> nat queue_t
    \<Rightarrow> (map_t \<times> nat queue_t) res" where
  "fill_step size_x size_y ground region = (\<lambda>(m, points).
     rbind (queue_dequeue points) (\<lambda>(d, points). case d of None \<Rightarrow> Inl NullDeref | Some i \<Rightarrow>
       rbind (cell_of m i) (\<lambda>point.
         let x = mp_x point; y = mp_y point; try1 = try_cell size_x ground region in
         rbind (if 0 \<le> y - 1 then try1 x (y - 1) (m, points) else Inr (m, points)) (\<lambda>s.
         rbind (if y + 1 < int size_y then try1 x (y + 1) s else Inr s) (\<lambda>s.
         rbind (if 0 \<le> x - 1 then try1 (x - 1) y s else Inr s) (\<lambda>s.
           if x + 1 < int size_x then try1 (x + 1) y s else Inr s))))))"

fun fill_loop :: "nat \<Rightarrow> nat \<Rightarrow> nat \<Rightarrow> ground_type_t \<Rightarrow> u64 \<Rightarrow> map_t \<times> nat queue_t
    \<Rightarrow> (map_t \<times> nat queue_t) res" where
  "fill_loop 0 size_x size_y ground region s = Inl Diverges"
| "fill_loop (Suc fuel) size_x size_y ground region s =
     rbind (fill_step size_x size_y ground region s) (\<lambda>(m, points).
       if queue_is_empty points then Inr (m, points)
       else fill_loop fuel size_x size_y ground region (m, points))"

text \<open>\<open>int region = regions_num[point->ground]++\<close>, stored back into a \<open>size_t\<close>.\<close>

definition region_of :: "u64 \<Rightarrow> u64" where
  "region_of n = scast (ucast n :: 32 word)"

definition set_region :: "nat \<Rightarrow> nat queue_t option \<Rightarrow> nat \<Rightarrow> map_t \<Rightarrow> nat \<Rightarrow> nat \<Rightarrow> u64 list
    \<Rightarrow> (map_t \<times> u64 list) res" where
  "set_region fuel block new_point m size_x size_y regions_num =
     (case queue_init block of None \<Rightarrow> Inl NullDeref | Some points \<Rightarrow>
        rbind (cell_of m new_point) (\<lambda>point.
          let ground = mp_ground point in
          if ground_code ground < length regions_num then
            let region = region_of (regions_num ! ground_code ground);
                regions_num = regions_num[ground_code ground := regions_num ! ground_code ground + 1];
                m = m[new_point := point\<lparr>mp_region := region\<rparr>] in
            rbind (queue_enqueue new_point points) (\<lambda>points.
            rbind (fill_loop fuel size_x size_y ground region (m, points)) (\<lambda>(m, points).
            rbind (queue_destroy points False) (\<lambda>_.
              Inr (m, regions_num))))
          else Inl OutOfBounds))"

section \<open>Generation\<close>

text \<open>
  \<open>rnd\<close> is the sequence of the values of \<open>rand\<close>; the first one is thrown away.  Eight places
  for the border follow the random sites.
\<close>

definition random_sites :: "(nat \<Rightarrow> nat) \<Rightarrow> nat \<Rightarrow> nat \<Rightarrow> nat \<Rightarrow> site option list" where
  "random_sites rnd sites_cnt size_x size_y =
     map (\<lambda>i. Some (int (size_x * rnd (2 * i + 1) div RAND_MAX),
                    int (size_y * rnd (2 * i + 2) div RAND_MAX), ground_mod i)) [0..<sites_cnt]
     @ replicate 8 None"

text \<open>The two nested loops over the border, from \<open>i = 0\<close>.\<close>

fun border_sites :: "nat \<Rightarrow> nat \<Rightarrow> nat \<Rightarrow> ground_type_t \<Rightarrow> nat \<Rightarrow> nat \<Rightarrow> nat \<Rightarrow> site option list
    \<Rightarrow> site option list res" where
  "border_sites 0 size_x size_y bound x y i sites = Inl Diverges"
| "border_sites (Suc fuel) size_x size_y bound x y i sites =
     (if x > size_x then Inr sites
      else if y > size_y then border_sites fuel size_x size_y bound (x + size_x div 2) 0 i sites
      else if x = size_x div 2 \<and> y = size_y div 2
      then border_sites fuel size_x size_y bound x (y + size_y div 2) i sites
      else if i < length sites
      then border_sites fuel size_x size_y bound x (y + size_y div 2) (i + 1)
             (sites[i := Some (int x, int y, bound)])
      else Inl OutOfBounds)"

definition cell_ground :: "nat \<Rightarrow> nat \<Rightarrow> ground_type_t \<Rightarrow> nat \<Rightarrow> site option list \<Rightarrow> nat \<Rightarrow> nat \<Rightarrow> nat
    \<Rightarrow> ground_type_t res" where
  "cell_ground size_x size_y bound indent sites sites_cnt x y =
     (if y < indent \<or> y > size_y - indent \<or> x < indent \<or> x > size_x - indent
      then Inr bound else nearest_ground (int x) (int y) sites sites_cnt)"

fun res_map :: "('a \<Rightarrow> 'b res) \<Rightarrow> 'a list \<Rightarrow> 'b list res" where
  "res_map f [] = Inr []"
| "res_map f (x # xs) = rbind (f x) (\<lambda>y. rbind (res_map f xs) (\<lambda>ys. Inr (y # ys)))"

text \<open>The first pass over the cells; \<open>junk\<close> is the memory that \<open>malloc\<close> returned.\<close>

definition ground_cells :: "map_t \<Rightarrow> nat \<Rightarrow> nat \<Rightarrow> ground_type_t \<Rightarrow> nat \<Rightarrow> site option list \<Rightarrow> nat
    \<Rightarrow> map_t res" where
  "ground_cells junk size_x size_y bound indent sites sites_cnt =
     res_map (\<lambda>i. rbind (cell_ground size_x size_y bound indent sites sites_cnt (i mod size_x) (i div size_x)) (\<lambda>g.
       Inr ((junk ! i)\<lparr>mp_x := int (i mod size_x), mp_y := int (i div size_x), mp_ground := g,
         mp_surface := empty, mp_child_type := nothing, mp_region := - 1\<rparr>))) [0..<size_x * size_y]"

text \<open>The second pass.\<close>

fun region_cells :: "nat \<Rightarrow> nat queue_t option \<Rightarrow> nat \<Rightarrow> nat \<Rightarrow> ground_type_t \<Rightarrow> nat list \<Rightarrow> map_t \<times> u64 list
    \<Rightarrow> (map_t \<times> u64 list) res" where
  "region_cells fuel block size_x size_y bound [] s = Inr s"
| "region_cells fuel block size_x size_y bound (i # is) (m, regions_num) =
     rbind (cell_of m i) (\<lambda>p.
     rbind (if mp_ground p \<noteq> bound \<and> mp_region p = - 1
            then set_region fuel block i m size_x size_y regions_num
            else Inr (m, regions_num)) (region_cells fuel block size_x size_y bound is))"

definition map_generation :: "nat \<Rightarrow> nat queue_t option \<Rightarrow> map_t \<Rightarrow> (nat \<Rightarrow> nat) \<Rightarrow> nat \<Rightarrow> nat \<Rightarrow> nat
    \<Rightarrow> ground_type_t \<Rightarrow> nat \<Rightarrow> map_t res" where
  "map_generation fuel block junk rnd factor size_x size_y bound indent =
     (let sites_cnt = factor * GROUND_TYPE_CNT in
      rbind (border_sites fuel size_x size_y bound 0 0 0 (random_sites rnd sites_cnt size_x size_y)) (\<lambda>sites.
      rbind (ground_cells junk size_x size_y bound indent sites sites_cnt) (\<lambda>m.
      rbind (region_cells fuel block size_x size_y bound [0..<size_x * size_y]
               (m, replicate GROUND_TYPE_CNT 0)) (\<lambda>(m, _).
        Inr m))))"

section \<open>Marking cells\<close>

definition mark :: "u64 \<Rightarrow> nat set \<Rightarrow> map_t \<Rightarrow> map_t" where
  "mark r L m = map (\<lambda>i. if i \<in> L then (m ! i)\<lparr>mp_region := r\<rparr> else m ! i) [0..<length m]"

lemma length_mark [simp]: "length (mark r L m) = length m"
  by (simp add: mark_def)

lemma mark_nth [simp]: "i < length m \<Longrightarrow> mark r L m ! i = (if i \<in> L then (m ! i)\<lparr>mp_region := r\<rparr> else m ! i)"
  by (simp add: mark_def)

lemma mark_insert: "i < length m \<Longrightarrow> (mark r L m)[i := (mark r L m ! i)\<lparr>mp_region := r\<rparr>] = mark r (insert i L) m"
  by (rule nth_equalityI) (auto simp: nth_list_update)

lemma mark_single: "i < length m \<Longrightarrow> m[i := (m ! i)\<lparr>mp_region := r\<rparr>] = mark r {i} m"
  by (rule nth_equalityI) (auto simp: nth_list_update)

lemma grid_ok_mark: "grid_ok sx sy m \<Longrightarrow> grid_ok sx sy (mark r L m)"
  by (simp add: grid_ok_def list_all_iff)

text \<open>Trying a cell by its index, and a list of them.\<close>

definition try_index :: "ground_type_t \<Rightarrow> u64 \<Rightarrow> nat \<Rightarrow> map_t \<times> nat queue_t \<Rightarrow> (map_t \<times> nat queue_t) res" where
  "try_index g r j = (\<lambda>(m, q).
     if mp_ground (m ! j) = g \<and> mp_region (m ! j) = - 1
     then rbind (queue_enqueue j q) (\<lambda>q. Inr (m[j := (m ! j)\<lparr>mp_region := r\<rparr>], q))
     else Inr (m, q))"

fun try_list :: "ground_type_t \<Rightarrow> u64 \<Rightarrow> nat list \<Rightarrow> map_t \<times> nat queue_t \<Rightarrow> (map_t \<times> nat queue_t) res" where
  "try_list g r [] s = Inr s"
| "try_list g r (j # js) s = rbind (try_index g r j s) (try_list g r js)"

lemma try_cell_index:
  assumes "length m = sx * sy" "0 \<le> x" "x < int sx" "0 \<le> y" "y < int sy"
  shows "try_cell sx g r x y (m, q) = try_index g r (nat (cell_index sx x y)) (m, q)"
  using cell_at_inside [OF assms] set_cell_inside [OF assms]
  by (simp add: try_cell_def try_index_def)

lemma try_list_append: "try_list g r (xs @ ys) s = rbind (try_list g r xs s) (try_list g r ys)"
proof (induction xs arbitrary: s)
  case (Cons j xs)
  show ?case
    unfolding append_Cons try_list.simps rbind_assoc by (rule rbind_cong [OF refl]) (rule Cons.IH)
qed simp

lemma try_index_length: "try_index g r j s = Inr s' \<Longrightarrow> length (fst s') = length (fst s)"
  by (cases s) (auto simp: try_index_def res_simps split: if_splits)

lemma try_list_length: "try_list g r js s = Inr s' \<Longrightarrow> length (fst s') = length (fst s)"
  by (induction js arbitrary: s) (auto simp: res_simps dest: try_index_length)

lemma try_pieces:
  assumes "length (fst s) = sx * sy" "i < sx * sy"
  defines "x \<equiv> int (i mod sx)" and "y \<equiv> int (i div sx)"
  shows "(if 0 \<le> y - 1 then try_cell sx g r x (y - 1) s else Inr s)
      = try_list g r (if 1 \<le> i div sx then [i - sx] else []) s" (is ?up)
    and "(if y + 1 < int sy then try_cell sx g r x (y + 1) s else Inr s)
      = try_list g r (if i div sx + 1 < sy then [i + sx] else []) s" (is ?down)
    and "(if 0 \<le> x - 1 then try_cell sx g r (x - 1) y s else Inr s)
      = try_list g r (if 1 \<le> i mod sx then [i - 1] else []) s" (is ?left)
    and "(if x + 1 < int sx then try_cell sx g r (x + 1) y s else Inr s)
      = try_list g r (if i mod sx + 1 < sx then [i + 1] else []) s" (is ?right)
proof -
  have sx: "0 < sx"
    using assms(2) by (cases sx) auto
  have yx: "int i = y * int sx + x" "0 \<le> x" "x < int sx" "0 \<le> y" "y < int sy"
    using sx assms(2) by (simp_all add: x_def y_def less_mult_imp_div_less mult.commute
        del: of_nat_mod of_nat_div flip: of_nat_mult of_nat_add)
  have one: "(try_list g r [j] s) = try_index g r j s" for j
    by (cases "try_index g r j s") auto
  have tr: "try_cell sx g r x' y' s = try_index g r j s"
    if "0 \<le> x'" "x' < int sx" "0 \<le> y'" "y' < int sy" "y' * int sx + x' = int j" for x' y' j
    using try_cell_index [OF assms(1) that(1-4), of g r "snd s"] that(5) by (simp add: cell_index_def)
  show ?up
  proof (cases "1 \<le> i div sx")
    case True
    then have "sx \<le> i"
      by (metis div_less not_le not_one_le_zero)
    moreover have "1 \<le> y"
      using True by (simp add: y_def)
    ultimately have "try_cell sx g r x (y - 1) s = try_index g r (i - sx) s"
      using yx by (intro tr) (simp_all add: algebra_simps)
    with \<open>1 \<le> y\<close> True show ?thesis by (simp only: one if_True) simp
  qed (simp add: y_def)
  show ?down
  proof (cases "i div sx + 1 < sy")
    case True
    then have "y + 1 < int sy"
      by (simp add: y_def)
    moreover from this have "try_cell sx g r x (y + 1) s = try_index g r (i + sx) s"
      using yx by (intro tr) (simp_all add: algebra_simps)
    ultimately show ?thesis using True by (simp only: one if_True)
  qed (simp add: y_def)
  show ?left
  proof (cases "1 \<le> i mod sx")
    case True
    then have "1 \<le> i"
      by (metis mod_0 not_less_eq_eq One_nat_def le_zero_eq nat_le_linear)
    moreover have "1 \<le> x"
      using True by (simp add: x_def)
    ultimately have "try_cell sx g r (x - 1) y s = try_index g r (i - 1) s"
      using yx by (intro tr) (simp_all add: algebra_simps)
    with \<open>1 \<le> x\<close> True show ?thesis by (simp only: one if_True) simp
  qed (simp add: x_def)
  show ?right
  proof (cases "i mod sx + 1 < sx")
    case True
    then have "x + 1 < int sx"
      by (simp add: x_def)
    moreover from this have "try_cell sx g r (x + 1) y s = try_index g r (i + 1) s"
      using yx by (intro tr) (simp_all add: algebra_simps)
    ultimately show ?thesis using True by (simp only: one if_True)
  qed (simp add: x_def)
qed

lemma fill_step_list:
  assumes "grid_ok sx sy m" "queue_dequeue q = Inr (Some i, q')" "i < sx * sy"
  shows "fill_step sx sy g r (m, q) = try_list g r (nbrs sx sy i) (m, q')"
proof -
  have m: "length m = sx * sy" "mp_x (m ! i) = int (i mod sx)" "mp_y (m ! i) = int (i div sx)"
    using grid_okD [OF assms(1)] assms(3) by auto
  have len: "length (fst s') = sx * sy" if "try_list g r js s = Inr s'" "length (fst s) = sx * sy" for js s s'
    using try_list_length [OF that(1)] that(2) by simp
  have l0: "length (fst (m, q')) = sx * sy"
    by (simp add: m)
  note p = try_pieces [OF _ assms(3)]
  have eq: "fill_step sx sy g r (m, q) = rbind (try_list g r (if 1 \<le> i div sx then [i - sx] else []) (m, q'))
      (\<lambda>s. rbind (if int (i div sx) + 1 < int sy then try_cell sx g r (int (i mod sx)) (int (i div sx) + 1) s else Inr s)
      (\<lambda>s. rbind (if 0 \<le> int (i mod sx) - 1 then try_cell sx g r (int (i mod sx) - 1) (int (i div sx)) s else Inr s)
      (\<lambda>s. if int (i mod sx) + 1 < int sx then try_cell sx g r (int (i mod sx) + 1) (int (i div sx)) s else Inr s)))"
    using assms(2,3) unfolding p(1) [OF l0, symmetric]
    by (simp only: fill_step_def case_prod_conv rbind_Inr option.case cell_of_def m if_True Let_def)
  show ?thesis
    unfolding eq nbrs_def try_list_append
  proof (rule rbind_cong [OF refl], goal_cases)
    case (1 s)
    note l1 = len [OF this l0]
    show ?case
      unfolding p(2) [OF l1]
    proof (rule rbind_cong [OF refl], goal_cases)
      case (1 s)
      note l2 = len [OF this l1]
      show ?case
        unfolding p(3) [OF l2]
        by (rule rbind_cong [OF refl]) (rule p(4) [OF len [OF _ l2]])
    qed
  qed
qed

section \<open>The fill labels a component\<close>

text \<open>
  What holds while the fill runs from the cell \<open>s\<close> of the map \<open>m0\<close>: the cells \<open>L\<close> are
  labelled, they belong to the component of \<open>s\<close>, the queue holds some of them, and there is
  memory for a node for each of the others.
\<close>

definition fill_inv :: "nat \<Rightarrow> nat \<Rightarrow> map_t \<Rightarrow> nat \<Rightarrow> nat set \<Rightarrow> nat queue_t \<Rightarrow> bool" where
  "fill_inv sx sy m0 s L q \<longleftrightarrow> q_inv q \<and> s \<in> L \<and> L \<subseteq> {j. connected sx sy m0 s j}
     \<and> set (q_contents q) \<subseteq> L \<and> distinct (q_contents q) \<and> sx * sy \<le> q_quota q + card L"

text \<open>What the fill needs: the component of \<open>s\<close> is not labelled yet, and the label is not -1.\<close>

definition fill_start :: "nat \<Rightarrow> nat \<Rightarrow> map_t \<Rightarrow> nat \<Rightarrow> u64 \<Rightarrow> bool" where
  "fill_start sx sy m0 s r \<longleftrightarrow> grid_ok sx sy m0 \<and> s < sx * sy \<and> r \<noteq> - 1
     \<and> list_all (\<lambda>j. connected sx sy m0 s j \<longrightarrow> mp_region (m0 ! j) = - 1) [0..<sx * sy]"

lemma fill_startD:
  assumes "fill_start sx sy m0 s r"
  shows "grid_ok sx sy m0" "length m0 = sx * sy" "s < sx * sy" "r \<noteq> - 1"
    "connected sx sy m0 s j \<Longrightarrow> j < sx * sy" "connected sx sy m0 s j \<Longrightarrow> mp_region (m0 ! j) = - 1"
    "connected sx sy m0 s j \<Longrightarrow> mp_ground (m0 ! j) = mp_ground (m0 ! s)"
  using assms connected_less [of sx sy m0 s j] connected_ground [of sx sy m0 s j]
  by (auto simp: fill_start_def list_all_iff dest: grid_okD(1))

lemma fill_inv_bound:
  assumes "fill_start sx sy m0 s r" "fill_inv sx sy m0 s L q"
  shows "L \<subseteq> {..<sx * sy}" "finite L" "card L \<le> sx * sy"
proof -
  show "L \<subseteq> {..<sx * sy}"
    using assms(2) fill_startD(5) [OF assms(1)] by (auto simp: fill_inv_def)
  then show "finite L" "card L \<le> sx * sy"
    using card_mono [of "{..<sx * sy}" L] by (auto intro: finite_subset)
qed

lemma try_index_spec:
  assumes "fill_start sx sy m0 s r" "fill_inv sx sy m0 s L q" "j < sx * sy"
    "mp_ground (m0 ! j) = mp_ground (m0 ! s) \<Longrightarrow> connected sx sy m0 s j"
  shows "\<exists>q' L'. try_index (mp_ground (m0 ! s)) r j (mark r L m0, q) = Inr (mark r L' m0, q')
    \<and> fill_inv sx sy m0 s L' q'
    \<and> L' = (if mp_ground (m0 ! j) = mp_ground (m0 ! s) then insert j L else L)
    \<and> set (q_contents q') = set (q_contents q) \<union> (L' - L)
    \<and> length (q_contents q') + (sx * sy - card L') = length (q_contents q) + (sx * sy - card L)"
proof (cases "mp_ground (m0 ! j) = mp_ground (m0 ! s) \<and> j \<notin> L")
  case True
  note D = fill_startD [OF assms(1)] and B = fill_inv_bound [OF assms(1,2)]
  have c: "connected sx sy m0 s j"
    using True assms(4) by simp
  have "card (insert j L) \<le> sx * sy"
    using B assms(3) card_mono [of "{..<sx * sy}" "insert j L"] by auto
  then have card: "card (insert j L) = Suc (card L)" "card L < sx * sy"
    using B(2) True by simp_all
  moreover have "sx * sy \<le> q_quota q + card L" "q_inv q"
    using assms(2) by (simp_all add: fill_inv_def)
  ultimately obtain q' where q': "queue_enqueue j q = Inr q'" "q_inv q'"
      "q_contents q' = q_contents q @ [j]" "q_quota q' = q_quota q - 1"
    using sq.enq_spec [of q j] by auto
  have "try_index (mp_ground (m0 ! s)) r j (mark r L m0, q) = Inr (mark r (insert j L) m0, q')"
    using True D(2) D(6) [OF c] assms(3) q'(1) mark_insert [of j m0 r L]
    by (simp add: try_index_def)
  moreover have "fill_inv sx sy m0 s (insert j L) q'"
    using assms(2) True c card q' unfolding fill_inv_def by auto
  ultimately show ?thesis
    using True card q'(3) by auto
next
  case False
  note D = fill_startD [OF assms(1)]
  have "try_index (mp_ground (m0 ! s)) r j (mark r L m0, q) = Inr (mark r L m0, q)"
    using False D(2,4) assms(3) by (auto simp: try_index_def)
  then show ?thesis
    using False assms(2) by (auto simp: insert_absorb)
qed

lemma try_list_spec:
  assumes "fill_start sx sy m0 s r" "fill_inv sx sy m0 s L q"
    "\<forall>j \<in> set js. j < sx * sy \<and> (mp_ground (m0 ! j) = mp_ground (m0 ! s) \<longrightarrow> connected sx sy m0 s j)"
  shows "\<exists>q' L'. try_list (mp_ground (m0 ! s)) r js (mark r L m0, q) = Inr (mark r L' m0, q')
    \<and> fill_inv sx sy m0 s L' q' \<and> L \<subseteq> L'
    \<and> (\<forall>j \<in> set js. mp_ground (m0 ! j) = mp_ground (m0 ! s) \<longrightarrow> j \<in> L')
    \<and> set (q_contents q') = set (q_contents q) \<union> (L' - L)
    \<and> length (q_contents q') + (sx * sy - card L') = length (q_contents q) + (sx * sy - card L)"
  using assms(2,3)
proof (induction js arbitrary: L q)
  case Nil
  then show ?case by auto
next
  case (Cons j js)
  obtain q1 L1 where 1: "try_index (mp_ground (m0 ! s)) r j (mark r L m0, q) = Inr (mark r L1 m0, q1)"
      "fill_inv sx sy m0 s L1 q1" "L1 = (if mp_ground (m0 ! j) = mp_ground (m0 ! s) then insert j L else L)"
      "set (q_contents q1) = set (q_contents q) \<union> (L1 - L)"
      "length (q_contents q1) + (sx * sy - card L1) = length (q_contents q) + (sx * sy - card L)"
    using try_index_spec [OF assms(1) Cons.prems(1), of j] Cons.prems(2) by auto
  obtain q2 L2 where 2: "try_list (mp_ground (m0 ! s)) r js (mark r L1 m0, q1) = Inr (mark r L2 m0, q2)"
      "fill_inv sx sy m0 s L2 q2" "L1 \<subseteq> L2"
      "\<forall>j \<in> set js. mp_ground (m0 ! j) = mp_ground (m0 ! s) \<longrightarrow> j \<in> L2"
      "set (q_contents q2) = set (q_contents q1) \<union> (L2 - L1)"
      "length (q_contents q2) + (sx * sy - card L2) = length (q_contents q1) + (sx * sy - card L1)"
    using Cons.IH [OF 1(2)] Cons.prems(2) by auto
  have "L \<subseteq> L1" "mp_ground (m0 ! j) = mp_ground (m0 ! s) \<longrightarrow> j \<in> L1"
    using 1(3) by auto
  then show ?case
    using 1 2 by (intro exI [of _ q2] exI [of _ L2]) auto
qed

text \<open>All neighbours of the labelled cells that have left the queue are labelled.\<close>

definition fill_closed :: "nat \<Rightarrow> nat \<Rightarrow> map_t \<Rightarrow> nat \<Rightarrow> nat set \<Rightarrow> nat set \<Rightarrow> bool" where
  "fill_closed sx sy m0 s L todo \<longleftrightarrow>
     (\<forall>j \<in> L - todo. \<forall>k \<in> set (nbrs sx sy j). mp_ground (m0 ! k) = mp_ground (m0 ! s) \<longrightarrow> k \<in> L)"

lemma fill_loop_spec:
  assumes "fill_start sx sy m0 s r" "fill_inv sx sy m0 s L q" "q_contents q \<noteq> []"
    "fill_closed sx sy m0 s L (set (q_contents q))"
    "length (q_contents q) + (sx * sy - card L) \<le> fuel"
  shows "\<exists>q'. fill_loop fuel sx sy (mp_ground (m0 ! s)) r (mark r L m0, q)
      = Inr (mark r {j. connected sx sy m0 s j} m0, q') \<and> q_inv q' \<and> q_contents q' = []"
  using assms(2-5)
proof (induction fuel arbitrary: L q)
  case 0
  then show ?case by simp
next
  case (Suc fuel)
  note D = fill_startD [OF assms(1)]
  obtain i todo where q: "q_contents q = i # todo"
    using Suc.prems(2) by (cases "q_contents q") auto
  have inv: "q_inv q" "set (i # todo) \<subseteq> L" "distinct (i # todo)" "L \<subseteq> {j. connected sx sy m0 s j}"
    using Suc.prems(1) by (simp_all add: fill_inv_def q)
  obtain q1 where q1: "queue_dequeue q = Inr (Some i, q1)" "q_inv q1" "q_contents q1 = todo"
      "q_quota q1 = q_quota q"
    using sq.deq_spec [OF inv(1) q] by blast
  have inv1: "fill_inv sx sy m0 s L q1"
    using Suc.prems(1) q1 by (simp add: fill_inv_def q)
  have ci: "connected sx sy m0 s i"
    using inv(2,4) by auto
  then have i: "i < sx * sy"
    by (rule D(5))
  have near: "\<forall>k \<in> set (nbrs sx sy i). k < sx * sy \<and> (mp_ground (m0 ! k) = mp_ground (m0 ! s) \<longrightarrow> connected sx sy m0 s k)"
    using nbrs_less [OF i] connected_step [OF ci i] D(7) [OF ci] by metis
  obtain q2 L2 where 2: "try_list (mp_ground (m0 ! s)) r (nbrs sx sy i) (mark r L m0, q1) = Inr (mark r L2 m0, q2)"
      "fill_inv sx sy m0 s L2 q2" "L \<subseteq> L2"
      "\<forall>j \<in> set (nbrs sx sy i). mp_ground (m0 ! j) = mp_ground (m0 ! s) \<longrightarrow> j \<in> L2"
      "set (q_contents q2) = set todo \<union> (L2 - L)"
      "length (q_contents q2) + (sx * sy - card L2) = length todo + (sx * sy - card L)"
    using try_list_spec [OF assms(1) inv1 near] unfolding q1(3) by blast
  have step: "fill_step sx sy (mp_ground (m0 ! s)) r (mark r L m0, q) = Inr (mark r L2 m0, q2)"
    using fill_step_list [OF grid_ok_mark [OF D(1)] q1(1) i] 2(1) by simp
  have closed: "fill_closed sx sy m0 s L2 (set (q_contents q2))"
    unfolding fill_closed_def
  proof (intro ballI impI)
    fix j k
    assume j: "j \<in> L2 - set (q_contents q2)" "k \<in> set (nbrs sx sy j)" "mp_ground (m0 ! k) = mp_ground (m0 ! s)"
    then have "j \<in> L" "j \<notin> set todo"
      using 2(5) by auto
    show "k \<in> L2"
    proof (cases "j = i")
      case True
      then show ?thesis using j(2,3) 2(4) by simp
    next
      case False
      then have "j \<in> L - set (q_contents q)"
        using \<open>j \<in> L\<close> \<open>j \<notin> set todo\<close> by (simp add: q)
      then have "k \<in> L"
        using Suc.prems(3) j(2,3) unfolding fill_closed_def by blast
      then show ?thesis using 2(3) by blast
    qed
  qed
  have q2: "q_inv q2"
    using 2(2) by (simp add: fill_inv_def)
  show ?case
  proof (cases "q_contents q2 = []")
    case True
    have "j \<in> L2 \<longleftrightarrow> connected sx sy m0 s j" for j
    proof (rule component_eqI [OF _ _ D(3)])
      show "s \<in> L2" and "\<And>j. j \<in> L2 \<Longrightarrow> connected sx sy m0 s j"
        using 2(2) by (auto simp: fill_inv_def)
      show "\<And>j k. j \<in> L2 \<Longrightarrow> k \<in> set (nbrs sx sy j) \<Longrightarrow> mp_ground (m0 ! k) = mp_ground (m0 ! s) \<Longrightarrow> k \<in> L2"
        using closed by (auto simp: fill_closed_def True)
    qed
    then have "L2 = {j. connected sx sy m0 s j}" by blast
    then show ?thesis
      using step True q2 by (simp add: sq.is_empty_spec)
  next
    case False
    have "length (q_contents q2) + (sx * sy - card L2) \<le> fuel"
      using 2(6) Suc.prems(4) by (simp add: q)
    from Suc.IH [OF 2(2) False closed this] show ?thesis
      using step False q2 by (simp add: sq.is_empty_spec)
  qed
qed

lemma region_of_small: "unat n < 2 ^ 31 \<Longrightarrow> region_of n = n"
proof -
  assume "unat n < 2 ^ 31"
  then have "int (unat n) < int (2 ^ 31)"
    by (simp only: of_nat_less_iff)
  then have "uint n < 2 ^ 31"
    by simp
  then have "signed_take_bit 31 (uint n) = uint n"
    by (intro signed_take_bit_int_eq_self) (auto intro: order_trans [OF _ uint_ge_0])
  moreover have "sint (ucast n :: 32 word) = signed_take_bit 31 (uint n)"
    by (simp add: signed_ucast_eq)
  ultimately have "sint (ucast n :: 32 word) = uint n"
    by simp
  then show ?thesis
    unfolding region_of_def by (metis of_int_sint scast_eq word_of_int_uint)
qed

lemma queue_init_block:
  "\<exists>q. queue_init (Some b) = Some q \<and> q_inv q \<and> q_contents q = [] \<and> q_quota q = q_quota b"
proof -
  let ?q = "queue_init_empty b\<lparr>q_count := 0\<rparr>"
  have "queue_init (Some b) = Some ?q" "q_quota ?q = q_quota b"
    by (simp_all add: queue_init_def queue_init_empty_def)
  then show ?thesis
    using queue_init_inv [of b ?q] by blast
qed

lemma set_region_spec:
  assumes "fill_start sx sy m s r" "r = region_of (regs ! ground_code (mp_ground (m ! s)))"
    "ground_code (mp_ground (m ! s)) < length regs" "sx * sy \<le> q_quota b" "sx * sy \<le> fuel"
  shows "set_region fuel (Some b) s m sx sy regs = Inr (mark r {j. connected sx sy m s j} m,
    regs[ground_code (mp_ground (m ! s)) := regs ! ground_code (mp_ground (m ! s)) + 1])"
proof -
  note D = fill_startD [OF assms(1)]
  obtain q where q: "queue_init (Some b) = Some q" "q_inv q" "q_contents q = []" "q_quota q = q_quota b"
    using queue_init_block by blast
  have N: "0 < sx * sy"
    using D(3) by (cases "sx * sy") auto
  then obtain q1 where q1: "queue_enqueue s q = Inr q1" "q_inv q1" "q_contents q1 = [s]" "q_quota q1 = q_quota b - 1"
    using sq.enq_spec [of q s] q less_le_trans [OF N assms(4)] by auto
  have "fill_inv sx sy m s {s} q1"
    using q1 assms(4) N by (auto simp: fill_inv_def)
  moreover have "fill_closed sx sy m s {s} (set (q_contents q1))"
    by (simp add: fill_closed_def q1(3))
  ultimately obtain q2 where q2: "fill_loop fuel sx sy (mp_ground (m ! s)) r (mark r {s} m, q1)
      = Inr (mark r {j. connected sx sy m s j} m, q2)" "q_inv q2" "q_contents q2 = []"
    using fill_loop_spec [OF assms(1)] assms(5) N q1(3) by fastforce
  have "\<exists>q'. queue_destroy q2 False = Inr ([], q')"
    using queue_destroy_spec [OF q2(2), of False] by auto
  moreover have "m[s := (m ! s)\<lparr>mp_region := r\<rparr>] = mark r {s} m"
    using D(2,3) by (simp add: mark_single)
  ultimately show ?thesis
    using q1(1) q2(1) D(2,3) assms(3)
    by (auto simp: set_region_def q(1) cell_of_def Let_def assms(2) [symmetric])
qed

section \<open>All regions\<close>

text \<open>The cells are those of \<open>m0\<close> but for their regions.\<close>

definition same_cells :: "map_t \<Rightarrow> map_t \<Rightarrow> bool" where
  "same_cells m0 m \<longleftrightarrow> length m = length m0
     \<and> list_all (\<lambda>i. (m ! i)\<lparr>mp_region := 0\<rparr> = (m0 ! i)\<lparr>mp_region := 0\<rparr>) [0..<length m0]"

text \<open>The regions of \<open>m\<close> after the first \<open>k\<close> cells have been looked at.\<close>

definition regions_inv :: "nat \<Rightarrow> nat \<Rightarrow> ground_type_t \<Rightarrow> map_t \<Rightarrow> nat \<Rightarrow> map_t \<Rightarrow> u64 list \<Rightarrow> bool" where
  "regions_inv sx sy bound m0 k m regs \<longleftrightarrow> same_cells m0 m \<and> length regs = GROUND_TYPE_CNT
     \<and> list_all (\<lambda>n. unat n \<le> k) regs
     \<and> (\<forall>i < sx * sy. mp_region (m ! i) \<noteq> - 1 \<longrightarrow> mp_ground (m0 ! i) \<noteq> bound
          \<and> unat (mp_region (m ! i)) < unat (regs ! ground_code (mp_ground (m0 ! i)))
          \<and> (\<forall>j < sx * sy. mp_ground (m0 ! j) = mp_ground (m0 ! i) \<and> mp_region (m ! j) = mp_region (m ! i)
                \<longleftrightarrow> connected sx sy m0 i j))
     \<and> (\<forall>i < k. mp_ground (m0 ! i) \<noteq> bound \<longrightarrow> mp_region (m ! i) \<noteq> - 1)"

lemma same_cellsD:
  assumes "same_cells m0 m"
  shows "length m = length m0"
    and "i < length m0 \<Longrightarrow> m ! i = (m0 ! i)\<lparr>mp_region := mp_region (m ! i)\<rparr>"
    and "i < length m0 \<Longrightarrow> mp_ground (m ! i) = mp_ground (m0 ! i)"
proof -
  show "length m = length m0"
    using assms by (simp add: same_cells_def)
  assume "i < length m0"
  then have "(m ! i)\<lparr>mp_region := 0\<rparr> = (m0 ! i)\<lparr>mp_region := 0\<rparr>"
    using assms by (simp add: same_cells_def list_all_iff)
  then show "m ! i = (m0 ! i)\<lparr>mp_region := mp_region (m ! i)\<rparr>" "mp_ground (m ! i) = mp_ground (m0 ! i)"
    by (cases "m ! i"; cases "m0 ! i"; simp)+
qed

lemma same_cells_refl: "same_cells m m"
  by (simp add: same_cells_def list_all_iff)

lemma same_cells_mark: "same_cells m0 m \<Longrightarrow> same_cells m0 (mark r L m)"
  by (auto simp: same_cells_def list_all_iff)

lemma same_cells_grid:
  assumes "same_cells m0 m" "grid_ok sx sy m0"
  shows "grid_ok sx sy m"
proof -
  have "mp_x (m ! i) = mp_x (m0 ! i) \<and> mp_y (m ! i) = mp_y (m0 ! i)" if "i < length m0" for i
    using arg_cong [OF same_cellsD(2) [OF assms(1) that], of "\<lambda>p. (mp_x p, mp_y p)"] by simp
  then show ?thesis
    using assms(2) same_cellsD(1) [OF assms(1)] by (simp add: grid_ok_def list_all_iff)
qed

lemma same_cells_connected:
  assumes "same_cells m0 m" "length m0 = sx * sy"
  shows "connected sx sy m i j \<longleftrightarrow> connected sx sy m0 i j"
  using same_cellsD(3) [OF assms(1)] assms(2) by (intro connected_cong) simp

lemma regions_invD:
  assumes "regions_inv sx sy bound m0 k m regs"
  shows "same_cells m0 m" "length regs = GROUND_TYPE_CNT" "n < GROUND_TYPE_CNT \<Longrightarrow> unat (regs ! n) \<le> k"
    "i < sx * sy \<Longrightarrow> mp_region (m ! i) \<noteq> - 1 \<Longrightarrow> mp_ground (m0 ! i) \<noteq> bound"
    "i < sx * sy \<Longrightarrow> mp_region (m ! i) \<noteq> - 1 \<Longrightarrow>
      unat (mp_region (m ! i)) < unat (regs ! ground_code (mp_ground (m0 ! i)))"
    "i < sx * sy \<Longrightarrow> j < sx * sy \<Longrightarrow> mp_region (m ! i) \<noteq> - 1 \<Longrightarrow>
      mp_ground (m0 ! j) = mp_ground (m0 ! i) \<and> mp_region (m ! j) = mp_region (m ! i) \<longleftrightarrow> connected sx sy m0 i j"
    "i < k \<Longrightarrow> mp_ground (m0 ! i) \<noteq> bound \<Longrightarrow> mp_region (m ! i) \<noteq> - 1"
  using assms by (auto simp: regions_inv_def list_all_length)

text \<open>A cell without a region starts a new one; its component has no label yet.\<close>

lemma region_new:
  assumes "regions_inv sx sy bound m0 k m regs" "grid_ok sx sy m0" "k < sx * sy" "sx * sy < 2 ^ 31"
    "walkable (mp_ground (m0 ! k))" "mp_ground (m0 ! k) \<noteq> bound" "mp_region (m ! k) = - 1"
  defines "c \<equiv> ground_code (mp_ground (m0 ! k))"
  shows "fill_start sx sy m k (regs ! c)" and "region_of (regs ! c) = regs ! c"
    and "regions_inv sx sy bound m0 (Suc k) (mark (regs ! c) {j. connected sx sy m0 k j} m)
      (regs[c := regs ! c + 1])"
proof -
  note D = regions_invD [OF assms(1)]
  note S = same_cellsD [OF D(1)]
  let ?r = "regs ! c" and ?C = "{j. connected sx sy m0 k j}"
  have len: "length m0 = sx * sy" "length m = sx * sy"
    using grid_okD(1) [OF assms(2)] S(1) by simp_all
  have c: "c < GROUND_TYPE_CNT"
    using assms(5) by (simp add: walkable_def c_def)
  have small: "unat ?r \<le> k" "unat ?r < 2 ^ 31"
    using D(3) [OF c] assms(3,4) by simp_all
  then show "region_of ?r = ?r"
    by (simp add: region_of_small)
  have r1: "?r \<noteq> - 1"
    using small(2) by (auto simp: unsigned_minus_1_eq_mask mask_eq_exp_minus_1)
  have suc: "unat (?r + 1) = Suc (unat ?r)"
    using r1 by (metis Suc_eq_plus1 add.commute add_eq_0_iff unatSuc)
  have fresh: "mp_region (m ! j) = - 1" if "connected sx sy m0 k j" for j
  proof (rule ccontr)
    assume "mp_region (m ! j) \<noteq> - 1"
    moreover have "j < sx * sy"
      by (rule connected_less [OF that assms(3)])
    ultimately have "mp_region (m ! k) = mp_region (m ! j)"
      using D(6) [of j k] connected_sym [OF that] assms(3) by simp
    with assms(7) \<open>mp_region (m ! j) \<noteq> - 1\<close> show False by simp
  qed
  have conn: "connected sx sy m i j \<longleftrightarrow> connected sx sy m0 i j" for i j
    by (rule same_cells_connected [OF D(1) len(1)])
  show "fill_start sx sy m k ?r"
    unfolding fill_start_def
    using same_cells_grid [OF D(1) assms(2)] assms(3) r1 fresh by (simp add: conn list_all_iff)
  let ?m = "mark ?r ?C m" and ?regs = "regs[c := ?r + 1]"
  have reg: "mp_region (?m ! i) = (if connected sx sy m0 k i then ?r else mp_region (m ! i))" if "i < sx * sy" for i
    using that len by simp
  have gC: "mp_ground (m0 ! i) = mp_ground (m0 ! k)" if "connected sx sy m0 k i" for i
    by (rule connected_ground [OF that])
  have up: "unat (regs ! ground_code g) \<le> unat (?regs ! ground_code g)" for g
    using suc D(2) c by (cases "ground_code g = c") (auto simp: nth_list_update)
  have main: "mp_ground (m0 ! i) \<noteq> bound
      \<and> unat (mp_region (?m ! i)) < unat (?regs ! ground_code (mp_ground (m0 ! i)))
      \<and> (\<forall>j < sx * sy. mp_ground (m0 ! j) = mp_ground (m0 ! i) \<and> mp_region (?m ! j) = mp_region (?m ! i)
            \<longleftrightarrow> connected sx sy m0 i j)"
    if i: "i < sx * sy" "mp_region (?m ! i) \<noteq> - 1" for i
  proof (cases "connected sx sy m0 k i")
    case True
    have ri: "mp_region (?m ! i) = ?r"
      using reg [OF i(1)] True by simp
    have "mp_ground (m0 ! j) = mp_ground (m0 ! i) \<and> mp_region (?m ! j) = ?r \<longleftrightarrow> connected sx sy m0 i j"
      if j: "j < sx * sy" for j
    proof (cases "connected sx sy m0 k j")
      case True
      moreover have "connected sx sy m0 i j"
        by (rule connected_trans [OF connected_sym [OF \<open>connected sx sy m0 k i\<close>] True])
      ultimately show ?thesis
        using reg [OF j] gC [OF True] gC [OF \<open>connected sx sy m0 k i\<close>] by simp
    next
      case False
      have "\<not> connected sx sy m0 i j"
        using False connected_trans [OF True] by blast
      moreover have "\<not> (mp_ground (m0 ! j) = mp_ground (m0 ! i) \<and> mp_region (m ! j) = ?r)"
        using D(5) [OF j] r1 gC [OF True] by (auto simp: c_def)
      ultimately show ?thesis
        using reg [OF j] False by simp
    qed
    moreover have "unat ?r < unat (?regs ! c)"
      using suc D(2) c by simp
    ultimately show ?thesis
      using ri assms(6) gC [OF True] by (simp add: c_def)
  next
    case False
    have ri: "mp_region (?m ! i) = mp_region (m ! i)" "mp_region (m ! i) \<noteq> - 1"
      using reg [OF i(1)] False i(2) by simp_all
    have "mp_ground (m0 ! j) = mp_ground (m0 ! i) \<and> mp_region (?m ! j) = mp_region (m ! i) \<longleftrightarrow> connected sx sy m0 i j"
      if j: "j < sx * sy" for j
    proof (cases "connected sx sy m0 k j")
      case True
      have "\<not> connected sx sy m0 i j"
        using False True connected_trans [OF True] connected_sym by blast
      moreover have "\<not> (mp_ground (m0 ! j) = mp_ground (m0 ! i) \<and> ?r = mp_region (m ! i))"
        using D(5) [OF i(1) ri(2)] gC [OF True] by (auto simp: c_def)
      ultimately show ?thesis
        using reg [OF j] True by simp
    next
      case False
      then show ?thesis
        using reg [OF j] D(6) [OF i(1) j ri(2)] by simp
    qed
    then show ?thesis
      using ri D(4,5) [OF i(1) ri(2)] up [of "mp_ground (m0 ! i)"] by auto
  qed
  have fin: "mp_region (?m ! i) \<noteq> - 1" if "i < Suc k" "mp_ground (m0 ! i) \<noteq> bound" for i
    using that D(7) [of i] reg [of i] assms(3) r1 by (cases "i = k") auto
  have "list_all (\<lambda>n. unat n \<le> Suc k) ?regs"
    unfolding list_all_length using D(2,3) suc small(1) c by (auto simp: nth_list_update le_SucI)
  then show "regions_inv sx sy bound m0 (Suc k) ?m ?regs"
    unfolding regions_inv_def using same_cells_mark [OF D(1)] D(2) main fin by auto
qed

lemma region_cells_spec:
  assumes "grid_ok sx sy m0" "sx * sy < 2 ^ 31" "sx * sy \<le> q_quota b" "sx * sy \<le> fuel"
    "\<forall>i < sx * sy. mp_ground (m0 ! i) \<noteq> bound \<longrightarrow> walkable (mp_ground (m0 ! i))"
    "regions_inv sx sy bound m0 k m regs" "k + n = sx * sy"
  shows "\<exists>m' regs'. region_cells fuel (Some b) sx sy bound [k..<k + n] (m, regs) = Inr (m', regs')
    \<and> regions_inv sx sy bound m0 (sx * sy) m' regs'"
  using assms(6,7)
proof (induction n arbitrary: k m regs)
  case 0
  then show ?case by auto
next
  case (Suc n)
  note S = same_cellsD [OF regions_invD(1) [OF Suc.prems(1)]]
  have k: "k < sx * sy"
    using Suc.prems(2) by simp
  have len: "length m0 = sx * sy" "length m = sx * sy"
    using grid_okD(1) [OF assms(1)] S(1) by simp_all
  have upt: "[k..<k + Suc n] = k # [Suc k..<Suc k + n]"
    by (simp add: upt_rec)
  show ?case
  proof (cases "mp_ground (m0 ! k) \<noteq> bound \<and> mp_region (m ! k) = - 1")
    case True
    define c where "c = ground_code (mp_ground (m0 ! k))"
    have w: "walkable (mp_ground (m0 ! k))"
      using assms(5) k True by blast
    note new = region_new [OF Suc.prems(1) assms(1) k assms(2) w, folded c_def]
    have c: "ground_code (mp_ground (m ! k)) = c"
      using S(3) k len by (simp add: c_def)
    have "c < length regs"
      using w regions_invD(2) [OF Suc.prems(1)] by (simp add: walkable_def c_def)
    then have "set_region fuel (Some b) k m sx sy regs
        = Inr (mark (regs ! c) {j. connected sx sy m k j} m, regs[c := regs ! c + 1])"
      using set_region_spec [OF new(1) _ _ assms(3,4), of regs] new(2) True by (simp add: c)
    moreover have "connected sx sy m k j \<longleftrightarrow> connected sx sy m0 k j" for j
      by (rule same_cells_connected [OF regions_invD(1) [OF Suc.prems(1)] len(1)])
    ultimately have "set_region fuel (Some b) k m sx sy regs
        = Inr (mark (regs ! c) {j. connected sx sy m0 k j} m, regs[c := regs ! c + 1])"
      by simp
    moreover obtain m' regs' where "region_cells fuel (Some b) sx sy bound [Suc k..<Suc k + n]
        (mark (regs ! c) {j. connected sx sy m0 k j} m, regs[c := regs ! c + 1]) = Inr (m', regs')"
      "regions_inv sx sy bound m0 (sx * sy) m' regs'"
      using Suc.IH [OF new(3)] True Suc.prems(2) by auto
    ultimately show ?thesis
      unfolding upt using True S(3) k len by (simp add: cell_of_def del: upt_Suc)
  next
    case False
    note D = regions_invD [OF Suc.prems(1)]
    have "list_all (\<lambda>n. unat n \<le> Suc k) regs"
      using D(2,3) by (auto simp: list_all_length le_SucI)
    moreover have "mp_region (m ! i) \<noteq> - 1" if "i < Suc k" "mp_ground (m0 ! i) \<noteq> bound" for i
      using that D(7) False by (cases "i = k") auto
    ultimately have "regions_inv sx sy bound m0 (Suc k) m regs"
      using Suc.prems(1) unfolding regions_inv_def by blast
    from Suc.IH [OF this] Suc.prems(2) show ?thesis
      unfolding upt using False S(3) k len by (auto simp: cell_of_def simp del: upt_Suc)
  qed
qed

section \<open>The first pass\<close>

lemma res_map_ok:
  "(\<And>x. x \<in> set xs \<Longrightarrow> \<exists>y. f x = Inr y \<and> P x y) \<Longrightarrow>
    \<exists>ys. res_map f xs = Inr ys \<and> length ys = length xs \<and> (\<forall>i < length xs. P (xs ! i) (ys ! i))"
proof (induction xs)
  case Nil
  then show ?case by simp
next
  case (Cons x xs)
  then obtain ys where ys: "res_map f xs = Inr ys" "length ys = length xs" "\<forall>i < length xs. P (xs ! i) (ys ! i)"
    by auto
  obtain y where "f x = Inr y" "P x y"
    using Cons.prems by auto
  with ys show ?case
    by (auto simp: nth_Cons split: nat.splits)
qed

text \<open>Sites that are all set, with grounds of \<open>G\<close>.\<close>

definition sites_ok :: "ground_type_t set \<Rightarrow> site option list \<Rightarrow> bool" where
  "sites_ok G ss \<longleftrightarrow> list_all (\<lambda>s. case s of None \<Rightarrow> False | Some (_, _, g) \<Rightarrow> g \<in> G) ss"

lemma nearest_loop_ok:
  "sites_ok G ss \<Longrightarrow> (case best of None \<Rightarrow> ss \<noteq> [] | Some (d, g) \<Rightarrow> g \<in> G) \<Longrightarrow>
    \<exists>d g. nearest_loop x y best ss = Inr (Some (d, g)) \<and> g \<in> G"
proof (induction ss arbitrary: best)
  case Nil
  then show ?case by (auto split: option.splits)
next
  case (Cons s ss)
  then obtain sx sy g where s: "s = Some (sx, sy, g)" "g \<in> G" "sites_ok G ss"
    by (auto simp: sites_ok_def split: option.splits)
  then show ?case
    using Cons.prems(2) by (auto simp: Let_def intro!: Cons.IH split: option.splits)
qed

lemma border_sites_ok:
  "border_sites fuel sx sy bound x y i sites = Inr sites' \<Longrightarrow> sites_ok G (take n sites) \<Longrightarrow> bound \<in> G \<Longrightarrow>
    length sites' = length sites \<and> sites_ok G (take n sites')"
proof (induction fuel sx sy bound x y i sites rule: border_sites.induct)
  case (2 fuel sx sy bound x y i sites)
  have "sites_ok G (take n (sites[i := Some (int x, int y, bound)]))"
    using "2.prems"(2,3) by (auto simp: sites_ok_def list_all_iff take_update_swap dest!: set_update_subset_insert [THEN subsetD])
  then show ?case
    using 2 by (auto split: if_splits)
qed simp

lemma border_sites_row:
  assumes "4 \<le> sy" "x \<le> sx" "i + 3 \<le> length sites"
  shows "\<exists>sites' i'. border_sites (4 + fuel) sx sy bound x 0 i sites
      = border_sites fuel sx sy bound (x + sx div 2) 0 i' sites'
    \<and> length sites' = length sites \<and> i' = (if x = sx div 2 then Suc (Suc i) else Suc (Suc (Suc i)))"
proof -
  have h: "0 < sy div 2" "\<not> sy div 2 > sy" "sy div 2 + sy div 2 \<le> sy" "sy < sy div 2 + sy div 2 + sy div 2"
    using assms(1) by linarith+
  have four: "4 + fuel = Suc (Suc (Suc (Suc fuel)))"
    by simp
  show ?thesis
    unfolding four using assms h by (cases "x = sx div 2") (auto simp: not_less)
qed

lemma border_sites_runs:
  assumes "4 \<le> sx" "4 \<le> sy" "8 \<le> length sites" "13 \<le> fuel"
  shows "\<exists>sites'. border_sites fuel sx sy bound 0 0 0 sites = Inr sites'"
proof -
  define f where "f = fuel - 13"
  have f: "fuel = 4 + (4 + (4 + Suc f))"
    using assms(4) by (simp add: f_def)
  have h: "0 < sx div 2" "sx div 2 \<le> sx" "sx div 2 + sx div 2 \<le> sx" "sx < sx div 2 + sx div 2 + sx div 2"
    using assms(1) by linarith+
  obtain s1 where s1: "border_sites fuel sx sy bound 0 0 0 sites
      = border_sites (4 + (4 + Suc f)) sx sy bound (sx div 2) 0 (Suc (Suc (Suc 0))) s1" "length s1 = length sites"
    unfolding f using border_sites_row [of sy 0 sx 0 sites "4 + (4 + Suc f)" bound] assms h by auto
  obtain s2 where s2: "border_sites (4 + (4 + Suc f)) sx sy bound (sx div 2) 0 (Suc (Suc (Suc 0))) s1
      = border_sites (4 + Suc f) sx sy bound (sx div 2 + sx div 2) 0 (Suc (Suc (Suc (Suc (Suc 0))))) s2" "length s2 = length sites"
    using border_sites_row [of sy "sx div 2" sx "(Suc (Suc (Suc 0)))" s1 "4 + Suc f" bound] assms h s1(2) by auto
  obtain s3 i3 where s3: "border_sites (4 + Suc f) sx sy bound (sx div 2 + sx div 2) 0 (Suc (Suc (Suc (Suc (Suc 0))))) s2
      = border_sites (Suc f) sx sy bound (sx div 2 + sx div 2 + sx div 2) 0 i3 s3"
    using border_sites_row [of sy "sx div 2 + sx div 2" sx "(Suc (Suc (Suc (Suc (Suc 0)))))" s2 "Suc f" bound] assms h s2(2) by auto
  show ?thesis
    unfolding s1(1) s2(1) s3 using h(4) by simp
qed

lemma random_sites_ok: "sites_ok {soil, sand, grass, bound} (take n (random_sites rnd n sx sy))"
  by (auto simp: sites_ok_def random_sites_def list_all_iff ground_mod_def)

text \<open>What the first pass leaves in the cell \<open>i\<close>.\<close>

definition fresh_cell :: "map_t \<Rightarrow> nat \<Rightarrow> nat \<Rightarrow> ground_type_t \<Rightarrow> nat \<Rightarrow> site option list \<Rightarrow> nat \<Rightarrow> nat \<Rightarrow> map_point_t \<Rightarrow> bool" where
  "fresh_cell junk sx sy bound indent sites n i p \<longleftrightarrow> mp_x p = int (i mod sx) \<and> mp_y p = int (i div sx)
     \<and> mp_surface p = empty \<and> mp_child_type p = nothing \<and> mp_region p = - 1
     \<and> mp_child p = mp_child (junk ! i) \<and> mp_name_id p = mp_name_id (junk ! i)
     \<and> cell_ground sx sy bound indent sites n (i mod sx) (i div sx) = Inr (mp_ground p)
     \<and> (mp_ground p = bound \<or> walkable (mp_ground p))"

lemma ground_cells_ok:
  assumes "sites_ok {soil, sand, grass, bound} (take n sites)" "0 < n" "n \<le> length sites"
  shows "\<exists>m. ground_cells junk sx sy bound indent sites n = Inr m \<and> length m = sx * sy
    \<and> (\<forall>i < sx * sy. fresh_cell junk sx sy bound indent sites n i (m ! i))"
proof -
  have "\<exists>g. cell_ground sx sy bound indent sites n x y = Inr g \<and> (g = bound \<or> walkable g)" for x y
  proof -
    have "take n sites \<noteq> []"
      using assms(2,3) by auto
    then obtain d g where "nearest_loop (int x) (int y) None (take n sites) = Inr (Some (d, g))"
        "g \<in> {soil, sand, grass, bound}"
      using nearest_loop_ok [OF assms(1), of None "int x" "int y"] by (simp del: insert_iff) blast
    then show ?thesis
      by (auto simp: cell_ground_def nearest_ground_def walkable_iff(2))
  qed
  then have "\<exists>g. cell_ground sx sy bound indent sites n (i mod sx) (i div sx) = Inr g \<and> (g = bound \<or> walkable g)" for i
    by blast
  then have ex: "\<exists>p. rbind (cell_ground sx sy bound indent sites n (i mod sx) (i div sx)) (\<lambda>g.
       Inr ((junk ! i)\<lparr>mp_x := int (i mod sx), mp_y := int (i div sx), mp_ground := g,
         mp_surface := empty, mp_child_type := nothing, mp_region := - 1\<rparr>)) = Inr p
      \<and> fresh_cell junk sx sy bound indent sites n i p" for i
  proof -
    obtain g where "cell_ground sx sy bound indent sites n (i mod sx) (i div sx) = Inr g" "g = bound \<or> walkable g"
      using \<open>\<And>i. \<exists>g. cell_ground sx sy bound indent sites n (i mod sx) (i div sx) = Inr g \<and> (g = bound \<or> walkable g)\<close>
      by blast
    then show ?thesis
      by (simp add: fresh_cell_def)
  qed
  show ?thesis
    unfolding ground_cells_def
    using res_map_ok [of "[0..<sx * sy]", OF ex] by auto
qed

section \<open>Properties\<close>

lemma map_generation_pass2:
  assumes "length m0 = sx * sy" "\<forall>i < sx * sy. fresh_cell junk sx sy bound indent sites n i (m0 ! i)"
    "sx * sy < 2 ^ 31" "sx * sy \<le> q_quota b" "sx * sy \<le> fuel"
  shows "\<exists>m regs. region_cells fuel (Some b) sx sy bound [0..<sx * sy] (m0, replicate GROUND_TYPE_CNT 0) = Inr (m, regs)
    \<and> regions_inv sx sy bound m0 (sx * sy) m regs"
proof -
  have g: "grid_ok sx sy m0"
    using assms(1,2) by (simp add: grid_ok_def list_all_iff fresh_cell_def)
  have w: "\<forall>i < sx * sy. mp_ground (m0 ! i) \<noteq> bound \<longrightarrow> walkable (mp_ground (m0 ! i))"
    using assms(2) by (auto simp: fresh_cell_def)
  have "regions_inv sx sy bound m0 0 m0 (replicate GROUND_TYPE_CNT 0)"
    using assms(2) by (auto simp: regions_inv_def same_cells_refl fresh_cell_def list_all_iff)
  from region_cells_spec [OF g assms(3-5) w this, of "sx * sy"] show ?thesis
    by simp
qed

text \<open>What \<open>map_generation\<close> returns; pointers and names are those of the memory it got.\<close>

lemma map_generation_ok:
  assumes "1 \<le> factor" and "4 \<le> sx" and "4 \<le> sy" and "sx * sy < 2 ^ 31" and "sx * sy \<le> q_quota b"
    and "sx * sy \<le> fuel" and "13 \<le> fuel"
  shows "\<exists>m sites. map_generation fuel (Some b) junk rnd factor sx sy bound indent = Inr m \<and> grid_ok sx sy m
    \<and> (\<forall>i < sx * sy. mp_surface (m ! i) = empty \<and> mp_child_type (m ! i) = nothing
        \<and> mp_child (m ! i) = mp_child (junk ! i) \<and> mp_name_id (m ! i) = mp_name_id (junk ! i)
        \<and> cell_ground sx sy bound indent sites (factor * GROUND_TYPE_CNT) (i mod sx) (i div sx) = Inr (mp_ground (m ! i)))
    \<and> (\<forall>i < sx * sy. \<forall>j < sx * sy. mp_ground (m ! i) \<noteq> bound \<longrightarrow>
        (mp_ground (m ! j) = mp_ground (m ! i) \<and> mp_region (m ! j) = mp_region (m ! i) \<longleftrightarrow> connected sx sy m i j))"
proof -
  define n where "n = factor * GROUND_TYPE_CNT"
  let ?rs = "random_sites rnd n sx sy"
  have n: "0 < n" "length ?rs = n + 8"
    using assms(1) by (simp_all add: n_def GROUND_TYPE_CNT_def random_sites_def)
  obtain sites where sites: "border_sites fuel sx sy bound 0 0 0 ?rs = Inr sites"
    using border_sites_runs [OF assms(2,3) _ assms(7), of ?rs bound] n(2) by auto
  have ok: "length sites = length ?rs" "sites_ok {soil, sand, grass, bound} (take n sites)"
    using border_sites_ok [OF sites random_sites_ok [of bound n rnd sx sy]] by simp_all
  obtain m0 where m0: "ground_cells junk sx sy bound indent sites n = Inr m0" "length m0 = sx * sy"
      "\<forall>i < sx * sy. fresh_cell junk sx sy bound indent sites n i (m0 ! i)"
    using ground_cells_ok [OF ok(2) n(1), of junk sx sy indent] ok(1) n(2) by auto
  obtain m regs where m: "region_cells fuel (Some b) sx sy bound [0..<sx * sy] (m0, replicate GROUND_TYPE_CNT 0) = Inr (m, regs)"
      "regions_inv sx sy bound m0 (sx * sy) m regs"
    using map_generation_pass2 [OF m0(2,3) assms(4-6)] by blast
  note D = regions_invD [OF m(2)]
  note S = same_cellsD [OF D(1)]
  have "map_generation fuel (Some b) junk rnd factor sx sy bound indent = Inr m"
    using sites m0(1) m(1) by (simp add: map_generation_def n_def)
  moreover have "grid_ok sx sy m0"
    using m0(2,3) by (simp add: grid_ok_def list_all_iff fresh_cell_def)
  then have "grid_ok sx sy m"
    by (rule same_cells_grid [OF D(1)])
  moreover have "mp_surface (m ! i) = empty \<and> mp_child_type (m ! i) = nothing
      \<and> mp_child (m ! i) = mp_child (junk ! i) \<and> mp_name_id (m ! i) = mp_name_id (junk ! i)
      \<and> cell_ground sx sy bound indent sites n (i mod sx) (i div sx) = Inr (mp_ground (m ! i))" if "i < sx * sy" for i
    using that m0(3) arg_cong [OF S(2) [of i], of "\<lambda>p. (mp_surface p, mp_child_type p, mp_child p, mp_name_id p, mp_ground p)"] m0(2)
    by (simp add: fresh_cell_def)
  moreover have "mp_ground (m ! j) = mp_ground (m ! i) \<and> mp_region (m ! j) = mp_region (m ! i) \<longleftrightarrow> connected sx sy m i j"
    if "i < sx * sy" "j < sx * sy" "mp_ground (m ! i) \<noteq> bound" for i j
    using D(6) [OF that(1,2) D(7) [OF that(1)]] S(3) that m0(2)
    by (simp add: same_cells_connected [OF D(1) m0(2)])
  ultimately show ?thesis
    unfolding n_def by blast
qed

text \<open>
  C2. \<open>map_generation\<close> on a map of at least four by four cells returns (no loop runs on, no
  access leaves the arrays): every cell knows its place, the strip along the border has the
  ground \<open>bound\<close>, the rest the ground of its nearest site, and two cells off the
  \<open>bound\<close> ground get the same ground and region exactly when one can be reached from the
  other over cells of their ground.
\<close>

theorem map_generation_regions:
  assumes "1 \<le> factor" and "4 \<le> sx" and "4 \<le> sy" and "sx * sy < 2 ^ 31" and "sx * sy \<le> q_quota b"
    and "sx * sy \<le> fuel" and "13 \<le> fuel"
  shows "\<exists>m sites. map_generation fuel (Some b) junk rnd factor sx sy bound indent = Inr m \<and> grid_ok sx sy m
    \<and> (\<forall>i < sx * sy. mp_surface (m ! i) = empty \<and> mp_child_type (m ! i) = nothing
        \<and> cell_ground sx sy bound indent sites (factor * GROUND_TYPE_CNT) (i mod sx) (i div sx) = Inr (mp_ground (m ! i)))
    \<and> (\<forall>i < sx * sy. \<forall>j < sx * sy. mp_ground (m ! i) \<noteq> bound \<longrightarrow>
        (mp_ground (m ! j) = mp_ground (m ! i) \<and> mp_region (m ! j) = mp_region (m ! i) \<longleftrightarrow> connected sx sy m i j))"
  using map_generation_ok [OF assms, of junk rnd bound indent] by (elim exE conjE) (intro exI conjI, assumption+, blast+)

definition sample_block :: "nat queue_t" where
  "sample_block = \<lparr>q_count = 7, q_first = None, q_last = None, q_heap = [], q_quota = 100, q_junk = (\<lambda>_. None)\<rparr>"

lemma map_generation_regions_witness:
  "\<exists>m. map_generation 30 (Some sample_block) [] (\<lambda>i. i) 2 5 4 water 1 = Inr m \<and> grid_ok 5 4 m"
  using map_generation_regions [of 2 5 4 sample_block 30 "[]" "\<lambda>i. i" water 1] by (auto simp: sample_block_def)

lemma border_sites_num:
  "border_sites (numeral k) sx sy bound x y i sites =
    (if x > sx then Inr sites
     else if y > sy then border_sites (pred_numeral k) sx sy bound (x + sx div 2) 0 i sites
     else if x = sx div 2 \<and> y = sy div 2 then border_sites (pred_numeral k) sx sy bound x (y + sy div 2) i sites
     else if i < length sites
     then border_sites (pred_numeral k) sx sy bound x (y + sy div 2) (i + 1) (sites[i := Some (int x, int y, bound)])
     else Inl OutOfBounds)"
  by (simp add: numeral_eq_Suc)

text \<open>
  The eight sites of the border overwrite the first sites drawn, and on a three by three map
  the steps of the border loops are so short that they write fifteen sites: with
  \<open>factor\<close> 1 that is past the end of the array.
\<close>

theorem map_generation_three: "map_generation 30 block junk rnd 1 3 3 bound indent = Inl OutOfBounds"
proof -
  have "length (random_sites rnd 3 3 3) = 11"
    by (simp add: random_sites_def)
  then have "border_sites 30 3 3 bound 0 0 0 (random_sites rnd 3 3 3) = Inl OutOfBounds"
    by (simp add: border_sites_num)
  then show ?thesis
    by (simp add: map_generation_def GROUND_TYPE_CNT_def)
qed

lemma nearest_loop_min:
  assumes "nearest_loop x y best ss = Inr (Some (d, g))"
  shows "(best = Some (d, g) \<or> (\<exists>i sx sy. i < length ss \<and> ss ! i = Some (sx, sy, g) \<and> d = sum_sq (x - sx) (y - sy)))
    \<and> (case best of None \<Rightarrow> True | Some (d', _) \<Rightarrow> d \<le> d')
    \<and> (\<forall>i < length ss. \<forall>sx sy g'. ss ! i = Some (sx, sy, g') \<longrightarrow> d \<le> sum_sq (x - sx) (y - sy))"
  using assms
proof (induction ss arbitrary: best)
  case Nil
  then show ?case by simp
next
  case (Cons s ss)
  then obtain sx sy g0 where s: "s = Some (sx, sy, g0)"
    by (cases s) auto
  define b where "b = (case best of None \<Rightarrow> Some (sum_sq (x - sx) (y - sy), g0)
      | Some (d', _) \<Rightarrow> if sum_sq (x - sx) (y - sy) < d' then Some (sum_sq (x - sx) (y - sy), g0) else best)"
  have IH: "nearest_loop x y b ss = Inr (Some (d, g))"
    using Cons.prems by (simp add: s b_def Let_def)
  note I = Cons.IH [OF IH]
  have b: "b = best \<or> b = Some (sum_sq (x - sx) (y - sy), g0)"
    "case b of None \<Rightarrow> False | Some (d', _) \<Rightarrow> d' \<le> sum_sq (x - sx) (y - sy)
       \<and> (case best of None \<Rightarrow> True | Some (d'', _) \<Rightarrow> d' \<le> d'')"
    by (auto simp: b_def split: option.splits)
  have 1: "best = Some (d, g) \<or> (\<exists>i sx sy. i < length (s # ss) \<and> (s # ss) ! i = Some (sx, sy, g) \<and> d = sum_sq (x - sx) (y - sy))"
  proof (cases "b = Some (d, g) \<and> b \<noteq> best")
    case True
    then show ?thesis
      using b(1) s by (intro disjI2, rule_tac x = 0 in exI, rule_tac x = sx in exI, rule_tac x = sy in exI) auto
  next
    case False
    then consider "best = Some (d, g)"
      | i sx sy where "i < length ss" "ss ! i = Some (sx, sy, g)" "d = sum_sq (x - sx) (y - sy)"
      using I by blast
    then show ?thesis
    proof cases
      case 2
      then have "Suc i < length (s # ss) \<and> (s # ss) ! Suc i = Some (sx, sy, g)" by simp
      with 2(3) show ?thesis by blast
    qed blast
  qed
  have 2: "d \<le> sum_sq (x - sx) (y - sy)" "case best of None \<Rightarrow> True | Some (d', _) \<Rightarrow> d \<le> d'"
    using I b(2) by (auto split: option.splits)
  have "\<forall>i < length (s # ss). \<forall>sx sy g'. (s # ss) ! i = Some (sx, sy, g') \<longrightarrow> d \<le> sum_sq (x - sx) (y - sy)"
    using I 2(1) s by (auto simp: nth_Cons split: nat.splits)
  with 1 2(2) show ?case by blast
qed

text \<open>
  \<open>nearest_ground\<close> over sites that are all set returns the ground of a site whose squared
  distance is minimal; without a site its result is never initialised.
\<close>

theorem nearest_ground_minimal:
  assumes "list_all (\<lambda>s. s \<noteq> None) sites" and "n \<le> length sites"
  shows "if n = 0 then nearest_ground x y sites n = Inl Uninitialised
    else \<exists>i sx sy g. i < n \<and> sites ! i = Some (sx, sy, g) \<and> nearest_ground x y sites n = Inr g
      \<and> (\<forall>j < n. \<forall>sx' sy' g'. sites ! j = Some (sx', sy', g') \<longrightarrow>
            sum_sq (x - sx) (y - sy) \<le> sum_sq (x - sx') (y - sy'))"
proof (cases "n = 0")
  case True
  then show ?thesis by (simp add: nearest_ground_def)
next
  case False
  have "sites_ok UNIV (take n sites)"
    using assms(1) by (auto simp: sites_ok_def list_all_iff dest!: in_set_takeD split: option.splits)
  moreover have "take n sites \<noteq> []"
    using False assms(2) by auto
  ultimately obtain d g where l: "nearest_loop x y None (take n sites) = Inr (Some (d, g))"
    using nearest_loop_ok [of UNIV "take n sites" None x y] by auto
  show ?thesis
    using nearest_loop_min [OF l] False assms(2) l by (auto simp: nearest_ground_def)
qed

lemma nearest_ground_minimal_witness:
  "nearest_ground 4 4 [Some (0, 0, sand), Some (5, 5, grass), Some (9, 9, soil)] 3 = Inr grass
   \<and> (\<exists>i (sx :: int) (sy :: int) g. i < 3 \<and> [Some (0, 0, sand), Some (5, 5, grass), Some (9, 9, soil)] ! i = Some (sx, sy, g)
      \<and> nearest_ground 4 4 [Some (0, 0, sand), Some (5, 5, grass), Some (9, 9, soil)] 3 = Inr g)"
proof -
  have "nearest_ground 4 4 [Some (0, 0, sand), Some (5, 5, grass), Some (9, 9, soil)] 3 = Inr grass"
    by code_simp
  moreover have "list_all (\<lambda>s. s \<noteq> None) [Some (0 :: int, 0 :: int, sand), Some (5, 5, grass), Some (9, 9, soil)]"
      "3 \<le> length [Some (0 :: int, 0 :: int, sand), Some (5, 5, grass), Some (9, 9, soil)]"
    by simp_all
  from nearest_ground_minimal [OF this, of 4 4]
  have "\<exists>i (sx :: int) (sy :: int) g. i < 3 \<and> [Some (0, 0, sand), Some (5, 5, grass), Some (9, 9, soil)] ! i = Some (sx, sy, g)
      \<and> nearest_ground 4 4 [Some (0, 0, sand), Some (5, 5, grass), Some (9, 9, soil)] 3 = Inr g"
    unfolding if_not_P [OF numeral_neq_zero] by blast
  ultimately show ?thesis by blast
qed

end
