(* ===== verification/Character.thy ===== *)
theory Character
  imports WorldMap Network
begin

text \<open>
  The characters of the game (\<open>game_processing/character.c\<close>, \<open>character.h\<close>, \<open>item.c\<close>) and the
  global state of \<open>game_main.c\<close> that they work on.  A \<open>character_t*\<close> is an address in
  \<open>w_chars\<close>, the \<open>addr\<close> member an address in \<open>w_addrs\<close>.  Distances are compared as squares:
  \<open>sqrt\<close> is monotone, and a double holds the squares of map coordinates exactly.  Levels and
  characteristics are unbounded integers (the products and differences of the code stay far
  below the limits of \<open>int\<close> for the levels the game uses).
\<close>

section \<open>Data\<close>

definition visibility_range :: int where "visibility_range = 3"
definition INT_MAX :: int where "INT_MAX = 2147483647"
definition NAME_LEN :: nat where "NAME_LEN = 128"

datatype direction_t = west | east | north | south | nowhere

datatype character_race_t = human | beast

record characteristics_t =
  power :: int
  armor :: int
  evasion :: int
  hp :: int

datatype item_type_t = onehanded_sword | twohanded_sword | shield | full_armor

record item_t =
  it_type :: item_type_t
  it_name :: "byte list"
  it_characteristics :: characteristics_t
  it_strength :: int

record character_t =
  ch_name :: "byte list"
  ch_addr :: ptr
  ch_race :: character_race_t
  ch_id :: int
  ch_lvl :: int
  ch_characteristics :: characteristics_t
  ch_x :: int
  ch_y :: int
  ch_is_player :: bool
  ch_items :: "item_t list"
  ch_step_time :: int
  ch_target :: ptr
  ch_aggression :: bool
  ch_next_step :: direction_t
  ch_step_start_time :: int

text \<open>\<open>cs_arr\<close> has the entries that were allocated; only the first \<open>cs_count\<close> are in use.\<close>

record characters_t =
  cs_arr :: "nat list"
  cs_count :: int

record world_t =
  w_characters :: characters_t
  w_chars :: "character_t heap"
  w_addrs :: "sockaddr_in heap"
  w_map :: map_t
  w_msize_x :: nat
  w_msize_y :: nat
  w_index_tick :: int

section \<open>Creation\<close>

definition item_new :: "item_type_t \<Rightarrow> byte list \<Rightarrow> characteristics_t \<Rightarrow> int \<Rightarrow> item_t" where
  "item_new ty nm c strength =
     \<lparr>it_type = ty, it_name = nm, it_characteristics = c, it_strength = strength\<rparr>"

text \<open>\<open>sprintf(dst, "%s", src)\<close> into a buffer.\<close>

definition sprint_str :: "byte list \<Rightarrow> byte list \<Rightarrow> byte list res" where
  "sprint_str dst src = rbind (strlen src) (\<lambda>n. memcpy dst 0 (take n src @ [0]))"

definition race_characteristics :: "character_race_t \<Rightarrow> characteristics_t" where
  "race_characteristics r = (case r of
     human \<Rightarrow> \<lparr>power = 10, armor = 5, evasion = 2, hp = 100\<rparr>
   | beast \<Rightarrow> \<lparr>power = 13, armor = 2, evasion = 2, hp = 100\<rparr>)"

definition character_new :: "byte list \<Rightarrow> int \<Rightarrow> int \<Rightarrow> byte list \<Rightarrow> character_race_t \<Rightarrow> int \<Rightarrow> int \<Rightarrow> bool \<Rightarrow> ptr
    \<Rightarrow> character_t res" where
  "character_new junk x y name race lvl step_time is_player addr =
     rbind (sprint_str junk name) (\<lambda>name.
       let c = race_characteristics race in
       Inr \<lparr>ch_name = name, ch_addr = addr, ch_race = race, ch_id = 0, ch_lvl = lvl,
         ch_characteristics = \<lparr>power = power c * lvl, armor = armor c * lvl,
           evasion = evasion c * lvl, hp = hp c * lvl\<rparr>,
         ch_x = x, ch_y = y, ch_is_player = is_player, ch_items = [], ch_step_time = step_time,
         ch_target = None, ch_aggression = False, ch_next_step = nowhere, ch_step_start_time = 0\<rparr>)"

section \<open>The table of characters\<close>

definition compare_address :: "sockaddr_in \<Rightarrow> sockaddr_in \<Rightarrow> bool" where
  "compare_address a1 a2 \<longleftrightarrow> sin_family a1 = sin_family a2 \<and> s_addr a1 = s_addr a2 \<and> sin_port a1 = sin_port a2"

text \<open>\<open>characters.arr[i]\<close>.\<close>

definition cs_at :: "characters_t \<Rightarrow> nat \<Rightarrow> ptr res" where
  "cs_at cs i = (if i < length (cs_arr cs) then Inr (Some (cs_arr cs ! i)) else Inl OutOfBounds)"

fun get_by_addr_loop :: "world_t \<Rightarrow> sockaddr_in \<Rightarrow> nat list \<Rightarrow> ptr res" where
  "get_by_addr_loop w addr [] = Inr None"
| "get_by_addr_loop w addr (i # is) =
     rbind (cs_at (w_characters w) i) (\<lambda>p.
     rbind (load (w_chars w) p) (\<lambda>c.
       if \<not> ch_is_player c then get_by_addr_loop w addr is
       else
         rbind (load (w_addrs w) (ch_addr c)) (\<lambda>a.
           if compare_address a addr then Inr p else get_by_addr_loop w addr is)))"

definition character_get_by_addr :: "world_t \<Rightarrow> sockaddr_in \<Rightarrow> ptr res" where
  "character_get_by_addr w addr = get_by_addr_loop w addr [0..<nat (cs_count (w_characters w))]"

text \<open>\<open>next_step = 0\<close> is \<open>west\<close>.\<close>

definition character_set_target :: "character_t heap \<Rightarrow> ptr \<Rightarrow> ptr \<Rightarrow> character_t heap res" where
  "character_set_target h character target =
     rbind (load h character) (\<lambda>c.
       store h character (c\<lparr>ch_target := target, ch_next_step := west, ch_step_start_time := 0\<rparr>))"

definition set_child :: "world_t \<Rightarrow> int \<Rightarrow> int \<Rightarrow> (map_point_t \<Rightarrow> map_point_t) \<Rightarrow> world_t res" where
  "set_child w x y f =
     rbind (cell_at (w_map w) (w_msize_x w) x y) (\<lambda>p.
     rbind (set_cell (w_map w) (w_msize_x w) x y (f p)) (\<lambda>m. Inr (w\<lparr>w_map := m\<rparr>)))"

definition kind_of :: "character_t \<Rightarrow> object_type_t" where
  "kind_of c = (if ch_is_player c then player_obj else enemy)"

definition character_add :: "world_t \<Rightarrow> ptr \<Rightarrow> world_t res" where
  "character_add w character =
     (let cs = w_characters w in
      if cs_count cs < 0 then Inl OutOfBounds
      else
        rbind (load (w_chars w) character) (\<lambda>c.
        rbind (store (w_chars w) character (c\<lparr>ch_id := cs_count cs\<rparr>)) (\<lambda>h.
          let w = w\<lparr>w_characters := \<lparr>cs_arr = take (nat (cs_count cs)) (cs_arr cs) @ [the character],
                      cs_count = cs_count cs + 1\<rparr>, w_chars := h\<rparr> in
          set_child w (ch_x c) (ch_y c) (\<lambda>p. p\<lparr>mp_child_type := kind_of c\<rparr>))))"

text \<open>\<open>memmove\<close> of \<open>n\<close> entries from \<open>src\<close> to \<open>dst\<close> of one array.\<close>

definition arr_move :: "nat list \<Rightarrow> int \<Rightarrow> int \<Rightarrow> int \<Rightarrow> nat list res" where
  "arr_move arr dst src n =
     (if 0 \<le> dst \<and> 0 \<le> src \<and> 0 \<le> n \<and> dst + n \<le> int (length arr) \<and> src + n \<le> int (length arr)
      then Inr (take (nat dst) arr @ take (nat n) (drop (nat src) arr) @ drop (nat (dst + n)) arr)
      else Inl OutOfBounds)"

definition character_remove :: "world_t \<Rightarrow> ptr \<Rightarrow> world_t res" where
  "character_remove w character =
     rbind (load (w_chars w) character) (\<lambda>c.
     rbind (set_child w (ch_x c) (ch_y c) (\<lambda>p. p\<lparr>mp_child_type := nothing\<rparr>)) (\<lambda>w.
     rbind (set_child w (ch_x c) (ch_y c) (\<lambda>p. p\<lparr>mp_child := None\<rparr>)) (\<lambda>w.
     rbind (if ch_addr c \<noteq> None then free (w_addrs w) (ch_addr c) else Inr (w_addrs w)) (\<lambda>addrs.
       let w = w\<lparr>w_addrs := addrs\<rparr>; cs = w_characters w; count = cs_count cs in
       rbind (if count - 1 \<noteq> ch_id c
              then
                let w = (if w_index_tick w > ch_id c then w\<lparr>w_index_tick := w_index_tick w - 1\<rparr> else w) in
                rbind (arr_move (cs_arr cs) (ch_id c) (ch_id c + 1) (count - ch_id c)) (\<lambda>arr.
                  Inr (w\<lparr>w_characters := cs\<lparr>cs_arr := arr\<rparr>\<rparr>))
              else Inr w) (\<lambda>w.
         let cs = w_characters w in
         Inr (w\<lparr>w_characters := cs\<lparr>cs_count := cs_count cs - 1\<rparr>\<rparr>))))))"

section \<open>Targets and fights\<close>

definition dist_sq :: "int \<Rightarrow> int \<Rightarrow> int \<Rightarrow> int \<Rightarrow> int" where
  "dist_sq x y x' y' = (x' - x) ^ 2 + (y' - y) ^ 2"

text \<open>The loop of \<open>character_find_target\<close> with the square of \<open>min_dist\<close>.\<close>

fun find_target_loop :: "characters_t \<Rightarrow> ptr \<Rightarrow> nat list \<Rightarrow> int \<Rightarrow> character_t heap \<Rightarrow> character_t heap res" where
  "find_target_loop cs character [] min_dist h = Inr h"
| "find_target_loop cs character (i # is) min_dist h =
     rbind (cs_at cs i) (\<lambda>p.
     rbind (load h character) (\<lambda>c.
     rbind (load h p) (\<lambda>t.
       if p = character \<or> ch_race t = ch_race c then find_target_loop cs character is min_dist h
       else
         let dist = dist_sq (ch_x c) (ch_y c) (ch_x t) (ch_y t) in
         if dist < min_dist
         then rbind (character_set_target h character p) (find_target_loop cs character is dist)
         else find_target_loop cs character is min_dist h)))"

definition character_find_target :: "world_t \<Rightarrow> ptr \<Rightarrow> world_t res" where
  "character_find_target w character =
     rbind (load (w_chars w) character) (\<lambda>c.
       if ch_is_player c then Inr w
       else
         rbind (find_target_loop (w_characters w) character [0..<nat (cs_count (w_characters w))] (INT_MAX ^ 2) (w_chars w)) (\<lambda>h.
           Inr (w\<lparr>w_chars := h\<rparr>)))"

text \<open>\<open>r\<close> is the value of \<open>rand\<close>; the remainder has the sign of the dividend.\<close>

definition character_damage :: "int \<Rightarrow> character_t \<Rightarrow> character_t \<Rightarrow> (int \<times> character_t) res" where
  "character_damage r character target =
     (if evasion (ch_characteristics target) = 0 then Inl DivByZero
      else
        let tc = ch_characteristics target;
            damage = power (ch_characteristics character) - (r mod \<bar>evasion tc\<bar>) - armor tc;
            damage = (if damage < 0 then 0 else damage);
            h = hp tc - damage;
            h = (if h < 0 then 0 else h)
        in Inr (damage, target\<lparr>ch_characteristics := tc\<lparr>hp := h\<rparr>\<rparr>))"

definition character_attack :: "int \<Rightarrow> character_t heap \<Rightarrow> ptr \<Rightarrow> (bool \<times> character_t heap) res" where
  "character_attack r h character =
     rbind (load h character) (\<lambda>c.
       if ch_target c = None then Inr (False, h)
       else
         rbind (load h (ch_target c)) (\<lambda>t.
           if dist_sq (ch_x c) (ch_y c) (ch_x t) (ch_y t) < 4 then
             rbind (character_damage r c t) (\<lambda>(_, t).
             rbind (store h (ch_target c) (t\<lparr>ch_target := character, ch_aggression := True\<rparr>)) (\<lambda>h.
             rbind (load h (ch_target c)) (\<lambda>t.
               if hp (ch_characteristics t) \<le> 0
               then rbind (load h character) (\<lambda>c. rbind (store h character (c\<lparr>ch_target := None\<rparr>)) (\<lambda>h. Inr (True, h)))
               else Inr (True, h))))
           else Inr (False, h)))"

definition character_add_item :: "character_t heap \<Rightarrow> ptr \<Rightarrow> item_t \<Rightarrow> character_t heap res" where
  "character_add_item h character item =
     rbind (load h character) (\<lambda>c. store h character (c\<lparr>ch_items := ch_items c @ [item]\<rparr>))"

section \<open>Movement\<close>

text \<open>\<open>x < size\<close> of an \<open>int\<close> and a \<open>size_t\<close>: a negative \<open>x\<close> becomes a huge number.\<close>

definition lt_size :: "int \<Rightarrow> nat \<Rightarrow> bool" where
  "lt_size x n \<longleftrightarrow> 0 \<le> x \<and> x < int n"

definition cell_free :: "map_t \<Rightarrow> nat \<Rightarrow> int \<Rightarrow> int \<Rightarrow> bool res" where
  "cell_free m msize_x x y =
     rbind (cell_at m msize_x x y) (\<lambda>p.
       Inr (mp_surface p \<noteq> wall \<and> mp_child_type p = nothing \<and> walkable (mp_ground p)))"

text \<open>The case distinction over \<open>next_step\<close> of a player.\<close>

definition player_step :: "character_t \<Rightarrow> nat \<Rightarrow> nat \<Rightarrow> map_t \<Rightarrow> bool res" where
  "player_step c msize_x msize_y m = (case ch_next_step c of
     west \<Rightarrow> if lt_size (ch_x c + 1) msize_x then cell_free m msize_x (ch_x c + 1) (ch_y c) else Inr False
   | east \<Rightarrow> if 0 \<le> ch_x c - 1 then cell_free m msize_x (ch_x c - 1) (ch_y c) else Inr False
   | north \<Rightarrow> if lt_size (ch_y c + 1) msize_y then cell_free m msize_x (ch_x c) (ch_y c + 1) else Inr False
   | south \<Rightarrow> if 0 \<le> ch_y c - 1 then cell_free m msize_x (ch_x c) (ch_y c - 1) else Inr False
   | nowhere \<Rightarrow> Inr True)"

text \<open>
  One of the four scans, along the cells \<open>ps\<close>: it stops at the first blocked cell and yields
  the square of the least distance to the target.
\<close>

fun scan_cells :: "map_t \<Rightarrow> nat \<Rightarrow> int \<Rightarrow> int \<Rightarrow> (int \<times> int) list \<Rightarrow> int \<Rightarrow> int res" where
  "scan_cells m msize_x tx ty [] min_dist = Inr min_dist"
| "scan_cells m msize_x tx ty ((x, y) # ps) min_dist =
     rbind (cell_free m msize_x x y) (\<lambda>free.
       if \<not> free then Inr min_dist
       else
         let dist = dist_sq x y tx ty in
         scan_cells m msize_x tx ty ps (if dist < min_dist then dist else min_dist))"

text \<open>The cells each loop runs over: at most \<open>visibility_range\<close> and inside the map.\<close>

definition scan_path :: "direction_t \<Rightarrow> int \<Rightarrow> int \<Rightarrow> nat \<Rightarrow> nat \<Rightarrow> (int \<times> int) list" where
  "scan_path d x y msize_x msize_y = (case d of
     west \<Rightarrow> takeWhile (\<lambda>(x, y). lt_size x msize_x) (map (\<lambda>k. (x + k, y)) [1..visibility_range])
   | east \<Rightarrow> takeWhile (\<lambda>(x, y). 0 \<le> x) (map (\<lambda>k. (x - k, y)) [1..visibility_range])
   | north \<Rightarrow> takeWhile (\<lambda>(x, y). lt_size y msize_y) (map (\<lambda>k. (x, y + k)) [1..visibility_range])
   | south \<Rightarrow> takeWhile (\<lambda>(x, y). 0 \<le> y) (map (\<lambda>k. (x, y - k)) [1..visibility_range])
   | nowhere \<Rightarrow> [])"

text \<open>The choice among the four minima; \<open>None\<close> while \<open>direction\<close> has no value.\<close>

fun best_direction :: "(direction_t \<times> int) list \<Rightarrow> int \<Rightarrow> direction_t option \<Rightarrow> int \<times> direction_t option" where
  "best_direction [] min_dist d = (min_dist, d)"
| "best_direction ((d', v) # ds) min_dist d =
     (if v < min_dist then best_direction ds v (Some d') else best_direction ds min_dist d)"

definition character_move_to_target :: "character_t heap \<Rightarrow> character_t \<Rightarrow> nat \<Rightarrow> nat \<Rightarrow> map_t \<Rightarrow> direction_t res" where
  "character_move_to_target h c msize_x msize_y m =
     (if ch_is_player c then
        rbind (player_step c msize_x msize_y m) (\<lambda>ok. Inr (if ok then ch_next_step c else nowhere))
      else if ch_target c = None then Inr nowhere
      else
        rbind (load h (ch_target c)) (\<lambda>t.
        let scan = (\<lambda>d. scan_cells m msize_x (ch_x t) (ch_y t) (scan_path d (ch_x c) (ch_y c) msize_x msize_y) (INT_MAX ^ 2)) in
        rbind (scan west) (\<lambda>w.
        rbind (scan east) (\<lambda>e.
        rbind (scan north) (\<lambda>n.
        rbind (scan south) (\<lambda>s.
          let (min_dist, direction) = best_direction [(west, w), (east, e), (north, n), (south, s)] (INT_MAX ^ 2) None;
              dist = dist_sq (ch_x c) (ch_y c) (ch_x t) (ch_y t);
              direction = (if dist < min_dist \<or> dist \<le> 1 then Some nowhere else direction)
          in case direction of None \<Rightarrow> Inl Uninitialised | Some d \<Rightarrow> Inr d))))))"

text \<open>The cell one step away.\<close>

fun step_x :: "direction_t \<Rightarrow> int \<Rightarrow> int" where
  "step_x west x = x + 1" | "step_x east x = x - 1" | "step_x _ x = x"

fun step_y :: "direction_t \<Rightarrow> int \<Rightarrow> int" where
  "step_y north y = y + 1" | "step_y south y = y - 1" | "step_y _ y = y"

definition on_map :: "int \<Rightarrow> int \<Rightarrow> nat \<Rightarrow> nat \<Rightarrow> bool" where
  "on_map x y msize_x msize_y \<longleftrightarrow> 0 \<le> x \<and> x < int msize_x \<and> 0 \<le> y \<and> y < int msize_y"

section \<open>The scans\<close>

definition free_at :: "map_t \<Rightarrow> nat \<Rightarrow> int \<Rightarrow> int \<Rightarrow> bool" where
  "free_at m msize_x x y = (let p = m ! nat (cell_index msize_x x y) in
     mp_surface p \<noteq> wall \<and> mp_child_type p = nothing \<and> walkable (mp_ground p))"

lemma cell_free_on_map:
  assumes "length m = msize_x * msize_y" "on_map x y msize_x msize_y"
  shows "cell_free m msize_x x y = Inr (free_at m msize_x x y)"
  using assms cell_at_inside(1) [of m msize_x msize_y x y]
  by (simp add: cell_free_def free_at_def on_map_def Let_def)

lemma scan_path_on_map:
  assumes "on_map x y msize_x msize_y"
  shows "list_all (\<lambda>(x, y). on_map x y msize_x msize_y) (scan_path d x y msize_x msize_y)"
    and "scan_path d x y msize_x msize_y = [] \<or> hd (scan_path d x y msize_x msize_y) = (step_x d x, step_y d y)"
proof -
  have r: "[1..visibility_range] = [1, 2, 3]"
    by (simp add: visibility_range_def upto_rec1)
  show "list_all (\<lambda>(x, y). on_map x y msize_x msize_y) (scan_path d x y msize_x msize_y)"
    and "scan_path d x y msize_x msize_y = [] \<or> hd (scan_path d x y msize_x msize_y) = (step_x d x, step_y d y)"
    using assms by (cases d; simp add: scan_path_def r on_map_def lt_size_def)+
qed

lemma scan_cells_ok:
  assumes "length m = msize_x * msize_y" "list_all (\<lambda>(x, y). on_map x y msize_x msize_y) ps"
  shows "\<exists>v. scan_cells m msize_x tx ty ps mn = Inr v \<and> v \<le> mn
    \<and> (v \<noteq> mn \<longrightarrow> ps \<noteq> [] \<and> free_at m msize_x (fst (hd ps)) (snd (hd ps)))
    \<and> (v = mn \<or> (\<exists>(x, y) \<in> set ps. v = dist_sq x y tx ty))"
  using assms(2)
proof (induction ps arbitrary: mn)
  case Nil
  then show ?case by simp
next
  case (Cons p ps)
  obtain x y where p: "p = (x, y)" by (cases p)
  have f: "cell_free m msize_x x y = Inr (free_at m msize_x x y)"
    using Cons.prems by (simp add: p cell_free_on_map [OF assms(1)])
  show ?case
  proof (cases "free_at m msize_x x y")
    case True
    let ?mn = "if dist_sq x y tx ty < mn then dist_sq x y tx ty else mn"
    obtain v where "scan_cells m msize_x tx ty ps ?mn = Inr v" "v \<le> ?mn"
        "v = ?mn \<or> (\<exists>(x, y) \<in> set ps. v = dist_sq x y tx ty)"
      using Cons.IH [of ?mn] Cons.prems by auto
    then show ?thesis
      using True f by (intro exI [of _ v]) (auto simp: p Let_def split: if_splits)
  qed (simp add: p f)
qed

lemma best_direction_spec:
  "best_direction ds mn d0 = (v, d) \<Longrightarrow>
    (v = mn \<and> d = d0) \<or> (v < mn \<and> (\<exists>d'. d = Some d' \<and> (d', v) \<in> set ds))"
proof (induction ds mn d0 rule: best_direction.induct)
  case (2 d' v' ds mn d0)
  then show ?case by (auto split: if_splits)
qed simp

lemma player_step_ok:
  assumes "length m = msize_x * msize_y" "on_map (ch_x c) (ch_y c) msize_x msize_y"
  shows "\<exists>ok. player_step c msize_x msize_y m = Inr ok \<and> (ok \<longrightarrow> ch_next_step c = nowhere \<or>
    (on_map (step_x (ch_next_step c) (ch_x c)) (step_y (ch_next_step c) (ch_y c)) msize_x msize_y
     \<and> free_at m msize_x (step_x (ch_next_step c) (ch_x c)) (step_y (ch_next_step c) (ch_y c))))"
proof -
  let ?d = "ch_next_step c"
  have "on_map (step_x ?d (ch_x c)) (step_y ?d (ch_y c)) msize_x msize_y \<Longrightarrow>
      cell_free m msize_x (step_x ?d (ch_x c)) (step_y ?d (ch_y c))
        = Inr (free_at m msize_x (step_x ?d (ch_x c)) (step_y ?d (ch_y c)))"
    by (rule cell_free_on_map [OF assms(1)])
  then show ?thesis
    using assms(2) by (cases ?d) (auto simp: player_step_def on_map_def lt_size_def)
qed

lemma move_bot:
  assumes "length m = msize_x * msize_y" "on_map (ch_x c) (ch_y c) msize_x msize_y" "\<not> ch_is_player c"
    "load h (ch_target c) = Inr t" "dist_sq (ch_x c) (ch_y c) (ch_x t) (ch_y t) < INT_MAX ^ 2"
  shows "\<exists>d. character_move_to_target h c msize_x msize_y m = Inr d
    \<and> (d \<noteq> nowhere \<longrightarrow> on_map (step_x d (ch_x c)) (step_y d (ch_y c)) msize_x msize_y
        \<and> free_at m msize_x (step_x d (ch_x c)) (step_y d (ch_y c))
        \<and> (\<exists>(x, y) \<in> set (scan_path d (ch_x c) (ch_y c) msize_x msize_y).
              dist_sq x y (ch_x t) (ch_y t) \<le> dist_sq (ch_x c) (ch_y c) (ch_x t) (ch_y t)))"
proof -
  let ?path = "\<lambda>d. scan_path d (ch_x c) (ch_y c) msize_x msize_y"
  let ?scan = "\<lambda>d. scan_cells m msize_x (ch_x t) (ch_y t) (?path d) (INT_MAX ^ 2)"
  let ?dist = "dist_sq (ch_x c) (ch_y c) (ch_x t) (ch_y t)"
  have ex: "\<exists>v. ?scan d = Inr v \<and> v \<le> INT_MAX ^ 2
      \<and> (v \<noteq> INT_MAX ^ 2 \<longrightarrow> ?path d \<noteq> [] \<and> free_at m msize_x (fst (hd (?path d))) (snd (hd (?path d))))
      \<and> (v = INT_MAX ^ 2 \<or> (\<exists>(x, y) \<in> set (?path d). v = dist_sq x y (ch_x t) (ch_y t)))" for d
    by (rule scan_cells_ok [OF assms(1) scan_path_on_map(1) [OF assms(2)]])
  define v where "v d = (SOME v. ?scan d = Inr v)" for d
  have v: "?scan d = Inr (v d)" "v d \<noteq> INT_MAX ^ 2 \<Longrightarrow>
      on_map (step_x d (ch_x c)) (step_y d (ch_y c)) msize_x msize_y
      \<and> free_at m msize_x (step_x d (ch_x c)) (step_y d (ch_y c))
      \<and> (\<exists>(x, y) \<in> set (?path d). v d = dist_sq x y (ch_x t) (ch_y t))" for d
  proof -
    obtain w where w: "?scan d = Inr w" "w \<noteq> INT_MAX ^ 2 \<Longrightarrow> ?path d \<noteq> []
        \<and> free_at m msize_x (fst (hd (?path d))) (snd (hd (?path d)))
        \<and> (\<exists>(x, y) \<in> set (?path d). w = dist_sq x y (ch_x t) (ch_y t))"
      using ex [of d] by auto
    then have vw: "v d = w"
      by (simp add: v_def)
    then show "?scan d = Inr (v d)"
      using w(1) by simp
    assume "v d \<noteq> INT_MAX ^ 2"
    then have "?path d \<noteq> []" and f: "free_at m msize_x (fst (hd (?path d))) (snd (hd (?path d)))"
      and e: "\<exists>(x, y) \<in> set (?path d). v d = dist_sq x y (ch_x t) (ch_y t)"
      using w(2) vw by auto
    moreover from this have "hd (?path d) = (step_x d (ch_x c), step_y d (ch_y c))"
      using scan_path_on_map(2) [OF assms(2), of d] by blast
    moreover from this have "on_map (step_x d (ch_x c)) (step_y d (ch_y c)) msize_x msize_y"
      using scan_path_on_map(1) [OF assms(2), of d] hd_in_set [OF \<open>?path d \<noteq> []\<close>]
      by (auto simp: list_all_iff)
    ultimately show "on_map (step_x d (ch_x c)) (step_y d (ch_y c)) msize_x msize_y
      \<and> free_at m msize_x (step_x d (ch_x c)) (step_y d (ch_y c))
      \<and> (\<exists>(x, y) \<in> set (?path d). v d = dist_sq x y (ch_x t) (ch_y t))"
      by simp
  qed
  obtain mn dir where b: "best_direction [(west, v west), (east, v east), (north, v north), (south, v south)]
      (INT_MAX ^ 2) None = (mn, dir)"
    by fastforce
  have tgt: "ch_target c \<noteq> None"
    using assms(4) by (cases "ch_target c") auto
  have mv: "character_move_to_target h c msize_x msize_y m =
      (case (if ?dist < mn \<or> ?dist \<le> 1 then Some nowhere else dir) of None \<Rightarrow> Inl Uninitialised | Some d \<Rightarrow> Inr d)"
    using assms(3,4) tgt by (simp only: character_move_to_target_def if_False rbind_Inr Let_def v(1) b case_prod_conv)
  show ?thesis
  proof (cases "?dist < mn \<or> ?dist \<le> 1")
    case True
    then show ?thesis by (simp add: mv)
  next
    case False
    then have "mn \<noteq> INT_MAX ^ 2"
      using assms(5) by auto
    then obtain d where d: "dir = Some d" "mn = v d" "v d < INT_MAX ^ 2"
      using best_direction_spec [OF b] by auto
    have "v d \<noteq> INT_MAX ^ 2"
      using d(3) by simp
    from v(2) [OF this] obtain a b where ab: "on_map (step_x d (ch_x c)) (step_y d (ch_y c)) msize_x msize_y"
        "free_at m msize_x (step_x d (ch_x c)) (step_y d (ch_y c))" "(a, b) \<in> set (?path d)"
        "v d = dist_sq a b (ch_x t) (ch_y t)"
      by auto
    moreover have "dist_sq a b (ch_x t) (ch_y t) \<le> ?dist"
      using False d(2) ab(4) by simp
    moreover have "character_move_to_target h c msize_x msize_y m = Inr d"
      using False d(1) by (simp add: mv)
    ultimately show ?thesis
      by (intro exI [of _ d]) (auto intro!: bexI [of _ "(a, b)"])
  qed
qed

lemma character_move_ok:
  assumes "length m = msize_x * msize_y" and "on_map (ch_x c) (ch_y c) msize_x msize_y"
    and "ch_is_player c \<or> ch_target c = None \<or> (load h (ch_target c) = Inr t
      \<and> dist_sq (ch_x c) (ch_y c) (ch_x t) (ch_y t) < INT_MAX ^ 2)"
  shows "\<exists>d. character_move_to_target h c msize_x msize_y m = Inr d
    \<and> (d \<noteq> nowhere \<longrightarrow> on_map (step_x d (ch_x c)) (step_y d (ch_y c)) msize_x msize_y
        \<and> free_at m msize_x (step_x d (ch_x c)) (step_y d (ch_y c)))"
proof -
  consider "ch_is_player c" | "\<not> ch_is_player c" "ch_target c = None"
    | "\<not> ch_is_player c" "load h (ch_target c) = Inr t" "dist_sq (ch_x c) (ch_y c) (ch_x t) (ch_y t) < INT_MAX ^ 2"
    using assms(3) by argo
  then show ?thesis
  proof cases
    case 1
    then show ?thesis
      using player_step_ok [OF assms(1,2)] by (auto simp: character_move_to_target_def)
  next
    case 2
    then show ?thesis by (simp add: character_move_to_target_def)
  next
    case 3
    show ?thesis
      using move_bot [OF assms(1,2) 3] by blast
  qed
qed

section \<open>Properties\<close>

text \<open>
  C18. \<open>character_move_to_target\<close> on a character that stands on the map, whose target (if any) is
  alive and near enough for the distances to be less than \<open>INT_MAX\<close>: no access leaves the
  map, \<open>direction\<close> is never read before it is written, and a step that is not \<open>nowhere\<close> leads
  to a cell of the map that is no wall, not taken and not water.
\<close>

theorem character_move_safe:
  assumes "length m = msize_x * msize_y" and "on_map (ch_x c) (ch_y c) msize_x msize_y"
    and "ch_is_player c \<or> ch_target c = None \<or> (load h (ch_target c) = Inr t
      \<and> dist_sq (ch_x c) (ch_y c) (ch_x t) (ch_y t) < INT_MAX ^ 2)"
  shows "\<exists>d. character_move_to_target h c msize_x msize_y m = Inr d
    \<and> (d \<noteq> nowhere \<longrightarrow> on_map (step_x d (ch_x c)) (step_y d (ch_y c)) msize_x msize_y
        \<and> free_at m msize_x (step_x d (ch_x c)) (step_y d (ch_y c)))"
  using assms by (rule character_move_ok)

definition sample_cell :: "nat \<Rightarrow> map_point_t" where
  "sample_cell i = \<lparr>mp_x = int (i mod 9), mp_y = int (i div 9), mp_ground = (if i = 40 then water else soil),
     mp_surface = empty, mp_child_type = nothing, mp_child = None, mp_name_id = 0, mp_region = 0\<rparr>"

definition sample_char :: "int \<Rightarrow> int \<Rightarrow> character_race_t \<Rightarrow> character_t" where
  "sample_char x y r = \<lparr>ch_name = replicate 128 0, ch_addr = Some 0, ch_race = r, ch_id = 0, ch_lvl = 1,
     ch_characteristics = \<lparr>power = 13, armor = 2, evasion = 2, hp = 20\<rparr>, ch_x = x, ch_y = y,
     ch_is_player = (r = human), ch_items = [], ch_step_time = 0, ch_target = Some 0, ch_aggression = True,
     ch_next_step = north, ch_step_start_time = 0\<rparr>"

lemma character_move_safe_witness:
  "character_move_to_target [] (sample_char 4 3 human) 9 9 (map sample_cell [0..<81]) = Inr nowhere
   \<and> character_move_to_target [Some (sample_char 7 3 human)] (sample_char 4 3 beast) 9 9 (map sample_cell [0..<81])
      = Inr west
   \<and> on_map 5 3 9 9 \<and> free_at (map sample_cell [0..<81]) 9 5 3"
proof -
  have "character_move_to_target [] (sample_char 4 3 human) 9 9 (map sample_cell [0..<81]) = Inr nowhere"
    by code_simp
  moreover have w: "character_move_to_target [Some (sample_char 7 3 human)] (sample_char 4 3 beast) 9 9
      (map sample_cell [0..<81]) = Inr west"
    by code_simp
  have "load [Some (sample_char 7 3 human)] (ch_target (sample_char 4 3 beast)) = Inr (sample_char 7 3 human)"
      "dist_sq (ch_x (sample_char 4 3 beast)) (ch_y (sample_char 4 3 beast))
         (ch_x (sample_char 7 3 human)) (ch_y (sample_char 7 3 human)) < INT_MAX ^ 2"
    by (simp_all add: sample_char_def dist_sq_def load_eq_Inr INT_MAX_def)
  then have "on_map 5 3 9 9 \<and> free_at (map sample_cell [0..<81]) 9 5 3"
    using character_move_safe [of "map sample_cell [0..<81]" 9 9 "sample_char 4 3 beast"
        "[Some (sample_char 7 3 human)]" "sample_char 7 3 human"] w
    by (simp add: sample_char_def on_map_def)
  ultimately show ?thesis
    using w by blast
qed

text \<open>
  An attack on a target less than two away: both stay in place, the hit points fall by at most
  the power and never below zero, the target turns against the attacker and becomes
  aggressive, and the attacker lets go of a target that has no hit points left.
\<close>

theorem character_attack_effect:
  assumes "load h (Some a) = Inr c" and "ch_target c = Some b" and "b \<noteq> a" and "load h (Some b) = Inr t"
    and "dist_sq (ch_x c) (ch_y c) (ch_x t) (ch_y t) < 4" and "evasion (ch_characteristics t) \<noteq> 0"
    and "0 \<le> hp (ch_characteristics t)" and "0 \<le> r" and "0 \<le> armor (ch_characteristics t)"
    and "0 \<le> power (ch_characteristics c)"
  shows "\<exists>h' t' c'. character_attack r h (Some a) = Inr (True, h')
    \<and> load h' (Some b) = Inr t' \<and> load h' (Some a) = Inr c'
    \<and> ch_target t' = Some a \<and> ch_aggression t' \<and> ch_x t' = ch_x t \<and> ch_y t' = ch_y t
    \<and> 0 \<le> hp (ch_characteristics t') \<and> hp (ch_characteristics t') \<le> hp (ch_characteristics t)
    \<and> hp (ch_characteristics t) - power (ch_characteristics c) \<le> hp (ch_characteristics t')
    \<and> c' = (if hp (ch_characteristics t') = 0 then c\<lparr>ch_target := None\<rparr> else c)"
proof -
  define e where "e = r mod \<bar>evasion (ch_characteristics t)\<bar>"
  define d where "d = max 0 (power (ch_characteristics c) - e - armor (ch_characteristics t))"
  define t1 where "t1 = t\<lparr>ch_characteristics := ch_characteristics t\<lparr>hp := max 0 (hp (ch_characteristics t) - d)\<rparr>\<rparr>"
  define t' where "t' = t1\<lparr>ch_target := Some a, ch_aggression := True\<rparr>"
  have "0 \<le> e"
    using assms(6) by (simp add: e_def)
  then have d: "0 \<le> d" "d \<le> power (ch_characteristics c)"
    using assms(9,10) by (simp_all add: d_def)
  have dm: "character_damage r c t = Inr (d, t1)"
    using assms(6) by (simp add: character_damage_def t1_def d_def e_def max_def Let_def)
  have la: "a < length h" "h ! a = Some c" and lb: "b < length h" "h ! b = Some t"
    using assms(1,4) by (simp_all add: load_eq_Inr)
  define h1 where "h1 = h[b := Some t']"
  have l1: "load h1 (Some b) = Inr t'" "load h1 (Some a) = Inr c"
    using la lb assms(3) by (simp_all add: h1_def load_eq_Inr)
  have hp: "hp (ch_characteristics t') = max 0 (hp (ch_characteristics t) - d)" "ch_target t' = Some a" "ch_aggression t'"
      "ch_x t' = ch_x t" "ch_y t' = ch_y t"
    by (simp_all add: t'_def t1_def)
  define h2 where "h2 = (if hp (ch_characteristics t') \<le> 0 then h1[a := Some (c\<lparr>ch_target := None\<rparr>)] else h1)"
  have st: "store h (Some b) t' = Inr h1"
    using assms(4) by (simp add: store_ok h1_def)
  have st2: "store h1 (Some a) (c\<lparr>ch_target := None\<rparr>) = Inr (h1[a := Some (c\<lparr>ch_target := None\<rparr>)])"
    using l1(2) by (rule store_ok)
  have "character_attack r h (Some a) = Inr (True, h2)"
    using assms(1,2,4,5) dm st st2 l1
    by (simp add: character_attack_def t'_def [symmetric] h2_def cong: if_cong)
  moreover have "load h2 (Some b) = Inr t'"
    using l1(1) assms(3) by (simp add: h2_def load_update_other)
  moreover have "load h2 (Some a) = Inr (if hp (ch_characteristics t') = 0 then c\<lparr>ch_target := None\<rparr> else c)"
    using l1(2) la by (auto simp: h2_def hp(1) load_update h1_def max_def)
  ultimately show ?thesis
    using d assms(7) hp by (intro exI [of _ h2]) auto
qed

lemma character_attack_effect_witness:
  "\<exists>h'. character_attack 1 [Some (sample_char 7 3 human), Some (sample_char 6 3 beast)] (Some 1) = Inr (True, h')"
proof -
  have l: "load [Some (sample_char 7 3 human), Some (sample_char 6 3 beast)] (Some 1) = Inr (sample_char 6 3 beast)"
      "load [Some (sample_char 7 3 human), Some (sample_char 6 3 beast)] (Some 0) = Inr (sample_char 7 3 human)"
    by (simp_all add: load_eq_Inr)
  show ?thesis
    using character_attack_effect [OF l(1) _ _ l(2), of 1] by (auto simp: sample_char_def dist_sq_def)
qed

text \<open>The other characters of another race, in the order of the table.\<close>

definition foes :: "characters_t \<Rightarrow> character_t heap \<Rightarrow> nat \<Rightarrow> character_t \<Rightarrow> nat list \<Rightarrow> nat list" where
  "foes cs h a c is = filter (\<lambda>i. cs_arr cs ! i \<noteq> a \<and> ch_race (the (h ! (cs_arr cs ! i))) \<noteq> ch_race c) is"

definition foe_dist :: "characters_t \<Rightarrow> character_t heap \<Rightarrow> character_t \<Rightarrow> nat \<Rightarrow> int" where
  "foe_dist cs h c i = (let t = the (h ! (cs_arr cs ! i)) in dist_sq (ch_x c) (ch_y c) (ch_x t) (ch_y t))"

text \<open>Every entry of the table is a live character.\<close>

definition table_live :: "characters_t \<Rightarrow> character_t heap \<Rightarrow> bool" where
  "table_live cs h \<longleftrightarrow> 0 \<le> cs_count cs \<and> nat (cs_count cs) \<le> length (cs_arr cs)
     \<and> list_all (\<lambda>a. is_ok (load h (Some a))) (take (nat (cs_count cs)) (cs_arr cs))"

lemma table_liveD:
  assumes "table_live cs h" "i < nat (cs_count cs)"
  shows "cs_at cs i = Inr (Some (cs_arr cs ! i))"
    and "load h (Some (cs_arr cs ! i)) = Inr (the (h ! (cs_arr cs ! i)))"
proof -
  have i: "i < length (cs_arr cs)" "i < length (take (nat (cs_count cs)) (cs_arr cs))"
    using assms by (auto simp: table_live_def)
  then show "cs_at cs i = Inr (Some (cs_arr cs ! i))"
    by (simp add: cs_at_def)
  have "is_ok (load h (Some (take (nat (cs_count cs)) (cs_arr cs) ! i)))"
    using assms(1) i(2) by (auto simp: table_live_def list_all_length)
  then show "load h (Some (cs_arr cs ! i)) = Inr (the (h ! (cs_arr cs ! i)))"
    using assms(2) by (auto simp: is_ok_iff load_eq_Inr)
qed

text \<open>The heap after the loop has found the foe \<open>f\<close> nearest so far.\<close>

definition targeted :: "characters_t \<Rightarrow> character_t heap \<Rightarrow> nat \<Rightarrow> character_t \<Rightarrow> nat option \<Rightarrow> character_t heap" where
  "targeted cs h a c f = (case f of None \<Rightarrow> h | Some i \<Rightarrow>
     h[a := Some (c\<lparr>ch_target := Some (cs_arr cs ! i), ch_next_step := west, ch_step_start_time := 0\<rparr>)])"

lemma targeted_load:
  assumes "load h (Some a) = Inr c"
  shows "\<exists>c'. load (targeted cs h a c f) (Some a) = Inr c' \<and> ch_race c' = ch_race c \<and> ch_x c' = ch_x c
      \<and> ch_y c' = ch_y c \<and> c'\<lparr>ch_target := x, ch_next_step := west, ch_step_start_time := 0\<rparr>
        = c\<lparr>ch_target := x, ch_next_step := west, ch_step_start_time := 0\<rparr>"
    and "b \<noteq> a \<Longrightarrow> load (targeted cs h a c f) (Some b) = load h (Some b)"
  using assms by (auto simp: targeted_def load_update load_update_other load_eq_Inr split: option.splits)

lemma find_target_loop_spec:
  assumes "table_live cs h" "load h (Some a) = Inr c" "list_all (\<lambda>i. i < nat (cs_count cs)) is"
    "mn = (case f of None \<Rightarrow> INT_MAX ^ 2 | Some i \<Rightarrow> foe_dist cs h c i)"
  shows "\<exists>f'. find_target_loop cs (Some a) is mn (targeted cs h a c f) = Inr (targeted cs h a c f')
    \<and> (case f' of None \<Rightarrow> f = None \<and> (\<forall>i \<in> set (foes cs h a c is). INT_MAX ^ 2 \<le> foe_dist cs h c i)
       | Some i \<Rightarrow> (f' = f \<or> i \<in> set (foes cs h a c is)) \<and> foe_dist cs h c i \<le> mn
          \<and> (\<forall>j \<in> set (foes cs h a c is). foe_dist cs h c i \<le> foe_dist cs h c j))"
  using assms(3,4)
proof (induction "is" arbitrary: f mn)
  case Nil
  then show ?case
    by (intro exI [of _ f]) (auto simp: foes_def split: option.splits)
next
  case (Cons i "is")
  have i: "i < nat (cs_count cs)" "list_all (\<lambda>i. i < nat (cs_count cs)) is"
    using Cons.prems(1) by simp_all
  note live = table_liveD [OF assms(1) i(1)]
  define b t where "b = cs_arr cs ! i" and "t = the (h ! b)"
  have lb: "load h (Some b) = Inr t"
    using live(2) by (simp add: b_def t_def)
  obtain c' where c': "load (targeted cs h a c f) (Some a) = Inr c'" "ch_race c' = ch_race c"
      "ch_x c' = ch_x c" "ch_y c' = ch_y c" "c'\<lparr>ch_target := Some b, ch_next_step := west, ch_step_start_time := 0\<rparr>
        = c\<lparr>ch_target := Some b, ch_next_step := west, ch_step_start_time := 0\<rparr>"
    using targeted_load(1) [OF assms(2), of cs f "Some b"] by blast
  have lb': "\<exists>t'. load (targeted cs h a c f) (Some b) = Inr t' \<and> (b \<noteq> a \<longrightarrow> t' = t)"
    using lb c'(1) targeted_load(2) [OF assms(2), of b cs f] by (cases "b = a") auto
  then obtain t' where t': "load (targeted cs h a c f) (Some b) = Inr t'" "b \<noteq> a \<longrightarrow> t' = t"
    by blast
  have la: "a < length h" "h ! a = Some c"
    using assms(2) by (simp_all add: load_eq_Inr)
  show ?case
  proof (cases "b \<noteq> a \<and> ch_race t \<noteq> ch_race c")
    case False
    then have skip: "find_target_loop cs (Some a) (i # is) mn (targeted cs h a c f)
        = find_target_loop cs (Some a) is mn (targeted cs h a c f)"
      using live(1) c' t' by (auto simp: b_def [symmetric])
    have same: "foes cs h a c (i # is) = foes cs h a c is"
      using False by (auto simp: foes_def b_def t_def)
    show ?thesis
      unfolding skip same by (rule Cons.IH [OF i(2) Cons.prems(2)])
  next
    case True
    have fs: "foes cs h a c (i # is) = i # foes cs h a c is"
      using True by (auto simp: foes_def b_def t_def)
    have fd: "foe_dist cs h c i = dist_sq (ch_x c) (ch_y c) (ch_x t) (ch_y t)"
      by (simp add: foe_dist_def b_def t_def Let_def)
    show ?thesis
    proof (cases "foe_dist cs h c i < mn")
      case hit: True
      have "character_set_target (targeted cs h a c f) (Some a) (Some b) = Inr (targeted cs h a c (Some i))"
        using c' la by (auto simp: character_set_target_def store_ok targeted_def b_def split: option.splits)
      then have step: "find_target_loop cs (Some a) (i # is) mn (targeted cs h a c f)
          = find_target_loop cs (Some a) is (foe_dist cs h c i) (targeted cs h a c (Some i))"
        using True hit live(1) c' t' by (simp add: b_def [symmetric] fd Let_def)
      obtain f' where f': "find_target_loop cs (Some a) is (foe_dist cs h c i) (targeted cs h a c (Some i))
          = Inr (targeted cs h a c f')"
        "case f' of None \<Rightarrow> False
         | Some j \<Rightarrow> (j = i \<or> j \<in> set (foes cs h a c is)) \<and> foe_dist cs h c j \<le> foe_dist cs h c i
          \<and> (\<forall>k \<in> set (foes cs h a c is). foe_dist cs h c j \<le> foe_dist cs h c k)"
        using Cons.IH [OF i(2), of "foe_dist cs h c i" "Some i"] by (auto split: option.splits)
      then show ?thesis
        unfolding step fs using hit by (intro exI [of _ f']) (auto split: option.splits)
    next
      case miss: False
      then have step: "find_target_loop cs (Some a) (i # is) mn (targeted cs h a c f)
          = find_target_loop cs (Some a) is mn (targeted cs h a c f)"
        using True live(1) c' t' by (simp add: b_def [symmetric] fd Let_def)
      obtain f' where f': "find_target_loop cs (Some a) is mn (targeted cs h a c f) = Inr (targeted cs h a c f')"
        "case f' of None \<Rightarrow> f = None \<and> (\<forall>i \<in> set (foes cs h a c is). INT_MAX ^ 2 \<le> foe_dist cs h c i)
         | Some j \<Rightarrow> (f' = f \<or> j \<in> set (foes cs h a c is)) \<and> foe_dist cs h c j \<le> mn
          \<and> (\<forall>k \<in> set (foes cs h a c is). foe_dist cs h c j \<le> foe_dist cs h c k)"
        using Cons.IH [OF i(2) Cons.prems(2)] by blast
      then show ?thesis
        unfolding step fs using miss Cons.prems(2) by (intro exI [of _ f']) (auto split: option.splits)
    qed
  qed
qed

text \<open>
  \<open>character_find_target\<close> leaves players alone and turns any other character towards the
  nearest character of another race, changing no other character; if there is none
  nearer than \<open>INT_MAX\<close>, nothing changes.  A new target also sets the next step to \<open>west\<close>.
\<close>

theorem character_find_target_nearest:
  assumes "table_live (w_characters w) (w_chars w)" and "load (w_chars w) (Some a) = Inr c"
    and "is = [0..<nat (cs_count (w_characters w))]"
  shows "(ch_is_player c \<longrightarrow> character_find_target w (Some a) = Inr w)
    \<and> (\<not> ch_is_player c \<longrightarrow> (\<exists>f. character_find_target w (Some a)
          = Inr (w\<lparr>w_chars := targeted (w_characters w) (w_chars w) a c f\<rparr>)
        \<and> (case f of None \<Rightarrow> \<forall>i \<in> set (foes (w_characters w) (w_chars w) a c is).
               INT_MAX ^ 2 \<le> foe_dist (w_characters w) (w_chars w) c i
           | Some i \<Rightarrow> i \<in> set (foes (w_characters w) (w_chars w) a c is)
               \<and> (\<forall>j \<in> set (foes (w_characters w) (w_chars w) a c is).
                    foe_dist (w_characters w) (w_chars w) c i \<le> foe_dist (w_characters w) (w_chars w) c j))))"
proof -
  have "list_all (\<lambda>i. i < nat (cs_count (w_characters w))) is"
    by (simp add: assms(3) list_all_iff)
  moreover have "targeted (w_characters w) (w_chars w) a c None = w_chars w"
    by (simp add: targeted_def)
  ultimately obtain f where
    f: "find_target_loop (w_characters w) (Some a) is (INT_MAX ^ 2) (w_chars w)
        = Inr (targeted (w_characters w) (w_chars w) a c f)"
      "case f of None \<Rightarrow> \<forall>i \<in> set (foes (w_characters w) (w_chars w) a c is).
               INT_MAX ^ 2 \<le> foe_dist (w_characters w) (w_chars w) c i
           | Some i \<Rightarrow> i \<in> set (foes (w_characters w) (w_chars w) a c is)
               \<and> (\<forall>j \<in> set (foes (w_characters w) (w_chars w) a c is).
                    foe_dist (w_characters w) (w_chars w) c i \<le> foe_dist (w_characters w) (w_chars w) c j)"
    using find_target_loop_spec [OF assms(1,2), of "is" "INT_MAX ^ 2" None] by (auto split: option.splits)
  have "character_find_target w (Some a)
      = Inr (w\<lparr>w_chars := targeted (w_characters w) (w_chars w) a c f\<rparr>)" if "\<not> ch_is_player c"
    using assms(2) f(1) that by (simp add: character_find_target_def assms(3))
  moreover have "character_find_target w (Some a) = Inr w" if "ch_is_player c"
    using assms(2) that by (simp add: character_find_target_def)
  ultimately show ?thesis
    using f(2) by auto
qed

definition sample_world :: world_t where
  "sample_world = \<lparr>w_characters = \<lparr>cs_arr = [0, 1, 2], cs_count = 3\<rparr>,
     w_chars = [Some (sample_char 4 4 beast), Some (sample_char 7 7 human), Some (sample_char 5 4 human)],
     w_addrs = [Some \<lparr>sin_family = 2, sin_port = 1, s_addr = 7\<rparr>],
     w_map = map sample_cell [0..<81], w_msize_x = 9, w_msize_y = 9, w_index_tick = 0\<rparr>"

lemma character_find_target_nearest_witness:
  "\<exists>w'. character_find_target sample_world (Some 0) = Inr w'
    \<and> w_chars w' ! 0 = Some (sample_char 4 4 beast\<lparr>ch_target := Some 2, ch_next_step := west, ch_step_start_time := 0\<rparr>)"
proof -
  let ?w = sample_world
  have live: "table_live (w_characters ?w) (w_chars ?w)" "load (w_chars ?w) (Some 0) = Inr (sample_char 4 4 beast)"
      "\<not> ch_is_player (sample_char 4 4 beast)"
    by code_simp+
  have fs: "set (foes (w_characters ?w) (w_chars ?w) 0 (sample_char 4 4 beast) [0..<nat (cs_count (w_characters ?w))]) = {1, 2}"
      "foe_dist (w_characters ?w) (w_chars ?w) (sample_char 4 4 beast) 1 = 18"
      "foe_dist (w_characters ?w) (w_chars ?w) (sample_char 4 4 beast) 2 = 1" "(1 :: int) < INT_MAX ^ 2"
      "cs_arr (w_characters ?w) ! 2 = 2" "0 < length (w_chars ?w)"
    by code_simp+
  obtain f where f: "character_find_target ?w (Some 0)
      = Inr (?w\<lparr>w_chars := targeted (w_characters ?w) (w_chars ?w) 0 (sample_char 4 4 beast) f\<rparr>)" "f = Some 2"
    using character_find_target_nearest [OF live(1,2) refl] live(3) fs by (auto split: option.splits)
  have "w_chars (?w\<lparr>w_chars := targeted (w_characters ?w) (w_chars ?w) 0 (sample_char 4 4 beast) f\<rparr>) ! 0
      = Some (sample_char 4 4 beast\<lparr>ch_target := Some 2, ch_next_step := west, ch_step_start_time := 0\<rparr>)"
    using fs(5,6) by (simp add: targeted_def f(2))
  with f(1) show ?thesis by blast
qed

section \<open>Adding and removing\<close>

lemma table_live_add:
  assumes "table_live cs h" "load h (Some a) = Inr c"
  shows "table_live \<lparr>cs_arr = take (nat (cs_count cs)) (cs_arr cs) @ [a], cs_count = cs_count cs + 1\<rparr>
    (h[a := Some c'])"
proof -
  have "is_ok (load (h[a := Some c']) (Some b))" if "is_ok (load h (Some b))" for b
    using that assms(2) by (auto simp: is_ok_iff load_update load_eq_Inr nth_list_update)
  moreover have "is_ok (load (h[a := Some c']) (Some a))"
    using assms(2) by (simp add: is_ok_iff load_eq_Inr)
  ultimately show ?thesis
    using assms(1) by (auto simp: table_live_def list_all_iff nat_add_distrib min_def)
qed

lemma character_add_ok:
  assumes "table_live (w_characters w) (w_chars w)" and "load (w_chars w) (Some a) = Inr c"
    and "length (w_map w) = w_msize_x w * w_msize_y w" and "on_map (ch_x c) (ch_y c) (w_msize_x w) (w_msize_y w)"
  shows "\<exists>w'. character_add w (Some a) = Inr w' \<and> table_live (w_characters w') (w_chars w')
    \<and> cs_count (w_characters w') = cs_count (w_characters w) + 1
    \<and> cs_arr (w_characters w') = take (nat (cs_count (w_characters w))) (cs_arr (w_characters w)) @ [a]
    \<and> int (length (cs_arr (w_characters w'))) = cs_count (w_characters w')
    \<and> load (w_chars w') (Some a) = Inr (c\<lparr>ch_id := cs_count (w_characters w)\<rparr>)
    \<and> w_addrs w' = w_addrs w
    \<and> w_chars w' = (w_chars w)[a := Some (c\<lparr>ch_id := cs_count (w_characters w)\<rparr>)]
    \<and> \<not> free_at (w_map w') (w_msize_x w') (ch_x c) (ch_y c)"
proof -
  let ?cs = "w_characters w" and ?h = "(w_chars w)[a := Some (c\<lparr>ch_id := cs_count (w_characters w)\<rparr>)]"
  let ?cs' = "\<lparr>cs_arr = take (nat (cs_count ?cs)) (cs_arr ?cs) @ [a], cs_count = cs_count ?cs + 1\<rparr>"
  let ?i = "nat (cell_index (w_msize_x w) (ch_x c) (ch_y c))"
  have cnt: "0 \<le> cs_count ?cs" "nat (cs_count ?cs) \<le> length (cs_arr ?cs)"
    using assms(1) by (simp_all add: table_live_def)
  have on: "0 \<le> ch_x c" "ch_x c < int (w_msize_x w)" "0 \<le> ch_y c" "ch_y c < int (w_msize_y w)"
    using assms(4) by (simp_all add: on_map_def)
  note cell = cell_at_inside [OF assms(3) on] set_cell_inside [OF assms(3) on]
  let ?m = "(w_map w)[?i := (w_map w ! ?i)\<lparr>mp_child_type := kind_of c\<rparr>]"
  define w' where "w' = w\<lparr>w_characters := ?cs', w_chars := ?h, w_map := ?m\<rparr>"
  have "store (w_chars w) (Some a) (c\<lparr>ch_id := cs_count ?cs\<rparr>) = Inr ?h"
    using assms(2) by (rule store_ok)
  then have "character_add w (Some a) = Inr w'"
    using cnt assms(2) cell by (simp add: character_add_def set_child_def w'_def Let_def)
  moreover have "table_live ?cs' ?h"
    by (rule table_live_add [OF assms(1,2)])
  moreover have "load ?h (Some a) = Inr (c\<lparr>ch_id := cs_count ?cs\<rparr>)"
    using assms(2) by (simp add: load_eq_Inr)
  moreover have "\<not> free_at ?m (w_msize_x w) (ch_x c) (ch_y c)"
    using cell(3) by (simp add: free_at_def kind_of_def Let_def)
  ultimately show ?thesis
    using cnt by (intro exI [of _ w']) (simp add: w'_def)
qed

text \<open>
  \<open>character_add\<close> of a character on the map puts it at the end of the table, gives it its
  place as id, marks its cell as taken and keeps every other entry; the array then has no
  room to spare.
\<close>

theorem character_add_end:
  assumes "table_live (w_characters w) (w_chars w)" and "load (w_chars w) (Some a) = Inr c"
    and "length (w_map w) = w_msize_x w * w_msize_y w" and "on_map (ch_x c) (ch_y c) (w_msize_x w) (w_msize_y w)"
  shows "\<exists>w'. character_add w (Some a) = Inr w' \<and> table_live (w_characters w') (w_chars w')
    \<and> cs_count (w_characters w') = cs_count (w_characters w) + 1
    \<and> cs_arr (w_characters w') = take (nat (cs_count (w_characters w))) (cs_arr (w_characters w)) @ [a]
    \<and> int (length (cs_arr (w_characters w'))) = cs_count (w_characters w')
    \<and> load (w_chars w') (Some a) = Inr (c\<lparr>ch_id := cs_count (w_characters w)\<rparr>)
    \<and> \<not> free_at (w_map w') (w_msize_x w') (ch_x c) (ch_y c)"
  using character_add_ok [OF assms] by blast

lemma character_add_end_witness:
  "\<exists>w'. character_add sample_world (Some 1) = Inr w' \<and> cs_arr (w_characters w') = [0, 1, 2, 1]"
proof -
  have "table_live (w_characters sample_world) (w_chars sample_world)"
      "load (w_chars sample_world) (Some 1) = Inr (sample_char 7 7 human)"
      "length (w_map sample_world) = w_msize_x sample_world * w_msize_y sample_world"
      "on_map (ch_x (sample_char 7 7 human)) (ch_y (sample_char 7 7 human)) (w_msize_x sample_world) (w_msize_y sample_world)"
    by code_simp+
  from character_add_end [OF this] show ?thesis
    by (auto simp: sample_world_def eval_nat_numeral)
qed

text \<open>
  \<open>character_remove\<close> of the character at place \<open>i\<close> with the id \<open>i\<close>: the last one is dropped by
  the count alone; for any other \<open>memmove\<close> is told one entry too many, which lies behind the
  array when it has just been allocated by \<open>character_add\<close>; with room to spare the others
  move up, but keep their ids, so that the next one no longer has its place as id.
\<close>

theorem character_remove_places:
  assumes "table_live (w_characters w) (w_chars w)" and "i < nat (cs_count (w_characters w))"
    and "cs_arr (w_characters w) ! i = a" and "load (w_chars w) (Some a) = Inr c" and "ch_id c = int i"
    and "length (w_map w) = w_msize_x w * w_msize_y w" and "on_map (ch_x c) (ch_y c) (w_msize_x w) (w_msize_y w)"
    and "ch_addr c = None \<or> is_ok (load (w_addrs w) (ch_addr c))"
  shows "if int i = cs_count (w_characters w) - 1
    then \<exists>w'. character_remove w (Some a) = Inr w' \<and> cs_arr (w_characters w') = cs_arr (w_characters w)
      \<and> cs_count (w_characters w') = int i
    else if int (length (cs_arr (w_characters w))) = cs_count (w_characters w)
    then character_remove w (Some a) = Inl OutOfBounds
    else \<exists>w'. character_remove w (Some a) = Inr w' \<and> w_chars w' = w_chars w
      \<and> cs_count (w_characters w') = cs_count (w_characters w) - 1
      \<and> cs_arr (w_characters w') ! i = cs_arr (w_characters w) ! (i + 1)"
proof -
  let ?cs = "w_characters w" and ?n = "cs_count (w_characters w)"
  have cnt: "0 \<le> ?n" "nat ?n \<le> length (cs_arr ?cs)"
    using assms(1) by (simp_all add: table_live_def)
  have on: "0 \<le> ch_x c" "ch_x c < int (w_msize_x w)" "0 \<le> ch_y c" "ch_y c < int (w_msize_y w)"
    using assms(7) by (simp_all add: on_map_def)
  have sc: "\<exists>w1. set_child v (ch_x c) (ch_y c) f = Inr w1 \<and> (\<exists>m. w1 = v\<lparr>w_map := m\<rparr> \<and> length m = length (w_map v))"
    if "length (w_map v) = w_msize_x v * w_msize_y v" "w_msize_x v = w_msize_x w" "w_msize_y v = w_msize_y w" for v f
  proof -
    have "length (w_map v) = w_msize_x w * w_msize_y w" using that by simp
    note cell_at_inside [OF this on] set_cell_inside [OF this on]
    then show ?thesis
      using that(2) by (simp add: set_child_def) (metis length_list_update)
  qed
  obtain m1 where m1: "set_child w (ch_x c) (ch_y c) (\<lambda>p. p\<lparr>mp_child_type := nothing\<rparr>) = Inr (w\<lparr>w_map := m1\<rparr>)"
      "length m1 = length (w_map w)"
    using sc [of w] assms(6) by blast
  obtain m2 where m2: "set_child (w\<lparr>w_map := m1\<rparr>) (ch_x c) (ch_y c) (\<lambda>p. p\<lparr>mp_child := None\<rparr>) = Inr (w\<lparr>w_map := m2\<rparr>)"
    using sc [of "w\<lparr>w_map := m1\<rparr>" "\<lambda>p. p\<lparr>mp_child := None\<rparr>"] assms(6) m1(2) by auto
  obtain as where as: "(if ch_addr c \<noteq> None then free (w_addrs w) (ch_addr c) else Inr (w_addrs w)) = Inr as"
    using assms(8) by (cases "ch_addr c") (auto simp: is_ok_iff free_ok)
  define v where "v = w\<lparr>w_map := m2, w_addrs := as\<rparr>"
  have fv: "w_characters v = ?cs" "w_chars v = w_chars w" by (simp_all add: v_def)
  have rm: "character_remove w (Some a) =
      rbind (if ?n - 1 \<noteq> int i
             then rbind (arr_move (cs_arr ?cs) (int i) (int i + 1) (?n - int i)) (\<lambda>arr.
                  Inr ((if w_index_tick v > int i then v\<lparr>w_index_tick := w_index_tick v - 1\<rparr> else v)
                    \<lparr>w_characters := ?cs\<lparr>cs_arr := arr\<rparr>\<rparr>))
             else Inr v) (\<lambda>w.
         Inr (w\<lparr>w_characters := (w_characters w)\<lparr>cs_count := cs_count (w_characters w) - 1\<rparr>\<rparr>))"
    using assms(4,5) m1(1) m2 as by (simp add: character_remove_def v_def Let_def cong: if_cong)
  consider "int i = ?n - 1" | "int i \<noteq> ?n - 1" "int (length (cs_arr ?cs)) = ?n"
    | "int i \<noteq> ?n - 1" "?n < int (length (cs_arr ?cs))"
    using cnt by linarith
  then show ?thesis
  proof cases
    case 1
    then show ?thesis by (simp add: rm fv(1))
  next
    case 2
    then have "arr_move (cs_arr ?cs) (int i) (int i + 1) (?n - int i) = Inl OutOfBounds"
      by (simp add: arr_move_def)
    with 2 show ?thesis by (simp add: rm)
  next
    case 3
    let ?arr = "take i (cs_arr ?cs) @ take (nat (?n - int i)) (drop (i + 1) (cs_arr ?cs)) @ drop (nat ?n) (cs_arr ?cs)"
    have "arr_move (cs_arr ?cs) (int i) (int i + 1) (?n - int i) = Inr ?arr"
      using 3 cnt assms(2) by (simp add: arr_move_def nat_add_distrib)
    moreover have "?arr ! i = cs_arr ?cs ! (i + 1)"
    proof -
      have k: "0 < nat (?n - int i)" "i + 1 < length (cs_arr ?cs)"
        using 3 cnt assms(2) by linarith+
      then have "length (take i (cs_arr ?cs)) = i"
        by simp
      then have "?arr ! i = (take (nat (?n - int i)) (drop (i + 1) (cs_arr ?cs)) @ drop (nat ?n) (cs_arr ?cs)) ! 0"
        by (metis add_0_right nth_append_length_plus)
      then show ?thesis
        using k by (simp add: nth_append)
    qed
    ultimately show ?thesis
      using 3 fv(2) by (auto simp: rm)
  qed
qed

lemma character_remove_places_witness:
  "character_remove sample_world (Some 0) = Inl OutOfBounds"
proof -
  have "table_live (w_characters sample_world) (w_chars sample_world)"
      "0 < nat (cs_count (w_characters sample_world))" "cs_arr (w_characters sample_world) ! 0 = 0"
      "load (w_chars sample_world) (Some 0) = Inr (sample_char 4 4 beast)"
      "ch_id (sample_char 4 4 beast) = int 0"
      "length (w_map sample_world) = w_msize_x sample_world * w_msize_y sample_world"
      "on_map (ch_x (sample_char 4 4 beast)) (ch_y (sample_char 4 4 beast)) (w_msize_x sample_world) (w_msize_y sample_world)"
      "ch_addr (sample_char 4 4 beast) = None \<or> is_ok (load (w_addrs sample_world) (ch_addr (sample_char 4 4 beast)))"
    by code_simp+
  from character_remove_places [OF this] show ?thesis
    by (simp add: sample_world_def)
qed

section \<open>Looking up by address\<close>

text \<open>The addresses of the players in the table are alive.\<close>

definition addrs_live :: "world_t \<Rightarrow> bool" where
  "addrs_live w \<longleftrightarrow> list_all (\<lambda>a. let c = the (w_chars w ! a) in
     ch_is_player c \<longrightarrow> is_ok (load (w_addrs w) (ch_addr c)))
       (take (nat (cs_count (w_characters w))) (cs_arr (w_characters w)))"

definition has_addr :: "world_t \<Rightarrow> sockaddr_in \<Rightarrow> nat \<Rightarrow> bool" where
  "has_addr w addr a = (let c = the (w_chars w ! a) in ch_is_player c
     \<and> (case load (w_addrs w) (ch_addr c) of Inl _ \<Rightarrow> False | Inr x \<Rightarrow> compare_address x addr))"

definition used_entries :: "world_t \<Rightarrow> nat list" where
  "used_entries w = take (nat (cs_count (w_characters w))) (cs_arr (w_characters w))"

lemma get_by_addr_find:
  assumes "table_live (w_characters w) (w_chars w)" "addrs_live w"
  shows "character_get_by_addr w addr = Inr (find (has_addr w addr) (used_entries w))"
proof -
  let ?n = "nat (cs_count (w_characters w))"
  have len: "?n \<le> length (cs_arr (w_characters w))"
    using assms(1) by (simp add: table_live_def)
  have "get_by_addr_loop w addr is = Inr (find (has_addr w addr) (map (\<lambda>i. cs_arr (w_characters w) ! i) is))"
    if "\<forall>i \<in> set is. i < ?n" for "is"
    using that
  proof (induction "is")
    case (Cons i "is")
    then have i: "i < ?n" by simp
    note live = table_liveD [OF assms(1) i]
    have "cs_arr (w_characters w) ! i \<in> set (used_entries w)"
      using i len by (auto simp: used_entries_def in_set_conv_nth intro!: exI [of _ i])
    then have "ch_is_player (the (w_chars w ! (cs_arr (w_characters w) ! i))) \<Longrightarrow>
        is_ok (load (w_addrs w) (ch_addr (the (w_chars w ! (cs_arr (w_characters w) ! i)))))"
      using assms(2) by (simp add: addrs_live_def used_entries_def list_all_iff Let_def)
    then show ?case
      using Cons live by (auto simp: has_addr_def is_ok_iff Let_def)
  qed simp
  moreover have "map (\<lambda>i. cs_arr (w_characters w) ! i) [0..<?n] = used_entries w"
    using len by (intro nth_equalityI) (simp_all add: used_entries_def)
  ultimately show ?thesis
    by (simp add: character_get_by_addr_def)
qed

text \<open>
  \<open>character_get_by_addr\<close> returns the first player of the table with the address, and after
  \<open>character_add\<close> of a player whose address nobody else has, it returns that player.
\<close>

theorem character_add_then_found:
  assumes "table_live (w_characters w) (w_chars w)" and "addrs_live w" and "load (w_chars w) (Some a) = Inr c"
    and "length (w_map w) = w_msize_x w * w_msize_y w" and "on_map (ch_x c) (ch_y c) (w_msize_x w) (w_msize_y w)"
    and "ch_is_player c" and "load (w_addrs w) (ch_addr c) = Inr x" and "compare_address x addr"
  shows "character_get_by_addr w addr = Inr (find (has_addr w addr) (used_entries w))
    \<and> (\<exists>w'. character_add w (Some a) = Inr w'
        \<and> character_get_by_addr w' addr = Inr (case find (has_addr w addr) (used_entries w) of
            Some b \<Rightarrow> Some b | None \<Rightarrow> Some a))"
proof -
  obtain w' where w': "character_add w (Some a) = Inr w'" "table_live (w_characters w') (w_chars w')"
      "cs_count (w_characters w') = cs_count (w_characters w) + 1"
      "cs_arr (w_characters w') = take (nat (cs_count (w_characters w))) (cs_arr (w_characters w)) @ [a]"
      "w_addrs w' = w_addrs w" "w_chars w' = (w_chars w)[a := Some (c\<lparr>ch_id := cs_count (w_characters w)\<rparr>)]"
    using character_add_ok [OF assms(1,3-5)] by blast
  have used: "used_entries w' = used_entries w @ [a]"
  proof -
    define xs where "xs = take (nat (cs_count (w_characters w))) (cs_arr (w_characters w))"
    have "length xs = nat (cs_count (w_characters w))" "0 \<le> cs_count (w_characters w)"
      using assms(1) by (simp_all add: xs_def table_live_def)
    then show ?thesis
      using w'(3,4) by (simp add: used_entries_def xs_def [symmetric] nat_add_distrib)
  qed
  have la: "a < length (w_chars w)" "w_chars w ! a = Some c"
    using assms(3) by (simp_all add: load_eq_Inr)
  have same: "ch_is_player (the (w_chars w' ! b)) = ch_is_player (the (w_chars w ! b))"
      "ch_addr (the (w_chars w' ! b)) = ch_addr (the (w_chars w ! b))" for b
    using la by (auto simp: w'(6) nth_list_update)
  have has: "has_addr w' addr b = has_addr w addr b" for b
    by (simp add: has_addr_def same w'(5) Let_def)
  have "addrs_live w'"
    using assms(2,6,7) la used unfolding addrs_live_def used_entries_def [symmetric]
    by (simp add: same w'(5) Let_def)
  then have "character_get_by_addr w' addr = Inr (find (has_addr w' addr) (used_entries w @ [a]))"
    using get_by_addr_find [OF w'(2)] used by simp
  moreover have "find (has_addr w' addr) (xs @ [a]) = (case find (has_addr w addr) xs of Some b \<Rightarrow> Some b | None \<Rightarrow> Some a)" for xs
    using assms(6-8) la by (induction xs) (simp_all add: has, simp add: has_addr_def)
  ultimately show ?thesis
    using w'(1) get_by_addr_find [OF assms(1,2)] by simp
qed

lemma character_add_then_found_witness:
  "character_get_by_addr sample_world \<lparr>sin_family = 2, sin_port = 1, s_addr = 7\<rparr> = Inr (Some 1)
   \<and> (\<exists>w'. character_add sample_world (Some 2) = Inr w'
      \<and> character_get_by_addr w' \<lparr>sin_family = 2, sin_port = 1, s_addr = 7\<rparr> = Inr (Some 1))"
proof -
  let ?a = "\<lparr>sin_family = 2, sin_port = 1, s_addr = 7\<rparr> :: sockaddr_in"
  have "table_live (w_characters sample_world) (w_chars sample_world)" "addrs_live sample_world"
      "load (w_chars sample_world) (Some 2) = Inr (sample_char 5 4 human)"
      "length (w_map sample_world) = w_msize_x sample_world * w_msize_y sample_world"
      "on_map (ch_x (sample_char 5 4 human)) (ch_y (sample_char 5 4 human)) (w_msize_x sample_world) (w_msize_y sample_world)"
      "ch_is_player (sample_char 5 4 human)" "load (w_addrs sample_world) (ch_addr (sample_char 5 4 human)) = Inr ?a"
      "compare_address ?a ?a"
    by code_simp+
  note found = character_add_then_found [OF this]
  have "find (has_addr sample_world ?a) (used_entries sample_world) = Some 1"
    by code_simp
  with found show ?thesis by auto
qed

end
