(* ===== verification/GameFunctions.thy ===== *)
theory GameFunctions
  imports Character Queue StrHashtable SharedFuncs
begin

text \<open>
  The commands of the players (\<open>game_processing/game_functions.c\<close>).  The state is the world of
  \<open>game_main.c\<close> with the queue of outgoing messages and the table of the commands.  A
  message is a value; \<open>fresh\<close> is the content of the blocks that \<open>malloc\<close> returns for new
  messages.  A write past the end of \<open>body\<close>, of a name or of a member of \<open>char_info_t\<close> is a
  fault, as is the use of a null player.
\<close>

section \<open>State\<close>

text \<open>The function pointers stored in the table.\<close>

datatype gfunc = GoFunc | SayFunc | HelloFunc | BotFunc

record game_t =
  g_world :: world_t
  g_out :: "msg_t queue_t"
  g_funcs :: "gfunc str_hashtable_t"

definition FUNCS_CNT :: nat where "FUNCS_CNT = 5"

definition lit :: "string \<Rightarrow> byte list" where
  "lit s = of_str s @ [0]"

definition load_char :: "game_t \<Rightarrow> ptr \<Rightarrow> character_t res" where
  "load_char g p = load (w_chars (g_world g)) p"

definition store_char :: "game_t \<Rightarrow> ptr \<Rightarrow> character_t \<Rightarrow> game_t res" where
  "store_char g p c = rbind (store (w_chars (g_world g)) p c) (\<lambda>h.
     Inr (g\<lparr>g_world := (g_world g)\<lparr>w_chars := h\<rparr>\<rparr>))"

section \<open>Formatting\<close>

text \<open>\<open>%d\<close>.\<close>

fun dec_digits :: "nat \<Rightarrow> nat \<Rightarrow> byte list" where
  "dec_digits 0 n = []"
| "dec_digits (Suc k) n = (if n < 10 then [of_nat (48 + n)] else dec_digits k (n div 10) @ [of_nat (48 + n mod 10)])"

definition dec_int :: "int \<Rightarrow> byte list" where
  "dec_int i = (if i < 0 then 45 # dec_digits (nat (- i)) (nat (- i)) else dec_digits (nat i + 1) (nat i))"

text \<open>\<open>sprintf\<close> of already formatted text to offset \<open>off\<close> of a buffer: the new buffer and the return value.\<close>

definition sprint_at :: "byte list \<Rightarrow> nat \<Rightarrow> byte list \<Rightarrow> (byte list \<times> nat) res" where
  "sprint_at buf off tx = rbind (memcpy buf off (tx @ [0])) (\<lambda>buf. Inr (buf, length tx))"

text \<open>\<open>%s\<close> of a string in memory.\<close>

definition fmt_str :: "byte list \<Rightarrow> byte list res" where
  "fmt_str s = rbind (strlen s) (\<lambda>n. Inr (take n s))"

section \<open>Replies\<close>

text \<open>\<open>msg_init(NULL)\<close>.\<close>

definition new_msg :: "msg_t \<Rightarrow> msg_t res" where
  "new_msg fresh = (case msg_init (Some fresh) None of None \<Rightarrow> Inl NullDeref | Some m \<Rightarrow> Inr m)"

text \<open>\<open>strcpy\<close> of a key: it copies up to the first zero that follows the start of the member.\<close>

definition copy_key :: "msg_t \<Rightarrow> msg_t \<Rightarrow> msg_t res" where
  "copy_key reply m =
     rbind (strlen (key_mem m)) (\<lambda>n.
     rbind (memcpy (m_key reply) 0 (take (n + 1) (key_mem m))) (\<lambda>k. Inr (reply\<lparr>m_key := k\<rparr>)))"

text \<open>The first lines of every reply to \<open>m\<close>.\<close>

definition reply_to :: "msg_t \<Rightarrow> msg_t \<Rightarrow> msg_t res" where
  "reply_to fresh m = rbind (new_msg fresh) (\<lambda>r. copy_key (r\<lparr>m_addr := m_addr m\<rparr>) m)"

text \<open>\<open>len = sprintf(body, ...) + 1\<close>.\<close>

definition sprint_body :: "msg_t \<Rightarrow> byte list \<Rightarrow> msg_t res" where
  "sprint_body r tx = rbind (sprint_at (m_body r) 0 tx) (\<lambda>(b, n). Inr (r\<lparr>m_len := of_nat (n + 1), m_body := b\<rparr>))"

text \<open>\<open>len = strlen(answ)\<close> and \<open>memcpy\<close> of the text with its terminator.\<close>

definition copy_body :: "msg_t \<Rightarrow> byte list \<Rightarrow> msg_t res" where
  "copy_body r answ =
     rbind (strlen answ) (\<lambda>n.
     rbind (memcpy (m_body r) 0 (take (n + 1) answ)) (\<lambda>b. Inr (r\<lparr>m_len := of_nat n, m_body := b\<rparr>)))"

text \<open>\<open>queue_enqueue(out_queue, reply_msg)\<close> at the end of \<open>query_processing_new\<close>.\<close>

definition send_out :: "game_t \<Rightarrow> msg_t \<Rightarrow> game_t res" where
  "send_out g m = rbind (queue_enqueue m (g_out g)) (\<lambda>q. Inr (g\<lparr>g_out := q\<rparr>))"

section \<open>The commands\<close>

text \<open>
  The loop of \<open>gfunc_say\<close> over the table; \<open>query_processing_new\<close> sends a \<open>chat_msg\<close> as it is
  (lemma \<open>query_echo\<close> in \<open>QueryProcessing\<close>).
\<close>

fun say_loop :: "msg_t \<Rightarrow> ptr \<Rightarrow> byte list \<Rightarrow> nat list \<Rightarrow> game_t \<Rightarrow> game_t res" where
  "say_loop fresh pl args [] g = Inr g"
| "say_loop fresh pl args (i # is) g =
     rbind (cs_at (w_characters (g_world g)) i) (\<lambda>p.
     rbind (load_char g p) (\<lambda>c.
       if \<not> ch_is_player c then say_loop fresh pl args is g
       else
         rbind (new_msg fresh) (\<lambda>m.
         rbind (load (w_addrs (g_world g)) (ch_addr c)) (\<lambda>a.
         rbind (load_char g pl) (\<lambda>me.
         rbind (fmt_str (ch_name me)) (\<lambda>nm.
         rbind (fmt_str args) (\<lambda>tx.
         rbind (sprint_body (m\<lparr>m_addr := a\<rparr>) (nm @ of_str '': '' @ tx)) (\<lambda>m.
         rbind (send_out g (m\<lparr>m_type := chat_msg\<rparr>)) (say_loop fresh pl args is)))))))))"

definition gfunc_say :: "msg_t \<Rightarrow> game_t \<Rightarrow> msg_t \<Rightarrow> byte list \<Rightarrow> (game_t \<times> msg_t option) res" where
  "gfunc_say fresh g m args =
     rbind (character_get_by_addr (g_world g) (m_addr m)) (\<lambda>pl.
     rbind (say_loop fresh pl args [0..<nat (cs_count (w_characters (g_world g)))] g) (\<lambda>g. Inr (g, None)))"

text \<open>\<open>junk\<close> is the uninitialised name of the new character.\<close>

definition gfunc_bot :: "byte list \<Rightarrow> game_t \<Rightarrow> msg_t \<Rightarrow> (game_t \<times> msg_t option) res" where
  "gfunc_bot junk g m =
     rbind (character_get_by_addr (g_world g) (m_addr m)) (\<lambda>pl.
     rbind (load_char g pl) (\<lambda>me.
     rbind (character_new junk (ch_x me + 1) 138 (lit ''Bot1'') beast 1 2500 False None) (\<lambda>bot.
       let (p, h) = alloc (w_chars (g_world g)) (bot\<lparr>ch_aggression := True\<rparr>) in
       rbind (character_add ((g_world g)\<lparr>w_chars := h\<rparr>) p) (\<lambda>w. Inr (g\<lparr>g_world := w\<rparr>, None)))))"

text \<open>One member of \<open>char_info_t\<close>: sixteen characters.\<close>

definition info_field :: "byte list \<Rightarrow> byte list \<Rightarrow> byte list res" where
  "info_field junk tx = rbind (sprint_at (take 16 junk) 0 tx) (\<lambda>(b, _). Inr b)"

definition gfunc_getinfo :: "msg_t \<Rightarrow> byte list \<Rightarrow> game_t \<Rightarrow> msg_t \<Rightarrow> (game_t \<times> msg_t option) res" where
  "gfunc_getinfo fresh junk g m =
     rbind (character_get_by_addr (g_world g) (m_addr m)) (\<lambda>pl.
     rbind (reply_to fresh m) (\<lambda>r.
     rbind (load_char g pl) (\<lambda>c.
     rbind (info_field (drop 32 junk) (dec_int (hp (ch_characteristics c)))) (\<lambda>fhp.
     rbind (info_field (drop 64 junk) (dec_int (armor (ch_characteristics c)))) (\<lambda>farm.
     rbind (info_field (drop 48 junk) (dec_int (power (ch_characteristics c)))) (\<lambda>fatp.
     rbind (info_field (drop 80 junk) (dec_int (evasion (ch_characteristics c)))) (\<lambda>fevn.
     rbind (fmt_str (ch_name c)) (\<lambda>nm.
     rbind (info_field junk nm) (\<lambda>fnick.
     rbind (info_field (drop 16 junk) (dec_int (ch_lvl c))) (\<lambda>flvl.
     rbind (memcpy (m_body r) 0 (fnick @ flvl @ fhp @ fatp @ farm @ fevn)) (\<lambda>b.
       Inr (g, Some (r\<lparr>m_len := 96, m_body := b, m_type := char_info\<rparr>)))))))))))))"

text \<open>The nine by nine cells around a player, column by column, and the two numbers of a cell.\<close>

definition view_cells :: "int \<Rightarrow> int \<Rightarrow> (int \<times> int) list" where
  "view_cells x y = concat (map (\<lambda>x. map (\<lambda>y. (x, y)) [y - 4..y + 4]) [x - 4..x + 4])"

definition surface_or_ground :: "map_point_t \<Rightarrow> nat" where
  "surface_or_ground p =
     (if mp_surface p \<noteq> empty then surface_code (mp_surface p) + GROUND_TYPE_CNT else ground_code (mp_ground p))"

fun view_ints :: "map_t \<Rightarrow> nat \<Rightarrow> (int \<times> int) list \<Rightarrow> nat list res" where
  "view_ints m msize_x [] = Inr []"
| "view_ints m msize_x ((x, y) # ps) =
     rbind (cell_at m msize_x x y) (\<lambda>p.
     rbind (view_ints m msize_x ps) (\<lambda>ns.
       Inr (surface_or_ground p # object_code (mp_child_type p) # ns)))"

definition int_bytes :: "nat list \<Rightarrow> byte list" where
  "int_bytes ns = concat (map (le_bytes 4) ns)"

definition gfunc_map :: "msg_t \<Rightarrow> game_t \<Rightarrow> msg_t \<Rightarrow> (game_t \<times> msg_t option) res" where
  "gfunc_map fresh g m =
     rbind (character_get_by_addr (g_world g) (m_addr m)) (\<lambda>pl.
     rbind (reply_to fresh m) (\<lambda>r.
     rbind (load_char g pl) (\<lambda>c.
     rbind (view_ints (w_map (g_world g)) (w_msize_x (g_world g)) (view_cells (ch_x c) (ch_y c))) (\<lambda>ns.
     rbind (memcpy (m_body r) 0 (int_bytes ns)) (\<lambda>b.
     rbind (sprint_at b (4 * length ns)
              (of_str ''['' @ dec_int (ch_x c) @ of_str '', '' @ dec_int (ch_y c) @ of_str '']'')) (\<lambda>(b, n).
       Inr (g, Some (r\<lparr>m_len := 4 * 4 * 81 + of_nat (n + 1), m_body := b, m_type := map_update\<rparr>))))))))"

definition str_eq :: "byte list \<Rightarrow> string \<Rightarrow> bool" where
  "str_eq b s \<longleftrightarrow> cstr b = of_str s"

text \<open>The direction of a word; \<open>north\<close> and \<open>up\<close> mean \<open>south\<close> on the map.\<close>

definition word_direction :: "byte list \<Rightarrow> direction_t option" where
  "word_direction w =
     (if str_eq w ''west'' \<or> str_eq w ''right'' then Some west
      else if str_eq w ''east'' \<or> str_eq w ''left'' then Some east
      else if str_eq w ''north'' \<or> str_eq w ''up'' then Some south
      else if str_eq w ''south'' \<or> str_eq w ''down'' then Some north
      else None)"

text \<open>
  \<open>args\<close> is the rest of the message body.  The C library prints a null pointer with \<open>%s\<close> as
  \<open>(null)\<close>.
\<close>

definition gfunc_go :: "msg_t \<Rightarrow> game_t \<Rightarrow> msg_t \<Rightarrow> byte list \<Rightarrow> (game_t \<times> msg_t option) res" where
  "gfunc_go fresh g m args =
     rbind (character_get_by_addr (g_world g) (m_addr m)) (\<lambda>pl.
     rbind (get_word args 0) (\<lambda>(direct, buf, _).
     case direct of
       None \<Rightarrow>
         rbind (reply_to fresh m) (\<lambda>r.
         rbind (sprint_body (r\<lparr>m_type := main_msg\<rparr>) (of_str ''You should specify the direction!(null)'')) (\<lambda>r.
           Inr (g, Some r)))
     | Some d \<Rightarrow>
         (case word_direction (drop d buf) of
            None \<Rightarrow>
              rbind (reply_to fresh m) (\<lambda>r.
              rbind (copy_body (r\<lparr>m_type := main_msg\<rparr>) (lit ''You should specify the correct direction!'')) (\<lambda>r.
                Inr (g, Some r)))
          | Some dir \<Rightarrow>
              rbind (load_char g pl) (\<lambda>c.
              let c = c\<lparr>ch_next_step := dir\<rparr> in
              rbind (store_char g pl c) (\<lambda>g.
              rbind (character_move_to_target (w_chars (g_world g)) c (w_msize_x (g_world g))
                       (w_msize_y (g_world g)) (w_map (g_world g))) (\<lambda>s.
                if s = nowhere then
                  rbind (reply_to fresh m) (\<lambda>r.
                  rbind (fmt_str (drop d buf)) (\<lambda>w.
                  rbind (sprint_body (r\<lparr>m_type := main_msg\<rparr>) (of_str ''You cannot go '' @ w)) (\<lambda>r.
                    Inr (g, Some r))))
                else Inr (g, None)))))))"

definition gfunc_hello :: "msg_t \<Rightarrow> game_t \<Rightarrow> msg_t \<Rightarrow> (game_t \<times> msg_t option) res" where
  "gfunc_hello fresh g m =
     rbind (reply_to fresh m) (\<lambda>r.
     rbind (character_get_by_addr (g_world g) (m_addr m)) (\<lambda>pl.
     rbind (load_char g pl) (\<lambda>c.
     rbind (fmt_str (ch_name c)) (\<lambda>nm.
     rbind (sprint_body (r\<lparr>m_type := main_msg\<rparr>) (of_str ''Hello, '' @ nm @ of_str ''!'')) (\<lambda>r.
       Inr (g, Some r))))))"

definition gfunc_dntknow :: "msg_t \<Rightarrow> game_t \<Rightarrow> msg_t \<Rightarrow> (game_t \<times> msg_t option) res" where
  "gfunc_dntknow fresh g m =
     rbind (reply_to fresh m) (\<lambda>r.
     rbind (copy_body (r\<lparr>m_type := main_msg\<rparr>) (lit ''I don't know...'')) (\<lambda>r. Inr (g, Some r)))"

section \<open>The table of commands\<close>

definition funcs :: "(byte list \<times> gfunc) list" where
  "funcs = [(lit ''go'', GoFunc), (lit ''say'', SayFunc), (lit ''hello'', HelloFunc), (lit ''hi'', HelloFunc),
     (lit ''bot'', BotFunc)]"

text \<open>The loop of \<open>gfunc_init\<close>: the table, or the name that could not be added.\<close>

fun init_loop :: "(byte list \<times> gfunc) list \<Rightarrow> gfunc str_hashtable_t
    \<Rightarrow> (byte list option \<times> gfunc str_hashtable_t) res" where
  "init_loop [] t = Inr (None, t)"
| "init_loop ((nm, f) # fs) t =
     rbind (str_hashtable_add (Some t) (Some nm) (Some f)) (\<lambda>(ok, _, t').
       case t' of None \<Rightarrow> Inl NullDeref | Some t' \<Rightarrow> if ok then init_loop fs t' else Inr (Some nm, t'))"

definition gfunc_init :: "(byte list option \<times> gfunc str_hashtable_t) res" where
  "gfunc_init = init_loop funcs (str_hashtable_create FUNCS_CNT)"

text \<open>\<open>None\<close> is \<open>gfunc_dntknow\<close>.\<close>

definition gfunc_get :: "gfunc str_hashtable_t \<Rightarrow> byte list \<Rightarrow> (gfunc option \<times> gfunc str_hashtable_t) res" where
  "gfunc_get t name = rbind (str_hashtable_get (Some t) (Some name)) (\<lambda>(f, t').
     case t' of None \<Rightarrow> Inl NullDeref | Some t' \<Rightarrow> Inr (f, t'))"

definition gfunc_destroy :: "gfunc str_hashtable_t \<Rightarrow> gfunc str_hashtable_node_t list res" where
  "gfunc_destroy t = str_hashtable_destroy t"

text \<open>The call through the pointer.\<close>

definition run_gfunc :: "msg_t \<Rightarrow> byte list \<Rightarrow> gfunc option \<Rightarrow> game_t \<Rightarrow> msg_t \<Rightarrow> byte list
    \<Rightarrow> (game_t \<times> msg_t option) res" where
  "run_gfunc fresh junk f g m args = (case f of
     None \<Rightarrow> gfunc_dntknow fresh g m
   | Some GoFunc \<Rightarrow> gfunc_go fresh g m args
   | Some SayFunc \<Rightarrow> gfunc_say fresh g m args
   | Some HelloFunc \<Rightarrow> gfunc_hello fresh g m
   | Some BotFunc \<Rightarrow> gfunc_bot junk g m)"

section \<open>Replies are well-formed\<close>

lemma new_msg_ok:
  assumes "msg_wf fresh"
  shows "\<exists>r. new_msg fresh = Inr r \<and> msg_wf r \<and> m_body r = replicate BODY_LEN 0"
  using assms msg_init_None [OF assms] by (auto simp: new_msg_def msg_init_def Let_def)

lemma cstr_append: "terminated k \<Longrightarrow> cstr (k @ r) = cstr k"
  by (auto elim!: terminatedE simp: cstr_append_zero)

lemma take_cstr_zero: "terminated k \<Longrightarrow> take (Suc (length (cstr k))) k = cstr k @ [0]"
  by (auto elim!: terminatedE simp: cstr_append_zero)

lemma cstr_length_less: "terminated k \<Longrightarrow> length (cstr k) < length k"
  by (auto elim!: terminatedE simp: cstr_append_zero)

lemma copy_key_ok:
  assumes "msg_wf r" "msg_wf m" "terminated (m_key m)"
  shows "\<exists>r'. copy_key r m = Inr r' \<and> msg_wf r' \<and> cstr (m_key r') = cstr (m_key m) \<and> m_addr r' = m_addr r
    \<and> m_body r' = m_body r \<and> m_type r' = m_type r"
proof -
  let ?k = "cstr (m_key m) @ [0]"
  have t: "terminated (key_mem m)"
    using assms(3) by (simp add: key_mem_def terminated_def)
  have c: "cstr (key_mem m) = cstr (m_key m)"
    using assms(3) by (simp add: key_mem_def cstr_append)
  have tk: "take (Suc (length (cstr (m_key m)))) (key_mem m) = ?k"
    using take_cstr_zero [OF t] by (simp add: c)
  have len: "length ?k \<le> length (m_key r)"
    using cstr_length_less [OF assms(3)] assms(1,2) by (simp add: msg_wf_def)
  then have "copy_key r m = Inr (r\<lparr>m_key := ?k @ drop (length ?k) (m_key r)\<rparr>)"
    using t by (simp add: copy_key_def strlen_ok c tk memcpy_def)
  moreover have "cstr (?k @ drop (length ?k) (m_key r)) = cstr (m_key m)"
    by (simp add: cstr_append_zero)
  ultimately show ?thesis
    using len assms(1) by (auto simp: msg_wf_def)
qed

lemma reply_to_ok:
  assumes "msg_wf fresh" "msg_wf m" "terminated (m_key m)"
  shows "\<exists>r. reply_to fresh m = Inr r \<and> msg_wf r \<and> cstr (m_key r) = cstr (m_key m) \<and> m_addr r = m_addr m
    \<and> m_body r = replicate BODY_LEN 0"
proof -
  obtain r0 where r0: "new_msg fresh = Inr r0" "msg_wf r0" "m_body r0 = replicate BODY_LEN 0"
    using new_msg_ok [OF assms(1)] by blast
  have "msg_wf (r0\<lparr>m_addr := m_addr m\<rparr>)"
    using r0(2) by (simp add: msg_wf_def)
  from copy_key_ok [OF this assms(2,3)] show ?thesis
    using r0 by (auto simp: reply_to_def)
qed

lemma sprint_body_ok:
  assumes "m_body r = replicate BODY_LEN 0" "length tx < BODY_LEN" "0 \<notin> set tx"
  shows "sprint_body r tx = Inr (r\<lparr>m_len := of_nat (length tx + 1),
    m_body := tx @ replicate (BODY_LEN - length tx) 0\<rparr>)"
proof -
  have "replicate (BODY_LEN - length tx) (0 :: byte) = 0 # replicate (BODY_LEN - Suc (length tx)) 0"
    using assms(2) by (metis Suc_diff_Suc replicate_Suc)
  then show ?thesis
    using assms by (simp add: sprint_body_def sprint_at_def memcpy_def)
qed

lemma fmt_str_ok: "terminated s \<Longrightarrow> fmt_str s = Inr (cstr s)"
  by (simp add: fmt_str_def strlen_ok take_cstr)

section \<open>The commands are found\<close>

lemma init_loop_insert_all:
  "insert_all ht_insert fs t = Inr t' \<Longrightarrow> init_loop fs t = Inr (None, t')"
proof (induction fs t rule: init_loop.induct)
  case (2 nm f fs t)
  then obtain t1 where t1: "ht_insert nm f t = Inr t1" "insert_all ht_insert fs t1 = Inr t'"
    by (auto simp: rbind_eq_Inr)
  then obtain h where "str_hashtable_add (Some t) (Some nm) (Some f) = Inr (True, h, Some t1)"
    by (auto simp: ht_insert_def rbind_eq_Inr split: option.splits if_splits)
  with 2 t1(2) show ?case
    by simp
qed simp

lemma funcs_hashes: "distinct (map (\<lambda>(k, v). str_hash k) funcs)"
  by code_simp

lemma funcs_valid: "list_all (\<lambda>(k, v). valid_str k) funcs"
  by (simp add: funcs_def valid_str_def lit_def terminated_def of_str_def)

lemma gfunc_init_table:
  "\<exists>t. gfunc_init = Inr (None, t) \<and> ht_inv t
    \<and> (\<forall>s. valid_str s \<longrightarrow> gfunc_get t s = Inr (map_of (map (\<lambda>(k, v). (str_hash k, v)) funcs) (str_hash s), t))"
proof -
  let ?t0 = "str_hashtable_create FUNCS_CNT :: gfunc str_hashtable_t"
  have t0: "ht_inv ?t0" "ht_lookup ?t0 h = None" for h
    by (simp_all add: FUNCS_CNT_def ht_create_inv ht_create_lookup)
  have "list_all (\<lambda>(k, v). valid_str k \<and> ht_lookup ?t0 (str_hash k) = None) funcs"
    using funcs_valid t0(2) by (simp add: list_all_iff case_prod_unfold)
  note spec = ht.insert_all_spec [OF t0(1) this funcs_hashes]
  obtain t where t: "insert_all ht_insert funcs ?t0 = Inr t" "ht_inv t"
      "\<forall>k. valid_str k \<longrightarrow> ht_lookup t (str_hash k) =
        (case map_of (map (\<lambda>(k, v). (str_hash k, v)) funcs) (str_hash k) of Some v \<Rightarrow> Some v
           | None \<Rightarrow> ht_lookup ?t0 (str_hash k))"
    using spec by blast
  have "gfunc_get t s = Inr (map_of (map (\<lambda>(k, v). (str_hash k, v)) funcs) (str_hash s), t)" if "valid_str s" for s
    using t(3) that ht_get_spec [OF t(2) that] by (simp add: gfunc_get_def t0(2) split: option.splits)
  then show ?thesis
    using t(1,2) init_loop_insert_all by (auto simp: gfunc_init_def)
qed

section \<open>Properties\<close>

text \<open>
  \<open>gfunc_init\<close> succeeds: the five names have five hash codes.  Afterwards \<open>gfunc_get\<close> gives
  each name its function, and any string whose hash code is none of theirs the answer
  \<open>I don't know...\<close>.
\<close>

theorem gfunc_init_get:
  "\<exists>t. gfunc_init = Inr (None, t)
    \<and> (\<forall>(nm, f) \<in> set funcs. gfunc_get t nm = Inr (Some f, t))
    \<and> (\<forall>s. valid_str s \<longrightarrow> str_hash s \<notin> str_hash ` fst ` set funcs \<longrightarrow> gfunc_get t s = Inr (None, t))"
proof -
  obtain t where t: "gfunc_init = Inr (None, t)"
      "\<forall>s. valid_str s \<longrightarrow> gfunc_get t s = Inr (map_of (map (\<lambda>(k, v). (str_hash k, v)) funcs) (str_hash s), t)"
    using gfunc_init_table by blast
  have d: "distinct (map fst (map (\<lambda>(k, v). (str_hash k, v)) funcs))"
    using funcs_hashes by (simp add: comp_def case_prod_unfold)
  have "gfunc_get t nm = Inr (Some f, t)" if "(nm, f) \<in> set funcs" for nm f
  proof -
    have "(str_hash nm, f) \<in> set (map (\<lambda>(k, v). (str_hash k, v)) funcs)"
      using that by force
    then have "map_of (map (\<lambda>(k, v). (str_hash k, v)) funcs) (str_hash nm) = Some f"
      by (rule map_of_is_SomeI [OF d])
    moreover have "valid_str nm"
      using funcs_valid that by (auto simp: list_all_iff)
    ultimately show ?thesis
      using t(2) by simp
  qed
  moreover have "gfunc_get t s = Inr (None, t)" if "valid_str s" "str_hash s \<notin> str_hash ` fst ` set funcs" for s
  proof -
    have "str_hash s \<notin> fst ` set (map (\<lambda>(k, v). (str_hash k, v)) funcs)"
      using that(2) by force
    then have "map_of (map (\<lambda>(k, v). (str_hash k, v)) funcs) (str_hash s) = None"
      by (metis map_of_eq_None_iff)
    then show ?thesis
      using t(2) that(1) by simp
  qed
  ultimately show ?thesis
    using t(1) by blast
qed

lemma gfunc_init_get_witness:
  "\<exists>t. gfunc_init = Inr (None, t) \<and> gfunc_get t (lit ''bot'') = Inr (Some BotFunc, t)
    \<and> gfunc_get t (lit ''fly'') = Inr (None, t)"
proof -
  have "(lit ''bot'', BotFunc) \<in> set funcs" "valid_str (lit ''fly'')"
    by (simp_all add: funcs_def valid_str_def lit_def terminated_def of_str_def)
  moreover have "str_hash (lit ''fly'') \<notin> str_hash ` fst ` set funcs"
    by code_simp
  ultimately show ?thesis
    using gfunc_init_get by blast
qed

end
