(* ===== verification/Commands.thy ===== *)
theory Commands
  imports GameFunctions
begin

text \<open>
  What the commands of \<open>GameFunctions\<close> do: the view and the values that \<open>gfunc_map\<close> and
  \<open>gfunc_getinfo\<close> put into a message, who hears \<open>gfunc_say\<close>, when \<open>gfunc_go\<close> is refused,
  and where they write past the end of an array.
\<close>

section \<open>Numbers as text\<close>

lemma dec_digits_props:
  "length (dec_digits k n) \<le> k" "0 \<notin> set (dec_digits k n)"
proof (induction k n rule: dec_digits.induct)
  case (2 k n)
  have z: "(of_nat (48 + d) :: byte) \<noteq> 0" if "d < 10" for d
    using that dvd_imp_le [of 256 "48 + d"] by (auto simp only: word_of_nat_eq_0_iff) simp
  {
    case 1 show ?case using 2 by auto
  next
    case 2
    show ?case using "2.IH"(2) z[of n] z[of "n mod 10"] by auto
  }
qed simp_all

lemma dec_digits_short: "n < 10 ^ d \<Longrightarrow> 0 < d \<Longrightarrow> length (dec_digits k n) \<le> d"
proof (induction k n arbitrary: d rule: dec_digits.induct)
  case (2 k n)
  show ?case
  proof (cases "n < 10")
    case False
    then obtain e where e: "d = Suc e" "0 < e"
      using "2.prems" by (cases d; cases "d - 1") auto
    then have "n div 10 < 10 ^ e"
      using "2.prems"(1) by (simp add: less_mult_imp_div_less mult.commute)
    with False "2.IH" e show ?thesis by simp
  qed (use 2 in simp)
qed simp

lemma dec_int_short:
  assumes "\<bar>i\<bar> < 10 ^ d" "0 < d"
  shows "length (dec_int i) \<le> Suc d" "0 \<notin> set (dec_int i)"
proof -
  have "nat (- i) < 10 ^ d" "nat i < 10 ^ d"
    using assms(1) by (auto simp: nat_less_iff)
  then show "length (dec_int i) \<le> Suc d"
    using dec_digits_short [of "nat (- i)" d] dec_digits_short [of "nat i" d] assms(2)
    by (auto simp: dec_int_def intro: le_SucI simp del: dec_digits.simps)
  show "0 \<notin> set (dec_int i)"
    by (simp add: dec_int_def dec_digits_props(2) del: dec_digits.simps)
qed


section \<open>The view\<close>

text \<open>Reading the numbers of a view back.\<close>

fun decode_ints :: "nat \<Rightarrow> byte list \<Rightarrow> nat list" where
  "decode_ints 0 bs = []"
| "decode_ints (Suc k) bs = le_val (take 4 bs) # decode_ints k (drop 4 bs)"

definition inland :: "int \<Rightarrow> int \<Rightarrow> nat \<Rightarrow> nat \<Rightarrow> bool" where
  "inland x y msize_x msize_y \<longleftrightarrow> 4 \<le> x \<and> x + 4 < int msize_x \<and> 4 \<le> y \<and> y + 4 < int msize_y"

definition cell_codes :: "map_t \<Rightarrow> nat \<Rightarrow> int \<times> int \<Rightarrow> nat list" where
  "cell_codes m msize_x = (\<lambda>(x, y). let p = m ! nat (cell_index msize_x x y) in
     [surface_or_ground p, object_code (mp_child_type p)])"

definition view_text :: "character_t \<Rightarrow> byte list" where
  "view_text c = of_str ''['' @ dec_int (ch_x c) @ of_str '', '' @ dec_int (ch_y c) @ of_str '']''"

lemma decode_int_bytes:
  "list_all (\<lambda>n. n < 2 ^ 32) ns \<Longrightarrow> decode_ints (length ns) (int_bytes ns @ rest) = ns"
  by (induction ns) (simp_all add: int_bytes_def le_val_bytes)

lemma length_int_bytes: "length (int_bytes ns) = 4 * length ns"
  by (induction ns) (simp_all add: int_bytes_def)

lemma view_ints_ok:
  assumes "length m = msize_x * msize_y" "list_all (\<lambda>(x, y). on_map x y msize_x msize_y) ps"
  shows "view_ints m msize_x ps = Inr (concat (map (cell_codes m msize_x) ps))"
  using assms(2)
proof (induction ps)
  case (Cons p ps)
  obtain x y where p: "p = (x, y)" by (cases p)
  have "cell_at m msize_x x y = Inr (m ! nat (cell_index msize_x x y))"
    using Cons.prems cell_at_inside(1) [OF assms(1)] by (simp add: p on_map_def)
  then show ?case
    using Cons by (simp add: p cell_codes_def Let_def)
qed simp

lemma view_cells_on_map:
  "inland x y msize_x msize_y \<Longrightarrow> list_all (\<lambda>(x, y). on_map x y msize_x msize_y) (view_cells x y)"
  by (auto simp: list_all_iff view_cells_def inland_def on_map_def)

lemma cell_codes_small: "list_all (\<lambda>n. n < 2 ^ 32) (cell_codes m msize_x p)"
proof -
  have "surface_or_ground q < 2 ^ 32" "object_code (mp_child_type q) < 2 ^ 32" for q
    by (cases "mp_surface q"; cases "mp_ground q"; cases "mp_child_type q";
        simp add: surface_or_ground_def GROUND_TYPE_CNT_def)+
  then show ?thesis
    by (simp add: cell_codes_def Let_def split: prod.split)
qed

lemma length_view_cells: "length (view_cells x y) = 81"
  by (simp add: view_cells_def length_concat comp_def sum_list_triv)

lemma length_cell_codes: "length (concat (map (cell_codes m msize_x) ps)) = 2 * length ps"
  by (induction ps) (simp_all add: cell_codes_def Let_def split: prod.split)

lemma view_text_short:
  assumes "inland (ch_x c) (ch_y c) msize_x msize_y" "msize_x < 10 ^ 10" "msize_y < 10 ^ 10"
  shows "length (view_text c) < 30" "0 \<notin> set (view_text c)"
proof -
  have "\<bar>ch_x c\<bar> < 10 ^ 10" "\<bar>ch_y c\<bar> < 10 ^ 10"
    using assms by (simp_all add: inland_def)
  note dec_int_short [OF this(1)] dec_int_short [OF this(2)]
  then show "length (view_text c) < 30" "0 \<notin> set (view_text c)"
    by (simp_all add: view_text_def of_str_def)
qed

lemma gfunc_map_ok:
  assumes "character_get_by_addr (g_world g) (m_addr m) = Inr p" and "load_char g p = Inr c"
    and "length (w_map (g_world g)) = w_msize_x (g_world g) * w_msize_y (g_world g)"
    and "inland (ch_x c) (ch_y c) (w_msize_x (g_world g)) (w_msize_y (g_world g))"
    and "w_msize_x (g_world g) < 10 ^ 10" "w_msize_y (g_world g) < 10 ^ 10"
    and "msg_wf fresh" and "msg_wf m" and "terminated (m_key m)"
  shows "\<exists>r. gfunc_map fresh g m = Inr (g, Some r) \<and> msg_wf r \<and> m_type r = map_update \<and> m_addr r = m_addr m
    \<and> cstr (m_key r) = cstr (m_key m)
    \<and> decode_ints 162 (m_body r) = concat (map (cell_codes (w_map (g_world g)) (w_msize_x (g_world g)))
         (view_cells (ch_x c) (ch_y c)))
    \<and> cstr (drop 648 (m_body r)) = view_text c
    \<and> m_len r = of_nat (1297 + length (view_text c))"
proof -
  define ns where "ns = concat (map (cell_codes (w_map (g_world g)) (w_msize_x (g_world g))) (view_cells (ch_x c) (ch_y c)))"
  have ns: "length ns = 162" "list_all (\<lambda>n. n < 2 ^ 32) ns"
    by (simp add: ns_def length_cell_codes length_view_cells)
      (use cell_codes_small in \<open>auto simp: ns_def list_all_iff\<close>)
  have v: "view_ints (w_map (g_world g)) (w_msize_x (g_world g)) (view_cells (ch_x c) (ch_y c)) = Inr ns"
    unfolding ns_def by (rule view_ints_ok [OF assms(3) view_cells_on_map [OF assms(4)]])
  obtain r0 where r0: "reply_to fresh m = Inr r0" "msg_wf r0" "cstr (m_key r0) = cstr (m_key m)" "m_addr r0 = m_addr m"
      "m_body r0 = replicate BODY_LEN 0"
    using reply_to_ok [OF assms(7-9)] by blast
  note t = view_text_short [OF assms(4-6)]
  define k where "k = 376 - Suc (length (view_text c))"
  define b where "b = int_bytes ns @ view_text c @ 0 # replicate k 0"
  have lb: "length (int_bytes ns) = 648"
    by (simp add: length_int_bytes ns(1))
  have "memcpy (replicate BODY_LEN 0) 0 (int_bytes ns) = Inr (int_bytes ns @ replicate 376 0)"
    by (simp add: memcpy_def lb BODY_LEN_def)
  moreover have "sprint_at (int_bytes ns @ replicate 376 0) 648 (view_text c) = Inr (b, length (view_text c))"
    using t(1) by (simp add: sprint_at_def memcpy_def lb b_def k_def)
  ultimately have "gfunc_map fresh g m = Inr (g, Some (r0\<lparr>m_len := of_nat (1297 + length (view_text c)),
      m_body := b, m_type := map_update\<rparr>))"
    using assms(1,2) v r0(1,5) ns(1) by (simp add: gfunc_map_def view_text_def [symmetric])
  moreover have "length b = BODY_LEN"
    using t(1) by (simp add: b_def lb k_def BODY_LEN_def)
  moreover have "decode_ints 162 b = ns"
    using decode_int_bytes [OF ns(2)] by (simp add: b_def ns(1))
  moreover have "cstr (drop 648 b) = view_text c"
    using t(2) by (simp add: b_def lb cstr_append_zero)
  ultimately show ?thesis
    using r0 by (auto simp: msg_wf_def ns_def)
qed


section \<open>The other commands\<close>

lemma info_field_short:
  assumes "16 \<le> length junk" "length tx < 16" "0 \<notin> set tx"
  shows "\<exists>f. info_field junk tx = Inr f \<and> length f = 16 \<and> cstr f = tx"
  using assms by (simp add: info_field_def sprint_at_def memcpy_def cstr_append_zero)

lemma info_field_long: "16 \<le> length junk \<Longrightarrow> 16 \<le> length tx \<Longrightarrow> info_field junk tx = Inl OutOfBounds"
  by (simp add: info_field_def sprint_at_def memcpy_def)

text \<open>What \<open>%d\<close> prints in less than sixteen characters, with room to spare.\<close>

definition int_ok :: "int \<Rightarrow> bool" where
  "int_ok i \<longleftrightarrow> \<bar>i\<bar> < 10 ^ 14"

definition char_ints_ok :: "character_t \<Rightarrow> bool" where
  "char_ints_ok c \<longleftrightarrow> int_ok (hp (ch_characteristics c)) \<and> int_ok (power (ch_characteristics c))
     \<and> int_ok (armor (ch_characteristics c)) \<and> int_ok (evasion (ch_characteristics c)) \<and> int_ok (ch_lvl c)"

lemma info_int:
  assumes "int_ok i" "16 \<le> length junk"
  shows "\<exists>f. info_field junk (dec_int i) = Inr f \<and> length f = 16 \<and> cstr f = dec_int i"
  using dec_int_short [of i 14] assms by (intro info_field_short) (simp_all add: int_ok_def)

text \<open>The six members of \<open>char_info_t\<close> in a body.\<close>

definition info_texts :: "byte list \<Rightarrow> byte list list" where
  "info_texts b = map (\<lambda>i. cstr (take 16 (drop (16 * i) b))) [0..<6]"

lemma gfunc_getinfo_ok:
  assumes "character_get_by_addr (g_world g) (m_addr m) = Inr p" and "load_char g p = Inr c"
    and "terminated (ch_name c)" and "char_ints_ok c" and "length junk = NAME_LEN"
    and "msg_wf fresh" and "msg_wf m" and "terminated (m_key m)"
  shows "if length (cstr (ch_name c)) < 16
    then \<exists>r. gfunc_getinfo fresh junk g m = Inr (g, Some r) \<and> msg_wf r \<and> m_type r = char_info \<and> m_addr r = m_addr m
      \<and> cstr (m_key r) = cstr (m_key m) \<and> m_len r = 96
      \<and> info_texts (m_body r) = [cstr (ch_name c), dec_int (ch_lvl c), dec_int (hp (ch_characteristics c)),
           dec_int (power (ch_characteristics c)), dec_int (armor (ch_characteristics c)),
           dec_int (evasion (ch_characteristics c))]
    else gfunc_getinfo fresh junk g m = Inl OutOfBounds"
proof -
  let ?cc = "ch_characteristics c"
  obtain r0 where r0: "reply_to fresh m = Inr r0" "msg_wf r0" "cstr (m_key r0) = cstr (m_key m)" "m_addr r0 = m_addr m"
    using reply_to_ok [OF assms(6-8)] by blast
  have j: "16 \<le> length (drop k junk)" if "k \<le> 112" for k
    using assms(5) that by (simp add: NAME_LEN_def)
  have i: "int_ok (hp ?cc)" "int_ok (power ?cc)" "int_ok (armor ?cc)" "int_ok (evasion ?cc)" "int_ok (ch_lvl c)"
    using assms(4) by (simp_all add: char_ints_ok_def)
  obtain f1 where f1: "info_field (drop 32 junk) (dec_int (hp ?cc)) = Inr f1" "length f1 = 16" "cstr f1 = dec_int (hp ?cc)"
    using info_int [OF i(1) j [of 32]] by auto
  obtain f2 where f2: "info_field (drop 64 junk) (dec_int (armor ?cc)) = Inr f2" "length f2 = 16" "cstr f2 = dec_int (armor ?cc)"
    using info_int [OF i(3) j [of 64]] by auto
  obtain f3 where f3: "info_field (drop 48 junk) (dec_int (power ?cc)) = Inr f3" "length f3 = 16" "cstr f3 = dec_int (power ?cc)"
    using info_int [OF i(2) j [of 48]] by auto
  obtain f4 where f4: "info_field (drop 80 junk) (dec_int (evasion ?cc)) = Inr f4" "length f4 = 16" "cstr f4 = dec_int (evasion ?cc)"
    using info_int [OF i(4) j [of 80]] by auto
  obtain f5 where f5: "info_field (drop 16 junk) (dec_int (ch_lvl c)) = Inr f5" "length f5 = 16" "cstr f5 = dec_int (ch_lvl c)"
    using info_int [OF i(5) j [of 16]] by auto
  note run = assms(1,2) r0(1) f1(1) f2(1) f3(1) f4(1) fmt_str_ok [OF assms(3)]
  show ?thesis
  proof (cases "length (cstr (ch_name c)) < 16")
    case True
    obtain f0 where f0: "info_field junk (cstr (ch_name c)) = Inr f0" "length f0 = 16" "cstr f0 = cstr (ch_name c)"
      using info_field_short [OF _ True zero_notin_cstr, of junk] j [of 0] by auto
    define b where "b = (f0 @ f5 @ f1 @ f3 @ f2 @ f4) @ drop 96 (m_body r0)"
    have "length (m_body r0) = 1024"
      using r0(2) by (simp add: msg_wf_def BODY_LEN_def)
    then have "memcpy (m_body r0) 0 (f0 @ f5 @ f1 @ f3 @ f2 @ f4) = Inr b" "length b = BODY_LEN"
      using f0(2) f1(2) f2(2) f3(2) f4(2) f5(2) by (simp_all add: memcpy_def b_def BODY_LEN_def)
    moreover have "info_texts b = [cstr f0, cstr f5, cstr f1, cstr f3, cstr f2, cstr f4]"
      using f0(2) f1(2) f2(2) f3(2) f4(2) f5(2) by (simp add: info_texts_def b_def upt_rec)
    ultimately show ?thesis
      using True run f0 f5 r0 f1 f2 f3 f4
      by (simp add: gfunc_getinfo_def) (simp add: msg_wf_def)
  next
    case False
    then have "info_field junk (cstr (ch_name c)) = Inl OutOfBounds"
      using info_field_long [of junk] j [of 0] by simp
    with False run show ?thesis
      by (simp add: gfunc_getinfo_def)
  qed
qed

text \<open>The players in the table, and what each of them is told.\<close>

definition players_of :: "world_t \<Rightarrow> nat list" where
  "players_of w = filter (\<lambda>a. ch_is_player (the (w_chars w ! a))) (used_entries w)"

definition said :: "world_t \<Rightarrow> byte list \<Rightarrow> nat \<Rightarrow> msg_t \<Rightarrow> bool" where
  "said w tx a m \<longleftrightarrow> load (w_addrs w) (ch_addr (the (w_chars w ! a))) = Inr (m_addr m) \<and> m_type m = chat_msg
     \<and> cstr (m_body m) = tx \<and> m_len m = of_nat (length tx + 1) \<and> msg_wf m"

lemma say_loop_ok:
  assumes "load_char g (Some p) = Inr me" and "terminated (ch_name me)" and "terminated args" and "msg_wf fresh"
    and "length (cstr (ch_name me)) + 2 + length (cstr args) < BODY_LEN"
    and "table_live (w_characters (g_world g)) (w_chars (g_world g))" and "addrs_live (g_world g)"
    and "\<forall>i \<in> set is. i < nat (cs_count (w_characters (g_world g)))"
    and "q_inv (g_out g)"
    and "length (filter (\<lambda>i. ch_is_player (the (w_chars (g_world g) ! (cs_arr (w_characters (g_world g)) ! i)))) is) \<le> q_quota (g_out g)"
  shows "\<exists>q ms. say_loop fresh (Some p) args is g = Inr (g\<lparr>g_out := q\<rparr>) \<and> q_inv q
    \<and> q_contents q = q_contents (g_out g) @ ms
    \<and> list_all2 (said (g_world g) (cstr (ch_name me) @ of_str '': '' @ cstr args))
        (filter (\<lambda>a. ch_is_player (the (w_chars (g_world g) ! a))) (map (\<lambda>i. cs_arr (w_characters (g_world g)) ! i) is)) ms"
  using assms(1,6-)
proof (induction "is" arbitrary: g)
  case Nil
  then show ?case by (intro exI [of _ "g_out g"] exI [of _ "[]"]) simp
next
  case (Cons i "is")
  let ?w = "g_world g"
  let ?a = "cs_arr (w_characters ?w) ! i"
  let ?tx = "cstr (ch_name me) @ of_str '': '' @ cstr args"
  have i: "i < nat (cs_count (w_characters ?w))"
    using Cons.prems(4) by simp
  note live = table_liveD [OF Cons.prems(2) i]
  show ?case
  proof (cases "ch_is_player (the (w_chars ?w ! ?a))")
    case False
    with Cons.IH [OF Cons.prems(1-3) _ Cons.prems(5)] Cons.prems(4,6) live show ?thesis
      by (simp add: load_char_def)
  next
    case True
    have len: "nat (cs_count (w_characters ?w)) \<le> length (cs_arr (w_characters ?w))"
      using Cons.prems(2) by (simp add: table_live_def)
    have "?a \<in> set (used_entries ?w)"
      using i len by (auto simp: used_entries_def in_set_conv_nth intro!: exI [of _ i])
    then obtain ad where ad: "load (w_addrs ?w) (ch_addr (the (w_chars ?w ! ?a))) = Inr ad"
      using Cons.prems(3) True by (auto simp: addrs_live_def used_entries_def list_all_iff is_ok_iff Let_def)
    obtain r where r: "new_msg fresh = Inr r" "msg_wf r" "m_body r = replicate BODY_LEN 0"
      using new_msg_ok [OF assms(4)] by blast
    have z: "0 \<notin> set ?tx" "length ?tx < BODY_LEN"
      using assms(5) by (simp_all add: of_str_def)
    define m where "m = r\<lparr>m_addr := ad, m_len := of_nat (length ?tx + 1),
      m_body := ?tx @ replicate (BODY_LEN - length ?tx) 0, m_type := chat_msg\<rparr>"
    have "cstr (m_body m) = ?tx"
      using cstr_padded [OF z(2,1)] by (simp add: m_def)
    then have m: "said ?w ?tx ?a m"
      using ad r(2) z(2) by (simp add: said_def m_def msg_wf_def)
    have room: "0 < q_quota (g_out g)"
      using Cons.prems(6) True by simp
    obtain q where q: "queue_enqueue m (g_out g) = Inr q" "q_inv q" "q_contents q = q_contents (g_out g) @ [m]"
        "q_quota q = q_quota (g_out g) - 1"
      using queue_enqueue_spec [OF Cons.prems(5) room] by blast
    have sp: "sprint_body (r\<lparr>m_addr := ad\<rparr>) ?tx = Inr (r\<lparr>m_addr := ad, m_len := of_nat (length ?tx + 1),
      m_body := ?tx @ replicate (BODY_LEN - length ?tx) 0\<rparr>)"
      using sprint_body_ok [OF _ z(2,1)] r(3) by simp
    have step: "say_loop fresh (Some p) args (i # is) g = say_loop fresh (Some p) args is (g\<lparr>g_out := q\<rparr>)"
      using True live Cons.prems(1) ad r(1) sp q(1) fmt_str_ok [OF assms(2)] fmt_str_ok [OF assms(3)]
      by (simp add: load_char_def send_out_def m_def)
    have "load_char (g\<lparr>g_out := q\<rparr>) (Some p) = Inr me"
      using Cons.prems(1) by (simp add: load_char_def)
    moreover have "length (filter (\<lambda>i. ch_is_player (the (w_chars ?w ! (cs_arr (w_characters ?w) ! i)))) is) \<le> q_quota q"
      using Cons.prems(6) True q(4) by simp
    ultimately obtain q' ms where
      "say_loop fresh (Some p) args is (g\<lparr>g_out := q\<rparr>) = Inr (g\<lparr>g_out := q'\<rparr>)" "q_inv q'"
      "q_contents q' = q_contents q @ ms"
      "list_all2 (said ?w ?tx) (filter (\<lambda>a. ch_is_player (the (w_chars ?w ! a)))
        (map (\<lambda>i. cs_arr (w_characters ?w) ! i) is)) ms"
      using Cons.IH [of "g\<lparr>g_out := q\<rparr>"] Cons.prems(2-4) q(2) by auto
    with True q(3) m show ?thesis
      unfolding step by (intro exI [of _ q'] exI [of _ "m # ms"]) simp
  qed
qed

lemma used_entries_nth:
  assumes "table_live (w_characters w) (w_chars w)"
  shows "map (\<lambda>i. cs_arr (w_characters w) ! i) [0..<nat (cs_count (w_characters w))] = used_entries w"
  using assms by (intro nth_equalityI) (auto simp: used_entries_def table_live_def)

lemma gfunc_say_ok:
  assumes "character_get_by_addr (g_world g) (m_addr m) = Inr (Some p)" and "load_char g (Some p) = Inr me"
    and "terminated (ch_name me)" and "terminated args" and "msg_wf fresh"
    and "length (cstr (ch_name me)) + 2 + length (cstr args) < BODY_LEN"
    and "table_live (w_characters (g_world g)) (w_chars (g_world g))" and "addrs_live (g_world g)"
    and "q_inv (g_out g)" and "length (players_of (g_world g)) \<le> q_quota (g_out g)"
  shows "\<exists>q ms. gfunc_say fresh g m args = Inr (g\<lparr>g_out := q\<rparr>, None) \<and> q_inv q
    \<and> q_contents q = q_contents (g_out g) @ ms
    \<and> list_all2 (said (g_world g) (cstr (ch_name me) @ of_str '': '' @ cstr args)) (players_of (g_world g)) ms"
proof -
  let ?is = "[0..<nat (cs_count (w_characters (g_world g)))]"
  have "length (filter (\<lambda>i. ch_is_player (the (w_chars (g_world g) ! (cs_arr (w_characters (g_world g)) ! i)))) ?is)
      = length (players_of (g_world g))"
    unfolding players_of_def used_entries_nth [OF assms(7), symmetric] by (simp add: filter_map comp_def)
  with say_loop_ok [OF assms(2-8), of ?is] assms(1,9,10) show ?thesis
    by (auto simp: gfunc_say_def players_of_def used_entries_nth [OF assms(7)])
qed

lemma sprint_body_long: "msg_wf r \<Longrightarrow> BODY_LEN \<le> length tx \<Longrightarrow> sprint_body r tx = Inl OutOfBounds"
  by (simp add: sprint_body_def sprint_at_def memcpy_def msg_wf_def)

lemma say_loop_overflow:
  assumes "load_char g (Some p) = Inr me" and "terminated (ch_name me)" and "terminated args" and "msg_wf fresh"
    and "BODY_LEN \<le> length (cstr (ch_name me)) + 2 + length (cstr args)"
    and "table_live (w_characters (g_world g)) (w_chars (g_world g))" and "addrs_live (g_world g)"
    and "\<forall>i \<in> set is. i < nat (cs_count (w_characters (g_world g)))"
    and "\<exists>i \<in> set is. ch_is_player (the (w_chars (g_world g) ! (cs_arr (w_characters (g_world g)) ! i)))"
  shows "say_loop fresh (Some p) args is g = Inl OutOfBounds"
  using assms(8,9)
proof (induction "is")
  case (Cons i "is")
  let ?w = "g_world g"
  let ?a = "cs_arr (w_characters ?w) ! i"
  have i: "i < nat (cs_count (w_characters ?w))"
    using Cons.prems by simp
  note live = table_liveD [OF assms(6) i]
  show ?case
  proof (cases "ch_is_player (the (w_chars ?w ! ?a))")
    case False
    with Cons live show ?thesis
      by (simp add: load_char_def)
  next
    case True
    have len: "nat (cs_count (w_characters ?w)) \<le> length (cs_arr (w_characters ?w))"
      using assms(6) by (simp add: table_live_def)
    have "?a \<in> set (used_entries ?w)"
      using i len by (auto simp: used_entries_def in_set_conv_nth intro!: exI [of _ i])
    then obtain ad where ad: "load (w_addrs ?w) (ch_addr (the (w_chars ?w ! ?a))) = Inr ad"
      using assms(7) True by (auto simp: addrs_live_def used_entries_def list_all_iff is_ok_iff Let_def)
    obtain r where r: "new_msg fresh = Inr r" "msg_wf r"
      using new_msg_ok [OF assms(4)] by blast
    have "sprint_body (r\<lparr>m_addr := ad\<rparr>) (cstr (ch_name me) @ of_str '': '' @ cstr args) = Inl OutOfBounds"
      using assms(5) r(2) by (intro sprint_body_long) (simp_all add: msg_wf_def of_str_def)
    with True live assms(1) ad r(1) fmt_str_ok [OF assms(2)] fmt_str_ok [OF assms(3)] show ?thesis
      by (simp add: load_char_def)
  qed
qed simp

lemma found_in_players:
  assumes "table_live (w_characters w) (w_chars w)" "addrs_live w" "character_get_by_addr w addr = Inr (Some p)"
  shows "p \<in> set (players_of w)"
proof -
  have "find (has_addr w addr) (used_entries w) = Some p"
    using assms(3) get_by_addr_find [OF assms(1,2)] by simp
  then have "p \<in> set (used_entries w)" "has_addr w addr p"
    by (auto simp: find_Some_iff)
  then show ?thesis
    by (simp add: players_of_def has_addr_def Let_def)
qed

lemma player_step_iff:
  assumes "length m = msize_x * msize_y" "on_map (ch_x c) (ch_y c) msize_x msize_y" "d = ch_next_step c" "d \<noteq> nowhere"
  shows "player_step c msize_x msize_y m = Inr (on_map (step_x d (ch_x c)) (step_y d (ch_y c)) msize_x msize_y
     \<and> free_at m msize_x (step_x d (ch_x c)) (step_y d (ch_y c)))"
proof -
  have "on_map (step_x d (ch_x c)) (step_y d (ch_y c)) msize_x msize_y \<Longrightarrow>
      cell_free m msize_x (step_x d (ch_x c)) (step_y d (ch_y c))
        = Inr (free_at m msize_x (step_x d (ch_x c)) (step_y d (ch_y c)))"
    by (rule cell_free_on_map [OF assms(1)])
  then show ?thesis
    using assms(2-4) by (cases d) (auto simp: player_step_def on_map_def lt_size_def)
qed

lemma str_eq_length: "str_eq w s \<Longrightarrow> length (cstr w) = length s"
  by (simp add: str_eq_def of_str_def)

lemma word_direction_word:
  "word_direction w = Some d \<Longrightarrow> d \<noteq> nowhere \<and> length (cstr w) \<le> 5"
  by (auto simp: word_direction_def dest!: str_eq_length split: if_splits)

lemma gfunc_go_ok:
  assumes "character_get_by_addr (g_world g) (m_addr m) = Inr (Some p)" and "load_char g (Some p) = Inr c"
    and "ch_is_player c" and "length (w_map (g_world g)) = w_msize_x (g_world g) * w_msize_y (g_world g)"
    and "on_map (ch_x c) (ch_y c) (w_msize_x (g_world g)) (w_msize_y (g_world g))"
    and "get_word args 0 = Inr (Some d, buf, e)" and "terminated (drop d buf)"
    and "word_direction (drop d buf) = Some dir"
    and "msg_wf fresh" and "msg_wf m" and "terminated (m_key m)"
  shows "\<exists>r. gfunc_go fresh g m args
        = Inr (g\<lparr>g_world := (g_world g)\<lparr>w_chars := (w_chars (g_world g))[p := Some (c\<lparr>ch_next_step := dir\<rparr>)]\<rparr>\<rparr>, r)
    \<and> (if on_map (step_x dir (ch_x c)) (step_y dir (ch_y c)) (w_msize_x (g_world g)) (w_msize_y (g_world g))
          \<and> free_at (w_map (g_world g)) (w_msize_x (g_world g)) (step_x dir (ch_x c)) (step_y dir (ch_y c))
       then r = None
       else \<exists>rm. r = Some rm \<and> msg_wf rm \<and> m_addr rm = m_addr m \<and> m_type rm = main_msg
          \<and> cstr (m_body rm) = of_str ''You cannot go '' @ cstr (drop d buf))"
proof -
  let ?w = "g_world g"
  let ?c = "c\<lparr>ch_next_step := dir\<rparr>"
  let ?ok = "on_map (step_x dir (ch_x c)) (step_y dir (ch_y c)) (w_msize_x ?w) (w_msize_y ?w)
    \<and> free_at (w_map ?w) (w_msize_x ?w) (step_x dir (ch_x c)) (step_y dir (ch_y c))"
  let ?tx = "of_str ''You cannot go '' @ cstr (drop d buf)"
  note dir = word_direction_word [OF assms(8)]
  have "store_char g (Some p) ?c = Inr (g\<lparr>g_world := ?w\<lparr>w_chars := (w_chars ?w)[p := Some ?c]\<rparr>\<rparr>)"
    using assms(2) by (simp add: store_char_def load_char_def store_ok)
  moreover have "player_step ?c (w_msize_x ?w) (w_msize_y ?w) (w_map ?w) = Inr ?ok"
    using player_step_iff [OF assms(4), of ?c dir] assms(5) dir by simp
  then have "character_move_to_target h ?c (w_msize_x ?w) (w_msize_y ?w) (w_map ?w) = Inr (if ?ok then dir else nowhere)" for h
    using assms(3) by (simp add: character_move_to_target_def)
  moreover obtain r0 where r0: "reply_to fresh m = Inr r0" "msg_wf r0" "m_addr r0 = m_addr m" "m_body r0 = replicate BODY_LEN 0"
    using reply_to_ok [OF assms(9-11)] by blast
  have z: "length ?tx < BODY_LEN" "0 \<notin> set ?tx"
    using dir by (simp_all add: of_str_def BODY_LEN_def)
  define rm where "rm = r0\<lparr>m_type := main_msg, m_len := of_nat (length ?tx + 1), m_body := ?tx @ replicate (BODY_LEN - length ?tx) 0\<rparr>"
  have "sprint_body (r0\<lparr>m_type := main_msg\<rparr>) ?tx = Inr rm"
    using sprint_body_ok [OF _ z] r0(4) by (simp add: rm_def)
  moreover have "cstr (m_body rm) = ?tx"
    using cstr_padded [OF z] by (simp add: rm_def)
  moreover have "msg_wf rm" "m_addr rm = m_addr m" "m_type rm = main_msg"
    using r0(2,3) z(1) by (simp_all add: rm_def msg_wf_def)
  ultimately show ?thesis
    using assms(1,2,6,8) dir r0(1) fmt_str_ok [OF assms(7)]
    by (cases ?ok) (simp_all add: gfunc_go_def Let_def)
qed

section \<open>Properties\<close>

definition sample_game :: game_t where
  "sample_game = \<lparr>g_world = sample_world\<lparr>w_characters := \<lparr>cs_arr = [0], cs_count = 1\<rparr>,
       w_chars := [Some (sample_char 4 4 human)]\<rparr>,
     g_out = \<lparr>q_count = 0, q_first = None, q_last = None, q_heap = [], q_quota = 9, q_junk = (\<lambda>_. None)\<rparr>,
     g_funcs = str_hashtable_create 5\<rparr>"

definition sample_msg :: msg_t where
  "sample_msg = \<lparr>m_addr = \<lparr>sin_family = 2, sin_port = 1, s_addr = 7\<rparr>, m_type = map_update,
     m_key = replicate 36 0, m_len = 0, m_body = replicate 1024 0\<rparr>"

lemma sample_game_ok:
  "character_get_by_addr (g_world sample_game) (m_addr sample_msg) = Inr (Some 0)"
  "load_char sample_game (Some 0) = Inr (sample_char 4 4 human)"
  "length (w_map (g_world sample_game)) = w_msize_x (g_world sample_game) * w_msize_y (g_world sample_game)"
  "inland (ch_x (sample_char 4 4 human)) (ch_y (sample_char 4 4 human)) (w_msize_x (g_world sample_game)) (w_msize_y (g_world sample_game))"
  "on_map (ch_x (sample_char 4 4 human)) (ch_y (sample_char 4 4 human)) (w_msize_x (g_world sample_game)) (w_msize_y (g_world sample_game))"
  "table_live (w_characters (g_world sample_game)) (w_chars (g_world sample_game))"
  "addrs_live (g_world sample_game)" "msg_wf sample_msg" "terminated (m_key sample_msg)"
  "terminated (ch_name (sample_char 4 4 human))" "char_ints_ok (sample_char 4 4 human)"
  "cstr (ch_name (sample_char 4 4 human)) = []"
  by code_simp+

lemma sample_game_small:
  "w_msize_x (g_world sample_game) < 10 ^ 10" "w_msize_y (g_world sample_game) < 10 ^ 10"
  by (simp_all add: sample_game_def sample_world_def)

lemma sample_game_out:
  "q_inv (g_out sample_game)" "q_contents (g_out sample_game) = []" "q_quota (g_out sample_game) = 9"
  by (simp_all add: sample_game_def q_inv_def q_addrs_def q_contents_def)



text \<open>
  The answer to a request for the own values: the six texts of \<open>char_info_t\<close>.  A name of
  sixteen characters or more, which the game accepts, is printed past the member.
\<close>

theorem gfunc_getinfo_fields:
  assumes "character_get_by_addr (g_world g) (m_addr m) = Inr p" and "load_char g p = Inr c"
    and "terminated (ch_name c)" and "char_ints_ok c" and "length junk = NAME_LEN"
    and "msg_wf fresh" and "msg_wf m" and "terminated (m_key m)"
  shows "if length (cstr (ch_name c)) < 16
    then \<exists>r. gfunc_getinfo fresh junk g m = Inr (g, Some r) \<and> m_type r = char_info \<and> m_addr r = m_addr m \<and> m_len r = 96
      \<and> info_texts (m_body r) = [cstr (ch_name c), dec_int (ch_lvl c), dec_int (hp (ch_characteristics c)),
           dec_int (power (ch_characteristics c)), dec_int (armor (ch_characteristics c)),
           dec_int (evasion (ch_characteristics c))]
    else gfunc_getinfo fresh junk g m = Inl OutOfBounds"
  using gfunc_getinfo_ok [OF assms] by (auto split: if_splits)

lemma gfunc_getinfo_fields_witness:
  "\<exists>r. gfunc_getinfo sample_msg (replicate 128 1) sample_game sample_msg = Inr (sample_game, Some r)
    \<and> info_texts (m_body r) = [[], of_str ''1'', of_str ''20'', of_str ''13'', of_str ''2'', of_str ''2'']"
proof -
  have "length (replicate 128 (1 :: byte)) = NAME_LEN"
    by (simp add: NAME_LEN_def)
  note i = gfunc_getinfo_fields [OF sample_game_ok(1,2,10,11) this sample_game_ok(8,8,9)]
  have "[dec_int (ch_lvl (sample_char 4 4 human)), dec_int (hp (ch_characteristics (sample_char 4 4 human))),
      dec_int (power (ch_characteristics (sample_char 4 4 human))), dec_int (armor (ch_characteristics (sample_char 4 4 human))),
      dec_int (evasion (ch_characteristics (sample_char 4 4 human)))]
    = [of_str ''1'', of_str ''20'', of_str ''13'', of_str ''2'', of_str ''2'']"
    by code_simp
  with i sample_game_ok(12) show ?thesis
    by simp blast
qed

text \<open>
  C26. \<open>gfunc_say\<close> queues one chat message for every player of the table, in its order, with the
  name of the speaker in front of the text; the speaker hears it too.  Where name and text do
  not fit into a body, the first message is written past its end.
\<close>

theorem gfunc_say_all:
  assumes "character_get_by_addr (g_world g) (m_addr m) = Inr (Some p)" and "load_char g (Some p) = Inr me"
    and "terminated (ch_name me)" and "terminated args" and "msg_wf fresh"
    and "table_live (w_characters (g_world g)) (w_chars (g_world g))" and "addrs_live (g_world g)"
    and "q_inv (g_out g)" and "length (players_of (g_world g)) \<le> q_quota (g_out g)"
  shows "if length (cstr (ch_name me)) + 2 + length (cstr args) < BODY_LEN
    then \<exists>q ms. gfunc_say fresh g m args = Inr (g\<lparr>g_out := q\<rparr>, None) \<and> q_inv q
      \<and> q_contents q = q_contents (g_out g) @ ms
      \<and> list_all2 (said (g_world g) (cstr (ch_name me) @ of_str '': '' @ cstr args)) (players_of (g_world g)) ms
      \<and> p \<in> set (players_of (g_world g))
    else gfunc_say fresh g m args = Inl OutOfBounds"
proof (cases "length (cstr (ch_name me)) + 2 + length (cstr args) < BODY_LEN")
  case True
  with gfunc_say_ok [OF assms(1-5) True assms(6-9)] found_in_players [OF assms(6,7,1)] show ?thesis
    by auto
next
  case False
  let ?is = "[0..<nat (cs_count (w_characters (g_world g)))]"
  have "\<exists>i \<in> set ?is. ch_is_player (the (w_chars (g_world g) ! (cs_arr (w_characters (g_world g)) ! i)))"
    using found_in_players [OF assms(6,7,1)] used_entries_nth [OF assms(6), symmetric] by (auto simp: players_of_def)
  then have "say_loop fresh (Some p) args ?is g = Inl OutOfBounds"
    using False by (intro say_loop_overflow [OF assms(2-5) _ assms(6,7)]) auto
  with False assms(1) show ?thesis
    by (simp add: gfunc_say_def)
qed

lemma gfunc_say_all_witness:
  "\<exists>q r. gfunc_say sample_msg sample_game sample_msg (lit ''hi'') = Inr (sample_game\<lparr>g_out := q\<rparr>, None)
    \<and> q_contents q = [r] \<and> m_addr r = m_addr sample_msg \<and> cstr (m_body r) = of_str '': hi''"
proof -
  have t: "terminated (lit ''hi'')" "cstr (lit ''hi'') = of_str ''hi''" "players_of (g_world sample_game) = [0]"
      "load (w_addrs (g_world sample_game)) (ch_addr (the (w_chars (g_world sample_game) ! 0))) = Inr (m_addr sample_msg)"
      "of_str '': '' @ of_str ''hi'' = of_str '': hi''" "2 + length (of_str ''hi'') < BODY_LEN"
    by code_simp+
  have "length (players_of (g_world sample_game)) \<le> q_quota (g_out sample_game)"
    by (simp add: t(3) sample_game_out)
  from gfunc_say_all [OF sample_game_ok(1,2,10) t(1) sample_game_ok(8,6,7) sample_game_out(1) this] t sample_game_out(2)
    sample_game_ok(12)
  obtain q ms where q: "gfunc_say sample_msg sample_game sample_msg (lit ''hi'') = Inr (sample_game\<lparr>g_out := q\<rparr>, None)"
      "q_contents q = ms" "list_all2 (said (g_world sample_game) (of_str '': hi'')) [0] ms"
    by auto
  then obtain r where "ms = [r]" "said (g_world sample_game) (of_str '': hi'') 0 r"
    by (auto simp: list_all2_Cons1)
  with q t(4) show ?thesis
    by (auto simp: said_def)
qed

text \<open>
  \<open>gfunc_go\<close> with a direction sets the next step of the player, whether or not the step is
  possible; it answers exactly when the cell in that direction is off the map or taken.
\<close>

theorem gfunc_go_effect:
  assumes "character_get_by_addr (g_world g) (m_addr m) = Inr (Some p)" and "load_char g (Some p) = Inr c"
    and "ch_is_player c" and "length (w_map (g_world g)) = w_msize_x (g_world g) * w_msize_y (g_world g)"
    and "on_map (ch_x c) (ch_y c) (w_msize_x (g_world g)) (w_msize_y (g_world g))"
    and "get_word args 0 = Inr (Some d, buf, e)" and "terminated (drop d buf)"
    and "word_direction (drop d buf) = Some dir"
    and "msg_wf fresh" and "msg_wf m" and "terminated (m_key m)"
  shows "\<exists>r. gfunc_go fresh g m args
        = Inr (g\<lparr>g_world := (g_world g)\<lparr>w_chars := (w_chars (g_world g))[p := Some (c\<lparr>ch_next_step := dir\<rparr>)]\<rparr>\<rparr>, r)
    \<and> (if on_map (step_x dir (ch_x c)) (step_y dir (ch_y c)) (w_msize_x (g_world g)) (w_msize_y (g_world g))
          \<and> free_at (w_map (g_world g)) (w_msize_x (g_world g)) (step_x dir (ch_x c)) (step_y dir (ch_y c))
       then r = None
       else \<exists>rm. r = Some rm \<and> m_addr rm = m_addr m \<and> m_type rm = main_msg
          \<and> cstr (m_body rm) = of_str ''You cannot go '' @ cstr (drop d buf))"
proof -
  obtain r where "gfunc_go fresh g m args
        = Inr (g\<lparr>g_world := (g_world g)\<lparr>w_chars := (w_chars (g_world g))[p := Some (c\<lparr>ch_next_step := dir\<rparr>)]\<rparr>\<rparr>, r)"
    and r: "if on_map (step_x dir (ch_x c)) (step_y dir (ch_y c)) (w_msize_x (g_world g)) (w_msize_y (g_world g))
          \<and> free_at (w_map (g_world g)) (w_msize_x (g_world g)) (step_x dir (ch_x c)) (step_y dir (ch_y c))
       then r = None
       else \<exists>rm. r = Some rm \<and> msg_wf rm \<and> m_addr rm = m_addr m \<and> m_type rm = main_msg
          \<and> cstr (m_body rm) = of_str ''You cannot go '' @ cstr (drop d buf)"
    using gfunc_go_ok [OF assms] by blast
  then show ?thesis
    by (intro exI [of _ r]) (auto split: if_splits)
qed

lemma gfunc_go_effect_witness:
  "\<exists>g'. gfunc_go sample_msg sample_game sample_msg (lit '' East now'') = Inr (g', None)
    \<and> load_char g' (Some 0) = Inr ((sample_char 4 4 human)\<lparr>ch_next_step := east\<rparr>)"
proof -
  let ?b = "[32] @ lit ''east'' @ lit ''now''"
  have g: "get_word (lit '' East now'') 0 = Inr (Some 1, ?b, 6)" "terminated (drop 1 ?b)"
      "word_direction (drop 1 ?b) = Some east" "ch_is_player (sample_char 4 4 human)"
    by code_simp+
  have f: "on_map (step_x east (ch_x (sample_char 4 4 human))) (step_y east (ch_y (sample_char 4 4 human)))
        (w_msize_x (g_world sample_game)) (w_msize_y (g_world sample_game))
      \<and> free_at (w_map (g_world sample_game)) (w_msize_x (g_world sample_game))
        (step_x east (ch_x (sample_char 4 4 human))) (step_y east (ch_y (sample_char 4 4 human)))"
    by code_simp
  from gfunc_go_effect [OF sample_game_ok(1,2) g(4) sample_game_ok(3,5) g(1-3) sample_game_ok(8,8,9)] f
  show ?thesis
    using sample_game_ok(2) by (auto simp: load_char_def load_update dest!: load_InrD split: if_splits)
qed

end
