(* ===== verification/QueryProcessing.thy ===== *)
theory QueryProcessing
  imports Commands
begin

text \<open>
  The dispatcher of the messages the game receives (\<open>game_processing/query_processing.c\<close>):
  what each type does to the world and to the queue of outgoing messages.  \<open>fresh\<close> is the
  content of the block for a new message, \<open>junk\<close> that of the name of a new character.
\<close>

section \<open>Messages of the players\<close>

text \<open>
  The first text a player sends is its name, copied without a look at the size of \<open>name\<close>;
  later texts are commands.
\<close>

definition query_text :: "msg_t \<Rightarrow> byte list \<Rightarrow> game_t \<Rightarrow> msg_t \<Rightarrow> (game_t \<times> msg_t option) res" where
  "query_text fresh junk g m =
     rbind (character_get_by_addr (g_world g) (m_addr m)) (\<lambda>pl.
     rbind (load_char g pl) (\<lambda>c.
     rbind (strlen (ch_name c)) (\<lambda>n.
       if n = 0 then
         rbind (strlen (m_body m)) (\<lambda>k.
         rbind (memcpy (ch_name c) 0 (take (k + 1) (m_body m))) (\<lambda>nm.
         rbind (store_char g pl (c\<lparr>ch_name := nm, ch_aggression := True\<rparr>)) (\<lambda>g.
         rbind (gfunc_get (g_funcs g) (lit ''hello'')) (\<lambda>(f, t).
           run_gfunc fresh junk f (g\<lparr>g_funcs := t\<rparr>) m (m_body m)))))
       else
         rbind (get_word (m_body m) 0) (\<lambda>(func_name, buf, pos).
         case func_name of
           None \<Rightarrow> Inr (g, None)
         | Some d \<Rightarrow>
             rbind (gfunc_get (g_funcs g) (drop d buf)) (\<lambda>(f, t).
               run_gfunc fresh junk f (g\<lparr>g_funcs := t\<rparr>) (m\<lparr>m_body := buf\<rparr>) (drop pos buf))))))"

text \<open>\<open>strcpy((reply_msg)->key, ...)\<close> and the question for the name.\<close>

definition ask_name :: "msg_t \<Rightarrow> msg_t \<Rightarrow> msg_t res" where
  "ask_name fresh m = rbind (reply_to fresh m) (\<lambda>r. sprint_body (r\<lparr>m_type := main_msg\<rparr>) (of_str ''What is your name?''))"

definition log_in :: "byte list \<Rightarrow> game_t \<Rightarrow> msg_t \<Rightarrow> game_t res" where
  "log_in junk g m =
     (let (addr, addrs) = alloc (w_addrs (g_world g)) (m_addr m) in
      rbind (character_new junk 76 134 [0] human 1 0 True addr) (\<lambda>c.
        let (p, h) = alloc (w_chars (g_world g)) c in
        rbind (character_add ((g_world g)\<lparr>w_addrs := addrs, w_chars := h\<rparr>) p) (\<lambda>w. Inr (g\<lparr>g_world := w\<rparr>))))"

definition query_processing_new :: "msg_t \<Rightarrow> byte list \<Rightarrow> game_t \<Rightarrow> msg_t \<Rightarrow> game_t res" where
  "query_processing_new fresh junk g m =
     (let answer = (\<lambda>(g, reply). case reply of None \<Rightarrow> Inr g | Some r \<Rightarrow> send_out g r) in
      if m_type m = user_msg then rbind (query_text fresh junk g m) answer
      else if m_type m = conn_test then send_out g m
      else if m_type m = logged_in then
        rbind (log_in junk g m) (\<lambda>g. rbind (ask_name fresh m) (\<lambda>r. send_out g r))
      else if m_type m = timed_out then
        rbind (character_get_by_addr (g_world g) (m_addr m)) (\<lambda>pl.
        rbind (character_remove (g_world g) pl) (\<lambda>w. Inr (g\<lparr>g_world := w\<rparr>)))
      else if m_type m = map_update then rbind (gfunc_map fresh g m) answer
      else if m_type m = char_info then rbind (gfunc_getinfo fresh junk g m) answer
      else if m_type m = online_list then send_out g m
      else if m_type m = chat_msg then send_out g m
      else Inr g)"

definition query_processing_set_out_queue :: "game_t \<Rightarrow> msg_t queue_t \<Rightarrow> game_t" where
  "query_processing_set_out_queue g q = g\<lparr>g_out := q\<rparr>"

section \<open>Lemmas\<close>

lemma query_echo:
  "m_type m \<in> {conn_test, online_list, chat_msg} \<Longrightarrow> query_processing_new fresh junk g m = send_out g m"
  by (auto simp: query_processing_new_def msg_type_defs Let_def)

lemma send_out_ok:
  assumes "q_inv (g_out g)"
  shows "\<exists>q. send_out g m = Inr (g\<lparr>g_out := q\<rparr>) \<and> q_inv q
    \<and> q_contents q = q_contents (g_out g) @ (if 0 < q_quota (g_out g) then [m] else [])"
proof (cases "0 < q_quota (g_out g)")
  case True
  with queue_enqueue_spec [OF assms True, of m] show ?thesis
    by (auto simp: send_out_def)
next
  case False
  then show ?thesis
    using assms by (intro exI [of _ "g_out g"]) (simp add: send_out_def queue_enqueue_def)
qed

lemma query_reply:
  "m_type m = map_update \<Longrightarrow> gfunc_map fresh g m = Inr (g', Some r)
    \<Longrightarrow> query_processing_new fresh junk g m = send_out g' r"
  "m_type m = char_info \<Longrightarrow> gfunc_getinfo fresh junk g m = Inr (g', Some r)
    \<Longrightarrow> query_processing_new fresh junk g m = send_out g' r"
  by (simp_all add: query_processing_new_def msg_type_defs Let_def)

lemma load_store_char:
  "load_char g (Some p) = Inr c0 \<Longrightarrow>
    store_char g (Some p) c = Inr (g\<lparr>g_world := (g_world g)\<lparr>w_chars := (w_chars (g_world g))[p := Some c]\<rparr>\<rparr>)"
  by (simp add: store_char_def load_char_def store_ok)

lemma load_nth: "load h (Some p) = Inr c \<Longrightarrow> the (h ! p) = c"
  by (simp add: load_eq_Inr)

text \<open>The table and the addresses do not see a change of a name.\<close>

lemma same_lookup:
  assumes "table_live (w_characters w) (w_chars w)" "addrs_live w" "load (w_chars w) (Some p) = Inr c"
    "ch_is_player c' = ch_is_player c" "ch_addr c' = ch_addr c" "w' = w\<lparr>w_chars := (w_chars w)[p := Some c']\<rparr>"
  shows "table_live (w_characters w') (w_chars w')" "addrs_live w'"
    "character_get_by_addr w' addr = character_get_by_addr w addr"
proof -
  have p: "p < length (w_chars w)" "w_chars w ! p = Some c"
    using assms(3) by (simp_all add: load_eq_Inr)
  have same: "ch_is_player (the (w_chars w' ! b)) = ch_is_player (the (w_chars w ! b))"
      "ch_addr (the (w_chars w' ! b)) = ch_addr (the (w_chars w ! b))" for b
    using p assms(4,5) by (auto simp: assms(6) nth_list_update)
  show "table_live (w_characters w') (w_chars w')"
    using assms(1) p by (auto simp: assms(6) table_live_def list_all_iff is_ok_iff load_update load_eq_Inr nth_list_update)
  moreover show "addrs_live w'"
    using assms(2) unfolding addrs_live_def by (simp add: same Let_def) (simp add: assms(6))
  moreover have "has_addr w' addr = has_addr w addr"
    by (rule ext) (simp add: has_addr_def same Let_def, simp add: assms(6))
  ultimately show "character_get_by_addr w' addr = character_get_by_addr w addr"
    using get_by_addr_find [OF assms(1,2)] get_by_addr_find by (simp add: assms(6) used_entries_def)
qed


lemma new_player_ok:
  assumes "length junk = NAME_LEN"
  shows "\<exists>c. character_new junk 76 134 [0] human 1 0 True addr = Inr c
    \<and> cstr (ch_name c) = [] \<and> ch_x c = 76 \<and> ch_y c = 134 \<and> ch_is_player c \<and> ch_addr c = addr"
  using assms by (simp add: character_new_def sprint_str_def strlen_def terminated_def memcpy_def NAME_LEN_def Let_def)

text \<open>New blocks change nothing for the table.\<close>

lemma world_alloc:
  assumes "table_live (w_characters w) (w_chars w)" "addrs_live w"
    and w'_def: "w' = w\<lparr>w_addrs := w_addrs w @ [a], w_chars := w_chars w @ [c]\<rparr>"
  shows "table_live (w_characters w') (w_chars w')" "addrs_live w'" "used_entries w' = used_entries w"
proof -
  show t: "table_live (w_characters w') (w_chars w')"
    using assms(1) by (auto simp: w'_def table_live_def list_all_iff is_ok_iff dest: load_alloc_old)
  have "b < length (w_chars w)" if "b \<in> set (used_entries w)" for b
    using that assms(1) by (auto simp: used_entries_def table_live_def list_all_iff is_ok_iff load_eq_Inr)
  then have same: "(w_chars w @ [c]) ! b = w_chars w ! b" if "b \<in> set (used_entries w)" for b
    using that by (simp add: nth_append)
  show u: "used_entries w' = used_entries w"
    by (simp add: used_entries_def w'_def)
  show "addrs_live w'"
    using assms(2) unfolding addrs_live_def used_entries_def [symmetric] u
    by (auto simp: list_all_iff Let_def same is_ok_iff w'_def dest: load_alloc_old)
qed

lemma added_used:
  assumes "table_live (w_characters w) (w_chars w)" "cs_count (w_characters w') = cs_count (w_characters w) + 1"
    "cs_arr (w_characters w') = take (nat (cs_count (w_characters w))) (cs_arr (w_characters w)) @ [a]"
  shows "used_entries w' = used_entries w @ [a]"
proof -
  define xs where "xs = take (nat (cs_count (w_characters w))) (cs_arr (w_characters w))"
  have "length xs = nat (cs_count (w_characters w))" "0 \<le> cs_count (w_characters w)"
    using assms(1) by (simp_all add: xs_def table_live_def)
  then show ?thesis
    using assms(2,3) by (simp add: used_entries_def xs_def [symmetric] nat_add_distrib)
qed

lemma added_addrs_live:
  assumes "addrs_live w" "load (w_chars w') (Some p) = Inr c" "w_addrs w' = w_addrs w"
    "w_chars w' = (w_chars w)[p := Some c]" "used_entries w' = used_entries w @ [p]"
    "is_ok (load (w_addrs w) (ch_addr c))"
  shows "addrs_live w'"
  using assms(1,6) load_InrD [OF assms(2)]
  unfolding addrs_live_def used_entries_def [symmetric] assms(5)
  by (auto simp: list_all_iff assms(3,4) nth_list_update Let_def)

text \<open>A text for the main window that answers a message: to its address, under its key.\<close>

definition answers :: "msg_t \<Rightarrow> msg_t \<Rightarrow> byte list \<Rightarrow> bool" where
  "answers r m tx \<longleftrightarrow> msg_wf r \<and> m_addr r = m_addr m \<and> m_type r = main_msg \<and> cstr (m_key r) = cstr (m_key m)
     \<and> terminated (m_body r) \<and> cstr (m_body r) = tx"

lemma answers_printed:
  assumes "msg_wf r0" "cstr (m_key r0) = cstr (m_key m)" "m_addr r0 = m_addr m" "length tx < BODY_LEN" "0 \<notin> set tx"
  shows "answers (r0\<lparr>m_type := main_msg, m_len := n, m_body := tx @ replicate (BODY_LEN - length tx) 0\<rparr>) m tx"
  using assms cstr_padded [OF assms(4,5)] by (simp add: answers_def msg_wf_def terminated_def)

lemma ask_name_ok:
  assumes "msg_wf fresh" "msg_wf m" "terminated (m_key m)"
  shows "\<exists>r. ask_name fresh m = Inr r \<and> answers r m (of_str ''What is your name?'')"
proof -
  let ?tx = "of_str ''What is your name?''"
  have z: "length ?tx < BODY_LEN" "0 \<notin> set ?tx"
    by (simp_all add: of_str_def BODY_LEN_def)
  obtain r0 where r0: "reply_to fresh m = Inr r0" "msg_wf r0" "cstr (m_key r0) = cstr (m_key m)"
      "m_addr r0 = m_addr m" "m_body r0 = replicate BODY_LEN 0"
    using reply_to_ok [OF assms] by blast
  then show ?thesis
    using sprint_body_ok [OF _ z, of "r0\<lparr>m_type := main_msg\<rparr>"] answers_printed [OF r0(2-4) z] by (simp add: ask_name_def)
qed

text \<open>A first text that fits.\<close>

lemma first_text_ok:
  assumes "character_get_by_addr (g_world g) (m_addr m) = Inr (Some p)" and "load_char g (Some p) = Inr c"
    and "cstr (ch_name c) = []" and "terminated (ch_name c)" and "length (ch_name c) = NAME_LEN"
    and "table_live (w_characters (g_world g)) (w_chars (g_world g))" and "addrs_live (g_world g)"
    and "gfunc_get (g_funcs g) (lit ''hello'') = Inr (Some HelloFunc, t)"
    and "q_inv (g_out g)" and "0 < q_quota (g_out g)"
    and "m_type m = user_msg" and "msg_wf m" and "msg_wf fresh" and "terminated (m_key m)" and "terminated (m_body m)"
    and "length (cstr (m_body m)) < NAME_LEN"
  shows "\<exists>g' r c'. query_processing_new fresh junk g m = Inr g'
    \<and> load_char g' (Some p) = Inr c' \<and> cstr (ch_name c') = cstr (m_body m) \<and> ch_aggression c'
    \<and> q_contents (g_out g') = q_contents (g_out g) @ [r]
    \<and> answers r m (of_str ''Hello, '' @ cstr (m_body m) @ of_str ''!'')"
proof -
  let ?k = "length (cstr (m_body m))"
  have tk: "take (Suc ?k) (m_body m) = cstr (m_body m) @ [0]"
    by (rule take_cstr_zero [OF assms(15)])
  define nm where "nm = cstr (m_body m) @ 0 # drop (Suc ?k) (ch_name c)"
  have nm: "memcpy (ch_name c) 0 (cstr (m_body m) @ [0]) = Inr nm" "terminated nm" "cstr nm = cstr (m_body m)"
    using assms(5,16) by (simp_all add: memcpy_def nm_def cstr_append_zero)
  define c' where "c' = c\<lparr>ch_name := nm, ch_aggression := True\<rparr>"
  define w' where "w' = (g_world g)\<lparr>w_chars := (w_chars (g_world g))[p := Some c']\<rparr>"
  have lc: "load (w_chars (g_world g)) (Some p) = Inr c"
    using assms(2) by (simp add: load_char_def)
  define g1 where "g1 = g\<lparr>g_world := w', g_funcs := t\<rparr>"
  have get: "character_get_by_addr (g_world g1) (m_addr m) = Inr (Some p)"
    using same_lookup(3) [OF assms(6,7) lc _ _ w'_def] assms(1) by (simp add: c'_def g1_def)
  have l1: "load_char g1 (Some p) = Inr c'"
    using lc by (simp add: load_char_def g1_def w'_def load_update load_eq_Inr)
  obtain r0 where r0: "reply_to fresh m = Inr r0" "msg_wf r0" "cstr (m_key r0) = cstr (m_key m)" "m_addr r0 = m_addr m" "m_body r0 = replicate BODY_LEN 0"
    using reply_to_ok [OF assms(13,12,14)] by blast
  let ?tx = "of_str ''Hello, '' @ cstr (m_body m) @ of_str ''!''"
  have z: "length ?tx < BODY_LEN" "0 \<notin> set ?tx"
    using assms(16) by (simp_all add: of_str_def NAME_LEN_def BODY_LEN_def)
  define r where "r = r0\<lparr>m_type := main_msg, m_len := of_nat (length ?tx + 1), m_body := ?tx @ replicate (BODY_LEN - length ?tx) 0\<rparr>"
  have sp: "sprint_body (r0\<lparr>m_type := main_msg\<rparr>) ?tx = Inr r"
    using sprint_body_ok [OF _ z] r0(5) by (simp add: r_def)
  have ans: "answers r m ?tx"
    unfolding r_def by (rule answers_printed [OF r0(2-4) z])
  have "gfunc_hello fresh g1 m = Inr (g1, Some r)"
    using get l1 r0(1) nm(2,3) sp by (simp add: gfunc_hello_def fmt_str_ok c'_def)
  then have "query_text fresh junk g m = Inr (g1, Some r)"
    using assms(1-4,8,15) tk nm(1) load_store_char [OF assms(2), of c']
    by (simp add: query_text_def strlen_ok run_gfunc_def g1_def w'_def c'_def)
  then have "query_processing_new fresh junk g m = send_out g1 r"
    using assms(11) by (simp add: query_processing_new_def)
  moreover have "q_inv (g_out g1)"
    using assms(9) by (simp add: g1_def)
  ultimately obtain q where q: "query_processing_new fresh junk g m = Inr (g1\<lparr>g_out := q\<rparr>)"
      "q_contents q = q_contents (g_out g) @ [r]"
    using send_out_ok [of g1 r] assms(10) by (auto simp: g1_def)
  have "load_char (g1\<lparr>g_out := q\<rparr>) (Some p) = Inr c'" "cstr (ch_name c') = cstr (m_body m)" "ch_aggression c'"
    using l1 nm(3) by (simp_all add: load_char_def c'_def)
  with q ans show ?thesis
    by (intro exI [of _ "g1\<lparr>g_out := q\<rparr>"] exI [of _ r] exI [of _ c']) simp
qed

section \<open>Properties\<close>

text \<open>
  C27. The first text of a player becomes its name, exactly as sent, the player may act, and the
  greeting with the name is queued for it.  A text of 128 characters or more is written
  past the name.
\<close>

theorem query_first_text:
  assumes "character_get_by_addr (g_world g) (m_addr m) = Inr (Some p)" and "load_char g (Some p) = Inr c"
    and "cstr (ch_name c) = []" and "terminated (ch_name c)" and "length (ch_name c) = NAME_LEN"
    and "table_live (w_characters (g_world g)) (w_chars (g_world g))" and "addrs_live (g_world g)"
    and "gfunc_get (g_funcs g) (lit ''hello'') = Inr (Some HelloFunc, t)"
    and "q_inv (g_out g)" and "0 < q_quota (g_out g)"
    and "m_type m = user_msg" and "msg_wf m" and "msg_wf fresh" and "terminated (m_key m)" and "terminated (m_body m)"
  shows "if length (cstr (m_body m)) < NAME_LEN
    then \<exists>g' r c'. query_processing_new fresh junk g m = Inr g'
      \<and> load_char g' (Some p) = Inr c' \<and> cstr (ch_name c') = cstr (m_body m) \<and> ch_aggression c'
      \<and> q_contents (g_out g') = q_contents (g_out g) @ [r] \<and> m_addr r = m_addr m \<and> m_type r = main_msg
      \<and> cstr (m_body r) = of_str ''Hello, '' @ cstr (m_body m) @ of_str ''!''
    else query_processing_new fresh junk g m = Inl OutOfBounds"
proof (cases "length (cstr (m_body m)) < NAME_LEN")
  case False
  have "take (Suc (length (cstr (m_body m)))) (m_body m) = cstr (m_body m) @ [0]"
    by (rule take_cstr_zero [OF assms(15)])
  moreover have "memcpy (ch_name c) 0 (cstr (m_body m) @ [0]) = Inl OutOfBounds"
    using False assms(5) by (simp add: memcpy_def)
  ultimately have "query_text fresh junk g m = Inl OutOfBounds"
    using assms(1-4,15) by (simp add: query_text_def strlen_ok)
  with False assms(11) show ?thesis
    by (simp add: query_processing_new_def)
next
  case True
  with first_text_ok [OF assms True, of junk] show ?thesis
    by (auto simp: answers_def)
qed

lemma query_first_text_witness:
  "\<exists>t g' r. gfunc_init = Inr (None, t)
    \<and> query_processing_new sample_msg [] (sample_game\<lparr>g_funcs := t\<rparr>)
        (sample_msg\<lparr>m_type := user_msg, m_body := lit ''Bob'' @ replicate 1020 0\<rparr>) = Inr g'
    \<and> q_contents (g_out g') = [r] \<and> cstr (m_body r) = of_str ''Hello, Bob!''"
proof -
  obtain t where t: "gfunc_init = Inr (None, t)"
      "\<forall>s. valid_str s \<longrightarrow> gfunc_get t s = Inr (map_of (map (\<lambda>(k, v). (str_hash k, v)) funcs) (str_hash s), t)"
    using gfunc_init_table by blast
  have v: "valid_str (lit ''hello'')"
    by (simp add: valid_str_def lit_def terminated_def of_str_def)
  have "map_of (map (\<lambda>(k, v). (str_hash k, v)) funcs) (str_hash (lit ''hello'')) = Some HelloFunc"
    by code_simp
  with t(2) v have f: "gfunc_get t (lit ''hello'') = Inr (Some HelloFunc, t)"
    by simp
  let ?g = "sample_game\<lparr>g_funcs := t\<rparr>" and ?m = "sample_msg\<lparr>m_type := user_msg, m_body := lit ''Bob'' @ replicate 1020 0\<rparr>"
  have g: "character_get_by_addr (g_world ?g) (m_addr ?m) = Inr (Some 0)" "load_char ?g (Some 0) = Inr (sample_char 4 4 human)"
      "table_live (w_characters (g_world ?g)) (w_chars (g_world ?g))" "addrs_live (g_world ?g)" "q_inv (g_out ?g)"
      "0 < q_quota (g_out ?g)" "gfunc_get (g_funcs ?g) (lit ''hello'') = Inr (Some HelloFunc, t)"
    using sample_game_ok(1,2,6,7) sample_game_out f by (simp_all add: load_char_def)
  have m: "m_type ?m = user_msg" "msg_wf ?m" "terminated (m_key ?m)" "terminated (m_body ?m)"
      "length (ch_name (sample_char 4 4 human)) = NAME_LEN"
    using sample_game_ok(8,9)
    by (simp_all add: msg_wf_def lit_def of_str_def BODY_LEN_def terminated_def sample_char_def NAME_LEN_def)
  have b: "cstr (lit ''Bob'' @ replicate 1020 0) = of_str ''Bob''"
    by (simp add: lit_def of_str_def)
  note w = query_first_text [OF g(1,2) sample_game_ok(12,10) m(5) g(3,4,7,5,6) m(1,2) sample_game_ok(8) m(3,4), of "[]"]
  have "length (cstr (m_body ?m)) < NAME_LEN" "q_contents (g_out ?g) = []"
      "of_str ''Hello, '' @ cstr (m_body ?m) @ of_str ''!'' = of_str ''Hello, Bob!''"
    using sample_game_out(2) by (simp_all add: b) (simp_all add: of_str_def NAME_LEN_def)
  with w t(1) show ?thesis
    by auto
qed

text \<open>
  A text, a request or a time-out from an address that belongs to no player of the table (a
  client that never logged in, or a player that was removed before its message was taken
  from the queue) makes the server use a null player.
\<close>

theorem query_unknown_sender:
  assumes "character_get_by_addr (g_world g) (m_addr m) = Inr None"
    and "m_type m \<in> {user_msg, timed_out, map_update, char_info}"
    and "msg_wf m" and "msg_wf fresh" and "terminated (m_key m)"
  shows "query_processing_new fresh junk g m = Inl NullDeref"
proof -
  obtain r where "reply_to fresh m = Inr r"
    using reply_to_ok [OF assms(4,3,5)] by blast
  then show ?thesis
    using assms(1,2) by (auto simp: query_processing_new_def query_text_def load_char_def gfunc_map_def
        gfunc_getinfo_def character_remove_def msg_type_defs Let_def)
qed

lemma query_unknown_sender_witness:
  "query_processing_new sample_msg [] sample_game
     (sample_msg\<lparr>m_addr := \<lparr>sin_family = 2, sin_port = 9, s_addr = 7\<rparr>, m_type := timed_out\<rparr>) = Inl NullDeref"
proof -
  let ?m = "sample_msg\<lparr>m_addr := \<lparr>sin_family = 2, sin_port = 9, s_addr = 7\<rparr>, m_type := timed_out\<rparr>"
  have "character_get_by_addr (g_world sample_game) (m_addr ?m) = Inr None" "msg_wf ?m" "terminated (m_key ?m)"
    by code_simp+
  with query_unknown_sender [of sample_game ?m sample_msg "[]"] sample_game_ok(8) show ?thesis
    by simp
qed

text \<open>
  A login puts a player with an empty name and the address of the message at the end of the
  table, on the cell (76, 134) of the map, whatever stands there, and queues the question for
  its name; afterwards the address leads to a player.
\<close>

theorem query_logged_in:
  assumes "table_live (w_characters (g_world g)) (w_chars (g_world g))" and "addrs_live (g_world g)"
    and "length (w_map (g_world g)) = w_msize_x (g_world g) * w_msize_y (g_world g)"
    and "on_map 76 134 (w_msize_x (g_world g)) (w_msize_y (g_world g))"
    and "m_type m = logged_in" and "length junk = NAME_LEN" and "q_inv (g_out g)" and "0 < q_quota (g_out g)"
    and "msg_wf m" and "msg_wf fresh" and "terminated (m_key m)"
  shows "\<exists>g' c r b. query_processing_new fresh junk g m = Inr g'
    \<and> used_entries (g_world g') = used_entries (g_world g) @ [length (w_chars (g_world g))]
    \<and> load_char g' (Some (length (w_chars (g_world g)))) = Inr c
    \<and> cstr (ch_name c) = [] \<and> ch_x c = 76 \<and> ch_y c = 134 \<and> ch_is_player c
    \<and> load (w_addrs (g_world g')) (ch_addr c) = Inr (m_addr m)
    \<and> character_get_by_addr (g_world g') (m_addr m) = Inr (Some b)
    \<and> q_contents (g_out g') = q_contents (g_out g) @ [r] \<and> answers r m (of_str ''What is your name?'')"
proof -
  let ?w = "g_world g" and ?p = "length (w_chars (g_world g))"
  obtain c where c: "character_new junk 76 134 [0] human 1 0 True (Some (length (w_addrs ?w))) = Inr c"
      "cstr (ch_name c) = []" "ch_x c = 76" "ch_y c = 134" "ch_is_player c" "ch_addr c = Some (length (w_addrs ?w))"
    using new_player_ok [OF assms(6)] by blast
  define w1 where "w1 = ?w\<lparr>w_addrs := w_addrs ?w @ [Some (m_addr m)], w_chars := w_chars ?w @ [Some c]\<rparr>"
  note w1 = world_alloc [OF assms(1,2) w1_def]
  have lc: "load (w_chars w1) (Some ?p) = Inr c" "load (w_addrs w1) (ch_addr c) = Inr (m_addr m)"
    by (simp_all add: w1_def load_alloc_new c(6))
  have "length (w_map w1) = w_msize_x w1 * w_msize_y w1" "on_map (ch_x c) (ch_y c) (w_msize_x w1) (w_msize_y w1)"
    using assms(3,4) c(3,4) by (simp_all add: w1_def)
  note character_add_ok [OF w1(1) lc(1) this]
  then obtain w' where w': "character_add w1 (Some ?p) = Inr w'" "table_live (w_characters w') (w_chars w')"
      "cs_count (w_characters w') = cs_count (w_characters w1) + 1"
      "cs_arr (w_characters w') = take (nat (cs_count (w_characters w1))) (cs_arr (w_characters w1)) @ [?p]"
      "load (w_chars w') (Some ?p) = Inr (c\<lparr>ch_id := cs_count (w_characters w1)\<rparr>)" "w_addrs w' = w_addrs w1"
      "w_chars w' = (w_chars w1)[?p := Some (c\<lparr>ch_id := cs_count (w_characters w1)\<rparr>)]"
    by blast
  have live: "addrs_live w'"
    using added_addrs_live [OF w1(2) w'(5-7) added_used [OF w1(1) w'(3,4)]] lc(2) by simp
  have used: "used_entries w' = used_entries ?w @ [?p]"
    using added_used [OF w1(1) w'(3,4)] w1(3) by simp
  have "has_addr w' (m_addr m) ?p"
    using w'(5) lc(2) c(5,6) by (simp add: has_addr_def load_nth w'(6) compare_address_def)
  then obtain b where b: "character_get_by_addr w' (m_addr m) = Inr (Some b)"
    using get_by_addr_find [OF w'(2) live, of "m_addr m"] find_None_iff [of "has_addr w' (m_addr m)" "used_entries w'"]
    by (cases "find (has_addr w' (m_addr m)) (used_entries w')") (auto simp: used)
  obtain r where r: "ask_name fresh m = Inr r" "answers r m (of_str ''What is your name?'')"
    using ask_name_ok [OF assms(10,9,11)] by blast
  have "log_in junk g m = Inr (g\<lparr>g_world := w'\<rparr>)"
    using c(1) w'(1) by (simp add: log_in_def alloc_def w1_def)
  then have "query_processing_new fresh junk g m = send_out (g\<lparr>g_world := w'\<rparr>) r"
    using assms(5) r(1) by (simp add: query_processing_new_def msg_type_defs Let_def)
  then obtain q where "query_processing_new fresh junk g m = Inr (g\<lparr>g_world := w', g_out := q\<rparr>)"
      "q_contents q = q_contents (g_out g) @ [r]"
    using send_out_ok [of "g\<lparr>g_world := w'\<rparr>" r] assms(7,8) by auto
  moreover have "load_char (g\<lparr>g_world := w', g_out := q\<rparr>) (Some ?p) = Inr (c\<lparr>ch_id := cs_count (w_characters w1)\<rparr>)"
    using w'(5) by (simp add: load_char_def)
  moreover have "load (w_addrs w') (ch_addr c) = Inr (m_addr m)"
    using lc(2) w'(6) by simp
  ultimately show ?thesis
    using used b r c(2-5)
    by (intro exI [of _ "g\<lparr>g_world := w', g_out := q\<rparr>"] exI [of _ "c\<lparr>ch_id := cs_count (w_characters w1)\<rparr>"]
        exI [of _ r] exI [of _ b]) simp
qed

lemma query_logged_in_witness:
  "\<exists>g' r b. query_processing_new sample_msg (replicate 128 1) (sample_game\<lparr>g_world := (g_world sample_game)
        \<lparr>w_map := replicate 40000 (sample_cell 0), w_msize_x := 200, w_msize_y := 200\<rparr>\<rparr>)
      (sample_msg\<lparr>m_addr := \<lparr>sin_family = 2, sin_port = 9, s_addr = 7\<rparr>, m_type := logged_in\<rparr>) = Inr g'
    \<and> q_contents (g_out g') = [r] \<and> cstr (m_body r) = of_str ''What is your name?''
    \<and> character_get_by_addr (g_world g') \<lparr>sin_family = 2, sin_port = 9, s_addr = 7\<rparr> = Inr (Some b)"
proof -
  let ?m = "sample_msg\<lparr>m_addr := \<lparr>sin_family = 2, sin_port = 9, s_addr = 7\<rparr>, m_type := logged_in\<rparr>"
  let ?g = "sample_game\<lparr>g_world := (g_world sample_game)
        \<lparr>w_map := replicate 40000 (sample_cell 0), w_msize_x := 200, w_msize_y := 200\<rparr>\<rparr>"
  have g: "table_live (w_characters (g_world ?g)) (w_chars (g_world ?g))" "addrs_live (g_world ?g)"
      "length (w_map (g_world ?g)) = w_msize_x (g_world ?g) * w_msize_y (g_world ?g)"
      "on_map 76 134 (w_msize_x (g_world ?g)) (w_msize_y (g_world ?g))" "m_type ?m = logged_in"
      "length (replicate 128 (1 :: byte)) = NAME_LEN" "q_inv (g_out ?g)" "0 < q_quota (g_out ?g)" "msg_wf ?m"
      "terminated (m_key ?m)"
    using sample_game_ok(6-9) sample_game_out by (simp_all add: addrs_live_def on_map_def NAME_LEN_def msg_wf_def)
  from query_logged_in [OF g(1-9) sample_game_ok(8) g(10)] sample_game_out(2) show ?thesis
    by (auto simp: answers_def)
qed

end
