(* ===== verification/GameTick.thy ===== *)
theory GameTick
  imports QueryProcessing
begin

text \<open>
  The clock of the game (\<open>game_tick\<close> in \<open>game_processing/game_main.c\<close>).  The state is that of
  \<open>GameFunctions\<close>; \<open>character_index_tick\<close> is \<open>w_index_tick\<close>.  What the character at place \<open>i\<close>
  gets from outside, the two readings of \<open>clock\<close> and the value of \<open>rand\<close>, is \<open>tk_now\<close>,
  \<open>tk_then\<close> and \<open>tk_rand\<close> of \<open>i\<close>.
\<close>

section \<open>One character\<close>

record tick_t =
  tk_now :: "nat \<Rightarrow> int"
  tk_then :: "nat \<Rightarrow> int"
  tk_rand :: "nat \<Rightarrow> int"

text \<open>The condition of the \<open>continue\<close>.\<close>

definition tick_skips :: "tick_t \<Rightarrow> nat \<Rightarrow> character_t \<Rightarrow> bool" where
  "tick_skips tk i c \<longleftrightarrow> (ch_next_step c = nowhere \<and> \<not> ch_aggression c)
     \<or> tk_now tk i - ch_step_start_time c \<le> ch_step_time c"

text \<open>\<open>strcat(dst, src)\<close>.\<close>

definition strcat :: "byte list \<Rightarrow> byte list \<Rightarrow> byte list res" where
  "strcat dst src = rbind (strlen dst) (\<lambda>n. rbind (strlen src) (\<lambda>k. memcpy dst n (take k src @ [0])))"

text \<open>The loop that collects the names of the players that have one, a line each.\<close>

fun names_loop :: "world_t \<Rightarrow> nat list \<Rightarrow> byte list \<Rightarrow> byte list res" where
  "names_loop w [] body = Inr body"
| "names_loop w (j # js) body =
     rbind (cs_at (w_characters w) j) (\<lambda>p.
     rbind (load (w_chars w) p) (\<lambda>c.
       if \<not> ch_is_player c then names_loop w js body
       else
         rbind (strlen (ch_name c)) (\<lambda>n.
           if n = 0 then names_loop w js body
           else
             rbind (strcat body (ch_name c)) (\<lambda>body.
             rbind (strcat body [10, 0]) (names_loop w js)))))"

text \<open>The three messages for a player that sees the character: its view, its values and who is online.\<close>

definition tell_player :: "msg_t \<Rightarrow> byte list \<Rightarrow> sockaddr_in \<Rightarrow> game_t \<Rightarrow> game_t res" where
  "tell_player fresh junk a g =
     rbind (new_msg fresh) (\<lambda>m.
     rbind (query_processing_new fresh junk g (m\<lparr>m_addr := a, m_type := map_update\<rparr>)) (\<lambda>g.
     rbind (new_msg fresh) (\<lambda>m.
     rbind (query_processing_new fresh junk g (m\<lparr>m_addr := a, m_type := char_info\<rparr>)) (\<lambda>g.
     rbind (new_msg fresh) (\<lambda>m.
     rbind (memcpy (m_body m) 0 [0]) (\<lambda>b.
     rbind (names_loop (g_world g) [0..<nat (cs_count (w_characters (g_world g)))] b) (\<lambda>b.
     rbind (strlen b) (\<lambda>n.
       if 1 < n + 1
       then query_processing_new fresh junk g
              (m\<lparr>m_addr := a, m_type := online_list, m_body := b, m_len := of_nat (n + 1)\<rparr>)
       else Inr g))))))))"

text \<open>The loops over the cells around the character.\<close>

fun tell_loop :: "msg_t \<Rightarrow> byte list \<Rightarrow> (int \<times> int) list \<Rightarrow> game_t \<Rightarrow> game_t res" where
  "tell_loop fresh junk [] g = Inr g"
| "tell_loop fresh junk ((x, y) # ps) g =
     rbind (cell_at (w_map (g_world g)) (w_msize_x (g_world g)) x y) (\<lambda>q.
       if mp_child_type q = nothing \<or> mp_child q = None then tell_loop fresh junk ps g
       else
         rbind (load_char g (mp_child q)) (\<lambda>c.
           if \<not> ch_is_player c then tell_loop fresh junk ps g
           else
             rbind (load (w_addrs (g_world g)) (ch_addr c)) (\<lambda>a.
             rbind (tell_player fresh junk a g) (tell_loop fresh junk ps))))"

text \<open>The switch over the direction that was chosen; \<open>nowhere\<close> attacks.\<close>

definition tick_act :: "int \<Rightarrow> ptr \<Rightarrow> world_t \<Rightarrow> world_t res" where
  "tick_act r p w =
     rbind (load (w_chars w) p) (\<lambda>c. case ch_next_step c of
       nowhere \<Rightarrow> rbind (character_attack r (w_chars w) p) (\<lambda>(_, h). Inr (w\<lparr>w_chars := h\<rparr>))
     | d \<Rightarrow> rbind (store (w_chars w) p (c\<lparr>ch_x := step_x d (ch_x c), ch_y := step_y d (ch_y c)\<rparr>)) (\<lambda>h.
              Inr (w\<lparr>w_chars := h\<rparr>)))"

text \<open>The move of the character behind \<open>p\<close>: leave the cell, choose a target and a step, act, take the cell.\<close>

definition tick_move :: "tick_t \<Rightarrow> nat \<Rightarrow> ptr \<Rightarrow> world_t \<Rightarrow> world_t res" where
  "tick_move tk i p w =
     rbind (load (w_chars w) p) (\<lambda>c.
     rbind (set_child w (ch_x c) (ch_y c) (\<lambda>q. q\<lparr>mp_child_type := nothing, mp_child := None\<rparr>)) (\<lambda>w.
     rbind (character_find_target w p) (\<lambda>w.
     rbind (load (w_chars w) p) (\<lambda>c.
     rbind (character_move_to_target (w_chars w) c (w_msize_x w) (w_msize_y w) (w_map w)) (\<lambda>d.
     rbind (store (w_chars w) p (c\<lparr>ch_next_step := d, ch_step_start_time := tk_then tk i\<rparr>)) (\<lambda>h.
     rbind (tick_act (tk_rand tk i) p (w\<lparr>w_chars := h\<rparr>)) (\<lambda>w.
     rbind (load (w_chars w) p) (\<lambda>c.
     rbind (set_child w (ch_x c) (ch_y c) (\<lambda>q. q\<lparr>mp_child_type := kind_of c, mp_child := p\<rparr>)) (\<lambda>w.
       if ch_is_player c
       then rbind (store (w_chars w) p (c\<lparr>ch_next_step := nowhere, ch_aggression := False\<rparr>)) (\<lambda>h. Inr (w\<lparr>w_chars := h\<rparr>))
       else Inr w)))))))))"

text \<open>The body of the loop over the table.\<close>

definition tick_one :: "msg_t \<Rightarrow> byte list \<Rightarrow> tick_t \<Rightarrow> nat \<Rightarrow> game_t \<Rightarrow> game_t res" where
  "tick_one fresh junk tk i g =
     rbind (cs_at (w_characters (g_world g)) i) (\<lambda>p.
     rbind (load_char g p) (\<lambda>c.
       if tick_skips tk i c then Inr g
       else
         rbind (tick_move tk i p (g_world g)) (\<lambda>w.
         rbind (load (w_chars w) p) (\<lambda>c.
           tell_loop fresh junk (view_cells (ch_x c) (ch_y c)) (g\<lparr>g_world := w\<rparr>)))))"

text \<open>
  The loop with the global index; \<open>fuel\<close> bounds the rounds, and running out of it is
  \<open>Diverges\<close>.
\<close>

fun tick_loop :: "nat \<Rightarrow> msg_t \<Rightarrow> byte list \<Rightarrow> tick_t \<Rightarrow> game_t \<Rightarrow> game_t res" where
  "tick_loop 0 fresh junk tk g = Inl Diverges"
| "tick_loop (Suc fuel) fresh junk tk g =
     (if w_index_tick (g_world g) < cs_count (w_characters (g_world g))
      then if w_index_tick (g_world g) < 0 then Inl OutOfBounds
           else
             rbind (tick_one fresh junk tk (nat (w_index_tick (g_world g))) g) (\<lambda>g.
               tick_loop fuel fresh junk tk
                 (g\<lparr>g_world := (g_world g)\<lparr>w_index_tick := w_index_tick (g_world g) + 1\<rparr>\<rparr>))
      else Inr g)"

definition game_tick :: "nat \<Rightarrow> msg_t \<Rightarrow> byte list \<Rightarrow> tick_t \<Rightarrow> game_t \<Rightarrow> game_t res" where
  "game_tick fuel fresh junk tk g = tick_loop fuel fresh junk tk (g\<lparr>g_world := (g_world g)\<lparr>w_index_tick := 0\<rparr>\<rparr>)"

end
