(* ===== verification/TickTerm.thy ===== *)
theory TickTerm
  imports GameTick
begin

text \<open>
  The tick always comes to an end.  The only place where the model can run out of fuel is the
  loop over the table, and no round of it changes the number of characters or the index; an
  operation that gives \<open>Diverges\<close> does not occur in a round (collection \<open>halts\<close>).
\<close>

named_theorems halts \<open>operations that do not give \<open>Diverges\<close>\<close>

section \<open>Operations that return or fault\<close>

definition ends :: "'a res \<Rightarrow> bool" where
  "ends r \<longleftrightarrow> r \<noteq> Inl Diverges"

lemma ends_rbind [halts]: "ends r \<Longrightarrow> (\<And>x. r = Inr x \<Longrightarrow> ends (f x)) \<Longrightarrow> ends (rbind r f)"
  by (cases r) (auto simp: ends_def)

lemma ends_Inr [halts]: "ends (Inr x)"
  by (simp add: ends_def)

lemma ends_fault: "e \<noteq> Diverges \<Longrightarrow> ends (Inl e)"
  by (simp add: ends_def)

lemma ends_faults [halts]:
  "ends (Inl NullDeref)" "ends (Inl OutOfBounds)" "ends (Inl UseAfterFree)" "ends (Inl Unterminated)"
  "ends (Inl Uninitialised)" "ends (Inl DivByZero)"
  by (simp_all add: ends_def)

lemma ends_if [halts]: "(b \<Longrightarrow> ends r) \<Longrightarrow> (\<not> b \<Longrightarrow> ends s) \<Longrightarrow> ends (if b then r else s)"
  by simp

lemma ends_option [halts]: "(p = None \<Longrightarrow> ends r) \<Longrightarrow> (\<And>x. p = Some x \<Longrightarrow> ends (f x)) \<Longrightarrow> ends (case p of None \<Rightarrow> r | Some x \<Rightarrow> f x)"
  by (cases p) auto

lemma ends_pair [halts]: "(\<And>a b. p = (a, b) \<Longrightarrow> ends (f a b)) \<Longrightarrow> ends (case p of (a, b) \<Rightarrow> f a b)"
  by (cases p) auto

lemma ends_let [halts]: "ends (f x) \<Longrightarrow> ends (let y = x in f y)"
  by simp

lemma ends_memory [halts]:
  "ends (strlen s)" "ends (memcpy d n s)" "ends (load h p)" "ends (store h p b)" "ends (cs_at cs i)" "ends (cell_at m sx x y)"
  by (auto simp: ends_def strlen_def memcpy_def load_def store_def cs_at_def cell_at_def rbind_eq_Inl Let_def split: option.splits)

lemma ends_world [halts]:
  "ends (set_cell m sx x y pt)" "ends (set_child w x y fn)" "ends (load_char g p)" "ends (cell_free m sx x y)"
  "ends (character_set_target h p q)"
  by (simp_all add: set_cell_def set_child_def load_char_def cell_free_def character_set_target_def ends_memory ends_rbind ends_Inr)

lemma ends_text [halts]:
  "ends (sprint_at b n tx)" "ends (fmt_str s)" "ends (new_msg f)" "ends (copy_key r m)" "ends (sprint_body r tx)"
  "ends (strcat d s)" "ends (info_field j tx)"
  unfolding sprint_at_def fmt_str_def new_msg_def copy_key_def sprint_body_def strcat_def info_field_def
  by (intro halts)+

lemma ends_reply [halts]: "ends (reply_to f m)"
  unfolding reply_to_def by (intro halts)

lemma ends_lookup_loop [halts]: "ends (get_by_addr_loop w a is)"
proof (induction "is")
  case (Cons i "is")
  then show ?case
    by (cases i) (auto simp: Let_def intro!: halts)
qed (simp add: halts)

lemma ends_lookup [halts]: "ends (character_get_by_addr w a)"
  unfolding character_get_by_addr_def by (rule halts)

lemma ends_enqueue [halts]: "ends (queue_enqueue d q)"
  unfolding queue_enqueue_def by (intro halts)

lemma ends_send_out [halts]: "ends (send_out g m)"
  unfolding send_out_def by (intro halts)

lemma ends_view [halts]: "ends (view_ints m sx ps)"
proof (induction ps)
  case (Cons i "is")
  then show ?case
    by (cases i) (auto simp: Let_def intro!: halts)
qed (simp add: halts)

lemma ends_map [halts]: "ends (gfunc_map f g m)"
  unfolding gfunc_map_def by (intro halts)

lemma ends_getinfo [halts]: "ends (gfunc_getinfo f j g m)"
  unfolding gfunc_getinfo_def by (intro halts)

lemma ends_query:
  assumes "m_type m \<in> {map_update, char_info, online_list}"
  shows "ends (query_processing_new f j g m)"
  using assms unfolding query_processing_new_def
  by (auto simp: msg_type_defs Let_def intro!: halts)

lemma ends_names [halts]: "ends (names_loop w js b)"
proof (induction js arbitrary: b)
  case (Cons i "is")
  then show ?case
    by (cases i) (auto simp: Let_def intro!: halts)
qed (simp add: halts)

lemma ends_tell_player [halts]: "ends (tell_player f j a g)"
  unfolding tell_player_def by (intro halts ends_query) simp_all

lemma ends_tell_loop [halts]: "ends (tell_loop f j ps g)"
proof (induction ps arbitrary: g)
  case (Cons i "is")
  then show ?case
    by (cases i) (auto simp: Let_def intro!: halts)
qed (simp add: halts)

lemma ends_find_target_loop [halts]: "ends (find_target_loop cs p is mn h)"
proof (induction "is" arbitrary: mn h)
  case (Cons i "is")
  then show ?case
    by (cases i) (auto simp: Let_def intro!: halts)
qed (simp add: halts)

lemma ends_find_target [halts]: "ends (character_find_target w p)"
  unfolding character_find_target_def by (intro halts)

lemma ends_scan [halts]: "ends (scan_cells m sx tx ty ps mn)"
proof (induction ps arbitrary: mn)
  case (Cons i "is")
  then show ?case
    by (cases i) (auto simp: Let_def intro!: halts)
qed (simp add: halts)

lemma ends_player_step [halts]: "ends (player_step c sx sy m)"
  unfolding player_step_def by (cases "ch_next_step c") (auto intro!: halts)

lemma ends_move [halts]: "ends (character_move_to_target h c sx sy m)"
  unfolding character_move_to_target_def by (intro halts)

lemma ends_damage [halts]: "ends (character_damage r c t)"
  unfolding character_damage_def by (intro halts)

lemma ends_attack [halts]: "ends (character_attack r h p)"
  unfolding character_attack_def by (intro halts)

lemma ends_act [halts]: "ends (tick_act r p w)"
  unfolding tick_act_def
proof (intro ends_rbind ends_memory)
  fix c
  show "ends (case ch_next_step c of
       nowhere \<Rightarrow> rbind (character_attack r (w_chars w) p) (\<lambda>(_, h). Inr (w\<lparr>w_chars := h\<rparr>))
     | d \<Rightarrow> rbind (store (w_chars w) p (c\<lparr>ch_x := step_x d (ch_x c), ch_y := step_y d (ch_y c)\<rparr>)) (\<lambda>h.
              Inr (w\<lparr>w_chars := h\<rparr>)))"
    by (cases "ch_next_step c") (auto intro!: halts)
qed

lemma ends_tick_move [halts]: "ends (tick_move tk i p w)"
  unfolding tick_move_def by (intro halts)

lemma ends_tick_one [halts]: "ends (tick_one f j tk i g)"
  unfolding tick_one_def by (intro halts)

section \<open>What a round leaves as it is\<close>

definition same_table :: "world_t \<Rightarrow> world_t \<Rightarrow> bool" where
  "same_table w w' \<longleftrightarrow> w_characters w' = w_characters w \<and> w_index_tick w' = w_index_tick w"

lemma send_out_world: "send_out g m = Inr g' \<Longrightarrow> g_world g' = g_world g"
  by (auto simp: send_out_def rbind_eq_Inr)

lemma query_world:
  assumes "m_type m \<in> {map_update, char_info, online_list}" "query_processing_new f j g m = Inr g'"
  shows "g_world g' = g_world g"
  using assms
  by (auto simp: query_processing_new_def msg_type_defs gfunc_map_def gfunc_getinfo_def rbind_eq_Inr Let_def
      dest!: send_out_world split: option.splits prod.splits)

lemma tell_player_world: "tell_player f j a g = Inr g' \<Longrightarrow> g_world g' = g_world g"
  by (auto simp: tell_player_def rbind_eq_Inr dest!: query_world [rotated] split: if_splits)

lemma tell_loop_world: "tell_loop f j ps g = Inr g' \<Longrightarrow> g_world g' = g_world g"
proof (induction ps arbitrary: g)
  case (Cons p ps)
  then show ?case
    by (cases p) (auto simp: rbind_eq_Inr dest!: tell_player_world split: if_splits)
qed simp

lemma set_child_table: "set_child w x y f = Inr w' \<Longrightarrow> same_table w w'"
  by (auto simp: set_child_def rbind_eq_Inr same_table_def)

lemma find_target_table: "character_find_target w p = Inr w' \<Longrightarrow> same_table w w'"
  by (auto simp: character_find_target_def rbind_eq_Inr same_table_def split: if_splits)

lemma tick_act_table: "tick_act r p w = Inr w' \<Longrightarrow> same_table w w'"
  unfolding tick_act_def rbind_eq_Inr
proof (elim exE conjE)
  fix c
  assume "(case ch_next_step c of
       nowhere \<Rightarrow> rbind (character_attack r (w_chars w) p) (\<lambda>(_, h). Inr (w\<lparr>w_chars := h\<rparr>))
     | d \<Rightarrow> rbind (store (w_chars w) p (c\<lparr>ch_x := step_x d (ch_x c), ch_y := step_y d (ch_y c)\<rparr>)) (\<lambda>h.
              Inr (w\<lparr>w_chars := h\<rparr>))) = Inr w'"
  then show "same_table w w'"
    by (cases "ch_next_step c") (auto simp: same_table_def rbind_eq_Inr)
qed

lemma tick_move_table:
  assumes "tick_move tk i p w = Inr w'"
  shows "same_table w w'"
  using assms unfolding tick_move_def rbind_eq_Inr
  by (auto simp: same_table_def rbind_eq_Inr dest!: set_child_table find_target_table tick_act_table split: if_splits)

lemma tick_one_table: "tick_one f j tk i g = Inr g' \<Longrightarrow> same_table (g_world g) (g_world g')"
  by (auto simp: tick_one_def rbind_eq_Inr dest!: tell_loop_world dest: tick_move_table split: if_splits)
    (simp_all add: same_table_def)

lemma tick_loop_ends:
  assumes "nat (cs_count (w_characters (g_world g)) - w_index_tick (g_world g)) < fuel"
    and "nat (cs_count (w_characters (g_world g)) - w_index_tick (g_world g)) < fuel'"
  shows "ends (tick_loop fuel f j tk g) \<and> tick_loop fuel f j tk g = tick_loop fuel' f j tk g"
  using assms
proof (induction fuel arbitrary: g fuel')
  case (Suc fuel)
  let ?w = "g_world g"
  let ?next = "\<lambda>g. g\<lparr>g_world := (g_world g)\<lparr>w_index_tick := w_index_tick (g_world g) + 1\<rparr>\<rparr>"
  obtain fuel1 where f1: "fuel' = Suc fuel1"
    using Suc.prems(2) by (cases fuel') auto
  show ?case
  proof (cases "0 \<le> w_index_tick ?w \<and> w_index_tick ?w < cs_count (w_characters ?w)")
    case True
    have "ends (tick_loop fuel f j tk (?next g')) \<and> tick_loop fuel f j tk (?next g') = tick_loop fuel1 f j tk (?next g')"
      if "tick_one f j tk (nat (w_index_tick ?w)) g = Inr g'" for g'
    proof (rule Suc.IH)
      have "w_characters (g_world g') = w_characters ?w" "w_index_tick (g_world g') = w_index_tick ?w"
        using tick_one_table [OF that] by (simp_all add: same_table_def)
      then show "nat (cs_count (w_characters (g_world (?next g'))) - w_index_tick (g_world (?next g'))) < fuel"
          "nat (cs_count (w_characters (g_world (?next g'))) - w_index_tick (g_world (?next g'))) < fuel1"
        using True Suc.prems f1 by auto
    qed
    then show ?thesis
      using True ends_tick_one [of f j tk "nat (w_index_tick ?w)" g]
      by (cases "tick_one f j tk (nat (w_index_tick ?w)) g") (auto simp: f1 ends_def)
  next
    case False
    then show ?thesis
      by (auto simp: f1 ends_def)
  qed
qed simp

section \<open>Properties\<close>

text \<open>
  C38. Whatever the state of the world, one tick comes to an end, with a result or a fault: as many
  rounds as there are characters and one more are enough, and more fuel changes nothing.
\<close>

theorem game_tick_terminates:
  assumes "nat (cs_count (w_characters (g_world g))) < fuel"
  shows "game_tick fuel fresh junk tk g \<noteq> Inl Diverges
    \<and> game_tick fuel fresh junk tk g = game_tick (nat (cs_count (w_characters (g_world g))) + 1) fresh junk tk g"
proof -
  let ?g = "g\<lparr>g_world := (g_world g)\<lparr>w_index_tick := 0\<rparr>\<rparr>"
  have "nat (cs_count (w_characters (g_world ?g)) - w_index_tick (g_world ?g)) < fuel"
      "nat (cs_count (w_characters (g_world ?g)) - w_index_tick (g_world ?g)) < nat (cs_count (w_characters (g_world g))) + 1"
    using assms by simp_all
  from tick_loop_ends [OF this, of fresh junk tk] show ?thesis
    unfolding game_tick_def ends_def by blast
qed

lemma game_tick_terminates_witness:
  "game_tick 5 sample_msg [] \<lparr>tk_now = \<lambda>_. 9, tk_then = \<lambda>_. 9, tk_rand = \<lambda>_. 1\<rparr> sample_game \<noteq> Inl Diverges"
proof -
  have "nat (cs_count (w_characters (g_world sample_game))) < 5"
    by (simp add: sample_game_def)
  from game_tick_terminates [OF this] show ?thesis
    by blast
qed

end
