(* ===== verification/TickInv.thy ===== *)
theory TickInv
  imports TickTerm
begin

text \<open>
  The invariant of the world and the tick that keeps it: characters stay inland, so that the
  nine by nine cells around them, which the tick reads and sends, are on the map.
\<close>

section \<open>The invariant of the world\<close>

text \<open>
  A character of a world of the given size with \<open>n\<close> blocks of characters: it stands at least
  four cells from every edge, its name fits into \<open>nick\<close>, its numbers into the other members
  of \<open>char_info_t\<close>, and its target is a block.
\<close>

definition char_ok :: "nat \<Rightarrow> nat \<Rightarrow> nat \<Rightarrow> character_t \<Rightarrow> bool" where
  "char_ok sx sy n c \<longleftrightarrow> inland (ch_x c) (ch_y c) sx sy \<and> terminated (ch_name c) \<and> length (cstr (ch_name c)) < 16
     \<and> char_ints_ok c \<and> evasion (ch_characteristics c) \<noteq> 0 \<and> (case ch_target c of None \<Rightarrow> True | Some b \<Rightarrow> b < n)"

definition heap_ok :: "nat \<Rightarrow> nat \<Rightarrow> character_t heap \<Rightarrow> bool" where
  "heap_ok sx sy h \<longleftrightarrow> list_all (\<lambda>o'. case o' of None \<Rightarrow> False | Some c \<Rightarrow> char_ok sx sy (length h) c) h"

text \<open>Only water and walls of water lead to the edge.\<close>

definition shore_ok :: "nat \<Rightarrow> nat \<Rightarrow> map_t \<Rightarrow> bool" where
  "shore_ok sx sy m \<longleftrightarrow> length m = sx * sy
     \<and> list_all (\<lambda>i. walkable (mp_ground (m ! i)) \<longrightarrow> inland (int (i mod sx)) (int (i div sx)) sx sy) [0..<length m]"

text \<open>A cell points to a block, and to a player only if the player is in the table.\<close>

definition child_ok :: "world_t \<Rightarrow> ptr \<Rightarrow> bool" where
  "child_ok w p = (case p of None \<Rightarrow> True | Some a \<Rightarrow> a < length (w_chars w)
     \<and> (ch_is_player (the (w_chars w ! a)) \<longrightarrow> a \<in> set (used_entries w)))"

definition world_inv :: "world_t \<Rightarrow> bool" where
  "world_inv w \<longleftrightarrow> shore_ok (w_msize_x w) (w_msize_y w) (w_map w)
     \<and> w_msize_x w \<le> 2 ^ 30 \<and> w_msize_y w \<le> 2 ^ 30
     \<and> heap_ok (w_msize_x w) (w_msize_y w) (w_chars w)
     \<and> table_live (w_characters w) (w_chars w) \<and> addrs_live w
     \<and> list_all (\<lambda>q. child_ok w (mp_child q)) (w_map w)"

text \<open>What a tick leaves as it is.\<close>

definition static :: "character_t \<Rightarrow> byte list \<times> bool \<times> ptr" where
  "static c = (ch_name c, ch_is_player c, ch_addr c)"

definition same_cast :: "world_t \<Rightarrow> world_t \<Rightarrow> bool" where
  "same_cast w w' \<longleftrightarrow> w_characters w' = w_characters w \<and> w_addrs w' = w_addrs w \<and> w_index_tick w' = w_index_tick w
     \<and> w_msize_x w' = w_msize_x w \<and> w_msize_y w' = w_msize_y w \<and> length (w_chars w') = length (w_chars w)
     \<and> map (map_option static) (w_chars w') = map (map_option static) (w_chars w)"

lemma same_cast_refl [simp]: "same_cast w w"
  by (simp add: same_cast_def)

lemma same_cast_trans: "same_cast w w' \<Longrightarrow> same_cast w' w'' \<Longrightarrow> same_cast w w''"
  by (simp add: same_cast_def)

lemma heap_ok_load:
  assumes "heap_ok sx sy h" "a < length h"
  shows "\<exists>c. load h (Some a) = Inr c \<and> h ! a = Some c \<and> char_ok sx sy (length h) c"
  using assms by (cases "h ! a") (auto simp: heap_ok_def list_all_length load_eq_Inr split: option.splits)

lemma heap_ok_char: "heap_ok sx sy h \<Longrightarrow> load h p = Inr c \<Longrightarrow> char_ok sx sy (length h) c"
  using heap_ok_load by (fastforce dest: load_InrD)

lemma heap_ok_update:
  assumes "heap_ok sx sy h" "char_ok sx sy (length h) c"
  shows "heap_ok sx sy (h[a := Some c])"
  using assms unfolding heap_ok_def list_all_length length_list_update
  by (metis (no_types, lifting) nth_list_update_eq nth_list_update_neq option.simps(5))

lemma statics_update:
  assumes "load h (Some a) = Inr c" "static c' = static c"
  shows "map (map_option static) (h[a := Some c']) = map (map_option static) h"
  using assms by (intro nth_equalityI) (auto simp: nth_list_update load_eq_Inr)

lemma same_cast_static:
  assumes "same_cast w w'" "heap_ok sx sy (w_chars w)" "a < length (w_chars w)"
  shows "\<exists>c c'. w_chars w ! a = Some c \<and> w_chars w' ! a = Some c' \<and> static c' = static c"
proof -
  obtain c where c: "w_chars w ! a = Some c"
    using heap_ok_load [OF assms(2,3)] by blast
  have "map_option static (w_chars w' ! a) = map_option static (w_chars w ! a)"
    using assms(1,3) unfolding same_cast_def by (metis nth_map)
  with c show ?thesis
    by auto
qed

lemma world_invD:
  assumes "world_inv w"
  shows "shore_ok (w_msize_x w) (w_msize_y w) (w_map w)" "w_msize_x w \<le> 2 ^ 30" "w_msize_y w \<le> 2 ^ 30"
    "heap_ok (w_msize_x w) (w_msize_y w) (w_chars w)" "table_live (w_characters w) (w_chars w)" "addrs_live w"
    "list_all (\<lambda>q. child_ok w (mp_child q)) (w_map w)" "length (w_map w) = w_msize_x w * w_msize_y w"
  using assms unfolding world_inv_def by (simp_all, simp add: shore_ok_def)

lemma used_less:
  assumes "table_live (w_characters w) (w_chars w)" "a \<in> set (used_entries w)"
  shows "a < length (w_chars w)"
  using assms by (auto simp: used_entries_def table_live_def list_all_iff is_ok_iff load_eq_Inr)

text \<open>Whatever keeps the cast keeps what the table promises.\<close>

lemma same_cast_inv:
  assumes "world_inv w" "same_cast w w'" "shore_ok (w_msize_x w) (w_msize_y w) (w_map w')"
    "heap_ok (w_msize_x w) (w_msize_y w) (w_chars w')" "list_all (\<lambda>q. child_ok w (mp_child q)) (w_map w')"
  shows "world_inv w'"
proof -
  note w = world_invD [OF assms(1)]
  have u: "used_entries w' = used_entries w"
    using assms(2) by (simp add: used_entries_def same_cast_def)
  have len: "length (w_chars w') = length (w_chars w)"
    using assms(2) by (simp add: same_cast_def)
  have st: "ch_is_player (the (w_chars w' ! a)) = ch_is_player (the (w_chars w ! a))"
      "ch_addr (the (w_chars w' ! a)) = ch_addr (the (w_chars w ! a))" if "a < length (w_chars w)" for a
    using same_cast_static [OF assms(2) w(4) that] by (auto simp: static_def)
  have "child_ok w' p = child_ok w p" for p
    using st(1) by (auto simp: child_ok_def u len split: option.splits)
  moreover have "addrs_live w'"
    using w(6) st used_less [OF w(5)] assms(2)
    unfolding addrs_live_def used_entries_def [symmetric] u
    by (auto simp: list_all_iff same_cast_def Let_def)
  moreover have "table_live (w_characters w') (w_chars w')"
    using w(5) heap_ok_load [OF assms(4)] assms(2) len
    by (auto simp: table_live_def list_all_iff is_ok_iff same_cast_def load_eq_Inr)
  ultimately show ?thesis
    using w assms(2-5) by (simp add: world_inv_def same_cast_def)
qed

lemma inv_store:
  assumes "world_inv w" "load (w_chars w) p = Inr c" "static c' = static c"
    "char_ok (w_msize_x w) (w_msize_y w) (length (w_chars w)) c'"
  shows "\<exists>h. store (w_chars w) p c' = Inr h \<and> world_inv (w\<lparr>w_chars := h\<rparr>) \<and> same_cast w (w\<lparr>w_chars := h\<rparr>)
    \<and> load h p = Inr c'"
proof -
  note w = world_invD [OF assms(1)]
  obtain a where a: "p = Some a" "a < length (w_chars w)"
    using load_InrD [OF assms(2)] by blast
  let ?h = "(w_chars w)[a := Some c']"
  have "store (w_chars w) p c' = Inr ?h"
    using assms(2) by (simp add: a store_ok)
  moreover have sc: "same_cast w (w\<lparr>w_chars := ?h\<rparr>)"
    using statics_update [of "w_chars w" a c c'] assms(2,3) by (simp add: same_cast_def a)
  moreover have "world_inv (w\<lparr>w_chars := ?h\<rparr>)"
    by (rule same_cast_inv [OF assms(1) sc]) (use w heap_ok_update [OF w(4) assms(4)] in simp_all)
  moreover have "load ?h p = Inr c'"
    using a by (simp add: load_eq_Inr)
  ultimately show ?thesis
    by blast
qed

text \<open>Changing what a cell carries.\<close>

lemma inv_child:
  assumes "world_inv w" "on_map x y (w_msize_x w) (w_msize_y w)"
    "\<And>q. mp_ground (f q) = mp_ground q" "\<And>q. child_ok w (mp_child q) \<Longrightarrow> child_ok w (mp_child (f q))"
  shows "\<exists>m. set_child w x y f = Inr (w\<lparr>w_map := m\<rparr>) \<and> world_inv (w\<lparr>w_map := m\<rparr>) \<and> same_cast w (w\<lparr>w_map := m\<rparr>)"
proof -
  note w = world_invD [OF assms(1)]
  have on: "0 \<le> x" "x < int (w_msize_x w)" "0 \<le> y" "y < int (w_msize_y w)"
    using assms(2) by (simp_all add: on_map_def)
  note cell = cell_at_inside [OF w(8) on] set_cell_inside [OF w(8) on]
  let ?i = "nat (cell_index (w_msize_x w) x y)"
  let ?m = "(w_map w)[?i := f (w_map w ! ?i)]"
  have "set_child w x y f = Inr (w\<lparr>w_map := ?m\<rparr>)"
    by (simp add: set_child_def cell)
  moreover have sc: "same_cast w (w\<lparr>w_map := ?m\<rparr>)"
    by (simp add: same_cast_def)
  moreover have "world_inv (w\<lparr>w_map := ?m\<rparr>)"
  proof (rule same_cast_inv [OF assms(1) sc])
    show "shore_ok (w_msize_x w) (w_msize_y w) (w_map (w\<lparr>w_map := ?m\<rparr>))"
      using w(1) cell(3) assms(3) by (auto simp: shore_ok_def list_all_iff nth_list_update)
    show "list_all (\<lambda>q. child_ok w (mp_child q)) (w_map (w\<lparr>w_map := ?m\<rparr>))"
      using w(7) cell(3) assms(4) by (auto simp: list_all_length nth_list_update)
  qed (use w in simp_all)
  ultimately show ?thesis
    by blast
qed

lemma inland_on_map: "inland x y sx sy \<Longrightarrow> on_map x y sx sy"
  by (auto simp: inland_def on_map_def)

text \<open>A free cell is inland.\<close>

lemma free_inland:
  assumes "shore_ok sx sy m" "on_map x y sx sy" "free_at m sx x y"
  shows "inland x y sx sy"
proof -
  obtain a b where ab: "x = int a" "y = int b" "a < sx" "b < sy"
    using assms(2) unfolding on_map_def by (metis nonneg_int_cases of_nat_less_iff)
  have i: "nat (cell_index sx x y) = b * sx + a"
    by (simp only: ab(1,2) cell_index_nat nat_int)
  have "b * sx + a < length m"
    using index_bounds [OF ab(3,4)] assms(1) by (simp add: shore_ok_def)
  moreover have "walkable (mp_ground (m ! (b * sx + a)))"
    using assms(3) by (simp add: free_at_def i Let_def)
  moreover have "(b * sx + a) mod sx = a" "(b * sx + a) div sx = b"
    using ab(3) by simp_all
  ultimately show ?thesis
    using assms(1) ab(1,2) by (auto simp: shore_ok_def list_all_iff)
qed

text \<open>Distances on the map stay below \<open>INT_MAX\<close>.\<close>

lemma dist_bound:
  assumes "inland x y sx sy" "inland x' y' sx sy" "sx \<le> 2 ^ 30" "sy \<le> 2 ^ 30"
  shows "dist_sq x y x' y' < INT_MAX ^ 2"
proof -
  have "\<bar>x' - x\<bar> \<le> 2 ^ 30" "\<bar>y' - y\<bar> \<le> 2 ^ 30"
    using assms by (auto simp: inland_def)
  then have "(x' - x) ^ 2 \<le> (2 ^ 30) ^ 2" "(y' - y) ^ 2 \<le> (2 ^ 30) ^ 2"
    using power_mono [of "\<bar>x' - x\<bar>" "2 ^ 30" 2] power_mono [of "\<bar>y' - y\<bar>" "2 ^ 30" 2] by simp_all
  then show ?thesis
    by (simp add: dist_sq_def INT_MAX_def)
qed

section \<open>The parts of a move\<close>

lemma find_target_inv:
  assumes "world_inv w" "load (w_chars w) (Some a) = Inr c"
  shows "\<exists>h. character_find_target w (Some a) = Inr (w\<lparr>w_chars := h\<rparr>)
    \<and> world_inv (w\<lparr>w_chars := h\<rparr>) \<and> same_cast w (w\<lparr>w_chars := h\<rparr>)"
proof (cases "ch_is_player c")
  case True
  then show ?thesis
    using assms by (intro exI [of _ "w_chars w"]) (simp add: character_find_target_def)
next
  case False
  let ?is = "[0..<nat (cs_count (w_characters w))]"
  note w = world_invD [OF assms(1)]
  have "list_all (\<lambda>i. i < nat (cs_count (w_characters w))) ?is"
    by (simp add: list_all_iff)
  moreover have "targeted (w_characters w) (w_chars w) a c None = w_chars w"
    by (simp add: targeted_def)
  ultimately obtain f where f: "find_target_loop (w_characters w) (Some a) ?is (INT_MAX ^ 2) (w_chars w)
      = Inr (targeted (w_characters w) (w_chars w) a c f)"
      "case f of None \<Rightarrow> True | Some i \<Rightarrow> i \<in> set (foes (w_characters w) (w_chars w) a c ?is)"
    using find_target_loop_spec [OF w(5) assms(2), of ?is "INT_MAX ^ 2" None]
    by (auto split: option.splits)
  let ?h = "targeted (w_characters w) (w_chars w) a c f"
  have ft: "character_find_target w (Some a) = Inr (w\<lparr>w_chars := ?h\<rparr>)"
    using False assms(2) f(1) by (simp add: character_find_target_def)
  show ?thesis
  proof (cases f)
    case None
    then show ?thesis
      using ft assms(1) by (intro exI [of _ ?h]) (simp add: targeted_def)
  next
    case (Some i)
    let ?b = "cs_arr (w_characters w) ! i"
    let ?c = "c\<lparr>ch_target := Some ?b, ch_next_step := west, ch_step_start_time := 0\<rparr>"
    have "i < nat (cs_count (w_characters w))"
      using f(2) Some by (simp add: foes_def)
    then have "?b \<in> set (used_entries w)"
      using w(5) by (auto simp: used_entries_def table_live_def in_set_conv_nth intro!: exI [of _ i])
    then have "?b < length (w_chars w)"
      by (rule used_less [OF w(5)])
    then have "char_ok (w_msize_x w) (w_msize_y w) (length (w_chars w)) ?c"
      using heap_ok_char [OF w(4) assms(2)] by (simp add: char_ok_def char_ints_ok_def)
    from inv_store [OF assms(1,2) _ this] obtain h where
      "store (w_chars w) (Some a) ?c = Inr h" "world_inv (w\<lparr>w_chars := h\<rparr>)" "same_cast w (w\<lparr>w_chars := h\<rparr>)"
      by (auto simp: static_def)
    moreover have "store (w_chars w) (Some a) ?c = Inr ?h"
      using assms(2) by (simp add: store_ok Some targeted_def)
    ultimately show ?thesis
      using ft by auto
  qed
qed

lemma damage_ok:
  assumes "char_ok sx sy n t"
  shows "\<exists>d t'. character_damage r c t = Inr (d, t') \<and> static t' = static t \<and> char_ok sx sy n t'"
proof -
  define e where "e = power (ch_characteristics c) - r mod \<bar>evasion (ch_characteristics t)\<bar> - armor (ch_characteristics t)"
  define d where "d = (if e < 0 then 0 else e)"
  define h where "h = (if hp (ch_characteristics t) - d < 0 then 0 else hp (ch_characteristics t) - d)"
  have "\<bar>h\<bar> \<le> \<bar>hp (ch_characteristics t)\<bar>"
    by (auto simp: h_def d_def)
  then have "int_ok h"
    using assms by (simp add: char_ok_def char_ints_ok_def int_ok_def)
  moreover have "character_damage r c t = Inr (d, t\<lparr>ch_characteristics := (ch_characteristics t)\<lparr>hp := h\<rparr>\<rparr>)"
    using assms by (simp add: character_damage_def char_ok_def d_def e_def h_def Let_def)
  ultimately show ?thesis
    using assms by (simp add: char_ok_def char_ints_ok_def static_def)
qed

lemma attack_inv:
  assumes "world_inv w" "load (w_chars w) p = Inr c"
  shows "\<exists>b h. character_attack r (w_chars w) p = Inr (b, h)
    \<and> world_inv (w\<lparr>w_chars := h\<rparr>) \<and> same_cast w (w\<lparr>w_chars := h\<rparr>)"
proof -
  note w = world_invD [OF assms(1)]
  have same: "world_inv (w\<lparr>w_chars := w_chars w\<rparr>) \<and> same_cast w (w\<lparr>w_chars := w_chars w\<rparr>)"
    using assms(1) by simp
  note c = heap_ok_char [OF w(4) assms(2)]
  show ?thesis
  proof (cases "ch_target c")
    case None
    then show ?thesis
      using assms(2) same by (auto simp: character_attack_def)
  next
    case (Some b)
    then have "b < length (w_chars w)"
      using c by (simp add: char_ok_def)
    then obtain t where t: "load (w_chars w) (Some b) = Inr t" "char_ok (w_msize_x w) (w_msize_y w) (length (w_chars w)) t"
      using heap_ok_load [OF w(4)] by blast
    show ?thesis
    proof (cases "dist_sq (ch_x c) (ch_y c) (ch_x t) (ch_y t) < 4")
      case False
      then show ?thesis
        using assms(2) same t(1) Some by (auto simp: character_attack_def)
    next
      case near: True
      obtain d t1 where t1: "character_damage r c t = Inr (d, t1)" "static t1 = static t"
          "char_ok (w_msize_x w) (w_msize_y w) (length (w_chars w)) t1"
        using damage_ok [OF t(2), of r c] by blast
      let ?t = "t1\<lparr>ch_target := p, ch_aggression := True\<rparr>"
      obtain a where a: "p = Some a" "a < length (w_chars w)"
        using load_InrD [OF assms(2)] by blast
      have "char_ok (w_msize_x w) (w_msize_y w) (length (w_chars w)) ?t" "static ?t = static t"
        using t1(2,3) a by (simp_all add: char_ok_def char_ints_ok_def static_def)
      from inv_store [OF assms(1) t(1) this(2,1)] obtain h where
        h: "store (w_chars w) (Some b) ?t = Inr h" "world_inv (w\<lparr>w_chars := h\<rparr>)" "same_cast w (w\<lparr>w_chars := h\<rparr>)"
          "load h (Some b) = Inr ?t"
        by blast
      have pre: "character_attack r (w_chars w) p = (if hp (ch_characteristics ?t) \<le> 0
               then rbind (load h p) (\<lambda>c. rbind (store h p (c\<lparr>ch_target := None\<rparr>)) (\<lambda>h. Inr (True, h)))
               else Inr (True, h))"
        using assms(2) Some t(1) near t1(1) h(1,4) by (simp add: character_attack_def)
      show ?thesis
      proof (cases "hp (ch_characteristics ?t) \<le> 0")
        case False
        then show ?thesis
          using pre h by auto
      next
        case dead: True
        let ?w = "w\<lparr>w_chars := h\<rparr>"
        note w1 = world_invD [OF h(2)]
        have "length h = length (w_chars w)"
          using h(3) by (simp add: same_cast_def)
        then obtain c1 where c1: "load h p = Inr c1" "char_ok (w_msize_x w) (w_msize_y w) (length h) c1"
          using heap_ok_load [of _ _ h a] w1(4) a by auto
        then have "char_ok (w_msize_x w) (w_msize_y w) (length h) (c1\<lparr>ch_target := None\<rparr>)"
          by (simp add: char_ok_def char_ints_ok_def)
        then obtain h' where "store h p (c1\<lparr>ch_target := None\<rparr>) = Inr h'" "world_inv (w\<lparr>w_chars := h'\<rparr>)"
            "same_cast ?w (w\<lparr>w_chars := h'\<rparr>)"
          using inv_store [OF h(2), of p c1 "c1\<lparr>ch_target := None\<rparr>"] c1(1) by (auto simp: static_def)
        then show ?thesis
          using pre dead c1(1) same_cast_trans [OF h(3)] by auto
      qed
    qed
  qed
qed

lemma act_inv:
  assumes "world_inv w" "load (w_chars w) p = Inr c"
    "ch_next_step c \<noteq> nowhere \<Longrightarrow> inland (step_x (ch_next_step c) (ch_x c)) (step_y (ch_next_step c) (ch_y c)) (w_msize_x w) (w_msize_y w)"
  shows "\<exists>h. tick_act r p w = Inr (w\<lparr>w_chars := h\<rparr>) \<and> world_inv (w\<lparr>w_chars := h\<rparr>) \<and> same_cast w (w\<lparr>w_chars := h\<rparr>)"
proof (cases "ch_next_step c = nowhere")
  case True
  with attack_inv [OF assms(1,2), of r] assms(2) show ?thesis
    by (auto simp: tick_act_def)
next
  case False
  let ?d = "ch_next_step c"
  let ?c = "c\<lparr>ch_x := step_x ?d (ch_x c), ch_y := step_y ?d (ch_y c)\<rparr>"
  have "char_ok (w_msize_x w) (w_msize_y w) (length (w_chars w)) ?c"
    using heap_ok_char [OF world_invD(4) [OF assms(1)] assms(2)] assms(3) False by (simp add: char_ok_def char_ints_ok_def)
  from inv_store [OF assms(1,2) _ this] obtain h where
    h: "store (w_chars w) p ?c = Inr h" "world_inv (w\<lparr>w_chars := h\<rparr>)" "same_cast w (w\<lparr>w_chars := h\<rparr>)"
    by (auto simp: static_def)
  then have "tick_act r p w = Inr (w\<lparr>w_chars := h\<rparr>)"
    using assms(2) False by (cases ?d) (simp_all add: tick_act_def)
  with h show ?thesis
    by blast
qed

lemma move_inv:
  assumes "world_inv w" "char_ok (w_msize_x w) (w_msize_y w) (length (w_chars w)) c"
  shows "\<exists>d. character_move_to_target (w_chars w) c (w_msize_x w) (w_msize_y w) (w_map w) = Inr d
    \<and> (d \<noteq> nowhere \<longrightarrow> inland (step_x d (ch_x c)) (step_y d (ch_y c)) (w_msize_x w) (w_msize_y w))"
proof -
  note w = world_invD [OF assms(1)]
  have on: "inland (ch_x c) (ch_y c) (w_msize_x w) (w_msize_y w)" "on_map (ch_x c) (ch_y c) (w_msize_x w) (w_msize_y w)"
    using assms(2) by (simp_all add: char_ok_def inland_on_map)
  have "ch_target c = None \<or> (\<exists>t. load (w_chars w) (ch_target c) = Inr t
      \<and> dist_sq (ch_x c) (ch_y c) (ch_x t) (ch_y t) < INT_MAX ^ 2)"
  proof (cases "ch_target c")
    case (Some b)
    then obtain t where "load (w_chars w) (Some b) = Inr t" "char_ok (w_msize_x w) (w_msize_y w) (length (w_chars w)) t"
      using heap_ok_load [OF w(4), of b] assms(2) by (auto simp: char_ok_def)
    then show ?thesis
      using dist_bound [OF on(1) _ w(2,3)] Some by (auto simp: char_ok_def)
  qed simp
  then obtain d where "character_move_to_target (w_chars w) c (w_msize_x w) (w_msize_y w) (w_map w) = Inr d"
      "d \<noteq> nowhere \<longrightarrow> on_map (step_x d (ch_x c)) (step_y d (ch_y c)) (w_msize_x w) (w_msize_y w)
        \<and> free_at (w_map w) (w_msize_x w) (step_x d (ch_x c)) (step_y d (ch_y c))"
    using character_move_ok [OF w(8) on(2), of "w_chars w"] by blast
  then show ?thesis
    using free_inland [OF w(1)] by blast
qed

lemma tick_move_inv:
  assumes "world_inv w" "a \<in> set (used_entries w)"
  shows "\<exists>w'. tick_move tk i (Some a) w = Inr w' \<and> world_inv w' \<and> same_cast w w'"
proof -
  note w = world_invD [OF assms(1)]
  obtain c where c: "load (w_chars w) (Some a) = Inr c" "char_ok (w_msize_x w) (w_msize_y w) (length (w_chars w)) c"
    using heap_ok_load [OF w(4) used_less [OF w(5) assms(2)]] by blast
  have "on_map (ch_x c) (ch_y c) (w_msize_x w) (w_msize_y w)"
    using c(2) by (simp add: char_ok_def inland_on_map)
  then obtain m where m: "set_child w (ch_x c) (ch_y c) (\<lambda>q. q\<lparr>mp_child_type := nothing, mp_child := None\<rparr>) = Inr (w\<lparr>w_map := m\<rparr>)"
      "world_inv (w\<lparr>w_map := m\<rparr>)" "same_cast w (w\<lparr>w_map := m\<rparr>)"
    using inv_child [OF assms(1), of "ch_x c" "ch_y c" "\<lambda>q. q\<lparr>mp_child_type := nothing, mp_child := None\<rparr>"]
    by (auto simp: child_ok_def)
  define w1 where "w1 = w\<lparr>w_map := m\<rparr>"
  have lc: "load (w_chars w1) (Some a) = Inr c"
    using c(1) by (simp add: w1_def)
  obtain h2 where h2: "character_find_target w1 (Some a) = Inr (w1\<lparr>w_chars := h2\<rparr>)"
      "world_inv (w1\<lparr>w_chars := h2\<rparr>)" "same_cast w1 (w1\<lparr>w_chars := h2\<rparr>)"
    using find_target_inv [OF m(2) [folded w1_def] lc] by blast
  define w2 where "w2 = w1\<lparr>w_chars := h2\<rparr>"
  note i2 = world_invD [OF h2(2), folded w2_def]
  have sc2: "same_cast w w2"
    using m(3) h2(3) same_cast_trans unfolding w1_def w2_def by blast
  have used2: "used_entries w2 = used_entries w"
    using sc2 by (simp add: used_entries_def same_cast_def)
  then have a2: "a < length (w_chars w2)"
    using used_less [OF i2(5)] assms(2) by simp
  obtain c2 where c2: "load (w_chars w2) (Some a) = Inr c2" "char_ok (w_msize_x w2) (w_msize_y w2) (length (w_chars w2)) c2"
    using heap_ok_load [OF i2(4) a2] by blast
  obtain d where d: "character_move_to_target (w_chars w2) c2 (w_msize_x w2) (w_msize_y w2) (w_map w2) = Inr d"
      "d \<noteq> nowhere \<Longrightarrow> inland (step_x d (ch_x c2)) (step_y d (ch_y c2)) (w_msize_x w2) (w_msize_y w2)"
    using move_inv [OF h2(2) [folded w2_def] c2(2)] by blast
  let ?c3 = "c2\<lparr>ch_next_step := d, ch_step_start_time := tk_then tk i\<rparr>"
  have "char_ok (w_msize_x w2) (w_msize_y w2) (length (w_chars w2)) ?c3"
    using c2(2) by (simp add: char_ok_def char_ints_ok_def)
  from inv_store [OF h2(2) [folded w2_def] c2(1) _ this] obtain h3 where
    h3: "store (w_chars w2) (Some a) ?c3 = Inr h3" "world_inv (w2\<lparr>w_chars := h3\<rparr>)" "same_cast w2 (w2\<lparr>w_chars := h3\<rparr>)"
      "load h3 (Some a) = Inr ?c3"
    by (auto simp: static_def)
  obtain h4 where h4: "tick_act (tk_rand tk i) (Some a) (w2\<lparr>w_chars := h3\<rparr>) = Inr (w2\<lparr>w_chars := h4\<rparr>)"
      "world_inv (w2\<lparr>w_chars := h4\<rparr>)" "same_cast (w2\<lparr>w_chars := h3\<rparr>) (w2\<lparr>w_chars := h4\<rparr>)"
    using act_inv [OF h3(2), of "Some a" ?c3 "tk_rand tk i"] h3(4) d(2) by auto
  define w4 where "w4 = w2\<lparr>w_chars := h4\<rparr>"
  note i4 = world_invD [OF h4(2), folded w4_def]
  have sc4: "same_cast w w4"
    using same_cast_trans [OF sc2 same_cast_trans [OF h3(3) h4(3)]] by (simp add: w4_def)
  then have used4: "used_entries w4 = used_entries w"
    by (simp add: used_entries_def same_cast_def)
  then have a4: "a < length (w_chars w4)"
    using used_less [OF i4(5)] assms(2) by simp
  obtain c4 where c4: "load (w_chars w4) (Some a) = Inr c4" "char_ok (w_msize_x w4) (w_msize_y w4) (length (w_chars w4)) c4"
    using heap_ok_load [OF i4(4) a4] by blast
  have "on_map (ch_x c4) (ch_y c4) (w_msize_x w4) (w_msize_y w4)" "child_ok w4 (Some a)"
    using c4(2) a4 used4 assms(2) by (simp_all add: char_ok_def inland_on_map child_ok_def)
  then obtain m5 where m5: "set_child w4 (ch_x c4) (ch_y c4) (\<lambda>q. q\<lparr>mp_child_type := kind_of c4, mp_child := Some a\<rparr>) = Inr (w4\<lparr>w_map := m5\<rparr>)"
      "world_inv (w4\<lparr>w_map := m5\<rparr>)" "same_cast w4 (w4\<lparr>w_map := m5\<rparr>)"
    using inv_child [OF h4(2) [folded w4_def], of "ch_x c4" "ch_y c4" "\<lambda>q. q\<lparr>mp_child_type := kind_of c4, mp_child := Some a\<rparr>"]
    by auto
  define w5 where "w5 = w4\<lparr>w_map := m5\<rparr>"
  have sc5: "same_cast w w5"
    using same_cast_trans [OF sc4 m5(3)] by (simp add: w5_def)
  let ?c5 = "c4\<lparr>ch_next_step := nowhere, ch_aggression := False\<rparr>"
  have l5: "load (w_chars w5) (Some a) = Inr c4"
    using c4(1) by (simp add: w5_def)
  have "char_ok (w_msize_x w5) (w_msize_y w5) (length (w_chars w5)) ?c5"
    using c4(2) by (simp add: w5_def char_ok_def char_ints_ok_def)
  from inv_store [OF m5(2) [folded w5_def] l5 _ this] obtain h6 where
    h6: "store (w_chars w5) (Some a) ?c5 = Inr h6" "world_inv (w5\<lparr>w_chars := h6\<rparr>)" "same_cast w5 (w5\<lparr>w_chars := h6\<rparr>)"
    by (auto simp: static_def)
  have run: "tick_move tk i (Some a) w = (if ch_is_player c4 then Inr (w5\<lparr>w_chars := h6\<rparr>) else Inr w5)"
    unfolding tick_move_def c(1) rbind_Inr m(1) w1_def [symmetric] h2(1) w2_def [symmetric] c2(1) d(1) h3(1) h4(1)
      w4_def [symmetric] c4(1) m5(1) w5_def [symmetric] h6(1) by simp
  show ?thesis
    using run h6(2) same_cast_trans [OF sc5 h6(3)] m5(2) [folded w5_def] sc5 by (cases "ch_is_player c4") auto
qed

section \<open>Telling the players\<close>

definition online_line :: "character_t \<Rightarrow> byte list" where
  "online_line c = (if ch_is_player c \<and> cstr (ch_name c) \<noteq> [] then cstr (ch_name c) @ [10] else [])"

text \<open>The names of the players, a line each.\<close>

definition online_text :: "world_t \<Rightarrow> byte list" where
  "online_text w = concat (map (\<lambda>a. online_line (the (w_chars w ! a))) (used_entries w))"

definition padded :: "byte list \<Rightarrow> byte list" where
  "padded s = s @ replicate (BODY_LEN - length s) 0"

lemma padded_cstr: "length s < BODY_LEN \<Longrightarrow> 0 \<notin> set s \<Longrightarrow> cstr (padded s) = s \<and> terminated (padded s)"
  by (simp add: padded_def cstr_padded terminated_def)

lemma strcat_padded:
  assumes "0 \<notin> set pre" "length pre + length (cstr src) < BODY_LEN" "terminated src"
  shows "strcat (padded pre) src = Inr (padded (pre @ cstr src))"
proof -
  have p: "cstr (padded pre) = pre" "terminated (padded pre)"
    using padded_cstr [of pre] assms(1,2) by simp_all
  have "memcpy (padded pre) (length pre) (cstr src @ [0])
      = Inr (pre @ cstr src @ 0 # replicate (BODY_LEN - length pre - Suc (length (cstr src))) 0)"
    using assms(2) by (simp add: memcpy_def padded_def)
  moreover have "BODY_LEN - length (pre @ cstr src) = Suc (BODY_LEN - length pre - Suc (length (cstr src)))"
    using assms(2) by simp
  then have "padded (pre @ cstr src) = pre @ cstr src @ 0 # replicate (BODY_LEN - length pre - Suc (length (cstr src))) 0"
    unfolding padded_def by simp
  ultimately show ?thesis
    using p assms(3) by (simp add: strcat_def strlen_ok take_cstr)
qed

lemma online_line_nonzero: "0 \<notin> set (online_line c)"
  by (simp add: online_line_def)

lemma names_loop_ok:
  assumes "world_inv w" "\<forall>i \<in> set js. i < nat (cs_count (w_characters w))" "0 \<notin> set pre"
    "length pre + length (concat (map (\<lambda>i. online_line (the (w_chars w ! (cs_arr (w_characters w) ! i)))) js)) < BODY_LEN"
  shows "names_loop w js (padded pre)
    = Inr (padded (pre @ concat (map (\<lambda>i. online_line (the (w_chars w ! (cs_arr (w_characters w) ! i)))) js)))"
  using assms(2-4)
proof (induction js arbitrary: pre)
  case (Cons j js)
  let ?c = "the (w_chars w ! (cs_arr (w_characters w) ! j))"
  note w = world_invD [OF assms(1)]
  have j: "j < nat (cs_count (w_characters w))"
    using Cons.prems(1) by simp
  note live = table_liveD [OF w(5) j]
  have c: "terminated (ch_name ?c)"
    using heap_ok_char [OF w(4) live(2)] by (simp add: char_ok_def)
  show ?case
  proof (cases "online_line ?c = []")
    case True
    then have "\<not> ch_is_player ?c \<or> cstr (ch_name ?c) = []"
      by (auto simp: online_line_def split: if_splits)
    with True Cons c live show ?thesis
      by (auto simp: strlen_ok)
  next
    case False
    then have o: "ch_is_player ?c" "cstr (ch_name ?c) \<noteq> []" "online_line ?c = cstr (ch_name ?c) @ [10]"
      by (auto simp: online_line_def split: if_splits)
    have "strcat (padded pre) (ch_name ?c) = Inr (padded (pre @ cstr (ch_name ?c)))"
      using Cons.prems o(3) by (intro strcat_padded [OF _ _ c]) simp_all
    moreover have "strcat (padded (pre @ cstr (ch_name ?c))) [10, 0] = Inr (padded ((pre @ cstr (ch_name ?c)) @ [10]))"
      using strcat_padded [of "pre @ cstr (ch_name ?c)" "[10, 0]"] Cons.prems o(3) by (simp add: terminated_def)
    moreover have "names_loop w js (padded (pre @ online_line ?c))
      = Inr (padded ((pre @ online_line ?c) @ concat (map (\<lambda>i. online_line (the (w_chars w ! (cs_arr (w_characters w) ! i)))) js)))"
      using Cons.prems by (intro Cons.IH) (simp_all add: online_line_nonzero)
    ultimately show ?thesis
      using o c live by (simp add: strlen_ok)
  qed
qed simp

lemma new_msg_blank:
  assumes "msg_wf fresh"
  shows "\<exists>r. new_msg fresh = Inr r \<and> msg_wf r \<and> terminated (m_key r) \<and> m_body r = padded []"
  using assms by (simp add: new_msg_def msg_init_def Let_def msg_wf_def padded_def terminated_def TOKEN_LEN_def)

lemma online_text_ok:
  assumes "world_inv w" "length (online_text w) < BODY_LEN"
  shows "names_loop w [0..<nat (cs_count (w_characters w))] (padded []) = Inr (padded (online_text w))"
    and "0 \<notin> set (online_text w)"
proof -
  have "online_text w = concat (map (\<lambda>i. online_line (the (w_chars w ! (cs_arr (w_characters w) ! i))))
      [0..<nat (cs_count (w_characters w))])"
    unfolding online_text_def used_entries_nth [OF world_invD(5) [OF assms(1)], symmetric] by (simp add: comp_def)
  with names_loop_ok [OF assms(1), of "[0..<nat (cs_count (w_characters w))]" "[]"] assms(2)
  show "names_loop w [0..<nat (cs_count (w_characters w))] (padded []) = Inr (padded (online_text w))"
    by simp
  show "0 \<notin> set (online_text w)"
    by (auto simp: online_text_def online_line_nonzero)
qed

lemma tell_player_ok:
  assumes "world_inv (g_world g)" "q_inv (g_out g)" "msg_wf fresh" "length junk = NAME_LEN"
    "length (online_text (g_world g)) < BODY_LEN" "character_get_by_addr (g_world g) a = Inr (Some b)"
  shows "\<exists>q. tell_player fresh junk a g = Inr (g\<lparr>g_out := q\<rparr>) \<and> q_inv q"
proof -
  let ?w = "g_world g"
  note w = world_invD [OF assms(1)]
  have "b \<in> set (used_entries ?w)"
    using assms(6) get_by_addr_find [OF w(5,6), of a] by (auto simp: find_Some_iff)
  then obtain c where c: "load (w_chars ?w) (Some b) = Inr c" "char_ok (w_msize_x ?w) (w_msize_y ?w) (length (w_chars ?w)) c"
    using heap_ok_load [OF w(4) used_less [OF w(5)]] by blast
  have lc: "load_char (g\<lparr>g_out := q\<rparr>) (Some b) = Inr c" for q
    using c(1) by (simp add: load_char_def)
  have small: "w_msize_x ?w < 10 ^ 10" "w_msize_y ?w < 10 ^ 10"
    using w(2,3) by simp_all
  have cc: "inland (ch_x c) (ch_y c) (w_msize_x ?w) (w_msize_y ?w)" "terminated (ch_name c)" "char_ints_ok c"
      "length (cstr (ch_name c)) < 16"
    using c(2) by (simp_all add: char_ok_def)
  obtain m where m: "new_msg fresh = Inr m" "msg_wf m" "terminated (m_key m)" "m_body m = padded []"
    using new_msg_blank [OF assms(3)] by blast
  let ?m1 = "m\<lparr>m_addr := a, m_type := map_update\<rparr>" and ?m2 = "m\<lparr>m_addr := a, m_type := char_info\<rparr>"
  let ?m3 = "m\<lparr>m_addr := a, m_type := online_list, m_body := padded (online_text ?w), m_len := of_nat (length (online_text ?w) + 1)\<rparr>"
  have wf: "msg_wf ?m1" "msg_wf ?m2" "terminated (m_key ?m1)" "terminated (m_key ?m2)"
    using m(2,3) by (simp_all add: msg_wf_def)
  have g0: "load_char g (Some b) = Inr c"
    using lc [of "g_out g"] by simp
  obtain r1 where "gfunc_map fresh g ?m1 = Inr (g, Some r1)"
    using gfunc_map_ok [OF _ g0 w(8) cc(1) small assms(3) wf(1,3)] assms(6) by auto
  from query_reply(1) [OF _ this] have "query_processing_new fresh junk g ?m1 = send_out g r1"
    by simp
  then obtain q1 where q1: "query_processing_new fresh junk g ?m1 = Inr (g\<lparr>g_out := q1\<rparr>)" "q_inv q1"
    using send_out_ok [OF assms(2)] by fastforce
  let ?g1 = "g\<lparr>g_out := q1\<rparr>"
  obtain r2 where "gfunc_getinfo fresh junk ?g1 ?m2 = Inr (?g1, Some r2)"
    using gfunc_getinfo_ok [OF _ lc cc(2,3) assms(4,3) wf(2,4), of q1] assms(6) cc(4) by auto
  from query_reply(2) [OF _ this] have "query_processing_new fresh junk ?g1 ?m2 = send_out ?g1 r2"
    by simp
  then obtain q2 where q2: "query_processing_new fresh junk ?g1 ?m2 = Inr (g\<lparr>g_out := q2\<rparr>)" "q_inv q2"
    using send_out_ok [of ?g1 r2] q1(2) by fastforce
  let ?g2 = "g\<lparr>g_out := q2\<rparr>"
  have "query_processing_new fresh junk ?g2 ?m3 = send_out ?g2 ?m3"
    by (rule query_echo) simp
  then obtain q3 where q3: "query_processing_new fresh junk ?g2 ?m3 = Inr (g\<lparr>g_out := q3\<rparr>)" "q_inv q3"
    using send_out_ok [of ?g2 ?m3] q2(2) by fastforce
  have mc: "memcpy (padded []) 0 [0] = Inr (padded [])"
    by (simp add: memcpy_def padded_def BODY_LEN_def drop_replicate flip: replicate_Suc)
  note on = online_text_ok [OF assms(1,5)] padded_cstr [OF assms(5) online_text_ok(2) [OF assms(1,5)]]
  have "tell_player fresh junk a g = (if 1 < length (online_text ?w) + 1
      then query_processing_new fresh junk ?g2 ?m3 else Inr ?g2)"
    using m(1,4) q1(1) q2(1) mc on by (simp add: tell_player_def strlen_ok)
  then show ?thesis
    using q2(2) q3 by auto
qed

lemma tell_loop_ok:
  assumes "world_inv (g_world g)" "q_inv (g_out g)" "msg_wf fresh" "length junk = NAME_LEN"
    "length (online_text (g_world g)) < BODY_LEN" "list_all (\<lambda>(x, y). on_map x y (w_msize_x (g_world g)) (w_msize_y (g_world g))) ps"
  shows "\<exists>q. tell_loop fresh junk ps g = Inr (g\<lparr>g_out := q\<rparr>) \<and> q_inv q"
  using assms
proof (induction ps arbitrary: g)
  case Nil
  then show ?case
    by (intro exI [of _ "g_out g"]) simp
next
  case (Cons p ps)
  obtain x y where p: "p = (x, y)" by (cases p)
  let ?w = "g_world g"
  note w = world_invD [OF Cons.prems(1)]
  let ?i = "nat (cell_index (w_msize_x ?w) x y)"
  define q where "q = w_map ?w ! ?i"
  have on: "0 \<le> x" "x < int (w_msize_x ?w)" "0 \<le> y" "y < int (w_msize_y ?w)"
    using Cons.prems(6) by (simp_all add: p on_map_def)
  note cell = cell_at_inside [OF w(8) on]
  have ch: "child_ok ?w (mp_child q)"
    using w(7) cell(3) by (simp add: list_all_length q_def)
  note IH = Cons.IH [OF Cons.prems(1-5)]
  have rest: "list_all (\<lambda>(x, y). on_map x y (w_msize_x ?w) (w_msize_y ?w)) ps"
    using Cons.prems(6) by simp
  show ?case
  proof (cases "mp_child_type q = nothing \<or> mp_child q = None")
    case True
    with IH [OF rest] cell(1) show ?thesis
      by (simp add: p q_def)
  next
    case False
    then obtain a where a: "mp_child q = Some a" "a < length (w_chars ?w)"
        "ch_is_player (the (w_chars ?w ! a)) \<longrightarrow> a \<in> set (used_entries ?w)"
      using ch by (auto simp: child_ok_def)
    then obtain c where c: "load (w_chars ?w) (Some a) = Inr c" "w_chars ?w ! a = Some c"
      using heap_ok_load [OF w(4)] by blast
    show ?thesis
    proof (cases "ch_is_player c")
      case False
      with IH [OF rest] cell(1) a(1) c(1) \<open>\<not> (mp_child_type q = nothing \<or> mp_child q = None)\<close> show ?thesis
        by (simp add: p q_def load_char_def)
    next
      case True
      then have u: "a \<in> set (used_entries ?w)"
        using a(3) c(2) by simp
      then obtain ad where ad: "load (w_addrs ?w) (ch_addr c) = Inr ad"
        using w(6) True c(2) by (auto simp: addrs_live_def used_entries_def [symmetric] list_all_iff is_ok_iff Let_def)
      have "has_addr ?w ad a"
        using True c(2) ad by (simp add: has_addr_def compare_address_def)
      then obtain b where "character_get_by_addr ?w ad = Inr (Some b)"
        using get_by_addr_find [OF w(5,6), of ad] find_None_iff [of "has_addr ?w ad" "used_entries ?w"] u
        by (cases "find (has_addr ?w ad) (used_entries ?w)") auto
      from tell_player_ok [OF Cons.prems(1-5) this] obtain q1 where
        q1: "tell_player fresh junk ad g = Inr (g\<lparr>g_out := q1\<rparr>)" "q_inv q1"
        by blast
      have "tell_loop fresh junk (p # ps) g = tell_loop fresh junk ps (g\<lparr>g_out := q1\<rparr>)"
        using \<open>\<not> (mp_child_type q = nothing \<or> mp_child q = None)\<close> True cell(1) a(1) c(1) ad q1(1)
        by (simp add: p q_def load_char_def)
      with Cons.IH [of "g\<lparr>g_out := q1\<rparr>"] Cons.prems rest q1(2) show ?thesis
        by simp
    qed
  qed
qed

lemma same_cast_online:
  assumes "world_inv w" "same_cast w w'"
  shows "used_entries w' = used_entries w" "online_text w' = online_text w"
proof -
  note w = world_invD [OF assms(1)]
  show u: "used_entries w' = used_entries w"
    using assms(2) by (simp add: used_entries_def same_cast_def)
  have "online_line (the (w_chars w' ! a)) = online_line (the (w_chars w ! a))" if "a \<in> set (used_entries w)" for a
    using same_cast_static [OF assms(2) w(4) used_less [OF w(5) that]] by (auto simp: static_def online_line_def)
  then show "online_text w' = online_text w"
    unfolding online_text_def u by (intro arg_cong [where f = concat] map_cong) auto
qed

lemma tick_one_ok:
  assumes "world_inv (g_world g)" "q_inv (g_out g)" "msg_wf fresh" "length junk = NAME_LEN"
    "length (online_text (g_world g)) < BODY_LEN" "i < nat (cs_count (w_characters (g_world g)))"
  shows "\<exists>w q. tick_one fresh junk tk i g = Inr (g\<lparr>g_world := w, g_out := q\<rparr>) \<and> world_inv w \<and> same_cast (g_world g) w \<and> q_inv q"
proof -
  let ?w = "g_world g"
  note w = world_invD [OF assms(1)]
  note live = table_liveD [OF w(5) assms(6)]
  let ?a = "cs_arr (w_characters ?w) ! i" and ?c = "the (w_chars ?w ! (cs_arr (w_characters ?w) ! i))"
  show ?thesis
  proof (cases "tick_skips tk i ?c")
    case True
    then show ?thesis
      using live assms(1,2) by (intro exI [of _ ?w] exI [of _ "g_out g"]) (simp add: tick_one_def load_char_def)
  next
    case False
    have u: "?a \<in> set (used_entries ?w)"
      using assms(6) w(5) by (auto simp: used_entries_def table_live_def in_set_conv_nth intro!: exI [of _ i])
    obtain w' where w': "tick_move tk i (Some ?a) ?w = Inr w'" "world_inv w'" "same_cast ?w w'"
      using tick_move_inv [OF assms(1) u] by blast
    note i' = world_invD [OF w'(2)]
    have "?a < length (w_chars w')"
      using used_less [OF i'(5)] u same_cast_online(1) [OF assms(1) w'(3)] by simp
    then obtain c where c: "load (w_chars w') (Some ?a) = Inr c" "char_ok (w_msize_x w') (w_msize_y w') (length (w_chars w')) c"
      using heap_ok_load [OF i'(4)] by blast
    have ps: "list_all (\<lambda>(x, y). on_map x y (w_msize_x w') (w_msize_y w')) (view_cells (ch_x c) (ch_y c))"
      using c(2) by (intro view_cells_on_map) (simp add: char_ok_def)
    have "length (online_text w') < BODY_LEN"
      using same_cast_online(2) [OF assms(1) w'(3)] assms(5) by simp
    then obtain q where "tell_loop fresh junk (view_cells (ch_x c) (ch_y c)) (g\<lparr>g_world := w'\<rparr>) = Inr (g\<lparr>g_world := w', g_out := q\<rparr>)" "q_inv q"
      using tell_loop_ok [of "g\<lparr>g_world := w'\<rparr>" fresh junk] w'(2) assms(2-4) ps by auto
    then show ?thesis
      using False live w' c(1)
      by (intro exI [of _ w'] exI [of _ q]) (simp add: tick_one_def load_char_def)
  qed
qed

lemma child_ok_index [simp]: "child_ok (w\<lparr>w_index_tick := k\<rparr>) p = child_ok w p"
  by (simp add: child_ok_def used_entries_def split: option.split)

lemma world_inv_index [simp]: "world_inv (w\<lparr>w_index_tick := k\<rparr>) = world_inv w"
  by (simp add: world_inv_def addrs_live_def)

lemma online_text_index [simp]: "online_text (w\<lparr>w_index_tick := k\<rparr>) = online_text w"
  by (simp add: online_text_def used_entries_def)

lemma tick_loop_ok:
  assumes "world_inv (g_world g)" "q_inv (g_out g)" "msg_wf fresh" "length junk = NAME_LEN"
    "length (online_text (g_world g)) < BODY_LEN" "0 \<le> w_index_tick (g_world g)"
    "nat (cs_count (w_characters (g_world g)) - w_index_tick (g_world g)) < fuel"
  shows "\<exists>w q k. tick_loop fuel fresh junk tk g = Inr (g\<lparr>g_world := w, g_out := q\<rparr>) \<and> world_inv w
    \<and> same_cast (g_world g) (w\<lparr>w_index_tick := k\<rparr>) \<and> q_inv q"
  using assms
proof (induction fuel arbitrary: g)
  case (Suc fuel)
  let ?w = "g_world g"
  show ?case
  proof (cases "w_index_tick ?w < cs_count (w_characters ?w)")
    case False
    then show ?thesis
      using Suc.prems(1,2) by (intro exI [of _ ?w] exI [of _ "g_out g"] exI [of _ "w_index_tick ?w"]) simp
  next
    case True
    have "nat (w_index_tick ?w) < nat (cs_count (w_characters ?w))"
      using True Suc.prems(6) by simp
    from tick_one_ok [OF Suc.prems(1-5) this] obtain w q where
      one: "tick_one fresh junk tk (nat (w_index_tick ?w)) g = Inr (g\<lparr>g_world := w, g_out := q\<rparr>)" "world_inv w"
        "same_cast ?w w" "q_inv q"
      by blast
    let ?g = "g\<lparr>g_out := q, g_world := w\<lparr>w_index_tick := w_index_tick w + 1\<rparr>\<rparr>"
    have same: "w_characters w = w_characters ?w" "w_index_tick w = w_index_tick ?w"
      using one(3) by (simp_all add: same_cast_def)
    have "length (online_text w) < BODY_LEN"
      using same_cast_online(2) [OF Suc.prems(1) one(3)] Suc.prems(5) by simp
    moreover have "nat (cs_count (w_characters w) - (w_index_tick w + 1)) < fuel" "0 \<le> w_index_tick w + 1"
      unfolding same using Suc.prems(6,7) True by linarith+
    ultimately obtain w' q' k where r: "tick_loop fuel fresh junk tk ?g = Inr (g\<lparr>g_world := w', g_out := q'\<rparr>)" "world_inv w'"
        "same_cast (w\<lparr>w_index_tick := w_index_tick w + 1\<rparr>) (w'\<lparr>w_index_tick := k\<rparr>)" "q_inv q'"
      using Suc.IH [of ?g] one(2,4) Suc.prems(3,4) by auto
    have "tick_loop (Suc fuel) fresh junk tk g = tick_loop fuel fresh junk tk ?g"
      using True Suc.prems(6) one(1) by simp
    moreover have "same_cast ?w (w'\<lparr>w_index_tick := w_index_tick w\<rparr>)"
      using one(3) r(3) by (simp add: same_cast_def)
    ultimately show ?thesis
      using r(1,2,4) by auto
  qed
qed simp

section \<open>A player takes its step\<close>

lemma move_free:
  assumes "shore_ok sx sy m" "on_map (ch_x c) (ch_y c) sx sy" "ch_is_player c" "ch_next_step c = d" "d \<noteq> nowhere"
    "on_map (step_x d (ch_x c)) (step_y d (ch_y c)) sx sy" "free_at m sx (step_x d (ch_x c)) (step_y d (ch_y c))"
  shows "character_move_to_target h c sx sy m = Inr d"
  using player_step_iff [of m sx sy c d] assms by (simp add: character_move_to_target_def shore_ok_def)

lemma step_elsewhere:
  assumes "on_map x y sx sy" "on_map (step_x d x) (step_y d y) sx sy" "d \<noteq> nowhere"
  shows "nat (cell_index sx (step_x d x) (step_y d y)) \<noteq> nat (cell_index sx x y)"
proof -
  obtain a b where ab: "x = int a" "y = int b" "a < sx" "b < sy"
    using assms(1) unfolding on_map_def by (metis nonneg_int_cases of_nat_less_iff)
  have "cell_index sx (step_x d x) (step_y d y) \<noteq> cell_index sx x y"
    using assms(2,3) ab by (cases d) (auto simp: cell_index_def on_map_def algebra_simps)
  moreover have "0 \<le> cell_index sx x y" "0 \<le> cell_index sx (step_x d x) (step_y d y)"
    using assms(1,2) by (simp_all add: cell_index_def on_map_def)
  ultimately show ?thesis
    by (simp add: nat_eq_iff)
qed

lemma tick_move_step:
  assumes "world_inv w" "load (w_chars w) (Some a) = Inr c" "ch_is_player c" "ch_next_step c = d" "d \<noteq> nowhere"
    "on_map (step_x d (ch_x c)) (step_y d (ch_y c)) (w_msize_x w) (w_msize_y w)"
    "free_at (w_map w) (w_msize_x w) (step_x d (ch_x c)) (step_y d (ch_y c))"
  defines "old \<equiv> nat (cell_index (w_msize_x w) (ch_x c) (ch_y c))"
    and "new \<equiv> nat (cell_index (w_msize_x w) (step_x d (ch_x c)) (step_y d (ch_y c)))"
  shows "\<exists>w' c'. tick_move tk i (Some a) w = Inr w' \<and> load (w_chars w') (Some a) = Inr c'
    \<and> ch_x c' = step_x d (ch_x c) \<and> ch_y c' = step_y d (ch_y c) \<and> ch_next_step c' = nowhere
    \<and> mp_child_type (w_map w' ! old) = nothing \<and> mp_child (w_map w' ! old) = None
    \<and> mp_child_type (w_map w' ! new) = player_obj \<and> mp_child (w_map w' ! new) = Some a"
proof -
  note w = world_invD [OF assms(1)]
  have a: "a < length (w_chars w)" "w_chars w ! a = Some c"
    using assms(2) by (simp_all add: load_eq_Inr)
  have on: "on_map (ch_x c) (ch_y c) (w_msize_x w) (w_msize_y w)"
    using heap_ok_char [OF w(4) assms(2)] by (simp add: char_ok_def inland_on_map)
  have ne: "new \<noteq> old"
    unfolding assms(8,9) by (rule step_elsewhere [OF on assms(6,5)])
  define m1 where "m1 = (w_map w)[old := (w_map w ! old)\<lparr>mp_child_type := nothing, mp_child := None\<rparr>]"
  have on1: "0 \<le> ch_x c" "ch_x c < int (w_msize_x w)" "0 \<le> ch_y c" "ch_y c < int (w_msize_y w)"
    using on by (simp_all add: on_map_def)
  note c1 = cell_at_inside [OF w(8) on1] set_cell_inside [OF w(8) on1]
  have s1: "set_child w (ch_x c) (ch_y c) (\<lambda>q. q\<lparr>mp_child_type := nothing, mp_child := None\<rparr>) = Inr (w\<lparr>w_map := m1\<rparr>)"
    by (simp add: set_child_def c1 m1_def assms(8))
  have len1: "length m1 = w_msize_x w * w_msize_y w"
    using w(8) by (simp add: m1_def)
  have "free_at m1 (w_msize_x w) (step_x d (ch_x c)) (step_y d (ch_y c))"
    using assms(7) ne by (simp add: free_at_def m1_def assms(9) [symmetric])
  moreover have "shore_ok (w_msize_x w) (w_msize_y w) m1"
    using w(1) c1(3) by (auto simp: shore_ok_def m1_def list_all_iff nth_list_update assms(8))
  ultimately have mv: "character_move_to_target h c (w_msize_x w) (w_msize_y w) m1 = Inr d" for h
    using move_free [OF _ on assms(3-6)] by blast
  define c2 where "c2 = c\<lparr>ch_next_step := d, ch_step_start_time := tk_then tk i\<rparr>"
  define c3 where "c3 = c2\<lparr>ch_x := step_x d (ch_x c), ch_y := step_y d (ch_y c)\<rparr>"
  define c4 where "c4 = c3\<lparr>ch_next_step := nowhere, ch_aggression := False\<rparr>"
  define h2 where "h2 = (w_chars w)[a := Some c2]"
  define h3 where "h3 = h2[a := Some c3]"
  define h4 where "h4 = h3[a := Some c4]"
  have l: "load h2 (Some a) = Inr c2" "load h3 (Some a) = Inr c3" "load h4 (Some a) = Inr c4"
    using a by (simp_all add: load_eq_Inr h2_def h3_def h4_def)
  have st: "store (w_chars w) (Some a) c2 = Inr h2" "store h2 (Some a) c3 = Inr h3" "store h3 (Some a) c4 = Inr h4"
    using assms(2) l by (simp_all add: store_ok h2_def h3_def h4_def)
  have act: "tick_act (tk_rand tk i) (Some a) (w\<lparr>w_map := m1, w_chars := h2\<rparr>) = Inr (w\<lparr>w_map := m1, w_chars := h3\<rparr>)"
    using l(1) st(2) assms(5) by (cases d) (simp_all add: tick_act_def c2_def c3_def)
  define m2 where "m2 = m1[new := (m1 ! new)\<lparr>mp_child_type := player_obj, mp_child := Some a\<rparr>]"
  have on2: "0 \<le> step_x d (ch_x c)" "step_x d (ch_x c) < int (w_msize_x w)" "0 \<le> step_y d (ch_y c)" "step_y d (ch_y c) < int (w_msize_y w)"
    using assms(6) by (simp_all add: on_map_def)
  note cc = cell_at_inside [OF len1 on2] set_cell_inside [OF len1 on2]
  have s2: "set_child (w\<lparr>w_map := m1, w_chars := h3\<rparr>) (ch_x c3) (ch_y c3) (\<lambda>q. q\<lparr>mp_child_type := kind_of c3, mp_child := Some a\<rparr>)
      = Inr (w\<lparr>w_map := m2, w_chars := h3\<rparr>)"
    using assms(3) by (simp add: set_child_def cc m2_def assms(9) c3_def c2_def kind_of_def)
  have ft: "character_find_target (w\<lparr>w_map := m1\<rparr>) (Some a) = Inr (w\<lparr>w_map := m1\<rparr>)"
    using assms(2,3) by (simp add: character_find_target_def)
  have pl: "ch_is_player c3"
    using assms(3) by (simp add: c3_def c2_def)
  have "tick_move tk i (Some a) w = Inr (w\<lparr>w_map := m2, w_chars := h4\<rparr>)"
    using assms(2) s1 ft mv st(1,3) act l(2) s2 pl by (simp add: tick_move_def c2_def [symmetric] c4_def [symmetric])
  moreover have "old < length m1" "new < length m1" "old < length (w_map w)"
    using c1(3) cc(3) by (simp_all add: m1_def assms(8,9))
  then have "mp_child_type (m2 ! old) = nothing \<and> mp_child (m2 ! old) = None
      \<and> mp_child_type (m2 ! new) = player_obj \<and> mp_child (m2 ! new) = Some a"
    using ne by (simp add: m2_def) (simp add: m1_def)
  ultimately show ?thesis
    using l(3) by (intro exI [of _ "w\<lparr>w_map := m2, w_chars := h4\<rparr>"] exI [of _ c4]) (simp add: c4_def c3_def)
qed

lemma game_tick_ok:
  assumes "world_inv (g_world g)" and "q_inv (g_out g)" and "msg_wf fresh" and "length junk = NAME_LEN"
    and "length (online_text (g_world g)) < BODY_LEN" and "nat (cs_count (w_characters (g_world g))) < fuel"
  shows "\<exists>g'. game_tick fuel fresh junk tk g = Inr g' \<and> world_inv (g_world g') \<and> q_inv (g_out g')
    \<and> used_entries (g_world g') = used_entries (g_world g) \<and> online_text (g_world g') = online_text (g_world g)
    \<and> w_addrs (g_world g') = w_addrs (g_world g)"
proof -
  let ?g = "g\<lparr>g_world := (g_world g)\<lparr>w_index_tick := 0\<rparr>\<rparr>"
  obtain w q k where r: "tick_loop fuel fresh junk tk ?g = Inr (g\<lparr>g_world := w, g_out := q\<rparr>)" "world_inv w"
      "same_cast (g_world ?g) (w\<lparr>w_index_tick := k\<rparr>)" "q_inv q"
    using tick_loop_ok [of ?g fresh junk fuel tk] assms by auto
  have "world_inv (g_world ?g)"
    using assms(1) by simp
  from same_cast_online [OF this r(3)] have "used_entries w = used_entries (g_world g)" "online_text w = online_text (g_world g)"
    by (simp_all add: used_entries_def)
  moreover have "w_addrs w = w_addrs (g_world g)"
    using r(3) by (simp add: same_cast_def)
  ultimately show ?thesis
    using r(1,2,4) by (intro exI [of _ "g\<lparr>g_world := w, g_out := q\<rparr>"]) (simp add: game_tick_def)
qed

section \<open>Properties\<close>

text \<open>
  C1. The world stays in order over a tick.  If every character stands at least four cells from the
  edge, the walkable cells keep that distance (so that nobody can come nearer), the targets
  and the occupants of the cells are valid, the names are shorter than the sixteen
  characters of \<open>nick\<close> and together fit into a body, then a tick neither faults nor leaves
  the map, not even in the views it sends around, and afterwards all of this holds again.
  The table, the addresses and the names are as before.
\<close>

theorem game_tick_invariant:
  assumes "world_inv (g_world g)" and "q_inv (g_out g)" and "msg_wf fresh" and "length junk = NAME_LEN"
    and "length (online_text (g_world g)) < BODY_LEN" and "nat (cs_count (w_characters (g_world g))) < fuel"
  shows "\<exists>g'. game_tick fuel fresh junk tk g = Inr g' \<and> world_inv (g_world g') \<and> q_inv (g_out g')
    \<and> used_entries (g_world g') = used_entries (g_world g) \<and> online_text (g_world g') = online_text (g_world g)
    \<and> w_addrs (g_world g') = w_addrs (g_world g)"
  using assms by (rule game_tick_ok)

text \<open>A world of eleven by eleven cells with two players in the middle and water around.\<close>

definition island_cell :: "nat \<Rightarrow> map_point_t" where
  "island_cell i = (sample_cell i)\<lparr>mp_ground := (if i \<in> {48, 49, 50, 59, 60, 61, 70, 71, 72} then grass else water)\<rparr>"

definition island_game :: game_t where
  "island_game = sample_game\<lparr>g_world := (g_world sample_game)\<lparr>
     w_characters := \<lparr>cs_arr = [0, 1], cs_count = 2\<rparr>,
     w_chars := [Some (sample_char 4 4 human), Some (sample_char 6 5 human)],
     w_map := map island_cell [0..<121], w_msize_x := 11, w_msize_y := 11\<rparr>\<rparr>"

lemma island_game_inv: "world_inv (g_world island_game)" "online_text (g_world island_game) = []"
    "q_inv (g_out island_game)" "cs_count (w_characters (g_world island_game)) = 2"
proof -
  let ?w = "g_world island_game"
  have "inland (int (i mod 11)) (int (i div 11)) 11 11" if "i \<in> {48, 49, 50, 59, 60, 61, 70, 71, 72 :: nat}" for i
    using that by (auto simp: inland_def)
  then have "shore_ok (w_msize_x ?w) (w_msize_y ?w) (w_map ?w)"
    by (auto simp: shore_ok_def list_all_iff island_game_def island_cell_def walkable_def GROUND_TYPE_CNT_def split: if_splits)
  moreover have "list_all (\<lambda>q. child_ok ?w (mp_child q)) (w_map ?w)"
    by (simp add: list_all_iff island_game_def island_cell_def sample_cell_def child_ok_def)
  moreover have "heap_ok (w_msize_x ?w) (w_msize_y ?w) (w_chars ?w)" "table_live (w_characters ?w) (w_chars ?w)" "addrs_live ?w"
    by code_simp+
  moreover have "w_msize_x ?w \<le> 2 ^ 30" "w_msize_y ?w \<le> 2 ^ 30"
    by (simp_all add: island_game_def)
  ultimately show "world_inv ?w"
    unfolding world_inv_def by blast
  show "online_text ?w = []"
    by code_simp
  show "q_inv (g_out island_game)" "cs_count (w_characters ?w) = 2"
    using sample_game_out by (simp_all add: island_game_def)
qed

lemma game_tick_invariant_witness:
  "\<exists>g'. game_tick 3 sample_msg (replicate 128 1) \<lparr>tk_now = \<lambda>_. 9, tk_then = \<lambda>_. 9, tk_rand = \<lambda>_. 1\<rparr> island_game = Inr g'
    \<and> world_inv (g_world g')"
proof -
  have "length (online_text (g_world island_game)) < BODY_LEN" "nat (cs_count (w_characters (g_world island_game))) < 3"
      "length (replicate 128 (1 :: byte)) = NAME_LEN"
    by (simp_all add: island_game_inv BODY_LEN_def NAME_LEN_def)
  from game_tick_invariant [OF island_game_inv(1,3) sample_game_ok(8) this(3,1,2)] show ?thesis
    by blast
qed

text \<open>
  A step that a player asked for and that is possible is taken in its next round, once its
  step time has passed: the player stands on the new cell, which carries it, the old cell
  is free, and the request is cleared.
\<close>

theorem tick_takes_step:
  assumes "world_inv (g_world g)" and "q_inv (g_out g)" and "msg_wf fresh" and "length junk = NAME_LEN"
    and "length (online_text (g_world g)) < BODY_LEN" and "i < nat (cs_count (w_characters (g_world g)))"
    and "cs_arr (w_characters (g_world g)) ! i = a" and "load_char g (Some a) = Inr c" and "ch_is_player c"
    and "ch_next_step c = d" and "d \<noteq> nowhere" and "ch_step_time c < tk_now tk i - ch_step_start_time c"
    and "on_map (step_x d (ch_x c)) (step_y d (ch_y c)) (w_msize_x (g_world g)) (w_msize_y (g_world g))"
    and "free_at (w_map (g_world g)) (w_msize_x (g_world g)) (step_x d (ch_x c)) (step_y d (ch_y c))"
  shows "\<exists>g' c'. tick_one fresh junk tk i g = Inr g' \<and> load_char g' (Some a) = Inr c'
    \<and> ch_x c' = step_x d (ch_x c) \<and> ch_y c' = step_y d (ch_y c) \<and> ch_next_step c' = nowhere
    \<and> mp_child (w_map (g_world g') ! nat (cell_index (w_msize_x (g_world g)) (ch_x c) (ch_y c))) = None
    \<and> mp_child (w_map (g_world g') ! nat (cell_index (w_msize_x (g_world g)) (step_x d (ch_x c)) (step_y d (ch_y c)))) = Some a"
proof -
  let ?w = "g_world g"
  obtain w q where one: "tick_one fresh junk tk i g = Inr (g\<lparr>g_world := w, g_out := q\<rparr>)"
    using tick_one_ok [OF assms(1-6)] by blast
  have lc: "load (w_chars ?w) (Some a) = Inr c"
    using assms(8) by (simp add: load_char_def)
  obtain w' c' where w': "tick_move tk i (Some a) ?w = Inr w'" "load (w_chars w') (Some a) = Inr c'"
      "ch_x c' = step_x d (ch_x c)" "ch_y c' = step_y d (ch_y c)" "ch_next_step c' = nowhere"
      "mp_child (w_map w' ! nat (cell_index (w_msize_x ?w) (ch_x c) (ch_y c))) = None"
      "mp_child (w_map w' ! nat (cell_index (w_msize_x ?w) (step_x d (ch_x c)) (step_y d (ch_y c)))) = Some a"
    using tick_move_step [OF assms(1) lc assms(9-11,13,14)] by blast
  have "\<not> tick_skips tk i c"
    using assms(10-12) by (simp add: tick_skips_def)
  then have "tell_loop fresh junk (view_cells (ch_x c') (ch_y c')) (g\<lparr>g_world := w'\<rparr>) = Inr (g\<lparr>g_world := w, g_out := q\<rparr>)"
    using one table_liveD(1) [OF world_invD(5) [OF assms(1)] assms(6)] assms(7,8) w'(1,2)
    by (simp add: tick_one_def)
  from tell_loop_world [OF this] have "w = w'"
    by simp
  then show ?thesis
    using one w' by (intro exI [of _ "g\<lparr>g_world := w, g_out := q\<rparr>"] exI [of _ c']) (simp add: load_char_def)
qed

lemma tick_takes_step_witness:
  "\<exists>g' c'. tick_one sample_msg (replicate 128 1) \<lparr>tk_now = \<lambda>_. 9, tk_then = \<lambda>_. 9, tk_rand = \<lambda>_. 1\<rparr> 0 island_game = Inr g'
    \<and> load_char g' (Some 0) = Inr c' \<and> ch_x c' = 4 \<and> ch_y c' = 5"
proof -
  let ?tk = "\<lparr>tk_now = \<lambda>_. 9, tk_then = \<lambda>_. 9, tk_rand = \<lambda>_. 1\<rparr> :: tick_t"
  let ?c = "sample_char 4 4 human"
  have o: "length (online_text (g_world island_game)) < BODY_LEN" "0 < nat (cs_count (w_characters (g_world island_game)))"
      "length (replicate 128 (1 :: byte)) = NAME_LEN"
    by (simp_all add: island_game_inv BODY_LEN_def NAME_LEN_def)
  have c: "cs_arr (w_characters (g_world island_game)) ! 0 = 0" "load_char island_game (Some 0) = Inr ?c"
      "ch_is_player ?c" "ch_next_step ?c = north"
      "on_map (step_x north (ch_x ?c)) (step_y north (ch_y ?c)) (w_msize_x (g_world island_game)) (w_msize_y (g_world island_game))"
      "free_at (w_map (g_world island_game)) (w_msize_x (g_world island_game)) (step_x north (ch_x ?c)) (step_y north (ch_y ?c))"
    by code_simp+
  have t: "north \<noteq> nowhere" "ch_step_time ?c < tk_now ?tk 0 - ch_step_start_time ?c" "ch_x ?c = 4" "ch_y ?c = 4"
    by (simp_all add: sample_char_def)
  from tick_takes_step [OF island_game_inv(1,3) sample_game_ok(8) o(3,1,2) c(1-4) t(1,2) c(5,6)] t(3,4) show ?thesis
    by auto
qed

end
