(* ===== verification/MapFile.thy ===== *)
theory MapFile
  imports WorldMap Network
begin

text \<open>
  The map file: the buildings, the side of the map and its cells as \<open>fwrite\<close> lays them out
  (\<open>map_point_t\<close> and \<open>building_t\<close> are packed).  A file is its bytes; what is left to read is
  passed on.  A \<open>fread\<close> that finds too little leaves the rest of its buffer as it was, and
  nobody looks at its result, so that the model calls it \<open>Uninitialised\<close>; so it does with a
  number that is no enumerator.  A pointer is written as a number, null as zero.
\<close>

section \<open>Members\<close>

record building_t =
  b_point :: map_point_t
  b_size_x :: nat
  b_size_y :: nat

definition i32_bytes :: "int \<Rightarrow> byte list" where
  "i32_bytes i = le_bytes 4 (unat (word_of_int i :: u32))"

definition i32_val :: "byte list \<Rightarrow> int" where
  "i32_val bs = sint (of_nat (le_val bs) :: u32)"

definition ptr_bytes :: "ptr \<Rightarrow> byte list" where
  "ptr_bytes p = le_bytes 8 (case p of None \<Rightarrow> 0 | Some a \<Rightarrow> a + 1)"

definition ptr_val :: "byte list \<Rightarrow> ptr" where
  "ptr_val bs = (if le_val bs = 0 then None else Some (le_val bs - 1))"

definition ground_of :: "nat \<Rightarrow> ground_type_t option" where
  "ground_of n = (if n = 0 then Some soil else if n = 1 then Some sand else if n = 2 then Some grass
     else if n = 3 then Some water else None)"

definition surface_of :: "nat \<Rightarrow> surface_type_t option" where
  "surface_of n = (if n = 0 then Some empty else if n = 1 then Some wall else if n = 2 then Some floor_surf else None)"

definition object_of :: "nat \<Rightarrow> object_type_t option" where
  "object_of n = (if n = 0 then Some nothing else if n = 1 then Some player_obj else if n = 2 then Some enemy else None)"

definition point_bytes :: "map_point_t \<Rightarrow> byte list" where
  "point_bytes p = i32_bytes (mp_x p) @ i32_bytes (mp_y p) @ le_bytes 4 (ground_code (mp_ground p))
     @ le_bytes 4 (surface_code (mp_surface p)) @ le_bytes 4 (object_code (mp_child_type p))
     @ ptr_bytes (mp_child p) @ i32_bytes (mp_name_id p) @ le_bytes 8 (unat (mp_region p))"

definition building_bytes :: "building_t \<Rightarrow> byte list" where
  "building_bytes b = point_bytes (b_point b) @ le_bytes 8 (b_size_x b) @ le_bytes 8 (b_size_y b)"

section \<open>Reading\<close>

definition fread :: "nat \<Rightarrow> byte list \<Rightarrow> (byte list \<times> byte list) res" where
  "fread n bs = (if n \<le> length bs then Inr (take n bs, drop n bs) else Inl Uninitialised)"

definition fread_size :: "byte list \<Rightarrow> (nat \<times> byte list) res" where
  "fread_size bs = rbind (fread 8 bs) (\<lambda>(v, bs). Inr (le_val v, bs))"

definition point_of_bytes :: "byte list \<Rightarrow> map_point_t res" where
  "point_of_bytes bs =
     (case (ground_of (le_val (take 4 (drop 8 bs))), surface_of (le_val (take 4 (drop 12 bs))),
            object_of (le_val (take 4 (drop 16 bs)))) of
        (Some g, Some s, Some ob) \<Rightarrow>
          Inr \<lparr>mp_x = i32_val (take 4 bs), mp_y = i32_val (take 4 (drop 4 bs)), mp_ground = g, mp_surface = s,
            mp_child_type = ob, mp_child = ptr_val (take 8 (drop 20 bs)), mp_name_id = i32_val (take 4 (drop 28 bs)),
            mp_region = of_nat (le_val (take 8 (drop 32 bs)))\<rparr>
      | _ \<Rightarrow> Inl Uninitialised)"

definition building_of_bytes :: "byte list \<Rightarrow> building_t res" where
  "building_of_bytes bs = rbind (point_of_bytes (take 40 bs)) (\<lambda>p.
     Inr \<lparr>b_point = p, b_size_x = le_val (take 8 (drop 40 bs)), b_size_y = le_val (take 8 (drop 48 bs))\<rparr>)"

text \<open>\<open>n\<close> records of \<open>k\<close> bytes each.\<close>

fun fread_list :: "(byte list \<Rightarrow> 'a res) \<Rightarrow> nat \<Rightarrow> nat \<Rightarrow> byte list \<Rightarrow> ('a list \<times> byte list) res" where
  "fread_list dec k 0 bs = Inr ([], bs)"
| "fread_list dec k (Suc n) bs =
     rbind (fread k bs) (\<lambda>(v, bs).
     rbind (dec v) (\<lambda>x.
     rbind (fread_list dec k n bs) (\<lambda>(xs, bs). Inr (x # xs, bs))))"

text \<open>The sequence of \<open>fread\<close>s that \<open>game_init\<close>, \<open>add_on_map\<close> and \<open>map_to_pic\<close> share: buildings, side and cells.\<close>

definition read_map :: "byte list \<Rightarrow> (building_t list \<times> nat \<times> map_t) res" where
  "read_map bs =
     rbind (fread_size bs) (\<lambda>(cnt, bs).
     rbind (if cnt \<noteq> 0 then fread_list building_of_bytes 56 cnt bs else Inr ([], bs)) (\<lambda>(blds, bs).
     rbind (fread_size bs) (\<lambda>(msize_x, bs).
     rbind (fread_list point_of_bytes 40 (msize_x * msize_x) bs) (\<lambda>(m, bs).
       Inr (blds, msize_x, m)))))"

section \<open>Writing\<close>

text \<open>The \<open>fwrite\<close>s at the end of \<open>map_to_file\<close> and \<open>add_on_map\<close>.\<close>

definition write_map :: "building_t list \<Rightarrow> nat \<Rightarrow> map_t \<Rightarrow> byte list" where
  "write_map blds msize_x m = le_bytes 8 (length blds) @ concat (map building_bytes blds)
     @ le_bytes 8 msize_x @ concat (map point_bytes m)"

text \<open>\<open>fwrite\<close> from the start of a file that has content.\<close>

definition overwrite :: "byte list \<Rightarrow> byte list \<Rightarrow> byte list" where
  "overwrite old new = new @ drop (length new) old"

section \<open>Reading back what was written\<close>

definition i32_range :: "int \<Rightarrow> bool" where
  "i32_range i \<longleftrightarrow> - (2 ^ 31) \<le> i \<and> i < 2 ^ 31"

definition point_writable :: "map_point_t \<Rightarrow> bool" where
  "point_writable p \<longleftrightarrow> i32_range (mp_x p) \<and> i32_range (mp_y p) \<and> i32_range (mp_name_id p)
     \<and> (case mp_child p of None \<Rightarrow> True | Some a \<Rightarrow> a + 1 < 2 ^ 64)"

definition building_writable :: "building_t \<Rightarrow> bool" where
  "building_writable b \<longleftrightarrow> point_writable (b_point b) \<and> b_size_x b < 2 ^ 64 \<and> b_size_y b < 2 ^ 64"

definition map_writable :: "building_t list \<Rightarrow> nat \<Rightarrow> map_t \<Rightarrow> bool" where
  "map_writable blds n m \<longleftrightarrow> length blds < 2 ^ 64 \<and> n < 2 ^ 64 \<and> length m = n * n
     \<and> list_all building_writable blds \<and> list_all point_writable m"

lemma i32_val_bytes [simp]:
  assumes "i32_range i"
  shows "i32_val (i32_bytes i) = i"
proof -
  have "sint (word_of_int i :: u32) = signed_take_bit 31 i"
    by (subst sint_sbintrunc') simp
  also have "\<dots> = i"
    using assms by (intro signed_take_bit_int_eq_self) (simp_all add: i32_range_def)
  finally show ?thesis
    by (simp add: i32_val_def i32_bytes_def le_val_u32)
qed

lemma ptr_val_bytes: "(case p of None \<Rightarrow> True | Some a \<Rightarrow> a + 1 < 2 ^ 64) \<Longrightarrow> ptr_val (ptr_bytes p) = p"
  by (simp add: ptr_val_def ptr_bytes_def le_val_bytes split: option.splits)

lemma length_members [simp]: "length (i32_bytes i) = 4" "length (ptr_bytes p) = 8"
  by (simp_all add: i32_bytes_def ptr_bytes_def)

lemma length_point_bytes [simp]: "length (point_bytes p) = 40"
  by (simp add: point_bytes_def)

lemma length_building_bytes [simp]: "length (building_bytes b) = 56"
  by (simp add: building_bytes_def)

lemma ground_of_code: "ground_of (le_val (le_bytes 4 (ground_code g))) = Some g"
  by (cases g) (simp_all add: ground_of_def le_val_bytes)

lemma surface_of_code: "surface_of (le_val (le_bytes 4 (surface_code s))) = Some s"
  by (cases s) (simp_all add: surface_of_def le_val_bytes)

lemma object_of_code: "object_of (le_val (le_bytes 4 (object_code ob))) = Some ob"
  by (cases ob) (simp_all add: object_of_def le_val_bytes)

lemmas enum_codes = ground_of_code surface_of_code object_of_code

lemma point_of_point_bytes:
  assumes "point_writable p"
  shows "point_of_bytes (point_bytes p) = Inr p"
  using assms ptr_val_bytes [of "mp_child p"]
  by (simp add: point_of_bytes_def point_bytes_def point_writable_def enum_codes le_val_u64)

lemma building_of_building_bytes:
  assumes "building_writable b"
  shows "building_of_bytes (building_bytes b) = Inr b"
  using assms point_of_point_bytes [of "b_point b"]
  by (simp add: building_of_bytes_def building_bytes_def building_writable_def le_val_bytes)

lemma fread_append: "length v = n \<Longrightarrow> fread n (v @ bs) = Inr (v, bs)"
  by (simp add: fread_def)

lemma fread_size_append: "n < 2 ^ 64 \<Longrightarrow> fread_size (le_bytes 8 n @ bs) = Inr (n, bs)"
  by (simp add: fread_size_def fread_append le_val_bytes)

lemma fread_list_append:
  assumes "list_all (\<lambda>x. length (enc x) = k \<and> dec (enc x) = Inr x) xs"
  shows "fread_list dec k (length xs) (concat (map enc xs) @ bs) = Inr (xs, bs)"
  using assms by (induction xs) (simp_all add: fread_append)

lemma read_write_map:
  assumes "map_writable blds n m"
  shows "read_map (write_map blds n m @ rest) = Inr (blds, n, m)"
proof -
  have "list_all (\<lambda>x. length (building_bytes x) = 56 \<and> building_of_bytes (building_bytes x) = Inr x) blds"
      "list_all (\<lambda>x. length (point_bytes x) = 40 \<and> point_of_bytes (point_bytes x) = Inr x) m"
    using assms by (auto simp: map_writable_def list_all_iff point_of_point_bytes building_of_building_bytes)
  from fread_list_append [OF this(1)] fread_list_append [OF this(2)] show ?thesis
    using assms by (simp add: read_map_def write_map_def map_writable_def fread_size_append)
qed

lemma length_write_map: "length (write_map blds n m) = 16 + 56 * length blds + 40 * length m"
  by (simp add: write_map_def length_concat comp_def sum_list_triv)

end
