(* ===== verification/BuildGen.thy ===== *)
theory BuildGen
  imports MapFile MapGen GameFunctions
begin

text \<open>
  The tool that makes maps and buildings (\<open>map&builds_gen/main.c\<close>, \<open>buildgen.c\<close>).  A file open
  for update is its bytes and a position; standard input is what is left of it.  Values
  read with \<open>scanf\<close> as numbers are parameters.
\<close>

section \<open>Drawing a building\<close>

text \<open>
  \<open>while (scanf("%c", &ch) == 0 || (ch != 'w' && ch != 'f'));\<close>.  At the end of the input \<open>scanf\<close>
  returns \<open>EOF\<close>, which is not zero, and \<open>ch\<close> keeps its value.
\<close>

fun next_wf :: "byte \<Rightarrow> byte list \<Rightarrow> (byte \<times> byte list) res" where
  "next_wf ch [] = (if ch = of_char CHR ''w'' \<or> ch = of_char CHR ''f'' then Inr (ch, []) else Inl Diverges)"
| "next_wf ch (c # cs) = (if c = of_char CHR ''w'' \<or> c = of_char CHR ''f'' then Inr (c, cs) else next_wf c cs)"

definition drawn_cell :: "map_point_t \<Rightarrow> byte \<Rightarrow> int \<Rightarrow> int \<Rightarrow> int \<Rightarrow> map_point_t" where
  "drawn_cell junk ch nameid x y =
     (let p = (if ch = of_char CHR ''w'' then junk\<lparr>mp_surface := wall\<rparr> else junk\<lparr>mp_surface := floor_surf\<rparr>) in
      p\<lparr>mp_ground := soil, mp_name_id := nameid, mp_child_type := nothing, mp_x := x, mp_y := y\<rparr>)"

text \<open>The loop over the cells; \<open>junk\<close> is the memory that \<open>malloc\<close> returned.\<close>

fun draw_loop :: "map_t \<Rightarrow> nat \<Rightarrow> int \<Rightarrow> nat list \<Rightarrow> byte \<Rightarrow> byte list \<Rightarrow> map_t res" where
  "draw_loop junk size_x nameid [] ch inp = Inr []"
| "draw_loop junk size_x nameid (i # is) ch inp =
     rbind (next_wf ch inp) (\<lambda>(ch, inp).
     rbind (draw_loop junk size_x nameid is ch inp) (\<lambda>ps.
       Inr (drawn_cell (junk ! i) ch nameid (int (i mod size_x)) (int (i div size_x)) # ps)))"

text \<open>What is printed of the finished building.\<close>

definition build_picture :: "nat \<Rightarrow> nat \<Rightarrow> map_t \<Rightarrow> byte list" where
  "build_picture size_x size_y build = concat (map (\<lambda>y. concat (map (\<lambda>x.
       case mp_surface (build ! (y * size_x + x)) of
         wall \<Rightarrow> of_str ''w '' | floor_surf \<Rightarrow> of_str ''f '' | empty \<Rightarrow> of_str ''X '') [0..<size_x])
     @ [10]) [0..<size_y])"

text \<open>The name of the file, its content and the picture.\<close>

definition buildgen :: "map_t \<Rightarrow> byte \<Rightarrow> int \<Rightarrow> nat \<Rightarrow> nat \<Rightarrow> byte list \<Rightarrow> (byte list \<times> byte list \<times> byte list) res" where
  "buildgen junk ch nameid size_x size_y inp =
     rbind (draw_loop junk size_x nameid [0..<size_x * size_y] ch inp) (\<lambda>build.
       Inr (dec_int nameid @ of_str ''_'' @ dec_int (int (size_x * size_y)) @ of_str ''.build'',
            le_bytes 8 size_x @ le_bytes 8 size_y @ concat (map point_bytes build),
            build_picture size_x size_y build))"

section \<open>Putting a building on the map\<close>

record file_t =
  f_data :: "byte list"
  f_pos :: nat

definition read_build :: "byte list \<Rightarrow> (nat \<times> nat \<times> map_t) res" where
  "read_build bs =
     rbind (fread_size bs) (\<lambda>(bsize_x, bs).
     rbind (fread_size bs) (\<lambda>(bsize_y, bs).
     rbind (fread_list point_of_bytes 40 (bsize_y * bsize_x) bs) (\<lambda>(build, bs).
       Inr (bsize_x, bsize_y, build))))"

text \<open>The offsets \<open>yy*msize_x + xx\<close> of the two nested loops, in their order.\<close>

definition rect :: "nat \<Rightarrow> nat \<Rightarrow> nat \<Rightarrow> nat \<Rightarrow> nat \<Rightarrow> nat list" where
  "rect msize_x x y bsize_x bsize_y =
     concat (map (\<lambda>yy. map (\<lambda>xx. yy * msize_x + xx) [x..<x + bsize_x]) [y..<y + bsize_y])"

text \<open>Does the building fit?  The loops are left at the first cell that does not.\<close>

fun fits_loop :: "map_t \<Rightarrow> map_t \<Rightarrow> u64 \<Rightarrow> nat list \<Rightarrow> bool res" where
  "fits_loop m build region [] = Inr True"
| "fits_loop m build region (i # is) =
     (if length m \<le> i \<or> build = [] then Inl OutOfBounds
      else if mp_ground (m ! i) \<noteq> mp_ground (hd build) \<or> mp_surface (m ! i) \<noteq> empty \<or> mp_region (m ! i) \<noteq> region
      then Inr False
      else fits_loop m build region is)"

text \<open>\<open>msize_x * (double)rand() / RAND_MAX\<close>; \<open>rnd\<close> is the sequence of the values of \<open>rand\<close>.\<close>

definition draw_coord :: "nat \<Rightarrow> nat \<Rightarrow> nat" where
  "draw_coord msize r = msize * r div RAND_MAX"

fun place_loop :: "nat \<Rightarrow> (nat \<Rightarrow> nat) \<Rightarrow> nat \<Rightarrow> map_t \<Rightarrow> nat \<Rightarrow> map_t \<Rightarrow> nat \<Rightarrow> nat \<Rightarrow> u64 \<Rightarrow> (nat \<times> nat) res" where
  "place_loop 0 rnd k m msize_x build bsize_x bsize_y region = Inl Diverges"
| "place_loop (Suc fuel) rnd k m msize_x build bsize_x bsize_y region =
     (let x = draw_coord msize_x (rnd (2 * k)); y = draw_coord msize_x (rnd (2 * k + 1)) in
      rbind (fits_loop m build region (rect msize_x x y bsize_x bsize_y)) (\<lambda>have_place.
        if have_place then Inr (x, y)
        else place_loop fuel rnd (k + 1) m msize_x build bsize_x bsize_y region))"

definition stamp_cell :: "map_point_t \<Rightarrow> map_point_t \<Rightarrow> map_point_t" where
  "stamp_cell b p = p\<lparr>mp_surface := mp_surface b, mp_name_id := mp_name_id b\<rparr>"

fun stamp_loop :: "map_t \<Rightarrow> map_t \<Rightarrow> nat list \<Rightarrow> map_t res" where
  "stamp_loop m bs [] = Inr m"
| "stamp_loop m bs (i # is) =
     (case bs of [] \<Rightarrow> Inl OutOfBounds
      | b # bs \<Rightarrow> if i < length m then stamp_loop (m[i := stamp_cell b (m ! i)]) bs is else Inl OutOfBounds)"

definition add_on_map :: "nat \<Rightarrow> (nat \<Rightarrow> nat) \<Rightarrow> u64 \<Rightarrow> file_t \<Rightarrow> byte list \<Rightarrow> file_t res" where
  "add_on_map fuel rnd region fmap fbuild =
     rbind (read_build fbuild) (\<lambda>(bsize_x, bsize_y, build).
     rbind (read_map (drop (f_pos fmap) (f_data fmap))) (\<lambda>(old_buildings, msize_x, m).
     rbind (place_loop fuel rnd 0 m msize_x build bsize_x bsize_y region) (\<lambda>(x, y).
     rbind (stamp_loop m build (rect msize_x x y bsize_x bsize_y)) (\<lambda>m.
       if y * msize_x + x < length m
       then
         let new_building = \<lparr>b_point = m ! (y * msize_x + x), b_size_x = bsize_x, b_size_y = bsize_y\<rparr>;
             out = write_map (old_buildings @ [new_building]) msize_x m
         in Inr \<lparr>f_data = overwrite (f_data fmap) out, f_pos = length out\<rparr>
       else Inl OutOfBounds))))"

section \<open>Maps\<close>

definition map_to_file :: "nat \<Rightarrow> nat queue_t option \<Rightarrow> map_t \<Rightarrow> (nat \<Rightarrow> nat) \<Rightarrow> nat \<Rightarrow> nat \<Rightarrow> nat \<Rightarrow> file_t res" where
  "map_to_file fuel block junk rnd factor size_x size_y =
     rbind (map_generation fuel block junk rnd factor size_x size_y water 10) (\<lambda>m.
       let out = write_map [] size_x m in Inr \<lparr>f_data = out, f_pos = length out\<rparr>)"

text \<open>The colours of the two pictures; the colour of a region is a byte.\<close>

definition ground_rgb :: "ground_type_t \<Rightarrow> byte list" where
  "ground_rgb g = [[165, 42, 42], [255, 255, 0], [0, 255, 0], [0, 0, 255]] ! ground_code g"

definition surface_rgb :: "nat \<Rightarrow> byte list" where
  "surface_rgb n = [[0, 0, 0], [255, 255, 255]] ! n"

definition cell_rgb :: "map_point_t \<Rightarrow> byte list" where
  "cell_rgb p = (if mp_surface p = empty then ground_rgb (mp_ground p) else surface_rgb (surface_code (mp_surface p) - 1))"

definition region_rgb :: "map_point_t \<Rightarrow> byte list" where
  "region_rgb p = (if walkable (mp_ground p) then replicate 3 (ucast (mp_region p * 30 + 30)) else [0, 0, 0])"

definition pnm_header :: "nat \<Rightarrow> byte list" where
  "pnm_header n = of_str ''P6'' @ [10] @ dec_int (int n) @ of_str '' '' @ dec_int (int n) @ [10] @ of_str ''255'' @ [10]"

definition map_to_pic :: "byte list \<Rightarrow> (byte list \<times> byte list) res" where
  "map_to_pic fmap =
     rbind (read_map fmap) (\<lambda>(buildings, size_x, bufmap).
       Inr (pnm_header size_x @ concat (map cell_rgb bufmap), pnm_header size_x @ concat (map region_rgb bufmap)))"

section \<open>The command line\<close>

text \<open>What the tool is asked to do, with the names of the files; \<open>Nothing\<close> is an early return.\<close>

datatype task =
    Draw
  | Paint "byte list" "byte list" "byte list"
  | Build "byte list" "byte list list"
  | Generate "byte list"
  | Nothing

text \<open>\<open>strcpy(str, s)\<close> and \<open>strcat(str, s)\<close> for \<open>char str[255]\<close>, on strings.\<close>

definition str_cat :: "byte list \<Rightarrow> byte list \<Rightarrow> byte list res" where
  "str_cat a b = (if length a + length b < 255 then Inr (a @ b) else Inl OutOfBounds)"

text \<open>\<open>strtok(str, ".")\<close> and then \<open>strtok(NULL, ".")\<close>: the second token.\<close>

definition second_token :: "byte list \<Rightarrow> byte list option" where
  "second_token s =
     (let dot = of_char CHR ''.'';
          rest = dropWhile (\<lambda>b. b = dot) (dropWhile (\<lambda>b. b \<noteq> dot) (dropWhile (\<lambda>b. b = dot) s)) in
      if rest = [] then None else Some (takeWhile (\<lambda>b. b \<noteq> dot) rest))"

text \<open>
  The loop over the arguments from the third on, which looks at \<open>argv[2]\<close> every time: the
  buildings it opens.
\<close>

fun build_args :: "byte list \<Rightarrow> nat \<Rightarrow> byte list list res" where
  "build_args arg2 0 = Inr []"
| "build_args arg2 (Suc k) =
     rbind (str_cat [] arg2) (\<lambda>str.
       case second_token str of
         None \<Rightarrow> Inl NullDeref
       | Some t \<Rightarrow> rbind (build_args arg2 k) (\<lambda>bs. Inr (if t = of_str ''build'' then arg2 # bs else bs)))"

definition tool_task :: "byte list list \<Rightarrow> task res" where
  "tool_task argv =
     (if length argv < 2 then Inr Draw
      else
        rbind (str_cat (argv ! 1) (of_str ''.map'')) (\<lambda>fmap.
          if length argv > 2 then
            (case argv ! 2 of
               c # arg \<Rightarrow>
                 if c = of_char CHR ''-'' then
                   if arg = [] then Inr Nothing
                   else
                     rbind (str_cat arg (of_str ''.pnm'')) (\<lambda>fpic.
                     rbind (str_cat arg (of_str ''_regions'')) (\<lambda>str.
                     rbind (str_cat str (of_str ''.pnm'')) (\<lambda>fpic_reg.
                       Inr (Paint fmap fpic fpic_reg))))
                 else rbind (build_args (argv ! 2) (length argv - 2)) (\<lambda>bs. Inr (Build fmap bs))
             | [] \<Rightarrow> rbind (build_args (argv ! 2) (length argv - 2)) (\<lambda>bs. Inr (Build fmap bs)))
          else Inr (Generate fmap)))"

text \<open>Adding the buildings one after the other; the file keeps its position.\<close>

fun add_all :: "nat \<Rightarrow> (nat \<Rightarrow> nat \<Rightarrow> nat) \<Rightarrow> (nat \<Rightarrow> u64) \<Rightarrow> nat \<Rightarrow> file_t \<Rightarrow> byte list list \<Rightarrow> file_t res" where
  "add_all fuel rnd region k fmap [] = Inr fmap"
| "add_all fuel rnd region k fmap (b # bs) =
     rbind (add_on_map fuel (rnd k) (region k) fmap b) (\<lambda>fmap. add_all fuel rnd region (k + 1) fmap bs)"

section \<open>Placing and stamping\<close>

lemma rect_eq:
  assumes "0 < bx"
  shows "rect n x y bx by = map (\<lambda>k. (y + k div bx) * n + (x + k mod bx)) [0..<by * bx]"
proof (induction "by")
  case 0
  then show ?case by (simp add: rect_def)
next
  case (Suc b)
  have "[0..<Suc b * bx] = [0..<b * bx] @ map (\<lambda>d. b * bx + d) [0..<bx]"
    using upt_add_eq_append [of 0 "b * bx" bx] by (simp add: map_add_upt add.commute)
  moreover have "map (\<lambda>xx. (y + b) * n + xx) [x..<x + bx] = map (\<lambda>d. (y + b) * n + (x + d)) [0..<bx]"
    by (intro nth_equalityI) simp_all
  moreover have "(b * bx + d) div bx = b" "(b * bx + d) mod bx = d" if "d < bx" for d
    using that by simp_all
  ultimately show ?case
    using Suc by (simp add: rect_def)
qed

lemma rect_distinct:
  assumes "0 < bx" "bx \<le> n"
  shows "distinct (rect n x y bx by)"
proof -
  have key: "k = l" if "(y + k div bx) * n + (x + k mod bx) = (y + l div bx) * n + (x + l mod bx)" for k l
  proof -
    have s: "k mod bx < n" "l mod bx < n"
      using mod_less_divisor [OF assms(1), of k] mod_less_divisor [OF assms(1), of l] assms(2) by linarith+
    have "(k div bx) * n + k mod bx = (l div bx) * n + l mod bx"
      using that by (simp add: add_mult_distrib)
    then have "((k div bx) * n + k mod bx) div n = ((l div bx) * n + l mod bx) div n"
        "((k div bx) * n + k mod bx) mod n = ((l div bx) * n + l mod bx) mod n"
      by simp_all
    then have "k div bx = l div bx \<and> k mod bx = l mod bx"
      using s by simp
    then show ?thesis
      by (metis div_mult_mod_eq)
  qed
  have "inj_on (\<lambda>k. (y + k div bx) * n + (x + k mod bx)) A" for A
    by (rule inj_onI) (rule key)
  then show ?thesis
    unfolding rect_eq [OF assms(1)] distinct_map by (intro conjI distinct_upt)
qed

definition cell_fits :: "map_t \<Rightarrow> map_t \<Rightarrow> u64 \<Rightarrow> nat \<Rightarrow> bool" where
  "cell_fits m build region i \<longleftrightarrow> i < length m \<and> mp_ground (m ! i) = mp_ground (hd build)
     \<and> mp_surface (m ! i) = empty \<and> mp_region (m ! i) = region"

lemma fits_loop_True: "fits_loop m build region is = Inr True \<Longrightarrow> list_all (cell_fits m build region) is"
  by (induction "is") (auto simp: cell_fits_def split: if_splits)

lemma stamp_loop_ok:
  assumes "distinct is" "length is \<le> length bs" "\<forall>i \<in> set is. i < length m"
  shows "\<exists>m'. stamp_loop m bs is = Inr m' \<and> length m' = length m
    \<and> (\<forall>i. i \<notin> set is \<longrightarrow> m' ! i = m ! i)
    \<and> (\<forall>k < length is. m' ! (is ! k) = stamp_cell (bs ! k) (m ! (is ! k)))"
  using assms
proof (induction "is" arbitrary: m bs)
  case (Cons i "is")
  obtain b cs where bs: "bs = b # cs"
    using Cons.prems(2) by (cases bs) auto
  let ?m = "m[i := stamp_cell b (m ! i)]"
  obtain m' where m': "stamp_loop ?m cs is = Inr m'" "length m' = length m" "\<forall>i. i \<notin> set is \<longrightarrow> m' ! i = ?m ! i"
      "\<forall>k < length is. m' ! (is ! k) = stamp_cell (cs ! k) (?m ! (is ! k))"
    using Cons.IH [of cs ?m] Cons.prems bs by auto
  have i: "i < length m" "i \<notin> set is"
    using Cons.prems by simp_all
  have "m' ! ((i # is) ! k) = stamp_cell (bs ! k) (m ! ((i # is) ! k))" if "k < length (i # is)" for k
  proof (cases k)
    case 0
    then show ?thesis
      using m'(3) i by (simp add: bs)
  next
    case (Suc l)
    then have "is ! l \<noteq> i"
      using that i(2) by (metis Suc_less_eq length_Cons nth_mem)
    with Suc that m'(4) show ?thesis
      by (simp add: bs)
  qed
  moreover have "m' ! j = m ! j" if "j \<notin> set (i # is)" for j
    using that m'(3) by simp
  ultimately show ?case
    using m'(1,2) i(1) by (intro exI [of _ m']) (simp add: bs)
qed simp

text \<open>The first draw that fits is taken.\<close>

lemma place_loop_ok:
  assumes "\<forall>j. k \<le> j \<and> j < k + d \<longrightarrow>
      fits_loop m build region (rect n (draw_coord n (rnd (2 * j))) (draw_coord n (rnd (2 * j + 1))) bx by) = Inr False"
    and "fits_loop m build region (rect n (draw_coord n (rnd (2 * (k + d)))) (draw_coord n (rnd (2 * (k + d) + 1))) bx by) = Inr True"
    and "d < fuel"
  shows "place_loop fuel rnd k m n build bx by region = Inr (draw_coord n (rnd (2 * (k + d))), draw_coord n (rnd (2 * (k + d) + 1)))"
  using assms
proof (induction d arbitrary: k fuel)
  case 0
  then show ?case
    by (cases fuel) (simp_all add: Let_def)
next
  case (Suc d)
  obtain f where f: "fuel = Suc f"
    using Suc.prems(3) by (cases fuel) auto
  have "place_loop f rnd (k + 1) m n build bx by region
      = Inr (draw_coord n (rnd (2 * (k + 1 + d))), draw_coord n (rnd (2 * (k + 1 + d) + 1)))"
    using Suc.prems f by (intro Suc.IH) auto
  moreover have "fits_loop m build region (rect n (draw_coord n (rnd (2 * k))) (draw_coord n (rnd (2 * k + 1))) bx by) = Inr False"
    using Suc.prems(1) by simp
  ultimately show ?case
    by (simp add: f Let_def)
qed

lemma read_build_length: "read_build fbuild = Inr (bx, by, build) \<Longrightarrow> length build = by * bx"
proof -
  have "fread_list dec k n bs = Inr (xs, rest) \<Longrightarrow> length xs = n" for dec :: "byte list \<Rightarrow> map_point_t res" and k n bs xs rest
    by (induction n arbitrary: bs xs rest) (auto simp: rbind_eq_Inr)
  then show "read_build fbuild = Inr (bx, by, build) \<Longrightarrow> length build = by * bx"
    by (auto simp: read_build_def rbind_eq_Inr)
qed

lemma drop_overwrite: "length old \<le> length new \<Longrightarrow> drop (length new) (overwrite old new) = []"
  by (simp add: overwrite_def)

lemma read_map_Nil: "read_map [] = Inl Uninitialised"
  by (simp add: read_map_def fread_size_def fread_def)

text \<open>Every building the command line adds is the same one.\<close>

lemma build_args_same:
  "length arg2 < 255 \<Longrightarrow> second_token arg2 = Some t \<Longrightarrow>
    build_args arg2 k = Inr (if t = of_str ''build'' then replicate k arg2 else [])"
  by (induction k) (simp_all add: str_cat_def)

section \<open>Properties\<close>

text \<open>
  C30. \<open>add_on_map\<close> takes the first place drawn where every cell of the building lies on its
  ground, in the chosen region and under no other building, and changes there the surface
  and the name only; the file then holds the old buildings, the new one and the new map.
  The offsets of the cells are not checked against the side of the map, so a building may
  be torn over the edge.  The file is left at its end, so that the next building of the same
  run finds nothing to read.
\<close>

theorem add_on_map_places:
  assumes "map_writable blds n m" and "f_data fmap = write_map blds n m" and "f_pos fmap = 0"
    and "read_build fbuild = Inr (bx, by, build)" and "0 < bx" and "bx \<le> n" and "0 < by"
    and "list_all point_writable build" and "length blds + 1 < 2 ^ 64" and "bx < 2 ^ 64" and "by < 2 ^ 64"
    and "x = draw_coord n (rnd (2 * k))" and "y = draw_coord n (rnd (2 * k + 1))" and "k < fuel"
    and "fits_loop m build region (rect n x y bx by) = Inr True"
    and "\<forall>j < k. fits_loop m build region (rect n (draw_coord n (rnd (2 * j))) (draw_coord n (rnd (2 * j + 1))) bx by) = Inr False"
  shows "\<exists>f new m'. add_on_map fuel rnd region fmap fbuild = Inr f
    \<and> read_map (f_data f) = Inr (blds @ [new], n, m')
    \<and> b_size_x new = bx \<and> b_size_y new = by \<and> b_point new = m' ! (y * n + x)
    \<and> (\<forall>i. i \<notin> set (rect n x y bx by) \<longrightarrow> m' ! i = m ! i)
    \<and> (\<forall>d < by * bx. let i = (y + d div bx) * n + (x + d mod bx) in
          cell_fits m build region i \<and> m' ! i = stamp_cell (build ! d) (m ! i))
    \<and> add_on_map fuel rnd region f fbuild = Inl Uninitialised"
proof -
  let ?r = "rect n x y bx by"
  have build: "length build = by * bx"
    using read_build_length [OF assms(4)] .
  have fit: "list_all (cell_fits m build region) ?r"
    by (rule fits_loop_True [OF assms(15)])
  have len: "length ?r = by * bx" and nth: "?r ! d = (y + d div bx) * n + (x + d mod bx)" if "d < by * bx" for d
    using that by (simp_all add: rect_eq [OF assms(5)])
  have lenr: "length ?r = by * bx"
    by (simp add: rect_eq [OF assms(5)])
  obtain m' where m': "stamp_loop m build ?r = Inr m'" "length m' = length m" "\<forall>i. i \<notin> set ?r \<longrightarrow> m' ! i = m ! i"
      "\<forall>d < length ?r. m' ! (?r ! d) = stamp_cell (build ! d) (m ! (?r ! d))"
    using stamp_loop_ok [OF rect_distinct [OF assms(5,6)], of x y "by" build m] fit build lenr
    by (auto simp: list_all_iff cell_fits_def)
  have pos: "0 < by * bx"
    using assms(5,7) by simp
  then have "cell_fits m build region (?r ! 0)"
    using fit lenr by (simp add: list_all_length)
  then have i0: "y * n + x < length m"
    using nth [OF pos] by (simp add: cell_fits_def)
  define new where "new = \<lparr>b_point = m' ! (y * n + x), b_size_x = bx, b_size_y = by\<rparr>"
  have pw: "point_writable (m' ! i)" if "i < length m" for i
  proof (cases "i \<in> set ?r")
    case False
    then show ?thesis
      using m'(3) assms(1) that by (simp add: map_writable_def list_all_length)
  next
    case True
    then obtain d where d: "d < length ?r" "i = ?r ! d"
      by (auto simp: in_set_conv_nth)
    then have "point_writable (m ! i)" "point_writable (build ! d)"
      using assms(1,8) that build lenr by (simp_all add: map_writable_def list_all_length)
    with d m'(4) show ?thesis
      by (simp add: stamp_cell_def point_writable_def)
  qed
  have "building_writable new" "list_all point_writable m'"
    using assms(10,11) m'(2) pw i0 by (simp_all add: list_all_length building_writable_def new_def)
  then have wr: "map_writable (blds @ [new]) n m'"
    using assms(1,9) m'(2) by (simp add: map_writable_def)
  define out where "out = write_map (blds @ [new]) n m'"
  define f where "f = \<lparr>f_data = overwrite (f_data fmap) out, f_pos = length out\<rparr>"
  have "place_loop fuel rnd 0 m n build bx by region = Inr (x, y)"
    using place_loop_ok [of 0 k m build region n rnd bx "by" fuel] assms(12-16) by simp
  moreover have "read_map (drop (f_pos fmap) (f_data fmap)) = Inr (blds, n, m)"
    using read_write_map [OF assms(1), of "[]"] assms(2,3) by simp
  ultimately have "add_on_map fuel rnd region fmap fbuild = Inr f"
    using assms(4) m'(1,2) i0 by (simp add: add_on_map_def new_def f_def out_def Let_def)
  moreover have "read_map (f_data f) = Inr (blds @ [new], n, m')"
    using read_write_map [OF wr] by (simp add: f_def out_def overwrite_def)
  moreover have "length (f_data fmap) \<le> length out"
    using m'(2) by (simp add: assms(2) out_def length_write_map)
  then have "add_on_map fuel rnd region f fbuild = Inl Uninitialised"
    using assms(4) by (simp add: add_on_map_def f_def drop_overwrite read_map_Nil)
  moreover have "let i = (y + d div bx) * n + (x + d mod bx) in
      cell_fits m build region i \<and> m' ! i = stamp_cell (build ! d) (m ! i)" if "d < by * bx" for d
    using fit m'(4) nth [OF that] lenr that by (auto simp: list_all_length Let_def)
  ultimately show ?thesis
    using m'(3) by (intro exI [of _ f] exI [of _ new] exI [of _ m']) (simp add: new_def)
qed

text \<open>A map of three by three cells of soil in one region, and a wall of two cells drawn at its right edge.\<close>

definition soil_map :: map_t where
  "soil_map = map (\<lambda>i. \<lparr>mp_x = int (i mod 3), mp_y = int (i div 3), mp_ground = soil, mp_surface = empty,
     mp_child_type = nothing, mp_child = None, mp_name_id = 0, mp_region = 0\<rparr>) [0..<9]"

definition wall_build :: map_t where
  "wall_build = map (\<lambda>i. \<lparr>mp_x = int i, mp_y = 0, mp_ground = soil, mp_surface = wall,
     mp_child_type = nothing, mp_child = None, mp_name_id = 7, mp_region = 0\<rparr>) [0..<2]"

lemma add_on_map_places_witness:
  "\<exists>f new m'. add_on_map 1 (\<lambda>j. if j = 0 then RAND_MAX else 0) 0 \<lparr>f_data = write_map [] 3 soil_map, f_pos = 0\<rparr>
      (le_bytes 8 2 @ le_bytes 8 1 @ concat (map point_bytes wall_build)) = Inr f
    \<and> read_map (f_data f) = Inr ([new], 3, m') \<and> mp_surface (m' ! 3) = wall \<and> mp_surface (m' ! 4) = wall
    \<and> mp_surface (m' ! 2) = empty"
proof -
  let ?rnd = "\<lambda>j :: nat. if j = 0 then RAND_MAX else 0"
  let ?f = "\<lparr>f_data = write_map [] 3 soil_map, f_pos = 0\<rparr>"
  let ?b = "le_bytes 8 2 @ le_bytes 8 1 @ concat (map point_bytes wall_build)"
  have w: "map_writable [] 3 soil_map" "list_all point_writable wall_build"
  proof -
    have "list_all point_writable soil_map" "list_all point_writable wall_build"
      by code_simp+
    then show "map_writable [] 3 soil_map" "list_all point_writable wall_build"
      by (simp_all add: map_writable_def soil_map_def)
  qed
  have "list_all (\<lambda>p. length (point_bytes p) = 40 \<and> point_of_bytes (point_bytes p) = Inr p) wall_build"
    using w(2) by (auto simp: list_all_iff point_of_point_bytes)
  from fread_list_append [OF this, of "[]"] have rb: "read_build ?b = Inr (2, 1, wall_build)"
    by (simp add: read_build_def fread_size_append wall_build_def)
  have d: "draw_coord 3 (?rnd (2 * 0)) = 3" "draw_coord 3 (?rnd (2 * 0 + 1)) = 0"
    by (simp_all add: draw_coord_def RAND_MAX_def)
  have r: "rect 3 3 0 2 1 = [3, 4]" "fits_loop soil_map wall_build 0 [3, 4] = Inr True"
      "map mp_surface (map (\<lambda>i. stamp_cell (wall_build ! i) (soil_map ! (3 + i))) [0, 1]) = [wall, wall]"
      "mp_surface (soil_map ! 2) = empty"
    by code_simp+
  have a: "write_map [] 3 soil_map = f_data ?f" "f_pos ?f = 0" "(2 :: nat) \<le> 3" "(0 :: nat) < 1"
    by simp_all
  obtain f new m' where f: "add_on_map 1 ?rnd 0 ?f ?b = Inr f" "read_map (f_data f) = Inr ([] @ [new], 3, m')"
      "\<forall>i. i \<notin> set (rect 3 3 0 2 1) \<longrightarrow> m' ! i = soil_map ! i"
      "\<forall>e < 1 * 2. let i = (0 + e div 2) * 3 + (3 + e mod 2) in
          cell_fits soil_map wall_build 0 i \<and> m' ! i = stamp_cell (wall_build ! e) (soil_map ! i)"
    using add_on_map_places [OF w(1) a(1) [symmetric] a(2) rb _ a(3,4) w(2), of 3 ?rnd 0 0 1 0] d r(1,2) by auto
  have "m' ! 3 = stamp_cell (wall_build ! 0) (soil_map ! (3 + 0))" "m' ! 4 = stamp_cell (wall_build ! 1) (soil_map ! (3 + 1))"
    using f(4) [rule_format, of 0] f(4) [rule_format, of 1] by (simp_all add: Let_def)
  moreover have "2 \<notin> set (rect 3 3 0 2 1)"
    unfolding r(1) by simp
  then have "m' ! 2 = soil_map ! 2"
    using f(3) by blast
  ultimately show ?thesis
    using f(1,2) r(3,4) by (intro exI [of _ f] exI [of _ new] exI [of _ m']) simp
qed

end
