(* ===== verification/GameStart.thy ===== *)
theory GameStart
  imports TickInv BuildGen
begin

text \<open>
  Loading the map, sorting the buildings and the loop of the game thread
  (\<open>game_init\<close>, \<open>game_start\<close> and the getters of \<open>game_processing/game_main.c\<close>).
\<close>

section \<open>State\<close>

text \<open>A \<open>union_buildings_t\<close> is the list of its buildings.\<close>

record main_t =
  mn_game :: game_t
  mn_buildings :: "building_t list"
  mn_barracks :: "building_t list"
  mn_smithies :: "building_t list"
  mn_markets :: "building_t list"
  mn_taverns :: "building_t list"
  mn_academies :: "building_t list"

definition BUILDING_TYPE_OFFSET :: int where "BUILDING_TYPE_OFFSET = 10"

section \<open>Loading\<close>

text \<open>
  \<open>map_name\<close> is null, or what \<open>fopen\<close> gives for it: nothing, or the content of the file.
\<close>

definition game_init :: "main_t \<Rightarrow> byte list option option \<Rightarrow> (bool \<times> main_t) res" where
  "game_init s map_name = (case map_name of
     None \<Rightarrow> Inr (False, s)
   | Some None \<Rightarrow> Inr (False, s)
   | Some (Some fmap) \<Rightarrow>
       rbind (read_map fmap) (\<lambda>(buildings, msize_x, m).
         Inr (True, s\<lparr>mn_buildings := buildings,
           mn_game := (mn_game s)\<lparr>g_world := (g_world (mn_game s))\<lparr>w_map := m, w_msize_x := msize_x, w_msize_y := msize_x\<rparr>\<rparr>\<rparr>)))"

text \<open>Division of C: towards zero.\<close>

definition div_trunc :: "int \<Rightarrow> int \<Rightarrow> int" where
  "div_trunc a b = (if a < 0 then - ((- a) div b) else a div b)"

definition building_kind :: "building_t \<Rightarrow> int" where
  "building_kind b = div_trunc (mp_name_id (b_point b)) BUILDING_TYPE_OFFSET"

fun sort_buildings :: "building_t list \<Rightarrow> main_t \<Rightarrow> main_t" where
  "sort_buildings [] s = s"
| "sort_buildings (b # bs) s = sort_buildings bs
     (if building_kind b = 0 then s\<lparr>mn_barracks := mn_barracks s @ [b]\<rparr>
      else if building_kind b = 1 then s\<lparr>mn_smithies := mn_smithies s @ [b]\<rparr>
      else if building_kind b = 2 then s\<lparr>mn_markets := mn_markets s @ [b]\<rparr>
      else if building_kind b = 3 then s\<lparr>mn_taverns := mn_taverns s @ [b]\<rparr>
      else if building_kind b = 4 then s\<lparr>mn_academies := mn_academies s @ [b]\<rparr>
      else s)"

text \<open>\<open>while (!*is_stopped) game_tick();\<close> for the readings of \<open>*is_stopped\<close>, up to the first that is true.\<close>

fun game_loop :: "msg_t \<Rightarrow> byte list \<Rightarrow> tick_t list \<Rightarrow> game_t \<Rightarrow> game_t res" where
  "game_loop fresh junk [] g = Inr g"
| "game_loop fresh junk (tk # tks) g =
     rbind (game_tick (nat (cs_count (w_characters (g_world g))) + 1) fresh junk tk g) (game_loop fresh junk tks)"

text \<open>\<open>characters.count = 0\<close>; the array stays.\<close>

definition clear_characters :: "game_t \<Rightarrow> game_t" where
  "clear_characters g = g\<lparr>g_world := (g_world g)\<lparr>w_characters := (w_characters (g_world g))\<lparr>cs_count := 0\<rparr>\<rparr>\<rparr>"

definition game_start :: "msg_t \<Rightarrow> byte list \<Rightarrow> tick_t list \<Rightarrow> main_t \<Rightarrow> main_t res" where
  "game_start fresh junk tks s =
     (let s = sort_buildings (mn_buildings s) s in
      rbind (game_loop fresh junk tks (clear_characters (mn_game s))) (\<lambda>g. Inr (s\<lparr>mn_game := g\<rparr>)))"

definition game_get_characters :: "main_t \<Rightarrow> characters_t" where
  "game_get_characters s = w_characters (g_world (mn_game s))"

definition game_get_character_index_tick :: "main_t \<Rightarrow> int" where
  "game_get_character_index_tick s = w_index_tick (g_world (mn_game s))"

definition game_get_msize_x :: "main_t \<Rightarrow> nat" where
  "game_get_msize_x s = w_msize_x (g_world (mn_game s))"

definition game_get_msize_y :: "main_t \<Rightarrow> nat" where
  "game_get_msize_y s = w_msize_y (g_world (mn_game s))"

definition game_get_map :: "main_t \<Rightarrow> map_t" where
  "game_get_map s = w_map (g_world (mn_game s))"

section \<open>Lemmas\<close>

lemma sort_buildings_spec:
  "mn_barracks (sort_buildings bs s) = mn_barracks s @ filter (\<lambda>b. building_kind b = 0) bs"
  "mn_smithies (sort_buildings bs s) = mn_smithies s @ filter (\<lambda>b. building_kind b = 1) bs"
  "mn_markets (sort_buildings bs s) = mn_markets s @ filter (\<lambda>b. building_kind b = 2) bs"
  "mn_taverns (sort_buildings bs s) = mn_taverns s @ filter (\<lambda>b. building_kind b = 3) bs"
  "mn_academies (sort_buildings bs s) = mn_academies s @ filter (\<lambda>b. building_kind b = 4) bs"
  "mn_game (sort_buildings bs s) = mn_game s"
  by (induction bs s rule: sort_buildings.induct) simp_all

lemma game_loop_ok:
  assumes "world_inv (g_world g)" "q_inv (g_out g)" "msg_wf fresh" "length junk = NAME_LEN"
    "length (online_text (g_world g)) < BODY_LEN"
  shows "\<exists>g'. game_loop fresh junk tks g = Inr g' \<and> world_inv (g_world g') \<and> q_inv (g_out g')"
  using assms
proof (induction tks arbitrary: g)
  case (Cons tk tks)
  obtain g1 where "game_tick (nat (cs_count (w_characters (g_world g))) + 1) fresh junk tk g = Inr g1"
      "world_inv (g_world g1)" "q_inv (g_out g1)" "online_text (g_world g1) = online_text (g_world g)"
    using game_tick_ok [OF Cons.prems, of _ tk] by (metis less_add_one)
  with Cons.IH [of g1] Cons.prems(3-5) show ?case
    by simp
qed auto

text \<open>Where a generated map can be walked on.\<close>

lemma cell_ground_inland:
  assumes "cell_ground n n water 10 sites k x y = Inr g" "walkable g" "x < n" "y < n"
  shows "inland (int x) (int y) n n"
proof -
  have "\<not> (y < 10 \<or> y > n - 10 \<or> x < 10 \<or> x > n - 10)"
    using assms(1,2) by (auto simp: cell_ground_def walkable_iff(2))
  then show ?thesis
    using assms(3,4) by (auto simp: inland_def)
qed

lemma generated_map:
  assumes "1 \<le> factor" "4 \<le> n" "n < 2 ^ 15" "n * n \<le> q_quota b" "n * n \<le> fuel" "13 \<le> fuel"
    "\<forall>i < n * n. mp_child (junk ! i) = None \<and> i32_range (mp_name_id (junk ! i))"
  shows "\<exists>m. map_to_file fuel (Some b) junk rnd factor n n = Inr \<lparr>f_data = write_map [] n m, f_pos = length (write_map [] n m)\<rparr>
    \<and> map_generation fuel (Some b) junk rnd factor n n water 10 = Inr m
    \<and> map_writable [] n m \<and> shore_ok n n m \<and> list_all (\<lambda>q. mp_child q = None) m"
proof -
  have "n * n < 2 ^ 15 * 2 ^ 15"
    using assms(3) by (intro mult_strict_mono) simp_all
  then have nn: "n * n < 2 ^ 31"
    by simp
  obtain m sites where m: "map_generation fuel (Some b) junk rnd factor n n water 10 = Inr m" "grid_ok n n m"
      "\<forall>i < n * n. mp_surface (m ! i) = empty \<and> mp_child_type (m ! i) = nothing
        \<and> mp_child (m ! i) = mp_child (junk ! i) \<and> mp_name_id (m ! i) = mp_name_id (junk ! i)
        \<and> cell_ground n n water 10 sites (factor * GROUND_TYPE_CNT) (i mod n) (i div n) = Inr (mp_ground (m ! i))"
    using map_generation_ok [OF assms(1,2,2) nn assms(4-6)] by blast
  note g = grid_okD [OF m(2)]
  have xy: "i mod n < n" "i div n < n" if "i < n * n" for i
    using that assms(2) by (simp_all add: less_mult_imp_div_less)
  have "inland (int (i mod n)) (int (i div n)) n n" if "i < n * n" "walkable (mp_ground (m ! i))" for i
    using m(3) that xy [OF that(1)]
    by (intro cell_ground_inland [of n sites "factor * GROUND_TYPE_CNT" "i mod n" "i div n" "mp_ground (m ! i)"]) auto
  then have "shore_ok n n m"
    by (simp add: shore_ok_def list_all_iff g(1))
  moreover have "list_all (\<lambda>q. mp_child q = None) m"
    using m(3) assms(7) by (simp add: list_all_length g(1))
  moreover have "i32_range (int (i mod n))" "i32_range (int (i div n))" if "i < n * n" for i
  proof -
    have "i mod n < 2 ^ 15" "i div n < 2 ^ 15"
      using xy [OF that] assms(3) by linarith+
    then show "i32_range (int (i mod n))" "i32_range (int (i div n))"
      by (simp_all add: i32_range_def)
  qed
  then have "list_all point_writable m"
    using m(3) assms(7) g by (simp add: list_all_length point_writable_def)
  then have "map_writable [] n m"
    using g(1) assms(3) by (simp add: map_writable_def)
  ultimately show ?thesis
    using m(1) by (intro exI [of _ m]) (simp add: map_to_file_def Let_def)
qed

section \<open>Properties\<close>


definition blank_game :: main_t where
  "blank_game = \<lparr>mn_game = sample_game\<lparr>g_world := (g_world sample_game)\<lparr>w_characters := \<lparr>cs_arr = [], cs_count = 0\<rparr>, w_chars := []\<rparr>\<rparr>,
     mn_buildings = [], mn_barracks = [], mn_smithies = [], mn_markets = [], mn_taverns = [], mn_academies = []\<rparr>"


text \<open>
  \<open>game_start\<close> gives every building, in order, to the list of its kind, which is its name
  divided by ten towards zero (names with a negative kind or one above four are in no
  list), and then ticks as often as it is let, from an empty table: the world stays valid.
\<close>

theorem game_start_sorts:
  assumes "world_inv (g_world (clear_characters (mn_game s)))" and "q_inv (g_out (mn_game s))"
    and "msg_wf fresh" and "length junk = NAME_LEN"
    and "mn_barracks s = []" and "mn_smithies s = []" and "mn_markets s = []" and "mn_taverns s = []" and "mn_academies s = []"
  shows "\<exists>s'. game_start fresh junk tks s = Inr s'
    \<and> mn_barracks s' = filter (\<lambda>b. building_kind b = 0) (mn_buildings s)
    \<and> mn_smithies s' = filter (\<lambda>b. building_kind b = 1) (mn_buildings s)
    \<and> mn_markets s' = filter (\<lambda>b. building_kind b = 2) (mn_buildings s)
    \<and> mn_taverns s' = filter (\<lambda>b. building_kind b = 3) (mn_buildings s)
    \<and> mn_academies s' = filter (\<lambda>b. building_kind b = 4) (mn_buildings s)
    \<and> world_inv (g_world (mn_game s'))"
proof -
  have "online_text (g_world (clear_characters (mn_game s))) = []"
    by (simp add: online_text_def used_entries_def clear_characters_def)
  then obtain g where "game_loop fresh junk tks (clear_characters (mn_game s)) = Inr g" "world_inv (g_world g)"
    using game_loop_ok [of "clear_characters (mn_game s)" fresh junk tks] assms(1-4)
    by (auto simp: clear_characters_def BODY_LEN_def)
  then show ?thesis
    using assms(5-9) by (simp add: game_start_def sort_buildings_spec Let_def)
qed

lemma game_start_sorts_witness:
  "\<exists>s'. game_start sample_msg (replicate 128 1) [\<lparr>tk_now = \<lambda>_. 9, tk_then = \<lambda>_. 9, tk_rand = \<lambda>_. 1\<rparr>]
      (blank_game\<lparr>mn_game := island_game,
         mn_buildings := [\<lparr>b_point = (sample_cell 3)\<lparr>mp_name_id := 24\<rparr>, b_size_x = 2, b_size_y = 1\<rparr>]\<rparr>) = Inr s'
    \<and> length (mn_markets s') = 1 \<and> mn_barracks s' = []"
proof -
  let ?s = "blank_game\<lparr>mn_game := island_game,
         mn_buildings := [\<lparr>b_point = (sample_cell 3)\<lparr>mp_name_id := 24\<rparr>, b_size_x = 2, b_size_y = 1\<rparr>]\<rparr>"
  have c: "world_inv (g_world (clear_characters (mn_game ?s)))"
    using island_game_inv(1)
    by (auto simp: world_inv_def clear_characters_def table_live_def addrs_live_def child_ok_def island_game_def
        island_cell_def sample_cell_def list_all_iff)
  have r: "q_inv (g_out (mn_game ?s))" "length (replicate 128 (1 :: byte)) = NAME_LEN"
      "mn_barracks ?s = []" "mn_smithies ?s = []" "mn_markets ?s = []" "mn_taverns ?s = []" "mn_academies ?s = []"
    using island_game_inv(3) by (simp_all add: NAME_LEN_def blank_game_def)
  from game_start_sorts [OF c r(1) sample_game_ok(8) r(2-7), of "[\<lparr>tk_now = \<lambda>_. 9, tk_then = \<lambda>_. 9, tk_rand = \<lambda>_. 1\<rparr>]"]
  show ?thesis
    by (auto simp: building_kind_def div_trunc_def BUILDING_TYPE_OFFSET_def)
qed

end
