(* ===== verification/RedBlack.thy ===== *)
theory RedBlack
  imports TmmoPrelude
begin

text \<open>
  The red-black trees of the key-value store (\<open>data_base/dist/sglib-1.0.4/sglib.h\<close>, the
  macros that \<open>SGLIB_DEFINE_RBTREE_FUNCTIONS\<close> instantiates): insertion, deletion, search and
  the checks of the representation.  A node is its payload (the C struct without the links),
  its colour bit and its two sons; a \<open>type **tree\<close> is the subtree it points to, returned
  updated.  The comparator is an argument, as it is of the macros, and so is the address of an
  element, which breaks the ties between equal elements.
\<close>

section \<open>Nodes\<close>

datatype colour = BLACK | RED

datatype 'a tree = TNull | TNode 'a colour "'a tree" "'a tree"

text \<open>The macros take the names of the two links, so that each serves both sides.\<close>

datatype side = SLeft | SRight

fun opp :: "side \<Rightarrow> side" where
  "opp SLeft = SRight"
| "opp SRight = SLeft"

fun kid :: "side \<Rightarrow> 'a tree \<Rightarrow> 'a tree" where
  "kid _ TNull = TNull"
| "kid SLeft (TNode x c l r) = l"
| "kid SRight (TNode x c l r) = r"

fun mk :: "side \<Rightarrow> 'a \<Rightarrow> colour \<Rightarrow> 'a tree \<Rightarrow> 'a tree \<Rightarrow> 'a tree" where
  "mk SLeft x c this other = TNode x c this other"
| "mk SRight x c this other = TNode x c other this"

fun paint :: "colour \<Rightarrow> 'a tree \<Rightarrow> 'a tree" where
  "paint c TNull = TNull"
| "paint c (TNode x _ l r) = TNode x c l r"

text \<open>\<open>t != NULL && t->bits == RED\<close> and \<open>t == NULL || t->bits == BLACK\<close>.\<close>

fun red :: "'a tree \<Rightarrow> bool" where
  "red TNull = False"
| "red (TNode _ c _ _) = (c = RED)"

abbreviation null_or_black :: "'a tree \<Rightarrow> bool" where
  "null_or_black t \<equiv> \<not> red t"

section \<open>Repairs\<close>

definition fix_insertion_discrepancy :: "side \<Rightarrow> 'a tree \<Rightarrow> 'a tree res" where
  "fix_insertion_discrepancy leftt t =
     (let tl = kid leftt t; tr = kid (opp leftt) t in
      case t of TNull \<Rightarrow> Inl NullDeref | TNode a _ _ _ \<Rightarrow>
      case tl of TNull \<Rightarrow> Inl NullDeref | TNode b tl_bits _ _ \<Rightarrow>
      let bl = kid leftt tl; br = kid (opp leftt) tl in
      if red tr then
        if tl_bits = RED \<and> (red bl \<or> red br)
        then Inr (mk leftt a RED (paint BLACK tl) (paint BLACK tr))
        else Inr t
      else if tl_bits = RED then
        if red bl then Inr (mk leftt b BLACK bl (mk leftt a RED br tr))
        else (case br of
            TNode c RED _ _ \<Rightarrow>
              let cl = kid leftt br; cr = kid (opp leftt) br in
              Inr (mk leftt c BLACK (mk leftt b tl_bits bl cl) (mk leftt a RED cr tr))
          | _ \<Rightarrow> Inr t)
      else Inr t)"

text \<open>
  The decreased subtree is at \<open>rightt\<close>.  The Boolean is \<open>res\<close>: the whole tree has lost a
  black level.
\<close>

definition fix_deletion_discrepancy :: "side \<Rightarrow> 'a tree \<Rightarrow> ('a tree \<times> bool) res" where
  "fix_deletion_discrepancy leftt t =
     (let b_t = kid leftt t; ar = kid (opp leftt) t in
      case t of TNull \<Rightarrow> Inl AssertFail | TNode a a_bits _ _ \<Rightarrow>
      case b_t of
        TNull \<Rightarrow> if a_bits = RED then Inr (paint BLACK t, False) else Inl AssertFail
      | TNode b b_bits _ _ \<Rightarrow>
        let bl = kid leftt b_t; br = kid (opp leftt) b_t in
        if b_bits = RED then
          (case br of
             TNull \<Rightarrow> Inr (mk leftt b BLACK bl (mk leftt a a_bits br ar), False)
           | TNode c c_bits _ _ \<Rightarrow>
             let cl = kid leftt br; cr = kid (opp leftt) br in
             if c_bits \<noteq> BLACK then Inl AssertFail
             else if null_or_black cl \<and> null_or_black cr
             then Inr (mk leftt b BLACK bl (mk leftt a a_bits (paint RED br) ar), False)
             else (case cr of
                 TNode d RED _ _ \<Rightarrow>
                   let dl = kid leftt cr; dr = kid (opp leftt) cr in
                   Inr (mk leftt d BLACK (mk leftt b b_bits bl (mk leftt c c_bits cl dl))
                                         (mk leftt a a_bits dr ar), False)
               | _ \<Rightarrow>
                   Inr (mk leftt c c_bits (mk leftt b b_bits bl (paint BLACK cl))
                                          (mk leftt a a_bits cr ar), False)))
        else if null_or_black bl \<and> null_or_black br
        then Inr (mk leftt a BLACK (paint RED b_t) ar, a_bits = BLACK)
        else if red bl \<and> null_or_black br
        then Inr (mk leftt b a_bits (paint BLACK bl) (mk leftt a BLACK br ar), False)
        else (case br of
            TNode c RED _ _ \<Rightarrow>
              let cl = kid leftt br; cr = kid (opp leftt) br in
              Inr (mk leftt c a_bits (mk leftt b b_bits bl cl) (mk leftt a BLACK cr ar), False)
          | _ \<Rightarrow> Inl AssertFail))"

section \<open>The order of the elements\<close>

definition elem_less :: "('a \<Rightarrow> 'a \<Rightarrow> int) \<Rightarrow> ('a \<Rightarrow> nat) \<Rightarrow> 'a \<Rightarrow> 'a \<Rightarrow> bool" where
  "elem_less comparator addr e t = (comparator e t < 0 \<or> (comparator e t = 0 \<and> addr e < addr t))"

definition elem_greater :: "('a \<Rightarrow> 'a \<Rightarrow> int) \<Rightarrow> ('a \<Rightarrow> nat) \<Rightarrow> 'a \<Rightarrow> 'a \<Rightarrow> bool" where
  "elem_greater comparator addr e t = (comparator e t > 0 \<or> (comparator e t = 0 \<and> addr e > addr t))"

section \<open>Insertion\<close>

fun add_recursive :: "('a \<Rightarrow> 'a \<Rightarrow> int) \<Rightarrow> ('a \<Rightarrow> nat) \<Rightarrow> 'a tree \<Rightarrow> 'a \<Rightarrow> 'a tree res" where
  "add_recursive comparator addr TNull e = Inr (TNode e RED TNull TNull)"
| "add_recursive comparator addr (TNode x c l r) e =
     (if elem_less comparator addr e x then
        rbind (add_recursive comparator addr l e) (\<lambda>l.
          if c = BLACK then fix_insertion_discrepancy SLeft (TNode x c l r)
          else Inr (TNode x c l r))
      else
        rbind (add_recursive comparator addr r e) (\<lambda>r.
          if c = BLACK then fix_insertion_discrepancy SRight (TNode x c l r)
          else Inr (TNode x c l r)))"

definition sglib_add :: "('a \<Rightarrow> 'a \<Rightarrow> int) \<Rightarrow> ('a \<Rightarrow> nat) \<Rightarrow> 'a tree \<Rightarrow> 'a \<Rightarrow> 'a tree res" where
  "sglib_add comparator addr tree e =
     rbind (add_recursive comparator addr tree e) (\<lambda>tree.
       if tree = TNull then Inl NullDeref else Inr (paint BLACK tree))"

section \<open>Deletion\<close>

fun delete_rightmost_leaf :: "'a tree \<Rightarrow> ('a tree \<times> bool \<times> 'a) res" where
  "delete_rightmost_leaf TNull = Inl AssertFail"
| "delete_rightmost_leaf (TNode x c l r) =
     (if r = TNull then
        if l \<noteq> TNull then Inr (paint BLACK l, c = BLACK \<and> \<not> red l, x)
        else Inr (TNull, c = BLACK, x)
      else
        rbind (delete_rightmost_leaf r) (\<lambda>(r, deep_decreased, leaf).
          if deep_decreased
          then rbind (fix_deletion_discrepancy SLeft (TNode x c l r)) (\<lambda>(t, res). Inr (t, res, leaf))
          else Inr (TNode x c l r, False, leaf)))"

fun delete_recursive ::
  "('a \<Rightarrow> 'a \<Rightarrow> int) \<Rightarrow> ('a \<Rightarrow> nat) \<Rightarrow> 'a tree \<Rightarrow> 'a \<Rightarrow> ('a tree \<times> bool) res" where
  "delete_recursive comparator addr TNull e = Inl AssertFail"
| "delete_recursive comparator addr (TNode x c l r) e =
     (if elem_less comparator addr e x then
        rbind (delete_recursive comparator addr l e) (\<lambda>(l, deep_decreased).
          if deep_decreased then fix_deletion_discrepancy SRight (TNode x c l r)
          else Inr (TNode x c l r, False))
      else if elem_greater comparator addr e x then
        rbind (delete_recursive comparator addr r e) (\<lambda>(r, deep_decreased).
          if deep_decreased then fix_deletion_discrepancy SLeft (TNode x c l r)
          else Inr (TNode x c l r, False))
      else if addr e \<noteq> addr x then Inl AssertFail
      else if l = TNull then
        if r = TNull then Inr (TNull, c = BLACK)
        else Inr (paint BLACK r, c = BLACK \<and> \<not> red r)
      else
        rbind (delete_rightmost_leaf l) (\<lambda>(l, deep_decreased, leaf).
          if deep_decreased then fix_deletion_discrepancy SRight (TNode leaf c l r)
          else Inr (TNode leaf c l r, False)))"

definition sglib_delete :: "('a \<Rightarrow> 'a \<Rightarrow> int) \<Rightarrow> ('a \<Rightarrow> nat) \<Rightarrow> 'a tree \<Rightarrow> 'a \<Rightarrow> 'a tree res" where
  "sglib_delete comparator addr tree e =
     rbind (delete_recursive comparator addr tree e) (\<lambda>(tree, _).
       Inr (if tree \<noteq> TNull then paint BLACK tree else tree))"

section \<open>Search\<close>

text \<open>The macro \<open>SGLIB___BIN_TREE_FIND_MEMBER\<close>; the result is the subtree at the node found.\<close>

fun bin_tree_find_member :: "('a \<Rightarrow> 'a \<Rightarrow> int) \<Rightarrow> 'a tree \<Rightarrow> 'a \<Rightarrow> 'a tree" where
  "bin_tree_find_member comparator TNull e = TNull"
| "bin_tree_find_member comparator (TNode x c l r) e =
     (if comparator e x < 0 then bin_tree_find_member comparator l e
      else if comparator e x > 0 then bin_tree_find_member comparator r e
      else TNode x c l r)"

definition sglib_find_member :: "('a \<Rightarrow> 'a \<Rightarrow> int) \<Rightarrow> 'a tree \<Rightarrow> 'a \<Rightarrow> 'a option" where
  "sglib_find_member comparator t e = (case bin_tree_find_member comparator t e of
     TNull \<Rightarrow> None | TNode x _ _ _ \<Rightarrow> Some x)"

fun sglib_is_member :: "('a \<Rightarrow> 'a \<Rightarrow> int) \<Rightarrow> ('a \<Rightarrow> nat) \<Rightarrow> 'a tree \<Rightarrow> 'a \<Rightarrow> bool res" where
  "sglib_is_member comparator addr TNull e = Inr False"
| "sglib_is_member comparator addr (TNode x c l r) e =
     (if elem_less comparator addr e x then sglib_is_member comparator addr l e
      else if elem_greater comparator addr e x then sglib_is_member comparator addr r e
      else if addr x = addr e then Inr True else Inl AssertFail)"

definition sglib_delete_if_member ::
  "('a \<Rightarrow> 'a \<Rightarrow> int) \<Rightarrow> ('a \<Rightarrow> nat) \<Rightarrow> 'a tree \<Rightarrow> 'a \<Rightarrow> ('a tree \<times> 'a option) res" where
  "sglib_delete_if_member comparator addr tree e =
     (case sglib_find_member comparator tree e of
        Some memb \<Rightarrow> rbind (sglib_delete comparator addr tree memb) (\<lambda>tree. Inr (tree, Some memb))
      | None \<Rightarrow> Inr (tree, None))"

definition sglib_add_if_not_member ::
  "('a \<Rightarrow> 'a \<Rightarrow> int) \<Rightarrow> ('a \<Rightarrow> nat) \<Rightarrow> 'a tree \<Rightarrow> 'a \<Rightarrow> ('a tree \<times> 'a option) res" where
  "sglib_add_if_not_member comparator addr tree e =
     (case sglib_find_member comparator tree e of
        None \<Rightarrow> rbind (sglib_add comparator addr tree e) (\<lambda>tree. Inr (tree, None))
      | Some memb \<Rightarrow> Inr (tree, Some memb))"

section \<open>The consistency check\<close>

fun consistency_check_recursive ::
  "('a \<Rightarrow> 'a \<Rightarrow> int) \<Rightarrow> 'a tree \<Rightarrow> int \<Rightarrow> int \<Rightarrow> int res" where
  "consistency_check_recursive comparator TNull path_deep cdeep =
     (if path_deep < 0 then Inr cdeep
      else if path_deep = cdeep then Inr path_deep else Inl AssertFail)"
| "consistency_check_recursive comparator (TNode x c l r) path_deep cdeep =
     (if (case l of TNull \<Rightarrow> False | TNode y _ _ _ \<Rightarrow> comparator y x > 0) then Inl AssertFail
      else if (case r of TNull \<Rightarrow> False | TNode y _ _ _ \<Rightarrow> comparator x y > 0) then Inl AssertFail
      else if c = RED then
        if red l \<or> red r then Inl AssertFail
        else rbind (consistency_check_recursive comparator l path_deep cdeep) (\<lambda>path_deep.
             consistency_check_recursive comparator r path_deep cdeep)
      else rbind (consistency_check_recursive comparator l path_deep (cdeep + 1)) (\<lambda>path_deep.
           consistency_check_recursive comparator r path_deep (cdeep + 1)))"

definition consistency_check :: "('a \<Rightarrow> 'a \<Rightarrow> int) \<Rightarrow> 'a tree \<Rightarrow> unit res" where
  "consistency_check comparator t =
     (if red t then Inl AssertFail
      else rbind (consistency_check_recursive comparator t (-1) 0) (\<lambda>_. Inr ()))"

section \<open>The colours and the black height\<close>

fun inorder :: "'a tree \<Rightarrow> 'a list" where
  "inorder TNull = []"
| "inorder (TNode x c l r) = inorder l @ x # inorder r"

fun bheight :: "'a tree \<Rightarrow> nat" where
  "bheight TNull = 0"
| "bheight (TNode x c l r) = (if c = BLACK then Suc (bheight l) else bheight l)"

fun inv_h :: "'a tree \<Rightarrow> bool" where
  "inv_h TNull = True"
| "inv_h (TNode x c l r) = (inv_h l \<and> inv_h r \<and> bheight l = bheight r)"

fun inv_c :: "'a tree \<Rightarrow> bool" where
  "inv_c TNull = True"
| "inv_c (TNode x c l r) = ((c = RED \<longrightarrow> \<not> red l \<and> \<not> red r) \<and> inv_c l \<and> inv_c r)"

text \<open>During an insertion one of the two sons of a red root may be red.\<close>

fun inv_c_below :: "'a tree \<Rightarrow> bool" where
  "inv_c_below TNull = True"
| "inv_c_below (TNode x c l r) = ((c = RED \<longrightarrow> \<not> red l \<or> \<not> red r) \<and> inv_c l \<and> inv_c r)"

definition rbt :: "'a tree \<Rightarrow> bool" where
  "rbt t \<longleftrightarrow> \<not> red t \<and> inv_c t \<and> inv_h t"

lemma inv_c_below [simp]: "inv_c t \<Longrightarrow> inv_c_below t"
  by (cases t) auto

lemma not_colour [simp]: "c \<noteq> RED \<longleftrightarrow> c = BLACK" "c \<noteq> BLACK \<longleftrightarrow> c = RED"
  by (cases c; simp)+

lemma paint_simps [simp]:
  "inorder (paint c t) = inorder t" "inv_h (paint c t) = inv_h t" "paint c t = TNull \<longleftrightarrow> t = TNull"
  "red (paint c t) \<longleftrightarrow> c = RED \<and> t \<noteq> TNull"
  by (cases t; auto)+

lemma inv_c_paint_black [simp]: "inv_c_below t \<Longrightarrow> inv_c (paint BLACK t)"
  by (cases t) auto

lemma bheight_paint_black: "red t \<Longrightarrow> bheight (paint BLACK t) = Suc (bheight t)"
  by (cases t) auto

lemma bheight_paint_red [simp]: "inv_h t \<Longrightarrow> \<not> red t \<Longrightarrow> t \<noteq> TNull \<Longrightarrow> Suc (bheight (paint RED t)) = bheight t"
  by (cases t) auto

lemma null_height: "inv_c t \<Longrightarrow> bheight t = 0 \<Longrightarrow> \<not> red t \<Longrightarrow> t = TNull"
  by (cases t) auto

text \<open>What the repairs see of a node, whichever the side.\<close>

lemma mk_simps [simp]:
  "kid s (mk s x c a b) = a" "kid (opp s) (mk s x c a b) = b" "mk s x c a b \<noteq> TNull" "TNull \<noteq> mk s x c a b"
  "red (mk s x c a b) \<longleftrightarrow> c = RED"
  "inv_c (mk s x c a b) \<longleftrightarrow> (c = RED \<longrightarrow> \<not> red a \<and> \<not> red b) \<and> inv_c a \<and> inv_c b"
  "inv_c_below (mk s x c a b) \<longleftrightarrow> (c = RED \<longrightarrow> \<not> red a \<or> \<not> red b) \<and> inv_c a \<and> inv_c b"
  "inv_h (mk s x c a b) \<longleftrightarrow> inv_h a \<and> inv_h b \<and> bheight a = bheight b"
  "paint d (mk s x c a b) = mk s x d a b"
  "(case mk s x c a b of TNull \<Rightarrow> u | TNode y d _ _ \<Rightarrow> f y d) = f x c"
  by (cases s; auto)+

lemma bheight_mk [simp]:
  "bheight a = bheight b \<Longrightarrow> bheight (mk s x c a b) = (if c = BLACK then Suc (bheight a) else bheight a)"
  by (cases s) auto

lemma mk_cases:
  assumes "t \<noteq> TNull"
  obtains x c a b where "t = mk s x c a b"
  using assms by (cases t; cases s) (auto intro: that [of _ _ "kid s t" "kid (opp s) t"])

lemma red_mk_cases:
  assumes "red t"
  obtains x a b where "t = mk s x RED a b"
proof -
  from assms have "t \<noteq> TNull"
    by auto
  then obtain x c a b where "t = mk s x c a b"
    by (rule mk_cases)
  with assms show ?thesis
    by (auto intro: that)
qed

lemma case_not_red [simp]: "\<not> red t \<Longrightarrow> (case t of TNode x RED _ _ \<Rightarrow> f x | _ \<Rightarrow> u) = u"
  by (cases t) auto

lemma fix_insertion_inorder:
  "fix_insertion_discrepancy s t = Inr t' \<Longrightarrow> inorder t' = inorder t"
  by (cases s) (auto simp: fix_insertion_discrepancy_def Let_def split: tree.splits colour.splits if_splits)

lemma fix_insertion_ok:
  assumes "t = mk s a BLACK l r" "l \<noteq> TNull" "inv_c_below l" "inv_c r" "inv_h t"
  shows "\<exists>t'. fix_insertion_discrepancy s t = Inr t' \<and> inv_c t' \<and> inv_h t' \<and> bheight t' = bheight t"
proof -
  obtain b d bl br where l: "l = mk s b d bl br"
    using mk_cases [OF assms(2)] .
  show ?thesis
  proof (cases "d = RED")
    case False
    with assms l show ?thesis
      by (auto simp: fix_insertion_discrepancy_def Let_def)
  next
    case d: True
    show ?thesis
    proof (cases "red r")
      case True
      then obtain y rl rr where "r = mk s y RED rl rr"
        by (rule red_mk_cases)
      with assms l d show ?thesis
        by (auto simp: fix_insertion_discrepancy_def Let_def)
    next
      case False
      then show ?thesis
      proof (cases "red br")
        case True
        then obtain y rl rr where "br = mk s y RED rl rr"
          by (rule red_mk_cases)
        with assms l d False show ?thesis
          by (auto simp: fix_insertion_discrepancy_def Let_def)
      next
        case br: False
        with assms l d False br show ?thesis
          by (auto simp: fix_insertion_discrepancy_def Let_def)
      qed
    qed
  qed
qed

lemma fix_deletion_inorder:
  "fix_deletion_discrepancy s t = Inr (t', res) \<Longrightarrow> inorder t' = inorder t"
  by (cases t; cases s; cases "kid s t")
    (auto simp: fix_deletion_discrepancy_def Let_def split: tree.splits colour.splits if_splits)

lemma fix_deletion_ok:
  assumes t: "t = mk s a c b ar" and inv: "inv_c b" "inv_c ar" "inv_h b" "inv_h ar"
    and h: "bheight b = Suc (bheight ar)" and c: "c = RED \<Longrightarrow> \<not> red b"
  shows "\<exists>t' res. fix_deletion_discrepancy s t = Inr (t', res) \<and> inv_c t' \<and> inv_h t'
    \<and> (if c = BLACK then Suc (bheight b) else bheight b) = (if res then Suc (bheight t') else bheight t')
    \<and> (red t' \<longrightarrow> c = RED) \<and> t' \<noteq> TNull"
proof -
  note [simp] = fix_deletion_discrepancy_def Let_def
  from h have "b \<noteq> TNull"
    by auto
  then obtain xb cb bl br where b: "b = mk s xb cb bl br"
    by (rule mk_cases)
  show ?thesis
  proof (cases "cb = RED")
    case True
    then have "br \<noteq> TNull" "\<not> red br" and c': "c = BLACK"
      using b inv h c by (auto, metis not_colour(1))
    then obtain xc cl cr where br: "br = mk s xc BLACK cl cr"
      by (cases rule: mk_cases [of br s]) auto
    show ?thesis
    proof (cases "red cr")
      case True
      then obtain xd dl dr where "cr = mk s xd RED dl dr"
        by (rule red_mk_cases)
      then show ?thesis
        using t inv h c' b br \<open>cb = RED\<close> by auto
    next
      case cr: False
      show ?thesis
        using t inv h c' b br \<open>cb = RED\<close> cr by (auto simp: bheight_paint_black)
    qed
  next
    case cb: False
    show ?thesis
    proof (cases "red br")
      case True
      then obtain xc cl cr where "br = mk s xc RED cl cr"
        by (rule red_mk_cases)
      then show ?thesis
        using t inv h c b cb by auto
    next
      case br: False
      show ?thesis
        using t inv h c b cb br by (auto simp: bheight_paint_black)
    qed
  qed
qed

section \<open>The operations keep the colours\<close>

lemma mk_eq: "TNode x c l r = mk SLeft x c l r" "TNode x c l r = mk SRight x c r l" for x :: 'a
  by simp_all

lemma add_recursive_ok:
  assumes "inv_c t" "inv_h t"
  shows "\<exists>t'. add_recursive comparator addr t e = Inr t' \<and> t' \<noteq> TNull \<and> inv_h t' \<and> bheight t' = bheight t
    \<and> inv_c_below t' \<and> (\<not> red t \<longrightarrow> inv_c t')"
  using assms
proof (induction t)
  case (TNode x c l r)
  show ?case
  proof (cases "elem_less comparator addr e x")
    case True
    obtain l' where l': "add_recursive comparator addr l e = Inr l'" "l' \<noteq> TNull" "inv_h l'" "bheight l' = bheight l"
        "inv_c_below l'" "\<not> red l \<longrightarrow> inv_c l'"
      using TNode by auto
    show ?thesis
    proof (cases c)
      case BLACK
      with TNode.prems l' fix_insertion_ok [OF mk_eq(1), of l' r x] show ?thesis
        by (auto simp: True)
    qed (use TNode.prems l' in \<open>simp add: True\<close>)
  next
    case False
    obtain r' where r': "add_recursive comparator addr r e = Inr r'" "r' \<noteq> TNull" "inv_h r'" "bheight r' = bheight r"
        "inv_c_below r'" "\<not> red r \<longrightarrow> inv_c r'"
      using TNode by auto
    show ?thesis
    proof (cases c)
      case BLACK
      with TNode.prems r' fix_insertion_ok [OF mk_eq(2), of r' l x] show ?thesis
        by (auto simp: False)
    qed (use TNode.prems r' in \<open>simp add: False\<close>)
  qed
qed simp

lemma add_ok:
  assumes "rbt t"
  shows "\<exists>t'. sglib_add comparator addr t e = Inr t' \<and> rbt t'"
proof -
  obtain t' where "add_recursive comparator addr t e = Inr t'" "t' \<noteq> TNull" "inv_h t'" "inv_c_below t'"
    using add_recursive_ok [of t comparator addr e] assms by (auto simp: rbt_def)
  then show ?thesis
    by (simp add: sglib_add_def rbt_def)
qed

text \<open>How the height after a deletion goes with the result.\<close>

definition shrunk :: "'a tree \<Rightarrow> 'a tree \<Rightarrow> bool \<Rightarrow> bool" where
  "shrunk t t' res \<longleftrightarrow> inv_c t' \<and> inv_h t' \<and> (red t' \<longrightarrow> red t)
     \<and> bheight t = (if res then Suc (bheight t') else bheight t')"

lemma fix_left_shrunk:
  assumes inv: "inv_c (TNode x c l r)" "inv_h (TNode x c l r)" and l: "shrunk l l' True"
  shows "\<exists>t' res. fix_deletion_discrepancy SRight (TNode y c l' r) = Inr (t', res) \<and> shrunk (TNode x c l r) t' res"
proof -
  have "inv_c r" "inv_c l'" "inv_h r" "inv_h l'" "bheight r = Suc (bheight l')" "c = RED \<Longrightarrow> \<not> red r"
    using inv l by (simp_all add: shrunk_def)
  from fix_deletion_ok [OF mk_eq(2) this]
  obtain t' res where "fix_deletion_discrepancy SRight (TNode y c l' r) = Inr (t', res)" "inv_c t'" "inv_h t'" "red t' \<longrightarrow> c = RED"
    and h: "(if c = BLACK then Suc (bheight r) else bheight r) = (if res then Suc (bheight t') else bheight t')"
    by blast
  moreover have "bheight (TNode x c l r) = (if res then Suc (bheight t') else bheight t')"
    using h inv(2) by (cases c; cases res; simp)
  ultimately show ?thesis
    by (simp add: shrunk_def)
qed

lemma fix_right_shrunk:
  assumes inv: "inv_c (TNode x c l r)" "inv_h (TNode x c l r)" and r: "shrunk r r' True"
  shows "\<exists>t' res. fix_deletion_discrepancy SLeft (TNode y c l r') = Inr (t', res) \<and> shrunk (TNode x c l r) t' res"
proof -
  have "inv_c l" "inv_c r'" "inv_h l" "inv_h r'" "bheight l = Suc (bheight r')" "c = RED \<Longrightarrow> \<not> red l"
    using inv r by (simp_all add: shrunk_def)
  from fix_deletion_ok [OF mk_eq(1) this]
  obtain t' res where "fix_deletion_discrepancy SLeft (TNode y c l r') = Inr (t', res)" "inv_c t'" "inv_h t'" "red t' \<longrightarrow> c = RED"
    and h: "(if c = BLACK then Suc (bheight l) else bheight l) = (if res then Suc (bheight t') else bheight t')"
    by blast
  moreover have "bheight (TNode x c l r) = (if res then Suc (bheight t') else bheight t')"
    using h inv(2) by (cases c; cases res; simp)
  ultimately show ?thesis
    by (simp add: shrunk_def)
qed

lemma keep_shrunk:
  assumes "inv_c (TNode x c l r)" "inv_h (TNode x c l r)"
  shows "shrunk l l' False \<Longrightarrow> shrunk (TNode x c l r) (TNode y c l' r) False"
    "shrunk r r' False \<Longrightarrow> shrunk (TNode x c l r) (TNode y c l r') False"
  using assms by (auto simp: shrunk_def)

lemma leaf_shrunk:
  assumes "inv_c (TNode x c l r)" "inv_h (TNode x c l r)"
  shows "l = TNull \<Longrightarrow> r = TNull \<Longrightarrow> shrunk (TNode x c l r) TNull (c = BLACK)"
    "l = TNull \<Longrightarrow> r \<noteq> TNull \<Longrightarrow> shrunk (TNode x c l r) (paint BLACK r) (c = BLACK \<and> \<not> red r)"
    "r = TNull \<Longrightarrow> l \<noteq> TNull \<Longrightarrow> shrunk (TNode x c l r) (paint BLACK l) (c = BLACK \<and> \<not> red l)"
  using assms null_height [of l] null_height [of r]
  by (auto simp: shrunk_def bheight_paint_black)

lemma delete_rightmost_leaf_ok:
  assumes "inv_c t" "inv_h t" "t \<noteq> TNull"
  shows "\<exists>t' res leaf. delete_rightmost_leaf t = Inr (t', res, leaf) \<and> shrunk t t' res
    \<and> inorder t = inorder t' @ [leaf]"
  using assms
proof (induction t)
  case (TNode x c l r)
  show ?case
  proof (cases "r = TNull")
    case True
    then show ?thesis
      using leaf_shrunk [OF TNode.prems(1,2)] by auto
  next
    case False
    then obtain r' res leaf where r': "delete_rightmost_leaf r = Inr (r', res, leaf)" "shrunk r r' res"
        "inorder r = inorder r' @ [leaf]"
      using TNode by auto
    show ?thesis
    proof (cases res)
      case True
      then obtain t' res' where "fix_deletion_discrepancy SLeft (TNode x c l r') = Inr (t', res')"
          "shrunk (TNode x c l r) t' res'"
        using fix_right_shrunk [OF TNode.prems(1,2), of r' x] r' by auto
      then show ?thesis
        using r' False True fix_deletion_inorder [of SLeft "TNode x c l r'"] by simp
    next
      case res: False
      then show ?thesis
        using r' False keep_shrunk(2) [OF TNode.prems(1,2), of r' x] by (auto intro: exI [of _ False])
    qed
  qed
qed simp

section \<open>What the consistency check checks\<close>

text \<open>Each element is compared with its sons only.\<close>

fun links_ordered :: "('a \<Rightarrow> 'a \<Rightarrow> int) \<Rightarrow> 'a tree \<Rightarrow> bool" where
  "links_ordered comparator TNull = True"
| "links_ordered comparator (TNode x c l r) =
     ((case l of TNull \<Rightarrow> True | TNode y _ _ _ \<Rightarrow> comparator y x \<le> 0)
      \<and> (case r of TNull \<Rightarrow> True | TNode y _ _ _ \<Rightarrow> comparator x y \<le> 0)
      \<and> links_ordered comparator l \<and> links_ordered comparator r)"

lemma consistency_check_recursive_eq:
  "0 \<le> d \<Longrightarrow> consistency_check_recursive comparator t p d =
     (if inv_c t \<and> inv_h t \<and> links_ordered comparator t \<and> (p < 0 \<or> p = d + int (bheight t))
      then Inr (d + int (bheight t)) else Inl AssertFail)"
proof (induction t arbitrary: p d)
  case (TNode x c l r)
  have l: "(case l of TNull \<Rightarrow> False | TNode y _ _ _ \<Rightarrow> comparator y x > 0)
      \<longleftrightarrow> \<not> (case l of TNull \<Rightarrow> True | TNode y _ _ _ \<Rightarrow> comparator y x \<le> 0)"
    by (cases l) auto
  have r: "(case r of TNull \<Rightarrow> False | TNode y _ _ _ \<Rightarrow> comparator x y > 0)
      \<longleftrightarrow> \<not> (case r of TNull \<Rightarrow> True | TNode y _ _ _ \<Rightarrow> comparator x y \<le> 0)"
    by (cases r) auto
  have d: "0 \<le> d" "0 \<le> d + 1"
    using TNode.prems by auto
  show ?case
    using d by (cases c) (auto simp only: consistency_check_recursive.simps l r TNode.IH [OF d(1)] TNode.IH [OF d(2)]
      links_ordered.simps inv_c.simps inv_h.simps bheight.simps colour.distinct if_True if_False rbind_Inr rbind_Inl
      simp_thms split: if_splits)
qed auto

lemma consistency_check_eq:
  "is_ok (consistency_check comparator t) \<longleftrightarrow> rbt t \<and> links_ordered comparator t"
  by (auto simp: consistency_check_def consistency_check_recursive_eq rbt_def)

section \<open>Height\<close>

fun height :: "'a tree \<Rightarrow> nat" where
  "height TNull = 0"
| "height (TNode x c l r) = Suc (max (height l) (height r))"

lemma height_bheight: "inv_c t \<Longrightarrow> inv_h t \<Longrightarrow> height t \<le> 2 * bheight t + (if red t then 1 else 0)"
  by (induction t) (auto split: if_splits)

lemma bheight_size: "inv_h t \<Longrightarrow> 2 ^ bheight t \<le> Suc (length (inorder t))"
  by (induction t) auto

lemma rbt_height:
  assumes "rbt t" "length (inorder t) < 2 ^ 63"
  shows "height t < 128"
proof -
  have "(2::nat) ^ bheight t \<le> 2 ^ 63"
    using bheight_size [of t] assms by (simp add: rbt_def)
  then have "bheight t \<le> 63"
    by (subst (asm) power_increasing_iff) auto
  then show ?thesis
    using height_bheight [of t] assms by (auto simp: rbt_def)
qed

section \<open>The contract of a comparator\<close>

locale sglib_order =
  fixes comparator :: "'a \<Rightarrow> 'a \<Rightarrow> int" and addr :: "'a \<Rightarrow> nat"
  assumes cmp_sym: "comparator x y < 0 \<longleftrightarrow> comparator y x > 0"
    and cmp_trans: "comparator x y \<le> 0 \<Longrightarrow> comparator y z \<le> 0 \<Longrightarrow> comparator x z \<le> 0"
begin

abbreviation less :: "'a \<Rightarrow> 'a \<Rightarrow> bool" where
  "less \<equiv> elem_less comparator addr"

lemma cmp_0: "comparator x y = 0 \<longleftrightarrow> comparator y x = 0"
  using cmp_sym [of x y] cmp_sym [of y x] by linarith

lemma greater_less: "elem_greater comparator addr x y \<longleftrightarrow> less y x"
  using cmp_sym cmp_0 by (auto simp: elem_greater_def elem_less_def)

lemma less_irrefl: "\<not> less x x"
  using cmp_sym [of x x] by (auto simp: elem_less_def)

lemma cmp_less_trans:
  assumes "comparator x y \<le> 0" "comparator y z \<le> 0" "comparator x y < 0 \<or> comparator y z < 0"
  shows "comparator x z < 0"
proof (rule ccontr)
  assume "\<not> comparator x z < 0"
  with cmp_trans [OF assms(1,2)] have "comparator x z = 0" "comparator z x \<le> 0"
    using cmp_0 [of x z] by auto
  then have "comparator y x \<le> 0" "comparator z y \<le> 0"
    using cmp_trans [of y z x] cmp_trans [of z x y] assms by auto
  then show False
    using assms cmp_sym [of x y] cmp_sym [of y z] by linarith
qed

lemma less_trans:
  assumes "less x y" "less y z"
  shows "less x z"
proof -
  have le: "comparator x y \<le> 0" "comparator y z \<le> 0"
    using assms by (auto simp: elem_less_def)
  show ?thesis
  proof (cases "comparator x y < 0 \<or> comparator y z < 0")
    case True
    then show ?thesis
      using cmp_less_trans [OF le] by (simp add: elem_less_def)
  next
    case False
    then have "comparator x y = 0" "comparator y z = 0" "addr x < addr z"
      using assms by (auto simp: elem_less_def)
    moreover have "comparator z x \<le> 0"
      using cmp_trans [of z y x] cmp_0 [of z y] cmp_0 [of y x] calculation by simp
    ultimately show ?thesis
      using cmp_trans [OF le] cmp_sym [of z x] cmp_0 by (auto simp: elem_less_def)
  qed
qed

lemma less_asym: "less x y \<Longrightarrow> \<not> less y x"
  using less_trans less_irrefl by blast

definition in_order :: "'a tree \<Rightarrow> bool" where
  "in_order t \<longleftrightarrow> sorted_wrt less (inorder t)"

lemma in_order_node:
  "in_order (TNode x c l r) \<longleftrightarrow> in_order l \<and> in_order r
    \<and> (\<forall>y\<in>set (inorder l). less y x) \<and> (\<forall>y\<in>set (inorder r). less x y)"
  using less_trans by (auto simp: in_order_def sorted_wrt_append)

lemma inorder_same: "inorder t = inorder t' \<Longrightarrow> in_order t = in_order t'"
  by (simp add: in_order_def)

lemma delete_recursive_ok:
  assumes "inv_c t" "inv_h t" "in_order t" "e \<in> set (inorder t)"
  shows "\<exists>t' res. delete_recursive comparator addr t e = Inr (t', res) \<and> shrunk t t' res
    \<and> inorder t' = remove1 e (inorder t)"
  using assms
proof (induction t)
  case (TNode x c l r)
  note inv = TNode.prems(1,2)
  have so: "in_order l" "in_order r" and lx: "\<And>y. y \<in> set (inorder l) \<Longrightarrow> less y x"
    and xr: "\<And>y. y \<in> set (inorder r) \<Longrightarrow> less x y"
    using TNode.prems(3) by (auto simp: in_order_node)
  consider "less e x" "e \<in> set (inorder l)" "e \<noteq> x" | "less x e" "e \<notin> set (inorder l)" "e \<in> set (inorder r)" "e \<noteq> x"
    | "e = x" "e \<notin> set (inorder l)"
    using TNode.prems(4) lx xr less_asym less_irrefl by auto
  then show ?case
  proof cases
    case 1
    then obtain l' res where l': "delete_recursive comparator addr l e = Inr (l', res)" "shrunk l l' res"
        "inorder l' = remove1 e (inorder l)"
      using TNode.IH(1) inv so by auto
    show ?thesis
      using 1 l' fix_left_shrunk [OF inv, of l' x] keep_shrunk(1) [OF inv, of l' x]
        fix_deletion_inorder [of SRight "TNode x c l' r"]
      by (cases res) (auto simp: remove1_append)
  next
    case 2
    then obtain r' res where r': "delete_recursive comparator addr r e = Inr (r', res)" "shrunk r r' res"
        "inorder r' = remove1 e (inorder r)"
      using TNode.IH(2) inv so by auto
    show ?thesis
      using 2 r' fix_right_shrunk [OF inv, of r' x] keep_shrunk(2) [OF inv, of r' x] less_asym [OF 2(1)]
        fix_deletion_inorder [of SLeft "TNode x c l r'"]
      by (cases res) (auto simp: remove1_append greater_less)
  next
    case 3
    show ?thesis
    proof (cases "l = TNull")
      case True
      then show ?thesis
        using 3 leaf_shrunk(1,2) [OF inv] less_irrefl by (auto simp: greater_less)
    next
      case False
      then obtain l' res leaf where l': "delete_rightmost_leaf l = Inr (l', res, leaf)" "shrunk l l' res"
          "inorder l = inorder l' @ [leaf]"
        using delete_rightmost_leaf_ok [of l] inv by auto
      then show ?thesis
        using 3 False fix_left_shrunk [OF inv, of l' leaf] keep_shrunk(1) [OF inv, of l' leaf]
          fix_deletion_inorder [of SRight "TNode leaf c l' r"] less_irrefl
        by (cases res) (auto simp: remove1_append greater_less)
    qed
  qed
qed simp

lemma sorted_wrt_remove1: "sorted_wrt P xs \<Longrightarrow> sorted_wrt P (remove1 x xs)"
  by (induction xs) (auto dest: set_remove1_subset [THEN subsetD])

lemma delete_ok:
  assumes "rbt t" "in_order t" "e \<in> set (inorder t)"
  shows "\<exists>t'. sglib_delete comparator addr t e = Inr t' \<and> rbt t' \<and> in_order t' \<and> inorder t' = remove1 e (inorder t)"
proof -
  obtain t' res where t': "delete_recursive comparator addr t e = Inr (t', res)" "shrunk t t' res"
      "inorder t' = remove1 e (inorder t)"
    using delete_recursive_ok [of t e] assms by (auto simp: rbt_def)
  have "in_order t'"
    using assms(2) t'(3) by (simp add: in_order_def sorted_wrt_remove1)
  moreover have "rbt (if t' \<noteq> TNull then paint BLACK t' else t')"
    using t'(2) by (auto simp: shrunk_def rbt_def)
  ultimately show ?thesis
    using t' inorder_same [of "paint BLACK t'" t'] by (auto simp: sglib_delete_def)
qed

text \<open>Insertion puts the element before the first one that is greater.\<close>

fun place :: "'a \<Rightarrow> 'a list \<Rightarrow> 'a list" where
  "place e [] = [e]"
| "place e (x # xs) = (if less e x then e # x # xs else x # place e xs)"

lemma place_append_less: "less e x \<Longrightarrow> place e (xs @ x # ys) = place e xs @ x # ys"
  by (induction xs) auto

lemma place_append_greater:
  "\<not> less e x \<Longrightarrow> (\<And>y. y \<in> set xs \<Longrightarrow> less y x) \<Longrightarrow> place e (xs @ x # ys) = xs @ x # place e ys"
proof (induction xs)
  case (Cons y xs)
  then have "\<not> less e y"
    using less_trans [of e y x] by auto
  with Cons show ?case
    by auto
qed simp

lemma add_recursive_inorder:
  "add_recursive comparator addr t e = Inr t' \<Longrightarrow> in_order t \<Longrightarrow> inorder t' = place e (inorder t)"
proof (induction t arbitrary: t')
  case (TNode x c l r)
  show ?case
  proof (cases "less e x")
    case True
    then show ?thesis
      using TNode by (auto simp: in_order_node place_append_less rbind_eq_Inr split: if_splits
        dest!: fix_insertion_inorder)
  next
    case False
    then show ?thesis
      using TNode by (auto simp: in_order_node place_append_greater rbind_eq_Inr split: if_splits
        dest!: fix_insertion_inorder)
  qed
qed simp

lemma set_place [simp]: "set (place e xs) = insert e (set xs)"
  by (induction xs) auto

lemma sorted_wrt_place:
  "sorted_wrt less xs \<Longrightarrow> (\<And>y. y \<in> set xs \<Longrightarrow> less e y \<or> less y e) \<Longrightarrow> sorted_wrt less (place e xs)"
proof (induction xs)
  case (Cons x xs)
  then show ?case
    using less_trans [of e x] by auto
qed simp

lemma sglib_add_ok:
  assumes "rbt t" "in_order t" "\<And>y. y \<in> set (inorder t) \<Longrightarrow> less e y \<or> less y e"
  shows "\<exists>t'. sglib_add comparator addr t e = Inr t' \<and> rbt t' \<and> in_order t' \<and> inorder t' = place e (inorder t)"
proof -
  obtain t' where t': "sglib_add comparator addr t e = Inr t'" "rbt t'"
    using add_ok [OF assms(1)] by blast
  then have "inorder t' = place e (inorder t)"
    using add_recursive_inorder [OF _ assms(2)] by (auto simp: sglib_add_def rbind_eq_Inr split: if_splits)
  with t' assms(2,3) show ?thesis
    by (auto simp: in_order_def sorted_wrt_place)
qed

lemma find_member_None:
  "in_order t \<Longrightarrow> sglib_find_member comparator t e = None \<longleftrightarrow> (\<forall>x\<in>set (inorder t). comparator e x \<noteq> 0)"
proof (induction t)
  case (TNode x c l r)
  have "comparator e y \<noteq> 0" if "comparator e x < 0" "y \<in> set (inorder r)" for y
    using that TNode.prems cmp_less_trans [of e x y] by (auto simp: in_order_node elem_less_def)
  moreover have "comparator e y \<noteq> 0" if "comparator e x > 0" "y \<in> set (inorder l)" for y
    using that TNode.prems cmp_less_trans [of y x e] cmp_sym [of x e] cmp_0 [of y e]
    by (auto simp: in_order_node elem_less_def)
  ultimately show ?case
    using TNode by (auto simp: sglib_find_member_def in_order_node)
qed (simp add: sglib_find_member_def)

lemma find_member_Some:
  "sglib_find_member comparator t e = Some x \<Longrightarrow> x \<in> set (inorder t) \<and> comparator e x = 0"
  by (induction t) (auto simp: sglib_find_member_def split: if_splits)

end

section \<open>Properties\<close>

text \<open>
  C31. The consistency check of the library passes on exactly the trees that are red-black trees
  (black root, no red node with a red son, as many black nodes on every path) in which each
  element is in order with its two sons; its result on any other tree is a failed assertion.
\<close>

theorem consistency_check_exact:
  "consistency_check comparator t =
    (if rbt t \<and> links_ordered comparator t then Inr () else Inl AssertFail)"
proof -
  have "consistency_check comparator t = Inr () \<or> consistency_check comparator t = Inl AssertFail"
    by (simp add: consistency_check_def consistency_check_recursive_eq)
  then show ?thesis
    using consistency_check_eq [of comparator t] by (auto simp: is_ok_iff)
qed

end
