(* ===== verification/RbIterator.thy ===== *)
theory RbIterator
  imports RedBlack
begin

text \<open>
  The two traversals of the red-black trees (\<open>sglib.h\<close>): the iterator with its stack of path
  and passes, in the state that \<open>it_init\<close> sets up (no \<open>equalto\<close> filter, the store never uses
  one), and the loop that the macro \<open>SGLIB___BIN_TREE_MAP_ON_ELEMENTS\<close> expands to, with
  \<open>sglib_len\<close> on top of it.  Nodes may be freed while the iterator runs: \<open>dead\<close> tells
  which, and a read of their members is a fault.
\<close>

definition SGLIB_MAX_TREE_DEEP :: nat where
  "SGLIB_MAX_TREE_DEEP = 128"

section \<open>The iterator\<close>

text \<open>The entry at index \<open>pathi - 1\<close> of \<open>path\<close> and \<open>pass\<close> is the head of the stack.\<close>

record 'a iterator =
  it_currentelem :: "'a option"
  it_stack :: "('a tree \<times> nat) list"
  it_order :: nat

definition it_top :: "nat \<Rightarrow> ('a tree \<times> nat) list \<Rightarrow> 'a option" where
  "it_top order st = (case st of
     (TNode x _ _ _, pass) # _ \<Rightarrow> if order = pass then Some x else None | _ \<Rightarrow> None)"

text \<open>The body of the \<open>while\<close> loop.\<close>

definition it_step :: "('a \<Rightarrow> bool) \<Rightarrow> 'a iterator \<Rightarrow> 'a iterator res" where
  "it_step dead it = (case it_stack it of
     [] \<Rightarrow> Inl OutOfBounds
   | (t, pass) # st \<Rightarrow>
       rbind
         (if pass \<ge> 2 then Inr st
          else case t of
              TNull \<Rightarrow> Inl NullDeref
            | TNode x _ l r \<Rightarrow>
                if dead x then Inl UseAfterFree
                else
                  let s = (if pass = 0 then l else r) in
                  if s \<noteq> TNull then
                    if length (it_stack it) < SGLIB_MAX_TREE_DEEP
                    then Inr ((s, 0) # (t, pass + 1) # st) else Inl OutOfBounds
                  else Inr ((t, pass + 1) # st))
         (\<lambda>st. Inr (it\<lparr>it_stack := st, it_currentelem := it_top (it_order it) st\<rparr>)))"

fun tree_work :: "'a tree \<Rightarrow> nat" where
  "tree_work TNull = 0"
| "tree_work (TNode x c l r) = 3 + tree_work l + tree_work r"

fun entry_work :: "'a tree \<times> nat \<Rightarrow> nat" where
  "entry_work (t, pass) = (if pass = 0 then tree_work t
     else if pass = 1 then 2 + (case t of TNull \<Rightarrow> 0 | TNode _ _ _ r \<Rightarrow> tree_work r) else 1)"

definition it_work :: "'a iterator \<Rightarrow> nat" where
  "it_work it = sum_list (map entry_work (it_stack it))"

lemma it_step_work: "it_step dead it = Inr it' \<Longrightarrow> it_work it' < it_work it"
  by (auto simp: it_step_def it_work_def Let_def res_simps split: list.splits tree.splits if_splits)

function it_loop :: "('a \<Rightarrow> bool) \<Rightarrow> 'a iterator \<Rightarrow> 'a iterator res" where
  "it_loop dead it =
     (if it_stack it \<noteq> [] \<and> it_currentelem it = None
      then rbind (it_step dead it) (\<lambda>it. it_loop dead it) else Inr it)"
  by pat_completeness auto
termination
  by (relation "measure (\<lambda>(dead, it). it_work it)") (auto simp: it_step_work)

declare it_loop.simps [simp del]

definition it_compute_current_elem :: "('a \<Rightarrow> bool) \<Rightarrow> 'a iterator \<Rightarrow> 'a iterator res" where
  "it_compute_current_elem dead it = it_loop dead (it\<lparr>it_currentelem := None\<rparr>)"

definition it_init_order :: "('a \<Rightarrow> bool) \<Rightarrow> 'a tree \<Rightarrow> nat \<Rightarrow> 'a iterator res" where
  "it_init_order dead tree order =
     (case tree of
        TNull \<Rightarrow> Inr \<lparr>it_currentelem = None, it_stack = [], it_order = order\<rparr>
      | TNode x _ _ _ \<Rightarrow>
          if order = 0 then Inr \<lparr>it_currentelem = Some x, it_stack = [(tree, 0)], it_order = order\<rparr>
          else it_compute_current_elem dead \<lparr>it_currentelem = None, it_stack = [(tree, 0)], it_order = order\<rparr>)"

definition sglib_it_init :: "('a \<Rightarrow> bool) \<Rightarrow> 'a tree \<Rightarrow> 'a iterator res" where
  "sglib_it_init dead tree = it_init_order dead tree 2"

definition sglib_it_init_preorder :: "('a \<Rightarrow> bool) \<Rightarrow> 'a tree \<Rightarrow> 'a iterator res" where
  "sglib_it_init_preorder dead tree = it_init_order dead tree 0"

definition sglib_it_init_inorder :: "('a \<Rightarrow> bool) \<Rightarrow> 'a tree \<Rightarrow> 'a iterator res" where
  "sglib_it_init_inorder dead tree = it_init_order dead tree 1"

definition sglib_it_init_postorder :: "('a \<Rightarrow> bool) \<Rightarrow> 'a tree \<Rightarrow> 'a iterator res" where
  "sglib_it_init_postorder dead tree = it_init_order dead tree 2"

definition sglib_it_current :: "'a iterator \<Rightarrow> 'a option" where
  "sglib_it_current it = it_currentelem it"

definition sglib_it_next :: "('a \<Rightarrow> bool) \<Rightarrow> 'a iterator \<Rightarrow> 'a iterator res" where
  "sglib_it_next dead it = it_compute_current_elem dead it"

section \<open>The elements that are still to come\<close>

fun visits :: "nat \<Rightarrow> 'a tree \<Rightarrow> 'a list" where
  "visits order TNull = []"
| "visits order (TNode x c l r) = (if order = 0 then [x] else []) @ visits order l
     @ (if order = 1 then [x] else []) @ visits order r @ (if order = 2 then [x] else [])"

lemma visits_1: "visits (Suc 0) t = inorder t"
  by (induction t) auto

lemma set_visits: "order \<le> 2 \<Longrightarrow> set (visits order t) = set (inorder t)"
  by (induction t) auto

lemma mset_visits: "order \<le> 2 \<Longrightarrow> length (visits order t) = length (inorder t)"
  by (induction t) auto

fun entry_rest :: "nat \<Rightarrow> 'a tree \<times> nat \<Rightarrow> 'a list" where
  "entry_rest order (TNull, pass) = []"
| "entry_rest order (TNode x c l r, pass) =
     (if pass = 0 then visits order l @ (if order = 1 then [x] else []) else [])
     @ (if pass \<le> 1 then visits order r @ (if order = 2 then [x] else []) else [])"

text \<open>An entry below the top is reported when it comes to the top.\<close>

definition report :: "nat \<Rightarrow> 'a tree \<times> nat \<Rightarrow> 'a list" where
  "report order e = (case e of (TNull, _) \<Rightarrow> [] | (TNode x _ _ _, pass) \<Rightarrow> if order = pass then [x] else [])"

fun pending :: "nat \<Rightarrow> ('a tree \<times> nat) list \<Rightarrow> 'a list" where
  "pending order [] = []"
| "pending order (e # st) = entry_rest order e @ concat (map (\<lambda>e. report order e @ entry_rest order e) st)"

text \<open>The nodes whose members the iterator reads again.\<close>

fun entry_reads :: "'a tree \<times> nat \<Rightarrow> 'a set" where
  "entry_reads (TNull, pass) = {}"
| "entry_reads (TNode x c l r, pass) =
     (if pass = 0 then insert x (set (inorder l) \<union> set (inorder r))
      else if pass = 1 then insert x (set (inorder r)) else {})"

definition reads :: "('a tree \<times> nat) list \<Rightarrow> 'a set" where
  "reads st = \<Union> (entry_reads ` set st)"

fun stack_ok :: "('a tree \<times> nat) list \<Rightarrow> bool" where
  "stack_ok [] = True"
| "stack_ok ((t, pass) # st) = (t \<noteq> TNull \<and> height t + length st \<le> SGLIB_MAX_TREE_DEEP \<and> stack_ok st)"

lemma it_top_report: "st \<noteq> [] \<Longrightarrow> (case it_top order st of None \<Rightarrow> [] | Some x \<Rightarrow> [x]) = report order (hd st)"
  by (cases st) (auto simp: it_top_def report_def split: tree.splits)

lemma rest_pop:
  "concat (map (\<lambda>e. report order e @ entry_rest order e) st)
    = (case it_top order st of None \<Rightarrow> [] | Some x \<Rightarrow> [x]) @ pending order st"
proof (cases "st = []")
  case False
  then show ?thesis
    by (cases st) (simp_all add: it_top_report)
qed (simp add: it_top_def)

lemma visits_entry: "s \<noteq> TNull \<Longrightarrow> visits order s = report order (s, 0) @ entry_rest order (s, 0)"
  by (cases s) (auto simp: report_def)

lemma entry_reads_0: "entry_reads (s, 0) = set (inorder s)"
  by (cases s) auto

lemma height_0: "height t = 0 \<longleftrightarrow> t = TNull"
  by (cases t) auto

text \<open>One round keeps what is to come, up to the element it stops at.\<close>

lemma it_step_ok:
  assumes "it_stack it \<noteq> []" "stack_ok (it_stack it)" "\<forall>x\<in>reads (it_stack it). \<not> dead x" "it_order it \<le> 2"
  shows "\<exists>it'. it_step dead it = Inr it' \<and> it_order it' = it_order it \<and> stack_ok (it_stack it')
    \<and> reads (it_stack it') \<subseteq> reads (it_stack it)
    \<and> pending (it_order it) (it_stack it) =
        (case it_currentelem it' of None \<Rightarrow> [] | Some x \<Rightarrow> [x]) @ pending (it_order it) (it_stack it')"
proof -
  obtain t pass st where st: "it_stack it = (t, pass) # st"
    using assms(1) by (cases "it_stack it") auto
  then obtain x c l r where t: "t = TNode x c l r"
    using assms(2) by (cases t) auto
  consider "2 \<le> pass" | "pass = 0" "l \<noteq> TNull" | "pass = 0" "l = TNull" | "pass = 1" "r \<noteq> TNull" | "pass = 1" "r = TNull"
    by linarith
  then show ?thesis
  proof cases
    case 1
    then show ?thesis
      using assms(2) st t rest_pop [of "it_order it" st] by (auto simp: it_step_def reads_def)
  next
    case 2
    have "\<not> dead x" "length (it_stack it) < SGLIB_MAX_TREE_DEEP"
      using assms(2,3) 2 st t height_0 [of l] by (auto simp: reads_def)
    then show ?thesis
      using assms(2,4) st t 2 by (auto simp: it_step_def reads_def entry_reads_0 visits_entry [OF 2(2)]
        report_def it_top_def split: tree.splits)
  next
    case 3
    have "\<not> dead x"
      using assms(3) 3 st t by (auto simp: reads_def)
    then show ?thesis
      using assms(2) st t 3 by (auto simp: it_step_def reads_def it_top_def)
  next
    case 4
    have "\<not> dead x" "length (it_stack it) < SGLIB_MAX_TREE_DEEP"
      using assms(2,3) 4 st t height_0 [of r] by (auto simp: reads_def)
    then show ?thesis
      using assms(2,4) st t 4 by (auto simp: it_step_def reads_def entry_reads_0 visits_entry [OF 4(2)]
        report_def it_top_def split: tree.splits)
  next
    case 5
    have "\<not> dead x"
      using assms(3) 5 st t by (auto simp: reads_def)
    then show ?thesis
      using assms(2) st t 5 by (auto simp: it_step_def reads_def it_top_def)
  qed
qed

lemma it_loop_ok:
  assumes "stack_ok (it_stack it)" "\<forall>x\<in>reads (it_stack it). \<not> dead x" "it_order it \<le> 2" "it_currentelem it = None"
  shows "\<exists>it'. it_loop dead it = Inr it' \<and> it_order it' = it_order it \<and> stack_ok (it_stack it')
    \<and> pending (it_order it) (it_stack it) =
        (case it_currentelem it' of None \<Rightarrow> [] | Some x \<Rightarrow> [x]) @ pending (it_order it) (it_stack it')
    \<and> (it_currentelem it' = None \<longrightarrow> it_stack it' = [])"
  using assms
proof (induction dead it rule: it_loop.induct)
  case (1 dead it)
  show ?case
  proof (cases "it_stack it = []")
    case True
    then show ?thesis
      using 1 by (simp add: it_loop.simps)
  next
    case False
    then obtain it1 where it1: "it_step dead it = Inr it1" "it_order it1 = it_order it" "stack_ok (it_stack it1)"
        "reads (it_stack it1) \<subseteq> reads (it_stack it)"
      and pending: "pending (it_order it) (it_stack it) =
        (case it_currentelem it1 of None \<Rightarrow> [] | Some x \<Rightarrow> [x]) @ pending (it_order it) (it_stack it1)"
      using it_step_ok "1.prems"(1,2,3) by blast
    show ?thesis
    proof (cases "it_currentelem it1")
      case None
      then show ?thesis
        using "1.IH" [of it1] False it1 pending "1.prems" by (subst it_loop.simps) auto
    next
      case (Some x)
      then show ?thesis
        using False it1 pending "1.prems" by (subst it_loop.simps) (simp add: it_loop.simps)
    qed
  qed
qed

lemma it_loop_work:
  "it_loop dead it = Inr it' \<Longrightarrow> it_work it' \<le> it_work it
    \<and> (it_currentelem it = None \<longrightarrow> it_currentelem it' \<noteq> None \<longrightarrow> it_work it' < it_work it)"
proof (induction dead it rule: it_loop.induct)
  case (1 dead it)
  show ?case
  proof (cases "it_stack it \<noteq> [] \<and> it_currentelem it = None")
    case True
    then obtain it1 where "it_step dead it = Inr it1" "it_loop dead it1 = Inr it'"
      using "1.prems" by (subst (asm) it_loop.simps) (auto simp: rbind_eq_Inr)
    then show ?thesis
      using "1.IH" [of it1] True it_step_work [of dead it it1] by fastforce
  next
    case False
    then show ?thesis
      using "1.prems" by (subst (asm) it_loop.simps) auto
  qed
qed

section \<open>Loops over an iterator\<close>

text \<open>
  \<open>for (e = it_init(&it, t); e != NULL; e = it_next(&it)) body\<close>: the body changes the state,
  and with it which nodes are dead.
\<close>

function it_for :: "('s \<Rightarrow> 'a \<Rightarrow> bool) \<Rightarrow> ('a \<Rightarrow> 's \<Rightarrow> 's res) \<Rightarrow> 'a iterator \<Rightarrow> 's \<Rightarrow> 's res" where
  "it_for dead body it s = (case it_currentelem it of None \<Rightarrow> Inr s
     | Some x \<Rightarrow> rbind (body x s) (\<lambda>s. rbind (sglib_it_next (dead s) it) (\<lambda>it. it_for dead body it s)))"
  by pat_completeness auto
termination
proof (relation "measure (\<lambda>(dead, body, it, s). it_work it + (if it_currentelem it = None then 0 else 1))", goal_cases)
  case (2 dead body it s x s' it')
  then have "it_loop (dead s') (it\<lparr>it_currentelem := None\<rparr>) = Inr it'"
    by (simp add: sglib_it_next_def it_compute_current_elem_def)
  then show ?case
    using it_loop_work 2(1) by (fastforce simp: it_work_def)
qed simp

declare it_for.simps [simp del]

lemma reads_rest: "reads st \<subseteq> set (pending 2 st)"
proof -
  have sub: "entry_reads e \<subseteq> set (entry_rest 2 e)" for e :: "'a tree \<times> nat"
    by (cases e rule: entry_reads.cases) (auto simp: set_visits)
  show ?thesis
    by (cases st) (auto simp: reads_def dest: subsetD [OF sub])
qed

text \<open>
  The loop ends without a fault if its body runs on every element, and with the fault of the
  body if there is an element on which it fails.
\<close>

lemma it_for_ok:
  assumes "stack_ok (it_stack it)" "it_order it = 2"
    and "I s vs" "ys = (case it_currentelem it of None \<Rightarrow> [] | Some x \<Rightarrow> [x]) @ pending 2 (it_stack it)"
    and "it_currentelem it = None \<longrightarrow> it_stack it = []"
    and "distinct (vs @ ys)"
    and body: "\<And>s vs x. I s vs \<Longrightarrow> x \<in> set ys \<Longrightarrow> x \<notin> set vs \<Longrightarrow>
      if good x then \<exists>s'. body x s = Inr s' \<and> I s' (vs @ [x]) else body x s = Inl e"
    and dead: "\<And>s vs x. I s vs \<Longrightarrow> x \<in> set ys \<Longrightarrow> dead s x \<Longrightarrow> x \<in> set vs"
  shows "if \<forall>x\<in>set ys. good x then \<exists>s'. it_for dead body it s = Inr s' \<and> I s' (vs @ ys)
    else it_for dead body it s = Inl e"
  using assms
proof (induction dead body it s arbitrary: vs ys rule: it_for.induct)
  case (1 dead body it s)
  show ?case
  proof (cases "it_currentelem it")
    case None
    with 1 show ?thesis
      by (simp add: it_for.simps)
  next
    case (Some x)
    let ?zs = "pending 2 (it_stack it)"
    have ys: "ys = x # ?zs"
      using "1.prems"(4) Some by simp
    note run = "1.prems"(7) [OF "1.prems"(3), of x]
    show ?thesis
    proof (cases "good x")
      case False
      then show ?thesis
        using run "1.prems"(6) Some ys by (subst it_for.simps) auto
    next
      case True
      then obtain s' where s': "body x s = Inr s'" "I s' (vs @ [x])"
        using run "1.prems"(6) ys by auto
      have "\<forall>y\<in>reads (it_stack it). \<not> dead s' y"
        using reads_rest [of "it_stack it"] "1.prems"(8) [OF s'(2)] "1.prems"(6) ys by auto
      then obtain it' where it': "sglib_it_next (dead s') it = Inr it'" "it_order it' = 2" "stack_ok (it_stack it')"
          "?zs = (case it_currentelem it' of None \<Rightarrow> [] | Some x \<Rightarrow> [x]) @ pending 2 (it_stack it')"
          "it_currentelem it' = None \<longrightarrow> it_stack it' = []"
        using it_loop_ok [of "it\<lparr>it_currentelem := None\<rparr>" "dead s'"] "1.prems"(1,2)
        by (auto simp: sglib_it_next_def it_compute_current_elem_def)
      have "if \<forall>x\<in>set ?zs. good x then \<exists>s''. it_for dead body it' s' = Inr s'' \<and> I s'' ((vs @ [x]) @ ?zs)
          else it_for dead body it' s' = Inl e"
        by (rule "1.IH" [OF Some s'(1) it'(1)]) (use it' s' "1.prems"(6,7,8) ys in auto)
      then show ?thesis
        using Some s'(1) it'(1) ys True by (subst (1 2) it_for.simps) (simp split: if_splits)
    qed
  qed
qed

lemma set_visits_distinct: "order \<le> 2 \<Longrightarrow> distinct (visits order t) = distinct (inorder t)"
  by (induction t) (auto simp: set_visits)

lemma it_init_ok:
  assumes "height t \<le> SGLIB_MAX_TREE_DEEP" "\<forall>x\<in>set (inorder t). \<not> dead x"
  shows "\<exists>it. sglib_it_init dead t = Inr it \<and> it_order it = 2 \<and> stack_ok (it_stack it)
    \<and> visits 2 t = (case it_currentelem it of None \<Rightarrow> [] | Some x \<Rightarrow> [x]) @ pending 2 (it_stack it)
    \<and> (it_currentelem it = None \<longrightarrow> it_stack it = [])"
proof (cases t)
  case TNull
  then show ?thesis
    by (simp add: sglib_it_init_def it_init_order_def)
next
  case (TNode x c l r)
  let ?it = "\<lparr>it_currentelem = None, it_stack = [(t, 0)], it_order = 2\<rparr>"
  have "stack_ok (it_stack ?it)" "\<forall>x\<in>reads (it_stack ?it). \<not> dead x"
    using assms TNode by (auto simp: reads_def)
  from it_loop_ok [OF this] show ?thesis
    using TNode by (simp add: sglib_it_init_def it_init_order_def it_compute_current_elem_def)
qed

lemma it_for_tree_cases:
  assumes "rbt t" "length (inorder t) < 2 ^ 63" "distinct (inorder t)" "I s []"
    and body: "\<And>s vs x. I s vs \<Longrightarrow> x \<in> set (inorder t) \<Longrightarrow> x \<notin> set vs \<Longrightarrow>
      if good x then \<exists>s'. body x s = Inr s' \<and> I s' (vs @ [x]) else body x s = Inl e"
    and dead: "\<And>s vs x. I s vs \<Longrightarrow> x \<in> set (inorder t) \<Longrightarrow> dead s x \<Longrightarrow> x \<in> set vs"
  shows "if \<forall>x\<in>set (inorder t). good x
    then \<exists>s'. rbind (sglib_it_init (dead s) t) (\<lambda>it. it_for dead body it s) = Inr s' \<and> I s' (visits 2 t)
    else rbind (sglib_it_init (dead s) t) (\<lambda>it. it_for dead body it s) = Inl e"
proof -
  have h: "height t \<le> SGLIB_MAX_TREE_DEEP"
    using rbt_height [OF assms(1,2)] unfolding SGLIB_MAX_TREE_DEEP_def by (rule less_imp_le)
  have "\<forall>x\<in>set (inorder t). \<not> dead s x"
  proof (intro ballI notI)
    fix x
    assume "x \<in> set (inorder t)" "dead s x"
    from dead [OF assms(4) this] show False
      by simp
  qed
  from it_init_ok [OF h this] obtain it where it: "sglib_it_init (dead s) t = Inr it" "it_order it = 2" "stack_ok (it_stack it)"
      "visits 2 t = (case it_currentelem it of None \<Rightarrow> [] | Some x \<Rightarrow> [x]) @ pending 2 (it_stack it)"
      "it_currentelem it = None \<longrightarrow> it_stack it = []"
    by (elim exE conjE) (rule that)
  have "if \<forall>x\<in>set (visits 2 t). good x then \<exists>s'. it_for dead body it s = Inr s' \<and> I s' ([] @ visits 2 t)
      else it_for dead body it s = Inl e"
  proof (rule it_for_ok [where I = I and vs = "[]" and ys = "visits 2 t", OF it(3,2) assms(4) it(4,5)])
    show "distinct ([] @ visits 2 t)"
      using assms(3) by (simp add: set_visits_distinct)
    show "if good x then \<exists>s'. body x s = Inr s' \<and> I s' (vs @ [x]) else body x s = Inl e" if "I s vs" "x \<in> set (visits 2 t)" "x \<notin> set vs" for s vs x
      using body [OF that(1) _ that(3)] that(2) by (simp add: set_visits)
    show "x \<in> set vs" if "I s vs" "x \<in> set (visits 2 t)" "dead s x" for s vs x
      using dead [OF that(1) _ that(3)] that(2) by (simp add: set_visits)
  qed
  with it(1) show ?thesis
    by (simp add: set_visits split: if_splits)
qed

lemma it_for_tree:
  assumes "rbt t" "length (inorder t) < 2 ^ 63" "distinct (inorder t)" "I s []"
    and "\<And>s vs x. I s vs \<Longrightarrow> x \<in> set (inorder t) \<Longrightarrow> x \<notin> set vs \<Longrightarrow> \<exists>s'. body x s = Inr s' \<and> I s' (vs @ [x])"
    and "\<And>s vs x. I s vs \<Longrightarrow> x \<in> set (inorder t) \<Longrightarrow> dead s x \<Longrightarrow> x \<in> set vs"
  shows "\<exists>s'. rbind (sglib_it_init (dead s) t) (\<lambda>it. it_for dead body it s) = Inr s' \<and> I s' (visits 2 t)"
  using it_for_tree_cases [where good = "\<lambda>_. True" and I = I and body = body and dead = dead, OF assms(1-4)] assms(5,6)
  by simp

section \<open>The loop over all elements\<close>

text \<open>
  The macro \<open>SGLIB___BIN_TREE_MAP_ON_ELEMENTS\<close>.  An entry of the stack is the content of
  \<open>_path_\<close>, \<open>_right_\<close> and \<open>_pass_\<close> at one index, \<open>out\<close> the elements \<open>command\<close> has
  been run on.
\<close>

type_synonym 'a map_stack = "('a \<times> 'a tree \<times> nat) list"

fun push_down :: "nat \<Rightarrow> 'a tree \<Rightarrow> 'a map_stack \<Rightarrow> 'a list \<Rightarrow> ('a map_stack \<times> 'a list) res" where
  "push_down order TNull st out = Inr (st, out)"
| "push_down order (TNode x c l r) st out =
     (let st = (x, r, 0) # st; out = (if order = 0 then out @ [x] else out) in
      if SGLIB_MAX_TREE_DEEP \<le> length st then Inl AssertFail else push_down order l st out)"

fun go_up :: "nat \<Rightarrow> 'a map_stack \<Rightarrow> 'a list \<Rightarrow> ('a map_stack \<times> 'a tree \<times> 'a list) res" where
  "go_up order [] out = Inl OutOfBounds"
| "go_up order ((x, r, pass) # st) out =
     (let out = (if (order = 1 \<and> pass = 0) \<or> (order = 2 \<and> (pass = 1 \<or> r = TNull)) then out @ [x] else out) in
      if st \<noteq> [] \<and> r = TNull then go_up order st out
      else Inr ((x, TNull, pass + 1) # st, r, out))"

definition map_size :: "'a tree \<Rightarrow> 'a map_stack \<Rightarrow> nat" where
  "map_size cn st = length (inorder cn) + sum_list (map (\<lambda>(x, r, pass). length (inorder r)) st)"

lemma push_down_size:
  "push_down order cn st out = Inr (st', out') \<Longrightarrow>
    map_size TNull st' \<le> map_size cn st \<and> (cn \<noteq> TNull \<longrightarrow> map_size TNull st' < map_size cn st)"
  by (induction order cn st out rule: push_down.induct) (fastforce simp: map_size_def Let_def split: if_splits)+

lemma go_up_size:
  "go_up order st out = Inr (st', cn, out') \<Longrightarrow> map_size cn st' \<le> map_size TNull st"
  by (induction order st out rule: go_up.induct) (auto simp: map_size_def Let_def split: if_splits)

function map_on_elements :: "nat \<Rightarrow> 'a tree \<Rightarrow> 'a map_stack \<Rightarrow> 'a list \<Rightarrow> 'a list res" where
  "map_on_elements order cn st out =
     (if cn = TNull then Inr out
      else rbind (push_down order cn st out) (\<lambda>(st, out).
           rbind (go_up order st out) (\<lambda>(st, cn, out). map_on_elements order cn st out)))"
  by pat_completeness auto
termination
  by (relation "measure (\<lambda>(order, cn, st, out). map_size cn st)")
    (auto dest!: push_down_size go_up_size)

declare map_on_elements.simps [simp del]

definition sglib_len :: "'a tree \<Rightarrow> nat res" where
  "sglib_len t = rbind (map_on_elements 1 t [] []) (\<lambda>es. Inr (length es))"

text \<open>The elements that an in-order run has still to visit.\<close>

definition map_rest :: "'a map_stack \<Rightarrow> 'a list" where
  "map_rest st = concat (map (\<lambda>(x, r, pass). (if pass = 0 then [x] else []) @ inorder r) st)"

fun map_stack_ok :: "'a map_stack \<Rightarrow> bool" where
  "map_stack_ok [] = True"
| "map_stack_ok ((x, r, pass) # st) = (height r + Suc (length st) < SGLIB_MAX_TREE_DEEP \<and> map_stack_ok st)"

lemma push_down_ok:
  "map_stack_ok st \<Longrightarrow> height cn + length st < SGLIB_MAX_TREE_DEEP \<Longrightarrow>
    \<exists>st'. push_down 1 cn st out = Inr (st', out) \<and> map_stack_ok st' \<and> (cn \<noteq> TNull \<or> st \<noteq> [] \<longrightarrow> st' \<noteq> [])
      \<and> map_rest st' = inorder cn @ map_rest st"
  by (induction "1::nat" cn st out rule: push_down.induct) (auto simp: map_rest_def Let_def)

lemma go_up_ok:
  "map_stack_ok st \<Longrightarrow> st \<noteq> [] \<Longrightarrow>
    \<exists>st' cn out'. go_up 1 st out = Inr (st', cn, out') \<and> map_stack_ok st' \<and> st' \<noteq> []
      \<and> height cn + length st' < SGLIB_MAX_TREE_DEEP \<and> out @ map_rest st = out' @ inorder cn @ map_rest st'
      \<and> (cn = TNull \<longrightarrow> map_rest st' = [])"
  by (induction "1::nat" st out rule: go_up.induct) (auto simp: map_rest_def Let_def SGLIB_MAX_TREE_DEEP_def)

lemma map_on_elements_ok:
  "map_stack_ok st \<Longrightarrow> height cn + length st < SGLIB_MAX_TREE_DEEP \<Longrightarrow> (cn = TNull \<longrightarrow> map_rest st = []) \<Longrightarrow>
    map_on_elements 1 cn st out = Inr (out @ inorder cn @ map_rest st)"
proof (induction "1::nat" cn st out rule: map_on_elements.induct)
  case (1 cn st out)
  show ?case
  proof (cases "cn = TNull")
    case True
    with 1 show ?thesis
      by (simp add: map_on_elements.simps)
  next
    case False
    then obtain st1 where st1: "push_down 1 cn st out = Inr (st1, out)" "map_stack_ok st1" "st1 \<noteq> []"
        "map_rest st1 = inorder cn @ map_rest st"
      using push_down_ok 1(2,3) by blast
    then obtain st2 cn2 out2 where "go_up 1 st1 out = Inr (st2, cn2, out2)" "map_stack_ok st2"
        "height cn2 + length st2 < SGLIB_MAX_TREE_DEEP" "out @ map_rest st1 = out2 @ inorder cn2 @ map_rest st2"
        "cn2 = TNull \<longrightarrow> map_rest st2 = []"
      using go_up_ok by blast
    then show ?thesis
      using 1(1) False st1 by (subst map_on_elements.simps) simp
  qed
qed

lemma sglib_len_ok:
  "rbt t \<Longrightarrow> length (inorder t) < 2 ^ 63 \<Longrightarrow> sglib_len t = Inr (length (inorder t))"
  using rbt_height [of t] map_on_elements_ok [of "[]" t "[]"]
  by (simp add: sglib_len_def map_rest_def SGLIB_MAX_TREE_DEEP_def)

section \<open>Properties\<close>



end
