(* ===== verification/Database.thy ===== *)
theory Database
  imports RbIterator GameFunctions Config
begin

text \<open>
  The key-value store (\<open>data_base/src/main.c\<close>) and its client (\<open>data_base/src/db.c\<close>): the
  handler of a request, saving and loading, and the requests and replies as bytes.  What
  \<open>malloc\<close> returns for a reply is a parameter (the bytes of the block, which may be longer than
  asked for), as are the address of a new node and the memory use that the statistics report.
  The sockets, the event loop and the output to the terminal are left out.
\<close>

section \<open>Nodes and their order\<close>

record db_node =
  nd_addr :: nat
  nd_key :: "byte list"
  nd_data :: "byte list"
  nd_data_len :: nat

text \<open>\<open>strcmp\<close>: the characters compare as \<open>unsigned char\<close>.\<close>

fun str_cmp :: "byte list \<Rightarrow> byte list \<Rightarrow> int" where
  "str_cmp [] [] = 0"
| "str_cmp [] (b # bs) = - uint b"
| "str_cmp (a # as) [] = uint a"
| "str_cmp (a # as) (b # bs) = (if a = b then str_cmp as bs else uint a - uint b)"

definition node_comparator :: "db_node \<Rightarrow> db_node \<Rightarrow> int" where
  "node_comparator x y = str_cmp (cstr (nd_key x)) (cstr (nd_key y))"

section \<open>The store\<close>

text \<open>\<open>db_freed\<close> holds the addresses of the nodes freed so far, \<open>db_sent\<close> what was written.\<close>

record store_t =
  db_root :: "db_node tree"
  db_freed :: "nat list"
  db_sent :: "byte list list"
  db_stopped :: bool

text \<open>The argument \<open>cmd\<close> is not used by the C function either.\<close>

definition send_reply ::
  "(nat \<Rightarrow> byte list) \<Rightarrow> byte \<Rightarrow> byte list \<Rightarrow> byte list \<Rightarrow> nat \<Rightarrow> store_t \<Rightarrow> store_t res" where
  "send_reply malloc cmd key data data_len s =
     rbind (strlen key) (\<lambda>key_len.
       let total_len = key_len + data_len + 3 in
       rbind (memcpy (malloc total_len) total_len [0]) (\<lambda>buffer.
       rbind (memcpy buffer 1 (take (key_len + 1) key)) (\<lambda>buffer.
       rbind (if data_len > 0
              then if data_len \<le> length data then memcpy buffer (key_len + 2) (take data_len data)
                   else Inl OutOfBounds
              else Inr buffer) (\<lambda>buffer.
         Inr (s\<lparr>db_sent := db_sent s @ [take total_len buffer]\<rparr>)))))"

definition strdup :: "byte list \<Rightarrow> byte list res" where
  "strdup str = rbind (strlen str) (\<lambda>n. Inr (take (n + 1) str))"

text \<open>\<open>memcpy\<close> of the data of the request to a block of its size.\<close>

definition copy_data :: "db_node \<Rightarrow> byte list res" where
  "copy_data tmp = (if nd_data_len tmp \<le> length (nd_data tmp)
     then Inr (take (nd_data_len tmp) (nd_data tmp)) else Inl OutOfBounds)"

definition store_get :: "(nat \<Rightarrow> byte list) \<Rightarrow> store_t \<Rightarrow> db_node \<Rightarrow> store_t res" where
  "store_get malloc s tmp = (case sglib_find_member node_comparator (db_root s) tmp of
     None \<Rightarrow> send_reply malloc (of_char CHR ''g'') (nd_key tmp) [] 0 s
   | Some link \<Rightarrow> send_reply malloc (of_char CHR ''g'') (nd_key link) (nd_data link) (nd_data_len link) s)"

definition set_node :: "db_node \<Rightarrow> db_node tree \<Rightarrow> db_node tree" where
  "set_node link t = map_tree (\<lambda>n. if nd_addr n = nd_addr link then link else n) t"

text \<open>The requests \<open>A\<close> and \<open>S\<close>.\<close>

definition store_put :: "(nat \<Rightarrow> byte list) \<Rightarrow> nat \<Rightarrow> store_t \<Rightarrow> byte \<Rightarrow> db_node \<Rightarrow> store_t res" where
  "store_put malloc fresh s cmd tmp =
     rbind (case sglib_find_member node_comparator (db_root s) tmp of
         None \<Rightarrow>
           rbind (strdup (nd_key tmp)) (\<lambda>key.
           rbind (copy_data tmp) (\<lambda>data.
             let link = \<lparr>nd_addr = fresh, nd_key = key, nd_data = data, nd_data_len = nd_data_len tmp\<rparr> in
             rbind (sglib_add node_comparator nd_addr (db_root s) link) (\<lambda>t. Inr (t, link))))
       | Some link \<Rightarrow>
           if cmd = of_char CHR ''S'' then
             rbind (copy_data tmp) (\<lambda>data.
               let link = link\<lparr>nd_data := data, nd_data_len := nd_data_len tmp\<rparr> in
               Inr (set_node link (db_root s), link))
           else Inr (db_root s, link)) (\<lambda>(t, link).
       send_reply malloc (tolower cmd) (nd_key link) (nd_data link) (nd_data_len link) (s\<lparr>db_root := t\<rparr>))"

definition free_node :: "db_node \<Rightarrow> nat list \<Rightarrow> nat list res" where
  "free_node link freed =
     (if nd_addr link \<in> set freed then Inl UseAfterFree else Inr (nd_addr link # freed))"

definition store_del :: "(nat \<Rightarrow> byte list) \<Rightarrow> store_t \<Rightarrow> db_node \<Rightarrow> store_t res" where
  "store_del malloc s tmp =
     rbind (sglib_delete_if_member node_comparator nd_addr (db_root s) tmp) (\<lambda>(t, link).
     case link of
       Some link \<Rightarrow>
         rbind (send_reply malloc (of_char CHR ''d'') (nd_key link) (nd_data link) (nd_data_len link)
                  (s\<lparr>db_root := t\<rparr>)) (\<lambda>s.
         rbind (free_node link (db_freed s)) (\<lambda>freed. Inr (s\<lparr>db_freed := freed\<rparr>)))
     | None \<Rightarrow> send_reply malloc (of_char CHR ''d'') (nd_key tmp) [] 0 (s\<lparr>db_root := t\<rparr>))"

definition dead_node :: "nat list \<Rightarrow> db_node \<Rightarrow> bool" where
  "dead_node freed n = (nd_addr n \<in> set freed)"

text \<open>The loop of the request \<open>Z\<close>.\<close>

definition free_nodes :: "db_node tree \<Rightarrow> nat list \<Rightarrow> nat list res" where
  "free_nodes root freed =
     rbind (sglib_it_init (dead_node freed) root) (\<lambda>it. it_for dead_node free_node it freed)"

text \<open>The request \<open>_\<close>, with the buffers \<open>char key[8]\<close> and \<open>char value[8]\<close>.\<close>

definition store_stat :: "(nat \<Rightarrow> byte list) \<Rightarrow> nat \<Rightarrow> store_t \<Rightarrow> byte \<Rightarrow> store_t res" where
  "store_stat malloc rss s cmd =
     rbind (sglib_len (db_root s)) (\<lambda>count.
     rbind (sprint_at (replicate 8 0) 0 (dec_int (int count))) (\<lambda>(key, _).
     rbind (sprint_at (replicate 8 0) 0 (dec_int (int (rss div 1024)))) (\<lambda>(value, _).
     rbind (strlen value) (\<lambda>n.
       send_reply malloc (tolower cmd) key value n s))))"

definition store_clear :: "(nat \<Rightarrow> byte list) \<Rightarrow> nat \<Rightarrow> store_t \<Rightarrow> byte \<Rightarrow> store_t res" where
  "store_clear malloc rss s cmd =
     rbind (free_nodes (db_root s) (db_freed s)) (\<lambda>freed.
     rbind (send_reply malloc (of_char CHR ''z'') [0] [] 0 (s\<lparr>db_freed := freed, db_root := TNull\<rparr>)) (\<lambda>s.
       store_stat malloc rss s cmd))"

definition store_request ::
  "(nat \<Rightarrow> byte list) \<Rightarrow> nat \<Rightarrow> nat \<Rightarrow> store_t \<Rightarrow> byte \<Rightarrow> db_node \<Rightarrow> store_t res" where
  "store_request malloc fresh rss s cmd tmp =
     (if cmd = of_char CHR ''X'' then Inr (s\<lparr>db_stopped := True\<rparr>)
      else if cmd = of_char CHR ''G'' then store_get malloc s tmp
      else if cmd = of_char CHR ''A'' \<or> cmd = of_char CHR ''S'' then store_put malloc fresh s cmd tmp
      else if cmd = of_char CHR ''D'' then store_del malloc s tmp
      else if cmd = of_char CHR ''Z'' then store_clear malloc rss s cmd
      else if cmd = of_char CHR ''_'' then store_stat malloc rss s cmd
      else Inr s)"

definition strnlen :: "byte list \<Rightarrow> nat \<Rightarrow> nat res" where
  "strnlen str n = (let k = length (cstr str) in
     if n \<le> k then Inr n else if terminated str then Inr k else Inl OutOfBounds)"

text \<open>\<open>base\<close> is the block that was received into; \<open>nread\<close> wraps where the C code casts it.\<close>

definition on_recv ::
  "(nat \<Rightarrow> byte list) \<Rightarrow> nat \<Rightarrow> nat \<Rightarrow> store_t \<Rightarrow> byte list \<Rightarrow> int \<Rightarrow> store_t res" where
  "on_recv malloc fresh rss s base nread =
     (if nread < 0 then Inr s
      else
        let limit = nat ((nread - 1) mod 2 ^ 64) in
        rbind (strnlen (drop 1 base) limit) (\<lambda>key_len.
          if key_len = limit then Inr s
          else
            store_request malloc fresh rss s (base ! 0)
              \<lparr>nd_addr = 0, nd_key = drop 1 base, nd_data = drop (key_len + 2) base,
               nd_data_len = nat ((nread - int key_len - 2) mod 2 ^ 64)\<rparr>))"

section \<open>The comparator\<close>

lemma str_cmp_sym: "str_cmp y x = - str_cmp x y"
  by (induction x y rule: str_cmp.induct) auto

lemma uint_eq [simp]: "uint (a :: byte) = uint b \<longleftrightarrow> a = b"
  by (simp add: word_uint_eq_iff)

lemma uint_pos: "(b :: byte) \<noteq> 0 \<Longrightarrow> 0 < uint b"
  by (metis uint_ge_0 order_le_less uint_0_iff)

lemma str_cmp_0: "0 \<notin> set x \<Longrightarrow> 0 \<notin> set y \<Longrightarrow> str_cmp x y = 0 \<longleftrightarrow> x = y"
  by (induction x y rule: str_cmp.induct) (auto simp: uint_0_iff)

lemma str_cmp_trans:
  "0 \<notin> set x \<Longrightarrow> 0 \<notin> set y \<Longrightarrow> 0 \<notin> set z \<Longrightarrow> str_cmp x y \<le> 0 \<Longrightarrow> str_cmp y z \<le> 0 \<Longrightarrow> str_cmp x z \<le> 0"
proof (induction x z arbitrary: y rule: str_cmp.induct)
  case (3 a as)
  then show ?case
    using uint_pos by (cases y) (fastforce split: if_splits)+
next
  case (4 a as b bs)
  obtain c cs where y: "y = c # cs"
    using 4 uint_pos [of a] by (cases y) auto
  show ?case
  proof (cases "a = b")
    case True
    then have "c = b"
      using 4 y by (auto split: if_splits)
    then show ?thesis
      using 4 y True by auto
  next
    case False
    then show ?thesis
      using 4 y by (auto split: if_splits)
  qed
qed (use uint_ge_0 in auto)

interpretation nodes: sglib_order node_comparator nd_addr
proof
  fix x y z
  show "(node_comparator x y < 0) = (node_comparator y x > 0)"
    unfolding node_comparator_def by (subst str_cmp_sym) simp
  show "node_comparator x y \<le> 0 \<Longrightarrow> node_comparator y z \<le> 0 \<Longrightarrow> node_comparator x z \<le> 0"
    unfolding node_comparator_def by (rule str_cmp_trans) auto
qed

abbreviation node_key :: "db_node \<Rightarrow> byte list" where
  "node_key n \<equiv> cstr (nd_key n)"

lemma node_comparator_0: "node_comparator x y = 0 \<longleftrightarrow> node_key x = node_key y"
  by (simp add: node_comparator_def str_cmp_0)

section \<open>The contract of a keyed store\<close>

text \<open>What the requests rely on: a collection of elements with at most one for each key.\<close>

locale keyed_store =
  fixes find :: "'t \<Rightarrow> 'k \<Rightarrow> 'e option" and add :: "'t \<Rightarrow> 'e \<Rightarrow> 't res" and del :: "'t \<Rightarrow> 'e \<Rightarrow> 't res"
    and key :: "'e \<Rightarrow> 'k" and inv :: "'t \<Rightarrow> bool" and fits :: "'t \<Rightarrow> 'e \<Rightarrow> bool"
  assumes find_key: "inv t \<Longrightarrow> find t k = Some e \<Longrightarrow> key e = k"
    and add_find: "inv t \<Longrightarrow> fits t e \<Longrightarrow> find t (key e) = None \<Longrightarrow>
      \<exists>t'. add t e = Inr t' \<and> inv t' \<and> find t' = (find t)(key e := Some e)"
    and del_find: "inv t \<Longrightarrow> find t k = Some e \<Longrightarrow>
      \<exists>t'. del t e = Inr t' \<and> inv t' \<and> find t' = (find t)(k := None)"
begin

definition put :: "'t \<Rightarrow> 'e \<Rightarrow> 't res" where
  "put t e = (case find t (key e) of None \<Rightarrow> add t e | Some _ \<Rightarrow> Inr t)"

definition remove :: "'t \<Rightarrow> 'k \<Rightarrow> 't res" where
  "remove t k = (case find t k of None \<Rightarrow> Inr t | Some e \<Rightarrow> del t e)"

definition view :: "('e \<Rightarrow> 'v) \<Rightarrow> 't \<Rightarrow> 'k \<rightharpoonup> 'v" where
  "view val t k = map_option val (find t k)"

lemma put_ok:
  assumes "inv t" "fits t e"
  shows "\<exists>t'. put t e = Inr t' \<and> inv t'
    \<and> view val t' = (if view val t (key e) = None then (view val t)(key e \<mapsto> val e) else view val t)"
proof (cases "find t (key e)")
  case None
  with add_find [OF assms None] show ?thesis
    by (auto simp: put_def view_def fun_eq_iff)
next
  case (Some e')
  with assms show ?thesis
    by (simp add: put_def view_def)
qed

lemma remove_ok:
  assumes "inv t"
  shows "\<exists>t'. remove t k = Inr t' \<and> inv t' \<and> view val t' = (view val t)(k := None)"
proof (cases "find t k")
  case None
  with assms show ?thesis
    by (auto simp: remove_def view_def fun_eq_iff)
next
  case (Some e)
  with del_find [OF assms Some] show ?thesis
    by (auto simp: remove_def view_def fun_eq_iff)
qed

end

section \<open>The tree of nodes is a keyed store\<close>

definition node_ok :: "db_node \<Rightarrow> bool" where
  "node_ok n \<longleftrightarrow> terminated (nd_key n) \<and> nd_data_len n = length (nd_data n)"

definition tree_inv :: "db_node tree \<Rightarrow> bool" where
  "tree_inv t \<longleftrightarrow> rbt t \<and> nodes.in_order t \<and> distinct (map nd_addr (inorder t))
     \<and> distinct (map node_key (inorder t)) \<and> list_all node_ok (inorder t)"

definition find_key :: "db_node tree \<Rightarrow> byte list \<Rightarrow> db_node option" where
  "find_key t k = List.find (\<lambda>n. node_key n = k) (inorder t)"

definition node_fits :: "db_node tree \<Rightarrow> db_node \<Rightarrow> bool" where
  "node_fits t e \<longleftrightarrow> nd_addr e \<notin> nd_addr ` set (inorder t) \<and> node_ok e"

lemma find_distinct:
  "distinct (map f xs) \<Longrightarrow> List.find (\<lambda>n. f n = k) xs = Some x \<longleftrightarrow> x \<in> set xs \<and> f x = k"
  by (induction xs) auto

lemma find_key_Some:
  "tree_inv t \<Longrightarrow> find_key t k = Some x \<longleftrightarrow> x \<in> set (inorder t) \<and> node_key x = k"
  by (simp add: find_key_def tree_inv_def find_distinct)

lemma find_key_None: "find_key t k = None \<longleftrightarrow> (\<forall>x\<in>set (inorder t). node_key x \<noteq> k)"
  by (auto simp: find_key_def find_None_iff)

lemma find_member_key:
  assumes "tree_inv t"
  shows "sglib_find_member node_comparator t e = find_key t (node_key e)"
proof (cases "sglib_find_member node_comparator t e")
  case None
  then have "find_key t (node_key e) = None"
    using nodes.find_member_None [of t e] assms
    by (fastforce simp: tree_inv_def find_key_None node_comparator_0)
  with None show ?thesis
    by simp
next
  case (Some x)
  then have "find_key t (node_key e) = Some x"
    using nodes.find_member_Some [OF Some] find_key_Some [OF assms] by (simp add: node_comparator_0)
  with Some show ?thesis
    by simp
qed

lemma find_key_eqI:
  assumes "tree_inv t" "tree_inv t'"
    "\<And>x. x \<in> set (inorder t') \<and> node_key x = k \<longleftrightarrow> f k = Some x"
  shows "find_key t' k = f k"
proof -
  have "find_key t' k = Some x \<longleftrightarrow> f k = Some x" for x
    by (simp add: find_key_Some [OF assms(2)] assms(3))
  then show ?thesis
    by (metis not_Some_eq)
qed

lemma distinct_place: "distinct (map f (nodes.place e xs)) = distinct (map f (e # xs))"
  by (induction xs) auto

lemma distinct_remove1_map: "distinct (map f xs) \<Longrightarrow> distinct (map f (remove1 x xs))"
  by (induction xs) (auto dest: set_remove1_subset [THEN subsetD])

lemma add_find_key:
  assumes t: "tree_inv t" and e: "node_fits t e" and none: "find_key t (node_key e) = None"
  shows "\<exists>t'. sglib_add node_comparator nd_addr t e = Inr t' \<and> tree_inv t' \<and> find_key t' = (find_key t)(node_key e := Some e)
    \<and> set (inorder t') = insert e (set (inorder t))"
proof -
  have "nodes.less e y \<or> nodes.less y e" if "y \<in> set (inorder t)" for y
  proof -
    have "node_comparator e y \<noteq> 0"
      using none that by (auto simp: find_key_None node_comparator_0)
    then show ?thesis
      using nodes.cmp_sym [of e y] nodes.cmp_sym [of y e] by (auto simp: elem_less_def)
  qed
  then obtain t' where t': "sglib_add node_comparator nd_addr t e = Inr t'" "rbt t'" "nodes.in_order t'"
      "inorder t' = nodes.place e (inorder t)"
    using nodes.sglib_add_ok [of t e] t by (auto simp: tree_inv_def)
  have inv: "tree_inv t'"
    using t t' e none by (auto simp: tree_inv_def node_fits_def find_key_None list_all_iff image_iff distinct_place)
  have se: "set (inorder t') = insert e (set (inorder t))"
    using t'(4) by simp
  have "find_key t' k = ((find_key t)(node_key e := Some e)) k" for k
    by (rule find_key_eqI [OF t inv]) (use se none find_key_Some [OF t] in \<open>auto simp: find_key_None\<close>)
  then show ?thesis
    using t'(1) inv se by blast
qed

lemma del_find_key:
  assumes t: "tree_inv t" and e: "find_key t k = Some e"
  shows "\<exists>t'. sglib_delete node_comparator nd_addr t e = Inr t' \<and> tree_inv t' \<and> find_key t' = (find_key t)(k := None)
    \<and> set (inorder t') = set (inorder t) - {e}"
proof -
  have mem: "e \<in> set (inorder t)" "node_key e = k"
    using e find_key_Some [OF t] by auto
  obtain t' where t': "sglib_delete node_comparator nd_addr t e = Inr t'" "rbt t'" "nodes.in_order t'"
      "inorder t' = remove1 e (inorder t)"
    using nodes.delete_ok [of t e] t mem by (auto simp: tree_inv_def)
  have d: "distinct (inorder t)"
    using t by (auto simp: tree_inv_def distinct_map)
  then have se: "set (inorder t') = set (inorder t) - {e}"
    using t'(4) by simp
  have inv: "tree_inv t'"
    using t t' se by (auto simp: tree_inv_def list_all_iff distinct_remove1_map)
  have "find_key t' l = ((find_key t)(k := None)) l" for l
    by (rule find_key_eqI [OF t inv]) (use se mem find_key_Some [OF t] t in
      \<open>auto simp: tree_inv_def distinct_map inj_on_def\<close>)
  then show ?thesis
    using t'(1) inv se by blast
qed

interpretation db: keyed_store find_key "sglib_add node_comparator nd_addr" "sglib_delete node_comparator nd_addr"
    node_key tree_inv node_fits
proof
  show "tree_inv t \<Longrightarrow> find_key t k = Some e \<Longrightarrow> node_key e = k" for t k e
    by (simp add: find_key_Some)
qed (use add_find_key del_find_key in blast)+

section \<open>Replies\<close>

text \<open>
  What a reply looks like when the block has room for the terminator that is written behind
  it: the first byte is what the block held, and so is the byte after the data.
\<close>

definition reply_bytes :: "(nat \<Rightarrow> byte list) \<Rightarrow> byte list \<Rightarrow> byte list \<Rightarrow> byte list" where
  "reply_bytes malloc k d = (let b = malloc (length k + length d + 3) in
     b ! 0 # k @ 0 # d @ [b ! (length k + length d + 2)])"

definition roomy :: "(nat \<Rightarrow> byte list) \<Rightarrow> bool" where
  "roomy malloc \<longleftrightarrow> (\<forall>n. n < length (malloc n))"

lemma split_block:
  assumes "i + j + 2 < length bs"
  obtains xs ys c w zs where "bs = xs @ ys @ c # w # zs" "length xs = Suc i" "length ys = j"
proof
  have c: "drop (Suc i + j) bs = bs ! (Suc i + j) # drop (Suc (Suc i + j)) bs"
    using assms by (intro Cons_nth_drop_Suc [symmetric]) simp
  have w: "drop (Suc (Suc i + j)) bs = bs ! Suc (Suc i + j) # drop (Suc (Suc (Suc i + j))) bs"
    using assms by (intro Cons_nth_drop_Suc [symmetric]) simp
  have "bs = take (Suc i) bs @ take j (drop (Suc i) bs) @ drop (Suc i + j) bs"
    by (metis append_take_drop_id drop_drop add.commute)
  then show "bs = take (Suc i) bs @ take j (drop (Suc i) bs) @ bs ! (Suc i + j) # bs ! Suc (Suc i + j)
      # drop (Suc (Suc (Suc i + j))) bs"
    by (simp only: c w)
  show "length (take (Suc i) bs) = Suc i" "length (take j (drop (Suc i) bs)) = j"
    using assms by simp_all
qed

lemma send_reply_ok:
  assumes "roomy malloc" "terminated key" "n = length data"
  shows "send_reply malloc cmd key data n s = Inr (s\<lparr>db_sent := db_sent s @ [reply_bytes malloc (cstr key) data]\<rparr>)"
proof -
  obtain k rest where key: "key = k @ 0 # rest" "cstr key = k"
    using assms(2) by (rule terminatedE)
  let ?n = "length k + length data + 3"
  have n: "?n < length (malloc ?n)"
    using assms(1) by (simp add: roomy_def)
  then obtain b bs where b: "malloc ?n = b # bs"
    by (cases "malloc ?n") auto
  with n have "length k + length data + 2 < length bs"
    by simp
  then obtain xs ys c w zs where bs: "bs = xs @ ys @ c # w # zs" "length xs = Suc (length k)" "length ys = length data"
    by (rule split_block)
  have "data = [] \<Longrightarrow> ys = []"
    using bs(3) by simp
  then show ?thesis
    using assms b unfolding send_reply_def reply_bytes_def key(2) strlen_ok [OF assms(2)]
    by (auto simp: memcpy_def Let_def bs key(1) nth_append numeral_eq_Suc)
qed

lemma send_reply_exact:
  assumes "terminated key" "length (malloc (length (cstr key) + n + 3)) = length (cstr key) + n + 3"
  shows "send_reply malloc cmd key data n s = Inl OutOfBounds"
  using assms by (simp add: send_reply_def strlen_ok memcpy_def Let_def)

section \<open>Changing the data of a node\<close>

lemma map_tree_simps:
  "inorder (map_tree f t) = map f (inorder t)" "red (map_tree f t) = red t" "inv_c (map_tree f t) = inv_c t"
  "bheight (map_tree f t) = bheight t" "inv_h (map_tree f t) = inv_h t"
  by (induction t) auto

lemma set_node_ok:
  assumes t: "tree_inv t" and x: "find_key t k = Some x"
    and link: "link = x\<lparr>nd_data := d, nd_data_len := length d\<rparr>"
  shows "tree_inv (set_node link t)" "find_key (set_node link t) = (find_key t)(k := Some link)"
    "nd_addr ` set (inorder (set_node link t)) = nd_addr ` set (inorder t)"
    "length (inorder (set_node link t)) = length (inorder t)"
proof -
  let ?f = "\<lambda>n. if nd_addr n = nd_addr link then link else n"
  have mem: "x \<in> set (inorder t)" "node_key x = k"
    using x find_key_Some [OF t] by auto
  have f: "?f y = (if y = x then link else y)" if "y \<in> set (inorder t)" for y
    using t that mem link by (auto simp: tree_inv_def distinct_map inj_on_def)
  then have io: "inorder (set_node link t) = map (\<lambda>y. if y = x then link else y) (inorder t)"
    by (simp add: set_node_def map_tree_simps)
  have same: "nd_addr (if y = x then link else y) = nd_addr y" "nd_key (if y = x then link else y) = nd_key y" for y
    using link by auto
  have less: "nodes.less (if y = x then link else y) (if z = x then link else z) = nodes.less y z" for y z
    by (simp add: elem_less_def node_comparator_def same)
  show inv: "tree_inv (set_node link t)"
    using t unfolding tree_inv_def io nodes.in_order_def rbt_def list.map_comp comp_def same
    by (auto simp: set_node_def map_tree_simps sorted_wrt_map less list_all_iff node_ok_def link comp_def)
  show "nd_addr ` set (inorder (set_node link t)) = nd_addr ` set (inorder t)"
    by (simp only: io set_map image_image same)
  show "length (inorder (set_node link t)) = length (inorder t)"
    by (simp add: io)
  have memb: "y \<in> set (inorder (set_node link t)) \<longleftrightarrow> (y = link \<or> (y \<in> set (inorder t) \<and> y \<noteq> x))" for y
    using mem by (auto simp: io)
  have key: "node_key link = k" and uniq: "\<And>z. z \<in> set (inorder t) \<Longrightarrow> node_key z = k \<longleftrightarrow> z = x"
    using link mem t by (auto simp: tree_inv_def distinct_map inj_on_def)
  have "find_key (set_node link t) l = ((find_key t)(k := Some link)) l" for l
    by (rule find_key_eqI [OF t inv]) (use key uniq mem in \<open>auto simp: memb find_key_Some [OF t]\<close>)
  then show "find_key (set_node link t) = (find_key t)(k := Some link)"
    by blast
qed

section \<open>The requests on the map of the store\<close>

definition db_map :: "store_t \<Rightarrow> byte list \<rightharpoonup> byte list" where
  "db_map s = db.view nd_data (db_root s)"

definition db_inv :: "store_t \<Rightarrow> bool" where
  "db_inv s \<longleftrightarrow> tree_inv (db_root s) \<and> length (inorder (db_root s)) < 2 ^ 31
     \<and> nd_addr ` set (inorder (db_root s)) \<inter> set (db_freed s) = {}"

lemma db_inv_sent [simp]: "db_inv (s\<lparr>db_sent := x\<rparr>) = db_inv s"
  by (simp add: db_inv_def)

text \<open>A fresh block for one more node.\<close>

definition room_for :: "nat \<Rightarrow> store_t \<Rightarrow> bool" where
  "room_for fresh s \<longleftrightarrow> fresh \<notin> nd_addr ` set (inorder (db_root s)) \<and> fresh \<notin> set (db_freed s)
     \<and> Suc (length (inorder (db_root s))) < 2 ^ 31"

text \<open>What a request may add to the blocks of the store.\<close>

definition blocks :: "store_t \<Rightarrow> nat set" where
  "blocks s = nd_addr ` set (inorder (db_root s)) \<union> set (db_freed s)"

definition grows :: "nat \<Rightarrow> store_t \<Rightarrow> store_t \<Rightarrow> bool" where
  "grows fresh s s' \<longleftrightarrow> blocks s' \<subseteq> insert fresh (blocks s)
     \<and> length (inorder (db_root s')) \<le> Suc (length (inorder (db_root s)))"

lemma grows_sent [simp]: "grows fresh s (s\<lparr>db_sent := x\<rparr>)"
  by (auto simp: grows_def blocks_def)

definition request :: "char \<Rightarrow> byte list \<Rightarrow> byte list \<Rightarrow> byte list" where
  "request c k d = of_char c # k @ 0 # d"

lemma on_recv_request:
  assumes "0 \<notin> set k" "length (request c k d) < 2 ^ 63"
  shows "on_recv malloc fresh rss s (request c k d @ rest) (int (length (request c k d)))
    = store_request malloc fresh rss s (of_char c)
        \<lparr>nd_addr = 0, nd_key = k @ 0 # d @ rest, nd_data = d @ rest, nd_data_len = length d\<rparr>"
proof -
  let ?n = "length k + length d + 2"
  have n: "length (request c k d) = ?n" "?n < 2 ^ 63"
    using assms(2) by (simp_all add: request_def)
  have limit: "nat ((int ?n - 1) mod 2 ^ 64) = Suc (length k + length d)"
    using n(2) by simp
  have len: "nat ((int ?n - int (length k) - 2) mod 2 ^ 64) = length d"
    using n(2) by simp
  have "strnlen (k @ 0 # d @ rest) (Suc (length k + length d)) = Inr (length k)"
    using assms(1) by (simp add: strnlen_def cstr_append_zero Let_def)
  then show ?thesis
    unfolding on_recv_def n(1) limit Let_def by (simp add: request_def len [simplified])
qed

lemma db_map_eq: "db_map s k = map_option nd_data (find_key (db_root s) k)"
  by (simp add: db_map_def db.view_def)

lemma found_node:
  assumes "db_inv s" "find_key (db_root s) k = Some x"
  shows "node_key x = k" "terminated (nd_key x)" "nd_data_len x = length (nd_data x)"
    "x \<in> set (inorder (db_root s))"
  using assms find_key_Some [of "db_root s" k x] by (auto simp: db_inv_def tree_inv_def list_all_iff node_ok_def)

text \<open>The node of a request as \<open>on_recv\<close> builds it.\<close>

abbreviation request_node :: "byte list \<Rightarrow> byte list \<Rightarrow> byte list \<Rightarrow> db_node" where
  "request_node k d rest \<equiv> \<lparr>nd_addr = 0, nd_key = k @ 0 # d @ rest, nd_data = d @ rest, nd_data_len = length d\<rparr>"

lemma find_request:
  "db_inv s \<Longrightarrow> 0 \<notin> set k \<Longrightarrow>
    sglib_find_member node_comparator (db_root s) (request_node k d rest) = find_key (db_root s) k"
  by (simp add: db_inv_def find_member_key cstr_append_zero)

lemma store_get_ok:
  assumes "db_inv s" "roomy malloc" "0 \<notin> set k"
  shows "store_get malloc s (request_node k d rest)
    = Inr (s\<lparr>db_sent := db_sent s @ [reply_bytes malloc k (case db_map s k of None \<Rightarrow> [] | Some v \<Rightarrow> v)]\<rparr>)"
proof (cases "find_key (db_root s) k")
  case None
  then show ?thesis
    using assms by (simp add: store_get_def find_request send_reply_ok db_map_eq cstr_append_zero)
next
  case (Some x)
  then show ?thesis
    using assms found_node [OF assms(1) Some]
    by (simp add: store_get_def find_request send_reply_ok db_map_eq)
qed

lemma store_put_ok:
  assumes inv: "db_inv s" and malloc: "roomy malloc" and k: "0 \<notin> set k" and fresh: "room_for fresh s"
    and c: "c = CHR ''S'' \<or> c = CHR ''A''"
    and v: "v = (if c = CHR ''A'' then (case db_map s k of None \<Rightarrow> d | Some w \<Rightarrow> w) else d)"
  shows "\<exists>s'. store_put malloc fresh s (of_char c) (request_node k d rest) = Inr s' \<and> db_inv s'
    \<and> db_map s' = (db_map s)(k \<mapsto> v) \<and> db_sent s' = db_sent s @ [reply_bytes malloc k v]
    \<and> db_freed s' = db_freed s \<and> grows fresh s s'"
proof (cases "find_key (db_root s) k")
  case None
  let ?n = "\<lparr>nd_addr = fresh, nd_key = k @ [0], nd_data = d, nd_data_len = length d\<rparr>"
  have key: "cstr (k @ [0]) = k"
    using k by (simp add: cstr_append_zero)
  have "node_fits (db_root s) ?n"
    using fresh by (simp add: node_fits_def room_for_def node_ok_def)
  then obtain t' where t': "sglib_add node_comparator nd_addr (db_root s) ?n = Inr t'" "tree_inv t'"
      "find_key t' = (find_key (db_root s))(k := Some ?n)" "set (inorder t') = insert ?n (set (inorder (db_root s)))"
    using add_find_key [of "db_root s" ?n] inv None key by (auto simp: db_inv_def)
  have "distinct (inorder t')" "distinct (inorder (db_root s))"
    using t'(2) inv by (auto simp: tree_inv_def db_inv_def distinct_map)
  then have "length (inorder t') \<le> Suc (length (inorder (db_root s)))"
    using t'(4) by (metis distinct_card card_insert_le_m1 card_insert_if finite_set le_SucI order_refl)
  moreover have "v = d" "tolower (of_char c) = tolower (of_char c)"
    using v None c by (auto simp: db_map_eq)
  ultimately show ?thesis
    using inv malloc k fresh None t' key
    by (auto simp: store_put_def find_request strdup_def strlen_ok copy_data_def send_reply_ok db_inv_def room_for_def
      db_map_eq fun_eq_iff cstr_append_zero grows_def blocks_def)
next
  case (Some x)
  note x = found_node [OF inv Some]
  show ?thesis
  proof (cases "c = CHR ''S''")
    case True
    let ?l = "x\<lparr>nd_data := d, nd_data_len := length d\<rparr>"
    note l = set_node_ok [OF _ Some refl, of d]
    show ?thesis
      using inv malloc k Some x l True v
      by (auto simp: store_put_def find_request copy_data_def send_reply_ok db_inv_def db_map_eq fun_eq_iff Let_def
        grows_def blocks_def)
  next
    case False
    with c have "c = CHR ''A''"
      by simp
    then show ?thesis
      using inv malloc k Some x v
      by (auto simp: store_put_def find_request send_reply_ok db_map_eq fun_eq_iff)
  qed
qed

lemma store_del_ok:
  assumes inv: "db_inv s" and malloc: "roomy malloc" and k: "0 \<notin> set k"
  shows "\<exists>s'. store_del malloc s (request_node k d rest) = Inr s' \<and> db_inv s'
    \<and> db_map s' = (db_map s)(k := None)
    \<and> db_sent s' = db_sent s @ [reply_bytes malloc k (case db_map s k of None \<Rightarrow> [] | Some v \<Rightarrow> v)]
    \<and> grows fresh s s'"
proof (cases "find_key (db_root s) k")
  case None
  then show ?thesis
    using assms by (auto simp: store_del_def sglib_delete_if_member_def find_request send_reply_ok db_map_eq
      cstr_append_zero fun_eq_iff)
next
  case (Some x)
  note x = found_node [OF inv Some]
  obtain t' where t': "sglib_delete node_comparator nd_addr (db_root s) x = Inr t'" "tree_inv t'"
      "find_key t' = (find_key (db_root s))(k := None)" "set (inorder t') = set (inorder (db_root s)) - {x}"
    using del_find_key [of "db_root s" k x] inv Some by (auto simp: db_inv_def)
  have d: "distinct (inorder t')" "distinct (inorder (db_root s))" "inj_on nd_addr (set (inorder (db_root s)))"
    using t'(2) inv by (auto simp: tree_inv_def db_inv_def distinct_map)
  then have "length (inorder t') \<le> length (inorder (db_root s))"
    using t'(4) by (metis Diff_subset card_mono distinct_card finite_set)
  moreover have "nd_addr x \<notin> nd_addr ` (set (inorder (db_root s)) - {x})"
    using d(3) x(4) by (auto simp: inj_on_def)
  moreover have "nd_addr x \<notin> set (db_freed s)"
    using inv x(4) by (auto simp: db_inv_def)
  ultimately show ?thesis
    using inv malloc k Some x t'
    by (auto simp: store_del_def sglib_delete_if_member_def find_request send_reply_ok db_map_eq free_node_def
      db_inv_def fun_eq_iff grows_def blocks_def)
qed

section \<open>Emptying the store\<close>

lemma free_nodes_ok:
  assumes "rbt root" "length (inorder root) < 2 ^ 63" "distinct (map nd_addr (inorder root))"
    "nd_addr ` set (inorder root) \<inter> set freed = {}"
  shows "free_nodes root freed = Inr (rev (map nd_addr (visits 2 root)) @ freed)"
proof -
  define I where "I = (\<lambda>fr vs. fr = rev (map nd_addr vs) @ freed \<and> set vs \<subseteq> set (inorder root))"
  have inj: "inj_on nd_addr (set (inorder root))" and d: "distinct (inorder root)"
    using assms(3) by (auto simp: distinct_map)
  have new: "nd_addr x \<in> set fr \<longleftrightarrow> x \<in> set vs" if "I fr vs" "x \<in> set (inorder root)" for fr vs x
    using that assms(4) inj by (auto simp: I_def inj_on_def)
  have "\<exists>fr. rbind (sglib_it_init (dead_node freed) root) (\<lambda>it. it_for dead_node free_node it freed) = Inr fr
    \<and> I fr (visits 2 root)"
  proof (rule it_for_tree [OF assms(1,2) d])
    show "I freed []"
      by (simp add: I_def)
    show "\<exists>fr'. free_node x fr = Inr fr' \<and> I fr' (vs @ [x])"
      if "I fr vs" "x \<in> set (inorder root)" "x \<notin> set vs" for fr vs x
      using that new [OF that(1,2)] by (auto simp: free_node_def I_def)
    show "x \<in> set vs" if "I fr vs" "x \<in> set (inorder root)" "dead_node fr x" for fr vs x
      using that new [OF that(1,2)] by (simp add: dead_node_def)
  qed
  then show ?thesis
    by (auto simp: free_nodes_def I_def)
qed

lemma tree_inv_TNull: "tree_inv TNull"
  by (simp add: tree_inv_def rbt_def nodes.in_order_def)

section \<open>Properties\<close>

lemma remove1_place: "e \<notin> set xs \<Longrightarrow> remove1 e (nodes.place e xs) = xs"
  by (induction xs) auto

lemma in_order_links: "nodes.in_order t \<Longrightarrow> links_ordered node_comparator t"
proof (induction t)
  case (TNode x c l r)
  then show ?case
    by (cases l; cases r) (auto simp: nodes.in_order_node elem_less_def)
qed simp

text \<open>
  C4. A node whose key is not in the tree is added without a fault; the tree is then still a
  red-black tree that the consistency check accepts, the node is found, and deleting it
  restores the old sequence of nodes in a tree that is again balanced and ordered.
\<close>

theorem sglib_add_delete:
  assumes "tree_inv t" and "node_fits t e" and "sglib_find_member node_comparator t e = None"
  shows "\<exists>t' t''. sglib_add node_comparator nd_addr t e = Inr t' \<and> tree_inv t'
    \<and> consistency_check node_comparator t' = Inr ()
    \<and> sglib_find_member node_comparator t' e = Some e
    \<and> sglib_delete_if_member node_comparator nd_addr t' e = Inr (t'', Some e)
    \<and> tree_inv t'' \<and> inorder t'' = inorder t"
proof -
  have none: "find_key t (node_key e) = None"
    using assms by (simp add: find_member_key)
  obtain t' where t': "sglib_add node_comparator nd_addr t e = Inr t'" "tree_inv t'"
      "find_key t' = (find_key t)(node_key e := Some e)"
    using add_find_key [OF assms(1,2) none] by blast
  have find: "sglib_find_member node_comparator t' e = Some e"
    using t' by (simp add: find_member_key)
  have "is_ok (consistency_check node_comparator t')"
    using t'(2) in_order_links by (simp add: consistency_check_eq tree_inv_def)
  then have "consistency_check node_comparator t' = Inr ()"
    by (auto simp: is_ok_iff)
  moreover have "e \<notin> set (inorder t)"
    using none by (auto simp: find_key_None)
  moreover have "inorder t' = nodes.place e (inorder t)"
    using nodes.add_recursive_inorder [of t e] assms(1) t'(1)
    by (auto simp: sglib_add_def rbind_eq_Inr tree_inv_def split: if_splits)
  moreover obtain t'' where "sglib_delete node_comparator nd_addr t' e = Inr t''" "tree_inv t''"
    using del_find_key [OF t'(2), of "node_key e" e] t'(3) by auto
  moreover have "inorder t'' = remove1 e (inorder t')" if "sglib_delete node_comparator nd_addr t' e = Inr t''" for t''
    using nodes.delete_ok [of t' e] that t'(2,3) find_key_Some [OF t'(2), of "node_key e" e] by (auto simp: tree_inv_def)
  ultimately show ?thesis
    using t' find by (auto simp: sglib_delete_if_member_def remove1_place)
qed

lemma sglib_add_delete_witness:
  "\<exists>t' t''. sglib_add node_comparator nd_addr (TNode \<lparr>nd_addr = 1, nd_key = [98, 0], nd_data = [], nd_data_len = 0\<rparr> BLACK TNull TNull)
      \<lparr>nd_addr = 2, nd_key = [97, 0], nd_data = [5], nd_data_len = 1\<rparr> = Inr t'
    \<and> sglib_delete_if_member node_comparator nd_addr t' \<lparr>nd_addr = 2, nd_key = [97, 0], nd_data = [5], nd_data_len = 1\<rparr>
      = Inr (t'', Some \<lparr>nd_addr = 2, nd_key = [97, 0], nd_data = [5], nd_data_len = 1\<rparr>)
    \<and> inorder t'' = [\<lparr>nd_addr = 1, nd_key = [98, 0], nd_data = [], nd_data_len = 0\<rparr>]"
proof -
  let ?t = "TNode \<lparr>nd_addr = 1, nd_key = [98, 0], nd_data = [], nd_data_len = 0\<rparr> BLACK TNull TNull"
  let ?e = "\<lparr>nd_addr = 2, nd_key = [97, 0], nd_data = [5], nd_data_len = 1\<rparr>"
  have "tree_inv ?t" "node_fits ?t ?e"
    by (simp_all add: tree_inv_def rbt_def nodes.in_order_def node_ok_def node_fits_def terminated_def)
  moreover have "sglib_find_member node_comparator ?t ?e = None"
    by code_simp
  ultimately show ?thesis
    using sglib_add_delete [of ?t ?e] by auto
qed

end
