(* ===== verification/DbFile.thy ===== *)
theory DbFile
  imports Database
begin

text \<open>
  Saving and loading of the key-value store (\<open>serialize\<close> and \<open>deserialize\<close> of
  \<open>data_base/src/main.c\<close>).  A file is the list of its bytes; \<open>buffer\<close> is the uninitialised
  line buffer of \<open>deserialize\<close>, and the new nodes get the addresses from \<open>fresh\<close> on.  The data
  of a node has no terminator of its own: printing it with \<open>%s\<close> reads on behind the block.
\<close>

section \<open>Saving\<close>

text \<open>The body of the loop; the state is what was printed and which nodes are freed.\<close>

definition serialize_node :: "db_node \<Rightarrow> byte list \<times> nat list \<Rightarrow> (byte list \<times> nat list) res" where
  "serialize_node link = (\<lambda>(out, freed).
     rbind (fmt_str (nd_key link)) (\<lambda>key.
     rbind (fmt_str (nd_data link)) (\<lambda>data.
     rbind (free_node link freed) (\<lambda>freed.
       Inr (out @ key @ [1] @ data @ [10], freed)))))"

definition serialize :: "db_node tree \<Rightarrow> nat list \<Rightarrow> (byte list \<times> nat list) res" where
  "serialize root freed =
     rbind (sglib_it_init (dead_node freed) root) (\<lambda>it.
       it_for (\<lambda>(out, freed). dead_node freed) serialize_node it ([], freed))"

section \<open>Loading\<close>

text \<open>\<open>strtok(..., "\x01")\<close> from a position of the buffer.\<close>

definition strtok_one :: "byte list \<Rightarrow> nat \<Rightarrow> (nat option \<times> byte list \<times> nat) res" where
  "strtok_one buf pos =
     rbind (scan_while (\<lambda>c. c = 1) buf pos) (\<lambda>start.
       if buf ! start = 0 then Inr (None, buf, start)
       else
         rbind (scan_while (\<lambda>c. c \<noteq> 0 \<and> c \<noteq> 1) buf start) (\<lambda>e.
           if buf ! e = 0 then Inr (Some start, buf, e)
           else Inr (Some start, buf[e := 0], Suc e)))"

text \<open>What the loop does with the line it has read.\<close>

definition deserialize_line :: "nat \<Rightarrow> byte list \<Rightarrow> db_node tree \<Rightarrow> (byte list \<times> db_node tree) res" where
  "deserialize_line fresh buffer root =
     rbind (strlen buffer) (\<lambda>n.
     if n = 0 then Inl OutOfBounds else
     let buffer = buffer[n - 1 := 0] in
     rbind (strtok_one buffer 0) (\<lambda>(key, buffer, pos).
     rbind (if key = None then Inr (None, buffer, pos) else strtok_one buffer pos) (\<lambda>(value, buffer, pos).
     case key of None \<Rightarrow> Inl NullDeref | Some k \<Rightarrow>
     rbind (strdup (drop k buffer)) (\<lambda>key.
     case value of None \<Rightarrow> Inl NullDeref | Some v \<Rightarrow>
     rbind (strlen (drop v buffer)) (\<lambda>data_len.
     rbind (sglib_add node_comparator nd_addr root
              \<lparr>nd_addr = fresh, nd_key = key, nd_data = take data_len (drop v buffer), nd_data_len = data_len\<rparr>) (\<lambda>root.
       Inr (buffer, root)))))))"

lemma get_chars_short: "get_chars n inp = (l, r, e) \<Longrightarrow> length inp = length l + length r"
  by (induction n inp arbitrary: l r e rule: get_chars.induct) (auto split: if_splits prod.splits)

text \<open>\<open>fgets\<close> returns null when it reads nothing.\<close>

function deserialize :: "nat \<Rightarrow> byte list \<Rightarrow> byte list \<Rightarrow> db_node tree \<Rightarrow> db_node tree res" where
  "deserialize fresh file buffer root =
     (let (l, r, _) = get_chars (2048 - 1) file in
      if l = [] then Inr root
      else
        rbind (memcpy buffer 0 (l @ [0])) (\<lambda>buffer.
        rbind (deserialize_line fresh buffer root) (\<lambda>(buffer, root).
          deserialize (Suc fresh) r buffer root)))"
  by pat_completeness auto
termination
  by (relation "measure (\<lambda>(fresh, inp, buffer, root). length inp)") (auto dest: get_chars_short [OF sym])

declare deserialize.simps [simp del]

section \<open>What is saved\<close>

definition node_line :: "db_node \<Rightarrow> byte list" where
  "node_line n = node_key n @ [1] @ cstr (nd_data n) @ [10]"

text \<open>Saving succeeds exactly when every value has a terminator of its own.\<close>

lemma serialize_cases:
  assumes "tree_inv root" "length (inorder root) < 2 ^ 63" "nd_addr ` set (inorder root) \<inter> set freed = {}"
  shows "serialize root freed = (if \<forall>n\<in>set (inorder root). terminated (nd_data n)
    then Inr (concat (map node_line (visits 2 root)), rev (map nd_addr (visits 2 root)) @ freed)
    else Inl Unterminated)"
proof -
  define I where "I = (\<lambda>(out, fr) vs. out = concat (map node_line vs) \<and> fr = rev (map nd_addr vs) @ freed
    \<and> set vs \<subseteq> set (inorder root))"
  have inj: "inj_on nd_addr (set (inorder root))" and d: "distinct (inorder root)" and r: "rbt root"
    and key: "\<And>n. n \<in> set (inorder root) \<Longrightarrow> terminated (nd_key n)"
    using assms(1) by (auto simp: tree_inv_def distinct_map list_all_iff node_ok_def)
  have new: "nd_addr x \<in> set fr \<longleftrightarrow> x \<in> set vs" if "I (out, fr) vs" "x \<in> set (inorder root)" for out fr vs x
    using that assms(3) inj by (auto simp: I_def inj_on_def)
  have "if \<forall>n\<in>set (inorder root). terminated (nd_data n)
      then \<exists>s. rbind (sglib_it_init ((\<lambda>(out, freed). dead_node freed) ([] :: byte list, freed)) root)
          (\<lambda>it. it_for (\<lambda>(out, freed). dead_node freed) serialize_node it ([], freed)) = Inr s \<and> I s (visits 2 root)
      else rbind (sglib_it_init ((\<lambda>(out, freed). dead_node freed) ([] :: byte list, freed)) root)
          (\<lambda>it. it_for (\<lambda>(out, freed). dead_node freed) serialize_node it ([], freed)) = Inl Unterminated"
  proof (rule it_for_tree_cases [where dead = "\<lambda>(out, freed). dead_node freed" and s = "([], freed)" and I = I, OF r assms(2) d])
    show "I ([], freed) []"
      by (simp add: I_def)
    show "if terminated (nd_data x) then \<exists>s'. serialize_node x s = Inr s' \<and> I s' (vs @ [x])
        else serialize_node x s = Inl Unterminated"
      if "I s vs" "x \<in> set (inorder root)" "x \<notin> set vs" for s vs x
    proof -
      obtain out fr where s: "s = (out, fr)"
        by (cases s)
      have "nd_addr x \<notin> set fr"
        using new [of out fr vs x] that s by simp
      then show ?thesis
        using that s key [OF that(2)]
        by (auto simp: serialize_node_def fmt_str_ok free_node_def I_def node_line_def)
          (simp add: fmt_str_def strlen_def)
    qed
    show "x \<in> set vs" if "I s vs" "x \<in> set (inorder root)" "(\<lambda>(out, freed). dead_node freed) s x" for s vs x
      using that new [of "fst s" "snd s" vs x] by (cases s) (simp add: dead_node_def)
  qed
  then show ?thesis
    by (auto simp: serialize_def I_def split: if_splits)
qed

lemma serialize_ok:
  assumes "tree_inv root" "length (inorder root) < 2 ^ 63" "nd_addr ` set (inorder root) \<inter> set freed = {}"
    "\<forall>n\<in>set (inorder root). terminated (nd_data n)"
  shows "serialize root freed
    = Inr (concat (map node_line (visits 2 root)), rev (map nd_addr (visits 2 root)) @ freed)"
  using serialize_cases [OF assms(1-3)] assms(4) by simp

section \<open>What is loaded\<close>

definition plain_text :: "byte list \<Rightarrow> bool" where
  "plain_text w \<longleftrightarrow> w \<noteq> [] \<and> list_all (\<lambda>c. c \<noteq> 0 \<and> c \<noteq> 1 \<and> c \<noteq> 10) w"

lemma strtok_one_word:
  assumes "plain_text w" "c = 0 \<or> c = 1"
  shows "strtok_one (pre @ w @ c # post) (length pre) =
    Inr (Some (length pre), pre @ w @ 0 # post, length pre + length w + (if c = 0 then 0 else 1))"
proof -
  obtain b w' where w: "w = b # w'" "b \<noteq> 0" "b \<noteq> 1"
    using assms(1) by (cases w) (auto simp: plain_text_def)
  have 1: "scan_while (\<lambda>c. c = 1) (pre @ w @ c # post) (length pre) = Inr (length pre)"
    using scan_while_split [of "\<lambda>c. c = 1" "[]" b pre "w' @ c # post"] w by simp
  have 2: "scan_while (\<lambda>c. c \<noteq> 0 \<and> c \<noteq> 1) (pre @ w @ c # post) (length pre) = Inr (length pre + length w)"
    using scan_while_split [of "\<lambda>c. c \<noteq> 0 \<and> c \<noteq> 1" w c pre post] assms
    by (auto simp: plain_text_def list_all_iff)
  have "(pre @ w @ c # post) ! length pre \<noteq> 0"
    using w by (simp add: nth_append)
  moreover have "(pre @ w @ c # post) ! (length pre + length w) = c"
    using nth_append_length [of "pre @ w" c post] by simp
  moreover have "(pre @ w @ c # post)[length pre + length w := 0] = pre @ w @ 0 # post"
    using list_update_length [of "pre @ w" c post 0] by simp
  ultimately show ?thesis
    using 1 2 assms(2) by (auto simp: strtok_one_def)
qed

abbreviation loaded_node :: "nat \<Rightarrow> byte list \<times> byte list \<Rightarrow> db_node" where
  "loaded_node fresh kv \<equiv> \<lparr>nd_addr = fresh, nd_key = fst kv @ [0], nd_data = snd kv, nd_data_len = length (snd kv)\<rparr>"

lemma deserialize_line_ok:
  assumes "plain_text k" "plain_text v"
  shows "deserialize_line fresh (k @ 1 # v @ 10 # 0 # post) root =
    rbind (sglib_add node_comparator nd_addr root (loaded_node fresh (k, v))) (\<lambda>root.
      Inr (k @ 0 # v @ 0 # 0 # post, root))"
proof -
  let ?l = "k @ 1 # v @ [10]"
  have z: "0 \<notin> set ?l" "0 \<notin> set k" "0 \<notin> set v"
    using assms by (auto simp: plain_text_def list_all_iff)
  have len: "strlen (k @ 1 # v @ 10 # 0 # post) = Inr (length k + length v + 2)"
    using cstr_append_zero [OF z(1), of post] terminated_append_zero [of ?l post]
    by (simp add: strlen_ok)
  have cut: "(k @ 1 # v @ 10 # 0 # post)[length k + length v + 2 - 1 := 0] = k @ 1 # v @ 0 # 0 # post"
    using list_update_length [of "k @ 1 # v" 10 "0 # post" 0] by simp
  have 1: "strtok_one (k @ 1 # v @ 0 # 0 # post) 0 = Inr (Some 0, k @ 0 # v @ 0 # 0 # post, Suc (length k))"
    using strtok_one_word [OF assms(1), of 1 "[]" "v @ 0 # 0 # post"] by simp
  have 2: "strtok_one (k @ 0 # v @ 0 # 0 # post) (Suc (length k))
      = Inr (Some (Suc (length k)), k @ 0 # v @ 0 # 0 # post, Suc (length k + length v))"
    using strtok_one_word [OF assms(2), of 0 "k @ [0]" "0 # post"] by simp
  show ?thesis
    unfolding deserialize_line_def len rbind_Inr cut Let_def
    by (simp add: 1 2 strdup_def strlen_ok cstr_append_zero z)
qed

fun file_lines :: "(byte list \<times> byte list) list \<Rightarrow> byte list" where
  "file_lines [] = []"
| "file_lines ((k, v) # kvs) = k @ 1 # v @ 10 # file_lines kvs"

definition loadable_line :: "byte list \<times> byte list \<Rightarrow> bool" where
  "loadable_line = (\<lambda>(k, v). plain_text k \<and> plain_text v \<and> length k + length v + 2 < 2048)"

lemma deserialize_step:
  assumes "loadable_line (k, v)" "length buffer = 2048"
  shows "\<exists>buffer'. length buffer' = 2048 \<and> deserialize fresh (file_lines ((k, v) # kvs)) buffer root =
    rbind (sglib_add node_comparator nd_addr root (loaded_node fresh (k, v))) (\<lambda>root.
      deserialize (Suc fresh) (file_lines kvs) buffer' root)"
proof -
  let ?l = "k @ 1 # v"
  have p: "plain_text k" "plain_text v" "length ?l < 2048 - 1"
    using assms(1) by (auto simp: loadable_line_def)
  have "10 \<notin> set ?l"
    using p by (auto simp: plain_text_def list_all_iff)
  from get_chars_line [OF this p(3)]
  have read: "get_chars (2048 - 1) (file_lines ((k, v) # kvs)) = (?l @ [10], file_lines kvs, False)"
    by simp
  define post where "post = drop (length ?l + 2) buffer"
  have copy: "memcpy buffer 0 ((?l @ [10]) @ [0]) = Inr (k @ 1 # v @ 10 # 0 # post)"
    using p(3) assms(2) by (simp add: memcpy_def post_def)
  have "length (k @ 0 # v @ 0 # 0 # post) = 2048"
    using p(3) assms(2) by (simp add: post_def)
  moreover have "deserialize fresh (file_lines ((k, v) # kvs)) buffer root =
      rbind (deserialize_line fresh (k @ 1 # v @ 10 # 0 # post) root) (\<lambda>(buffer, root).
        deserialize (Suc fresh) (file_lines kvs) buffer root)"
    by (subst deserialize.simps, subst read) (simp only: copy Let_def case_prod_conv rbind_Inr, simp)
  ultimately show ?thesis
    by (intro exI [of _ "k @ 0 # v @ 0 # 0 # post"]) (simp add: deserialize_line_ok [OF p(1,2)] rbind_assoc)
qed

text \<open>Lines with different keys that are not in the tree yet are all added.\<close>

lemma find_key_TNull [simp]: "find_key TNull k = None"
  by (simp add: find_key_def)

lemma deserialize_ok:
  assumes "list_all loadable_line kvs" "distinct (map fst kvs)" "length buffer = 2048" "tree_inv root"
    "\<forall>n\<in>set (inorder root). nd_addr n < fresh \<and> node_key n \<notin> fst ` set kvs"
  shows "\<exists>root'. deserialize fresh (file_lines kvs) buffer root = Inr root' \<and> tree_inv root'
    \<and> (\<forall>k. map_option nd_data (find_key root' k)
          = (case map_of kvs k of Some v \<Rightarrow> Some v | None \<Rightarrow> map_option nd_data (find_key root k)))
    \<and> (\<forall>n\<in>set (inorder root'). nd_addr n < fresh + length kvs)
    \<and> length (inorder root') = length (inorder root) + length kvs"
  using assms
proof (induction kvs arbitrary: fresh buffer root)
  case Nil
  then show ?case
    by (subst deserialize.simps) (simp add: get_chars_Nil)
next
  case (Cons kv kvs)
  obtain k v where kv: "kv = (k, v)"
    by (cases kv)
  let ?n = "loaded_node fresh (k, v)"
  have k: "0 \<notin> set k" "cstr (k @ [0]) = k"
    using Cons.prems(1) by (auto simp: kv loadable_line_def plain_text_def list_all_iff cstr_append_zero)
  have fits: "node_fits root ?n" "find_key root (node_key ?n) = None"
    using Cons.prems(5) k by (auto simp: node_fits_def node_ok_def find_key_None kv)
  from add_find_key [OF Cons.prems(4) this] obtain root1 where
    root1: "sglib_add node_comparator nd_addr root ?n = Inr root1" "tree_inv root1"
      "find_key root1 = (find_key root)(k := Some ?n)" "set (inorder root1) = insert ?n (set (inorder root))"
    using k by auto
  obtain buffer' where b: "length buffer' = 2048"
      "deserialize fresh (file_lines (kv # kvs)) buffer root = deserialize (Suc fresh) (file_lines kvs) buffer' root1"
    using deserialize_step [of k v buffer fresh kvs root] Cons.prems(1,3) root1(1) by (auto simp: kv)
  have "\<exists>root'. deserialize (Suc fresh) (file_lines kvs) buffer' root1 = Inr root' \<and> tree_inv root'
    \<and> (\<forall>k. map_option nd_data (find_key root' k)
          = (case map_of kvs k of Some v \<Rightarrow> Some v | None \<Rightarrow> map_option nd_data (find_key root1 k)))
    \<and> (\<forall>n\<in>set (inorder root'). nd_addr n < Suc fresh + length kvs)
    \<and> length (inorder root') = length (inorder root1) + length kvs"
    using Cons.prems(1,2,5) root1 b k by (intro Cons.IH) (auto simp: kv less_Suc_eq)
  then obtain root' where root': "deserialize (Suc fresh) (file_lines kvs) buffer' root1 = Inr root'" "tree_inv root'"
      "\<And>k. map_option nd_data (find_key root' k)
          = (case map_of kvs k of Some v \<Rightarrow> Some v | None \<Rightarrow> map_option nd_data (find_key root1 k))"
      "\<forall>n\<in>set (inorder root'). nd_addr n < fresh + length (kv # kvs)"
      "length (inorder root') = length (inorder root1) + length kvs"
    by auto
  have "distinct (inorder root1)" "distinct (inorder root)"
    using root1(2) Cons.prems(4) by (auto simp: tree_inv_def distinct_map)
  moreover have "?n \<notin> set (inorder root)"
    using Cons.prems(5) by auto
  ultimately have "length (inorder root1) = Suc (length (inorder root))"
    using root1(4) by (metis card_insert_disjoint distinct_card finite_set)
  moreover have "map_of kvs k = None"
    using Cons.prems(2) by (simp add: kv map_of_eq_None_iff)
  ultimately show ?case
    unfolding b(2) using root'(4,5) by (intro exI [of _ root']) (simp add: root' root1(3) kv cong: option.case_cong)
qed

text \<open>What is saved from a tree is loaded again.\<close>

lemma saved_loads:
  assumes "tree_inv root" "length buffer = 2048"
    "\<forall>n\<in>set (inorder root). loadable_line (node_key n, cstr (nd_data n))"
  shows "\<exists>root'. deserialize fresh (concat (map node_line (visits 2 root))) buffer TNull = Inr root' \<and> tree_inv root'
    \<and> (\<forall>k. map_option nd_data (find_key root' k) = map_option (\<lambda>n. cstr (nd_data n)) (find_key root k))
    \<and> (\<forall>n\<in>set (inorder root'). nd_addr n < fresh + length (inorder root))
    \<and> length (inorder root') = length (inorder root)"
proof -
  let ?kvs = "map (\<lambda>n. (node_key n, cstr (nd_data n))) (visits 2 root)"
  have lines: "concat (map node_line vs) = file_lines (map (\<lambda>n. (node_key n, cstr (nd_data n))) vs)" for vs
    by (induction vs) (simp_all add: node_line_def)
  have inj: "inj_on nd_addr (set (inorder root))" "inj_on node_key (set (inorder root))" "distinct (inorder root)"
    using assms(1) by (auto simp: tree_inv_def distinct_map)
  have "list_all loadable_line ?kvs" "distinct (map fst ?kvs)"
    using assms(3) inj by (auto simp: list_all_iff set_visits distinct_map set_visits_distinct comp_def)
  from deserialize_ok [OF this assms(2) tree_inv_TNull, of fresh] obtain root' where
    load: "deserialize fresh (file_lines ?kvs) buffer TNull = Inr root'" "tree_inv root'"
      "\<forall>k. map_option nd_data (find_key root' k) = (case map_of ?kvs k of Some v \<Rightarrow> Some v | None \<Rightarrow> None)"
      "\<forall>n\<in>set (inorder root'). nd_addr n < fresh + length (inorder root)" "length (inorder root') = length (inorder root)"
    by (auto simp: mset_visits cong: option.case_cong)
  have "map_of ?kvs k = map_option (\<lambda>n. cstr (nd_data n)) (find_key root k)" for k
  proof (cases "find_key root k")
    case None
    then have "map_of ?kvs k = None"
      by (auto simp: find_key_None map_of_eq_None_iff set_visits)
    with None show ?thesis
      by simp
  next
    case (Some n)
    then have "(k, cstr (nd_data n)) \<in> set ?kvs" "distinct (map fst ?kvs)"
      using find_key_Some [OF assms(1)] inj by (auto simp: set_visits distinct_map set_visits_distinct comp_def)
    with Some show ?thesis
      by (simp only: map_of_eq_Some_iff option.map)
  qed
  then show ?thesis
    using load lines by (auto split: option.splits)
qed

section \<open>Properties\<close>

text \<open>
  A store whose values are terminated texts is saved and loaded again: every node is freed
  once while it is saved, and the tree that is read back, balanced and ordered, maps every key
  to its text, now without the terminator.
\<close>

theorem serialize_deserialize:
  assumes "tree_inv root" and "length (inorder root) < 2 ^ 63" and "length buffer = 2048"
    and "\<forall>n\<in>set (inorder root). terminated (nd_data n) \<and> loadable_line (node_key n, cstr (nd_data n))"
  shows "\<exists>out freed root'. serialize root [] = Inr (out, freed) \<and> distinct freed
    \<and> set freed = nd_addr ` set (inorder root)
    \<and> deserialize fresh out buffer TNull = Inr root' \<and> tree_inv root'
    \<and> (\<forall>k. map_option nd_data (find_key root' k) = map_option (\<lambda>n. cstr (nd_data n)) (find_key root k))"
proof -
  have "distinct (map nd_addr (inorder root))"
    using assms(1) by (simp add: tree_inv_def)
  then show ?thesis
    using serialize_ok [OF assms(1,2), of "[]"] saved_loads [OF assms(1,3), of fresh] assms(4)
    by (auto simp: distinct_map set_visits set_visits_distinct)
qed

lemma serialize_deserialize_witness:
  "\<exists>out freed root'. serialize (TNode \<lparr>nd_addr = 1, nd_key = [98, 0], nd_data = [65, 0], nd_data_len = 2\<rparr> BLACK TNull TNull) []
      = Inr (out, freed) \<and> deserialize 4 out (replicate 2048 7) TNull = Inr root'
    \<and> map_option nd_data (find_key root' [98]) = Some [65]"
proof -
  let ?t = "TNode \<lparr>nd_addr = 1, nd_key = [98, 0], nd_data = [65, 0], nd_data_len = 2\<rparr> BLACK TNull TNull"
  have "tree_inv ?t" "\<forall>n\<in>set (inorder ?t). terminated (nd_data n) \<and> loadable_line (node_key n, cstr (nd_data n))"
    by (simp_all add: tree_inv_def rbt_def nodes.in_order_def node_ok_def terminated_def loadable_line_def plain_text_def)
  moreover have "map_option (\<lambda>n. cstr (nd_data n)) (find_key ?t [98]) = Some [65]"
    by (simp add: find_key_def)
  moreover have "length (inorder ?t) < 2 ^ 63" "length (replicate 2048 (7 :: byte)) = 2048"
    by simp_all
  ultimately show ?thesis
    using serialize_deserialize [of ?t "replicate 2048 7" 4] by metis
qed

text \<open>
  A value that came from the client has no terminator, and saving reads past its block: the
  store of the one request \<open>set "b" "A"\<close> cannot be saved.
\<close>

lemma serialize_overreads:
  "serialize (TNode \<lparr>nd_addr = 1, nd_key = [98, 0], nd_data = [65], nd_data_len = 1\<rparr> BLACK TNull TNull) []
    = Inl Unterminated"
  by (simp add: serialize_def sglib_it_init_def it_init_order_def it_compute_current_elem_def it_loop.simps
    it_step_def it_top_def SGLIB_MAX_TREE_DEEP_def dead_node_def it_for.simps serialize_node_def fmt_str_def strlen_def
    terminated_def)

end
