(* ===== verification/Connection.thy ===== *)
theory Connection
  imports Network
begin

text \<open>
  Opening and closing a connection (\<open>conn_init\<close> and \<open>conn_destroy\<close> of \<open>network.c\<close>, which the
  client and the server have in common).  Connections are blocks on a heap; what the system calls
  answer is an argument.
\<close>

record conn_t =
  cn_addr :: sockaddr_in

text \<open>
  The answers: whether there is memory and a socket, the address of the host if its name is
  known, and whether the socket can be bound.
\<close>

record net_env_t =
  ne_memory :: bool
  ne_socket :: bool
  ne_host :: "u32 option"
  ne_bind :: bool

definition AF_INET :: u16 where "AF_INET = 2"

definition htons :: "u16 \<Rightarrow> u16" where
  "htons p = of_nat (256 * (unat p mod 256) + unat p div 256)"

definition conn_destroy :: "ptr \<Rightarrow> conn_t heap \<Rightarrow> conn_t heap res" where
  "conn_destroy con h = rbind (load h con) (\<lambda>_. free h con)"

definition conn_socket :: "net_env_t \<Rightarrow> u16 \<Rightarrow> conn_t \<Rightarrow> conn_t heap \<Rightarrow> (ptr \<times> conn_t heap) res" where
  "conn_socket env port junk h =
     (if \<not> ne_memory env then Inr (None, h)
      else
        let (con, h) = alloc h junk in
        if \<not> ne_socket env then rbind (free h con) (\<lambda>h. Inr (None, h))
        else
          rbind (store h con \<lparr>cn_addr = \<lparr>sin_family = AF_INET, sin_port = htons port, s_addr = 0\<rparr>\<rparr>) (\<lambda>h.
            Inr (con, h)))"

definition conn_bind :: "net_env_t \<Rightarrow> ptr \<Rightarrow> conn_t heap \<Rightarrow> (ptr \<times> conn_t heap) res" where
  "conn_bind env con h =
     rbind (load h con) (\<lambda>_.
       if \<not> ne_bind env then rbind (conn_destroy con h) (\<lambda>h. Inr (None, h))
       else Inr (con, h))"

definition conn_init :: "net_env_t \<Rightarrow> u16 \<Rightarrow> bool \<Rightarrow> conn_t \<Rightarrow> conn_t heap \<Rightarrow> (ptr \<times> conn_t heap) res" where
  "conn_init env port bind junk h =
     rbind (conn_socket env port junk h) (\<lambda>(con, h).
       if con = None then Inr (None, h)
       else case ne_host env of
         None \<Rightarrow> rbind (conn_destroy con h) (\<lambda>h. Inr (None, h))
       | Some host \<Rightarrow>
           rbind (load h con) (\<lambda>c.
           rbind (store h con (c\<lparr>cn_addr := (cn_addr c)\<lparr>s_addr := host\<rparr>\<rparr>)) (\<lambda>h.
             if bind then
               rbind (conn_bind env con h) (\<lambda>(bound, h).
                 if bound = None then rbind (conn_destroy con h) (\<lambda>h. Inr (None, h)) else Inr (con, h))
             else Inr (con, h))))"

section \<open>Results\<close>

definition conn_opens :: "net_env_t \<Rightarrow> bool" where
  "conn_opens env \<longleftrightarrow> ne_memory env \<and> ne_socket env \<and> ne_host env \<noteq> None"

lemma conn_init_open:
  assumes "conn_opens env" "bind \<longrightarrow> ne_bind env"
  shows "conn_init env port bind junk h = Inr (Some (length h), h @ [Some \<lparr>cn_addr =
    \<lparr>sin_family = AF_INET, sin_port = htons port, s_addr = the (ne_host env)\<rparr>\<rparr>])"
  using assms
  by (auto simp: conn_opens_def conn_init_def conn_socket_def conn_bind_def alloc_def store_def load_def Let_def)

text \<open>An attempt that fails before binding leaves nothing behind.\<close>

lemma conn_init_fails:
  assumes "\<not> conn_opens env"
  shows "conn_init env port bind junk h = Inr (None, if ne_memory env then h @ [None] else h)"
  using assms
  by (auto simp: conn_opens_def conn_init_def conn_socket_def conn_destroy_def alloc_def store_def load_def free_def Let_def)

text \<open>One that cannot bind is destroyed by \<open>conn_bind\<close> and again by \<open>conn_init\<close>.\<close>

lemma conn_init_bind_fails:
  assumes "conn_opens env" "\<not> ne_bind env"
  shows "conn_init env port True junk h = Inl UseAfterFree"
  using assms
  by (auto simp: conn_opens_def conn_init_def conn_socket_def conn_bind_def conn_destroy_def alloc_def store_def load_def free_def
      Let_def)

section \<open>Properties\<close>

text \<open>
  Opening a connection gives a new one exactly when there are memory, a socket, the host and,
  if it is to be bound, the port; an attempt that fails leaves no block behind, except that one
  whose port is taken is freed twice.
\<close>

theorem conn_init_cases:
  "conn_init env port bind junk h =
    (if conn_opens env then
       if bind \<and> \<not> ne_bind env then Inl UseAfterFree
       else Inr (Some (length h), h @ [Some \<lparr>cn_addr = \<lparr>sin_family = AF_INET, sin_port = htons port, s_addr = the (ne_host env)\<rparr>\<rparr>])
     else Inr (None, if ne_memory env then h @ [None] else h))"
  using conn_init_open [of env bind port junk h] conn_init_fails [of env port bind junk h] conn_init_bind_fails [of env port junk h]
  by auto

end
