(* ===== verification/DbClient.thy ===== *)
theory DbClient
  imports Database Commands Connection
begin

text \<open>
  The client of the key-value store (\<open>data_base/src/db.c\<close>): the requests it builds, the
  replies it takes apart, both against the handler of the store, and its connection.  \<open>req\<close> and \<open>buffer\<close> are
  the uninitialised arrays of the C functions, \<open>server\<close> is what comes back for a datagram.
\<close>

definition KEY_LEN :: nat where "KEY_LEN = 128"
definition DATA_LEN :: nat where "DATA_LEN = 1024"
definition DB_MAX_LEN :: nat where "DB_MAX_LEN = KEY_LEN + DATA_LEN + 2"

lemmas db_len_defs = DB_MAX_LEN_def KEY_LEN_def DATA_LEN_def

section \<open>Connections\<close>

text \<open>\<open>dc_connected\<close> stands for the state of the socket.\<close>

record db_con_t =
  dc_addr :: sockaddr_in
  dc_connected :: bool

definition db_close :: "ptr \<Rightarrow> db_con_t heap \<Rightarrow> db_con_t heap res" where
  "db_close con h = rbind (load h con) (\<lambda>_. free h con)"

text \<open>
  What the system calls answer is an argument; \<open>connects\<close> says whether \<open>connect\<close> succeeds, whose
  result is not looked at.
\<close>

definition db_open :: "net_env_t \<Rightarrow> bool \<Rightarrow> u16 \<Rightarrow> db_con_t \<Rightarrow> db_con_t heap \<Rightarrow> (ptr \<times> db_con_t heap) res" where
  "db_open env connects port junk h =
     (if \<not> ne_memory env then Inr (None, h)
      else
        let (con, h) = alloc h junk in
        if \<not> ne_socket env then rbind (free h con) (\<lambda>h. Inr (None, h))
        else
          let addr = \<lparr>sin_family = AF_INET, sin_port = htons port, s_addr = 0\<rparr> in
          rbind (store h con \<lparr>dc_addr = addr, dc_connected = False\<rparr>) (\<lambda>h.
          case ne_host env of
            None \<Rightarrow> rbind (db_close con h) (\<lambda>h. Inr (None, h))
          | Some host \<Rightarrow>
              rbind (store h con \<lparr>dc_addr = addr\<lparr>s_addr := host\<rparr>, dc_connected = connects\<rparr>) (\<lambda>h. Inr (con, h))))"

text \<open>
  Opening gives a connection whether the server answers or not, and leaves no block behind
  when it fails; closing frees the block once.
\<close>

lemma db_open_cases:
  "db_open env connects port junk h =
    (if conn_opens env
     then Inr (Some (length h), h @ [Some \<lparr>dc_addr = \<lparr>sin_family = AF_INET, sin_port = htons port,
       s_addr = the (ne_host env)\<rparr>, dc_connected = connects\<rparr>])
     else Inr (None, if ne_memory env then h @ [None] else h))"
  by (auto simp: conn_opens_def db_open_def db_close_def alloc_def store_def load_def free_def Let_def)

lemma db_open_close:
  assumes "db_open env connects port junk h = Inr (Some con, h')"
  shows "db_close (Some con) h' = Inr (h @ [None])" "db_close (Some con) (h @ [None]) = Inl UseAfterFree"
  using assms by (auto simp: db_open_cases db_close_def load_def free_def split: if_splits)

section \<open>Requests and replies\<close>

text \<open>The part of \<open>db_query\<close> up to \<open>sendto\<close>.\<close>

definition db_request :: "byte list \<Rightarrow> byte \<Rightarrow> byte list \<Rightarrow> byte list option \<Rightarrow> byte list res" where
  "db_request req cmd key value =
     rbind (strlen key) (\<lambda>key_len.
     rbind (memcpy req 1 (take key_len key)) (\<lambda>req.
     rbind (memcpy req 0 [cmd]) (\<lambda>req.
     rbind (memcpy req (key_len + 1) [0]) (\<lambda>req.
     rbind (case value of
         None \<Rightarrow> Inr (req, 2 + key_len)
       | Some value \<Rightarrow>
           rbind (strlen value) (\<lambda>data_len.
           rbind (memcpy req (key_len + 2) (take (data_len + 1) value)) (\<lambda>req.
             Inr (req, 2 + key_len + data_len)))) (\<lambda>(req, total_len).
     rbind (memcpy req total_len [0]) (\<lambda>req. Inr (take total_len req)))))))"

definition db_recv :: "byte list \<Rightarrow> byte list option \<Rightarrow> byte list option res" where
  "db_recv buffer received = (case received of
     None \<Rightarrow> Inr None
   | Some bs \<Rightarrow>
       let bs = take DB_MAX_LEN bs in
       rbind (memcpy buffer 0 bs) (\<lambda>buffer.
       rbind (strlen buffer) (\<lambda>key_len.
       rbind (strlen (drop (key_len + 2) buffer)) (\<lambda>n.
         let data_len = n + 1 in
         Inr (Some (take data_len (drop (key_len + 1) buffer) @ [0]))))))"

definition db_query ::
  "(byte list \<Rightarrow> byte list option) \<Rightarrow> byte list \<Rightarrow> byte list \<Rightarrow> byte \<Rightarrow> byte list \<Rightarrow> byte list option
    \<Rightarrow> byte list option res" where
  "db_query server req buffer cmd key value =
     rbind (db_request req cmd key value) (\<lambda>r. db_recv buffer (server r))"

definition db_set where
  "db_set server req buffer key value = db_query server req buffer (of_char CHR ''S'') key (Some value)"

definition db_get where
  "db_get server req buffer key = db_query server req buffer (of_char CHR ''G'') key None"

definition db_del where
  "db_del server req buffer key = db_query server req buffer (of_char CHR ''D'') key None"

section \<open>Lemmas\<close>

lemma split_prefix:
  assumes "n \<le> length bs"
  obtains xs ys where "bs = xs @ ys" "length xs = n"
  using that [of "take n bs" "drop n bs"] assms by simp

lemma db_request_set:
  assumes "length req = DB_MAX_LEN" "0 \<notin> set k" "0 \<notin> set v" "length k + length v + 3 \<le> DB_MAX_LEN"
  shows "db_request req (of_char c) (k @ [0]) (Some (v @ [0])) = Inr (request c k v)"
proof -
  obtain x xs ys w zs where "req = x # xs @ ys @ w # zs" "length xs = Suc (length k)" "length ys = length v"
  proof -
    obtain as bs where 1: "req = as @ bs" "length as = Suc (Suc (length k))"
      using split_prefix [of "Suc (Suc (length k))" req] assms(1,4) by auto
    obtain x xs where 2: "as = x # xs" "length xs = Suc (length k)"
      using 1(2) by (cases as) auto
    obtain ys cs where 3: "bs = ys @ cs" "length ys = length v"
      using split_prefix [of "length v" bs] 1 assms(1,4) by auto
    obtain w zs where 4: "cs = w # zs"
      using 1 3 assms(1,4) by (cases cs) auto
    show ?thesis
      by (rule that [of x xs ys w zs]) (simp_all add: 1 2 3 4)
  qed
  then show ?thesis
    using assms(2,3) by (simp add: db_request_def strlen_ok cstr_append_zero memcpy_def request_def numeral_eq_Suc)
qed

lemma db_request_get:
  assumes "length req = DB_MAX_LEN" "0 \<notin> set k" "length k + 3 \<le> DB_MAX_LEN"
  shows "db_request req (of_char c) (k @ [0]) None = Inr (request c k [])"
proof -
  obtain x xs w zs where "req = x # xs @ w # zs" "length xs = Suc (length k)"
  proof -
    obtain as bs where 1: "req = as @ bs" "length as = Suc (Suc (length k))"
      using split_prefix [of "Suc (Suc (length k))" req] assms(1,3) by auto
    obtain x xs where 2: "as = x # xs" "length xs = Suc (length k)"
      using 1(2) by (cases as) auto
    obtain w zs where 3: "bs = w # zs"
      using 1 assms(1,3) by (cases bs) auto
    show ?thesis
      by (rule that [of x xs w zs]) (simp_all add: 1 2 3)
  qed
  then show ?thesis
    using assms(2) by (simp add: db_request_def strlen_ok cstr_append_zero memcpy_def request_def numeral_eq_Suc)
qed

text \<open>A reply from a block that starts with \<open>b\<close> and is zero behind it.\<close>

lemma db_recv_reply:
  assumes "length buffer = DB_MAX_LEN" "0 \<notin> set k" "0 \<notin> set v" "k \<noteq> []" "v \<noteq> []"
    "length k + length v + 3 \<le> DB_MAX_LEN" "malloc = (\<lambda>n. b # replicate n 0)"
  shows "db_recv buffer (Some (reply_bytes malloc k v)) = Inr (Some ((if b = 0 then k else v) @ [0]))"
proof -
  obtain k0 ks v0 vs where kv: "k = k0 # ks" "v = v0 # vs"
    using assms(4,5) by (metis list.exhaust)
  have r: "reply_bytes malloc k v = b # k @ 0 # v @ [0]"
    using assms(7) by (simp add: reply_bytes_def Let_def nth_Cons')
  define j where "j = drop (length k + length v + 3) buffer"
  have m: "memcpy buffer 0 (b # k @ 0 # v @ [0]) = Inr (b # k @ 0 # v @ 0 # j)"
    using assms(1,6) by (simp add: memcpy_def j_def add.commute numeral_eq_Suc)
  have t: "take DB_MAX_LEN (b # k @ 0 # v @ [0]) = b # k @ 0 # v @ [0]"
    using assms(6) by simp
  let ?B = "b # k @ 0 # v @ 0 # j"
  have step: "db_recv buffer (Some (reply_bytes malloc k v)) = rbind (strlen ?B) (\<lambda>kl.
      rbind (strlen (drop (kl + 2) ?B)) (\<lambda>n. Inr (Some (take (n + 1) (drop (kl + 1) ?B) @ [0]))))"
    by (simp only: db_recv_def r option.case Let_def t m rbind_Inr)
  show ?thesis
  proof (cases "b = 0")
    case True
    have "strlen (b # k @ 0 # v @ 0 # j) = Inr 0" "strlen (drop 2 (b # k @ 0 # v @ 0 # j)) = Inr (length ks)"
      using True assms(2) kv by (simp_all add: strlen_def terminated_def cstr_append_zero)
    then show ?thesis
      unfolding step using True kv by (simp add: numeral_eq_Suc)
  next
    case False
    have z: "0 \<notin> set (b # k)" "0 \<notin> set vs"
      using False assms(2,3) kv by auto
    have "strlen ((b # k) @ 0 # v @ 0 # j) = Inr (Suc (length k))"
      using cstr_append_zero [OF z(1)] by (subst strlen_ok) (auto simp del: append_Cons)
    moreover have "drop (Suc (length k) + 2) (b # k @ 0 # v @ 0 # j) = vs @ 0 # j"
      by (simp add: kv(2))
    moreover have "strlen (vs @ 0 # j) = Inr (length vs)"
      by (simp add: strlen_ok cstr_append_zero z)
    ultimately show ?thesis
      unfolding step using False kv(2) by simp
  qed
qed

section \<open>Runs of requests\<close>

datatype db_op = DbSet "byte list" "byte list" | DbAdd "byte list" "byte list"
  | DbGet "byte list" | DbDel "byte list"

fun op_request :: "db_op \<Rightarrow> byte list" where
  "op_request (DbSet k d) = request CHR ''S'' k d"
| "op_request (DbAdd k d) = request CHR ''A'' k d"
| "op_request (DbGet k) = request CHR ''G'' k []"
| "op_request (DbDel k) = request CHR ''D'' k []"

text \<open>The new blocks have the addresses \<open>fresh\<close>, \<open>fresh + 1\<close> and so on.\<close>

fun db_run :: "(nat \<Rightarrow> byte list) \<Rightarrow> nat \<Rightarrow> nat \<Rightarrow> store_t \<Rightarrow> db_op list \<Rightarrow> store_t res" where
  "db_run malloc fresh rss s [] = Inr s"
| "db_run malloc fresh rss s (r # rs) =
     rbind (on_recv malloc fresh rss s (op_request r) (int (length (op_request r))))
       (\<lambda>s. db_run malloc (Suc fresh) rss s rs)"

text \<open>What the store promises: a map, and the pair of key and value that answers a request.\<close>

fun map_step :: "(byte list \<rightharpoonup> byte list) \<Rightarrow> db_op \<Rightarrow> (byte list \<rightharpoonup> byte list) \<times> byte list \<times> byte list" where
  "map_step m (DbSet k d) = (m(k \<mapsto> d), k, d)"
| "map_step m (DbAdd k d) = (case m k of None \<Rightarrow> (m(k \<mapsto> d), k, d) | Some v \<Rightarrow> (m, k, v))"
| "map_step m (DbGet k) = (m, k, case m k of None \<Rightarrow> [] | Some v \<Rightarrow> v)"
| "map_step m (DbDel k) = (m(k := None), k, case m k of None \<Rightarrow> [] | Some v \<Rightarrow> v)"

fun map_run :: "(byte list \<rightharpoonup> byte list) \<Rightarrow> db_op list \<Rightarrow> (byte list \<rightharpoonup> byte list) \<times> (byte list \<times> byte list) list" where
  "map_run m [] = (m, [])"
| "map_run m (r # rs) = (let (m, answer) = map_step m r; (m, answers) = map_run m rs in (m, answer # answers))"

fun op_key :: "db_op \<Rightarrow> byte list" where
  "op_key (DbSet k d) = k"
| "op_key (DbAdd k d) = k"
| "op_key (DbGet k) = k"
| "op_key (DbDel k) = k"

definition op_ok :: "db_op \<Rightarrow> bool" where
  "op_ok r \<longleftrightarrow> 0 \<notin> set (op_key r) \<and> length (op_request r) < 2 ^ 63"

definition empty_store :: store_t where
  "empty_store = \<lparr>db_root = TNull, db_freed = [], db_sent = [], db_stopped = False\<rparr>"

definition below :: "nat \<Rightarrow> store_t \<Rightarrow> bool" where
  "below fresh s \<longleftrightarrow> (\<forall>a\<in>blocks s. a < fresh) \<and> length (inorder (db_root s)) \<le> fresh"

lemma below_room: "below fresh s \<Longrightarrow> fresh + 1 < 2 ^ 31 \<Longrightarrow> room_for fresh s"
  by (auto simp: below_def room_for_def blocks_def)

lemma below_grows: "below fresh s \<Longrightarrow> grows fresh s s' \<Longrightarrow> below (Suc fresh) s'"
  unfolding below_def grows_def by (auto simp: less_Suc_eq)

text \<open>One request simulates one step of the map.\<close>

lemma op_step:
  assumes "roomy malloc" "op_ok r" "db_inv s" "below fresh s" "fresh + 1 < 2 ^ 31"
    "map_step (db_map s) r = (m, k, v)"
  shows "\<exists>s'. on_recv malloc fresh rss s (op_request r) (int (length (op_request r))) = Inr s'
    \<and> db_inv s' \<and> below (Suc fresh) s' \<and> db_map s' = m \<and> db_sent s' = db_sent s @ [reply_bytes malloc k v]"
proof -
  note room = below_room [OF assms(4,5)]
  have recv: "on_recv malloc fresh rss s (request c k d) (int (length (request c k d)))
      = store_request malloc fresh rss s (of_char c) (request_node k d [])"
    if "0 \<notin> set k" "length (request c k d) < 2 ^ 63" for c k d
    using on_recv_request [OF that, of malloc fresh rss s "[]"] by simp
  show ?thesis
  proof (cases r)
    case (DbSet k' d)
    have "0 \<notin> set k'" "length (request CHR ''S'' k' d) < 2 ^ 63"
      using assms(2) DbSet by (auto simp: op_ok_def)
    then show ?thesis
      using store_put_ok [OF assms(3,1) _ room, of k' "CHR ''S''" d d "[]"] below_grows [OF assms(4)] assms(6) DbSet
      by (auto simp: recv store_request_def)
  next
    case (DbAdd k' d)
    have "0 \<notin> set k'" "length (request CHR ''A'' k' d) < 2 ^ 63"
      using assms(2) DbAdd by (auto simp: op_ok_def)
    moreover have "k = k'" "v = (case db_map s k' of None \<Rightarrow> d | Some w \<Rightarrow> w)" "m = (db_map s)(k' \<mapsto> v)"
      using assms(6) DbAdd by (auto split: option.splits)
    ultimately show ?thesis
      using store_put_ok [OF assms(3,1) _ room, of k' "CHR ''A''" v d "[]"] below_grows [OF assms(4)] DbAdd
      by (auto simp: recv store_request_def)
  next
    case (DbGet k')
    have "0 \<notin> set k'" "length (request CHR ''G'' k' []) < 2 ^ 63"
      using assms(2) DbGet by (auto simp: op_ok_def)
    then show ?thesis
      using store_get_ok [OF assms(3,1), of k' "[]" "[]"] below_grows [OF assms(4)] assms(3,6) DbGet
      by (auto simp: recv store_request_def db_map_def)
  next
    case (DbDel k')
    have "0 \<notin> set k'" "length (request CHR ''D'' k' []) < 2 ^ 63"
      using assms(2) DbDel by (auto simp: op_ok_def)
    then show ?thesis
      using store_del_ok [OF assms(3,1), of k' "[]" "[]" fresh] below_grows [OF assms(4)] assms(6) DbDel
      by (auto simp: recv store_request_def)
  qed
qed

lemma db_run_ok:
  assumes "roomy malloc" "list_all op_ok rs" "db_inv s" "below fresh s" "fresh + length rs < 2 ^ 31"
    "map_run (db_map s) rs = (m, answers)"
  shows "\<exists>s'. db_run malloc fresh rss s rs = Inr s' \<and> db_inv s' \<and> db_map s' = m
    \<and> db_sent s' = db_sent s @ map (\<lambda>(k, v). reply_bytes malloc k v) answers \<and> below (fresh + length rs) s'"
  using assms
proof (induction rs arbitrary: s fresh m answers)
  case (Cons r rs)
  obtain m1 k v where 1: "map_step (db_map s) r = (m1, k, v)"
    by (metis prod_cases3)
  obtain answers' where 2: "map_run m1 rs = (m, answers')" "answers = (k, v) # answers'"
    using Cons.prems(6) 1 by (auto simp: Let_def split: prod.splits)
  obtain s1 where s1: "on_recv malloc fresh rss s (op_request r) (int (length (op_request r))) = Inr s1"
      "db_inv s1" "below (Suc fresh) s1" "db_map s1 = m1" "db_sent s1 = db_sent s @ [reply_bytes malloc k v]"
    using op_step [OF Cons.prems(1) _ Cons.prems(3,4) _ 1, of rss] Cons.prems(2,5) by auto
  have "\<exists>s'. db_run malloc (Suc fresh) rss s1 rs = Inr s' \<and> db_inv s' \<and> db_map s' = m
      \<and> db_sent s' = db_sent s1 @ map (\<lambda>(k, v). reply_bytes malloc k v) answers' \<and> below (Suc fresh + length rs) s'"
    by (rule Cons.IH) (use Cons.prems s1 2 in auto)
  then show ?case
    using s1 2 by auto
qed simp

lemma empty_store_ok: "db_inv empty_store" "below 0 empty_store" "db_map empty_store = Map.empty"
  by (auto simp: db_inv_def empty_store_def tree_inv_TNull below_def blocks_def db_map_eq find_key_def)

lemma db_run_empty:
  assumes "roomy malloc" "list_all op_ok rs" "length rs < 2 ^ 31"
  shows "\<exists>s. db_run malloc 0 rss empty_store rs = Inr s \<and> db_inv s \<and> db_map s = fst (map_run Map.empty rs)
    \<and> db_sent s = map (\<lambda>(k, v). reply_bytes malloc k v) (snd (map_run Map.empty rs)) \<and> below (length rs) s"
proof -
  have "map_run (db_map empty_store) rs = (fst (map_run Map.empty rs), snd (map_run Map.empty rs))"
    by (simp add: empty_store_ok)
  from db_run_ok [OF assms(1,2) empty_store_ok(1,2) _ this, of rss] assms(3) show ?thesis
    by (simp add: empty_store_def)
qed

section \<open>The statistics\<close>

lemma dec_nat_short:
  assumes "n < 10 ^ 7"
  shows "length (dec_int (int n)) \<le> 7" "0 \<notin> set (dec_int (int n))"
  using dec_digits_short [OF assms, of "n + 1"] dec_digits_props(2) [of "n + 1" n]
  by (simp_all add: dec_int_def del: dec_digits.simps)

lemma sprint_nat:
  assumes "n < 10 ^ 7"
  shows "\<exists>buf. sprint_at (replicate 8 0) 0 (dec_int (int n)) = Inr (buf, length (dec_int (int n)))
    \<and> terminated buf \<and> cstr buf = dec_int (int n) \<and> length buf = 8"
  using dec_nat_short [OF assms] by (simp add: sprint_at_def memcpy_def cstr_append_zero)

lemma send_reply_take:
  "n \<le> length data \<Longrightarrow> send_reply malloc cmd key data n s = send_reply malloc cmd key (take n data) n s"
  by (simp add: send_reply_def Let_def cong: if_cong)

lemma store_stat_ok:
  assumes "rbt (db_root s)" "length (inorder (db_root s)) < 10 ^ 7" "rss div 1024 < 10 ^ 7" "roomy malloc"
  shows "store_stat malloc rss s cmd = Inr (s\<lparr>db_sent := db_sent s @
    [reply_bytes malloc (dec_int (int (length (inorder (db_root s))))) (dec_int (int (rss div 1024)))]\<rparr>)"
proof -
  let ?n = "length (inorder (db_root s))"
  obtain key where key: "sprint_at (replicate 8 0) 0 (dec_int (int ?n)) = Inr (key, length (dec_int (int ?n)))"
      "terminated key" "cstr key = dec_int (int ?n)"
    using sprint_nat [OF assms(2)] by blast
  obtain v where v: "sprint_at (replicate 8 0) 0 (dec_int (int (rss div 1024))) = Inr (v, length (dec_int (int (rss div 1024))))"
      "terminated v" "cstr v = dec_int (int (rss div 1024))" "length v = 8"
    using sprint_nat [OF assms(3)] by blast
  have len: "sglib_len (db_root s) = Inr ?n"
    using assms(2) by (intro sglib_len_ok [OF assms(1)]) simp
  have "take (length (cstr v)) v = cstr v" "length (cstr v) \<le> length v"
    by (simp_all add: take_cstr length_cstr_le)
  then show ?thesis
    using send_reply_ok [OF assms(4) key(2), of "length (cstr v)" "cstr v" "tolower cmd" s]
      send_reply_take [of "length (cstr v)" v malloc "tolower cmd" key s]
    by (simp add: store_stat_def len key v strlen_ok)
qed

lemma store_clear_ok:
  assumes "db_inv s" "roomy malloc" "rss div 1024 < 10 ^ 7"
  shows "store_clear malloc rss s cmd = Inr (s\<lparr>
    db_freed := rev (map nd_addr (visits 2 (db_root s))) @ db_freed s, db_root := TNull,
    db_sent := db_sent s @ [reply_bytes malloc [] [], reply_bytes malloc [48] (dec_int (int (rss div 1024)))]\<rparr>)"
proof -
  have "free_nodes (db_root s) (db_freed s) = Inr (rev (map nd_addr (visits 2 (db_root s))) @ db_freed s)"
    using assms(1) by (intro free_nodes_ok) (auto simp: db_inv_def tree_inv_def)
  moreover have "dec_int 0 = [48]"
    by (simp add: dec_int_def)
  moreover have "rbt TNull"
    by (simp add: rbt_def)
  ultimately show ?thesis
    using store_stat_ok [of "s\<lparr>db_freed := rev (map nd_addr (visits 2 (db_root s))) @ db_freed s, db_root := TNull,
      db_sent := db_sent s @ [reply_bytes malloc [] []]\<rparr>", OF _ _ assms(3,2), of cmd] assms(2)
    by (simp add: store_clear_def send_reply_ok terminated_def)
qed

section \<open>A client and the store\<close>

text \<open>What comes back for one datagram: the last reply of the handler.\<close>

definition serve :: "(nat \<Rightarrow> byte list) \<Rightarrow> nat \<Rightarrow> nat \<Rightarrow> store_t \<Rightarrow> byte list \<Rightarrow> byte list option" where
  "serve malloc fresh rss s r = (case on_recv malloc fresh rss s r (int (length r)) of
     Inl _ \<Rightarrow> None | Inr s' \<Rightarrow> Some (last (db_sent s')))"

lemma roomy_block: "roomy (\<lambda>n. b # replicate n 0)"
  by (simp add: roomy_def)

section \<open>Properties\<close>







end
