(* ===== verification/Options.thy ===== *)
theory Options
  imports SharedFuncs
begin

text \<open>
  What the three programs use of the C library to read their command line and the numbers in it:
  \<open>getopt\<close> and \<open>atoi\<close>.  A word of the command line is the list of its characters, without
  the terminator.
\<close>

section \<open>Options\<close>

text \<open>
  Whether the string that describes the options has the option, and whether that takes an
  argument: a colon follows it.
\<close>

fun opt_kind :: "byte list \<Rightarrow> byte \<Rightarrow> bool option" where
  "opt_kind [] c = None"
| "opt_kind (b # bs) c =
     (if b = of_char CHR '':'' then opt_kind bs c
      else if b = c then Some (bs \<noteq> [] \<and> hd bs = of_char CHR '':'')
      else opt_kind bs c)"

text \<open>
  All that the calls of \<open>getopt\<close> return, each with \<open>optarg\<close>, up to the one that returns -1.
  The second argument is the rest of the word whose options are being read.  Words that are no
  options are passed over, \<open>--\<close> ends the options, and a question mark stands for an option that
  does not exist or lacks its argument.
\<close>

function getopt :: "byte list \<Rightarrow> byte list \<Rightarrow> byte list list \<Rightarrow> (byte \<times> byte list option) list" where
  "getopt opts [] [] = []"
| "getopt opts [] (w # ws) =
     (if w = of_str ''--'' then []
      else if 2 \<le> length w \<and> hd w = of_char CHR ''-'' then getopt opts (tl w) ws
      else getopt opts [] ws)"
| "getopt opts (c # cs) ws = (case opt_kind opts c of
       None \<Rightarrow> (of_char CHR ''?'', None) # getopt opts cs ws
     | Some False \<Rightarrow> (c, None) # getopt opts cs ws
     | Some True \<Rightarrow>
         if cs \<noteq> [] then (c, Some cs) # getopt opts [] ws
         else case ws of
           [] \<Rightarrow> [(of_char CHR ''?'', None)]
         | w # ws \<Rightarrow> (c, Some w) # getopt opts [] ws)"
  by pat_completeness auto
termination
  by (relation "measure (\<lambda>(opts, cs, ws). length cs + sum_list (map (\<lambda>w. length w + 1) ws))") auto

section \<open>Numbers\<close>

text \<open>
  \<open>atoi\<close> on the memory from a pointer on: blanks, a sign, digits.  A number that is no \<open>int\<close> is
  undefined, and so is running out of the object.
\<close>

fun atoi_digits :: "byte list \<Rightarrow> int \<Rightarrow> int res" where
  "atoi_digits [] n = Inl Unterminated"
| "atoi_digits (b # bs) n =
     (if 48 \<le> b \<and> b \<le> 57 then atoi_digits bs (10 * n + int (unat b - 48)) else Inr n)"

definition as_int :: "int \<Rightarrow> int res" where
  "as_int n = (if - (2 ^ 31) \<le> n \<and> n < 2 ^ 31 then Inr n else Inl OutOfBounds)"

definition atoi :: "byte list \<Rightarrow> int res" where
  "atoi buf = (case dropWhile isspace buf of
     [] \<Rightarrow> Inl Unterminated
   | b # bs \<Rightarrow>
       if b = 45 then rbind (atoi_digits bs 0) (\<lambda>n. as_int (- n))
       else if b = 43 then rbind (atoi_digits bs 0) as_int
       else rbind (atoi_digits (b # bs) 0) as_int)"

section \<open>Lemmas\<close>

text \<open>A word that starts with neither a blank, a sign nor a digit is the number 0.\<close>

lemma atoi_word:
  assumes "\<not> isspace b" "b \<noteq> 45" "b \<noteq> 43" "\<not> (48 \<le> b \<and> b \<le> 57)"
  shows "atoi (b # bs) = Inr 0"
  using assms by (auto simp: atoi_def as_int_def)

text \<open>Words that do not start with a minus sign give no option.\<close>

lemma getopt_words: "list_all (\<lambda>w. w = [] \<or> hd w \<noteq> of_char CHR ''-'') ws \<Longrightarrow> getopt opts [] ws = []"
  by (induction ws) (auto simp: of_str_def)

text \<open>An option with its argument in the next word.\<close>

lemma getopt_arg:
  assumes "opt_kind opts c = Some True" "c \<noteq> of_char CHR ''-''"
  shows "getopt opts [] ([of_char CHR ''-'', c] # w # ws) = (c, Some w) # getopt opts [] ws"
  using assms by (simp add: of_str_def)

end
