(* ===== verification/DbMain.thy ===== *)
theory DbMain
  imports DbFile DbClient Options
begin

text \<open>
  The program of the key-value store (\<open>main\<close> of \<open>data_base/src/main.c\<close>): its options, the file
  it starts from, the callbacks that the loop of events makes, and the file it leaves.  The
  file system is a function from names to contents.  The event loop is a library: the
  sequence of callbacks that \<open>uv_run\<close> makes until it returns is an argument, and so is what
  \<open>uv_listen\<close> answers for an address and a port.
\<close>

section \<open>Options\<close>

record db_options_t =
  op_host :: "byte list option"
  op_port :: int
  op_filename :: "byte list option"
  op_verbose :: int

definition db_defaults :: db_options_t where
  "db_defaults = \<lparr>op_host = Some (of_str ''0.0.0.0''), op_port = 6347, op_filename = None, op_verbose = 0\<rparr>"

text \<open>\<open>port = atoi(optarg)\<close>\<close>

definition set_port :: "byte list option \<Rightarrow> db_options_t \<Rightarrow> db_options_t option res" where
  "set_port optarg o' = (case optarg of
     None \<Rightarrow> Inl NullDeref
   | Some w \<Rightarrow> rbind (atoi (w @ [0])) (\<lambda>n. Inr (Some (o'\<lparr>op_port := n\<rparr>))))"

text \<open>One round of the loop over the options; \<open>None\<close> is \<open>exit(-1)\<close>.  The case \<open>f\<close> has no \<open>break\<close>.\<close>

definition db_option :: "byte \<times> byte list option \<Rightarrow> db_options_t \<Rightarrow> db_options_t option res" where
  "db_option = (\<lambda>(opt, optarg) o'.
     if opt = of_char CHR ''a'' then Inr (Some (o'\<lparr>op_host := optarg\<rparr>))
     else if opt = of_char CHR ''f'' then set_port optarg (o'\<lparr>op_filename := optarg\<rparr>)
     else if opt = of_char CHR ''p'' then set_port optarg o'
     else if opt = of_char CHR ''v'' then Inr (Some (o'\<lparr>op_verbose := op_verbose o' + 1\<rparr>))
     else Inr None)"

fun db_options :: "(byte \<times> byte list option) list \<Rightarrow> db_options_t \<Rightarrow> db_options_t option res" where
  "db_options [] o' = Inr (Some o')"
| "db_options (x # xs) o' = rbind (db_option x o') (\<lambda>r. case r of None \<Rightarrow> Inr None | Some o' \<Rightarrow> db_options xs o')"

section \<open>The file at the start\<close>

type_synonym files = "byte list \<Rightarrow> byte list option"

text \<open>A file that was asked for and cannot be opened is read all the same.\<close>

definition load_store :: "nat \<Rightarrow> byte list \<Rightarrow> files \<Rightarrow> byte list option \<Rightarrow> db_node tree res" where
  "load_store fresh buffer files filename = (case filename of
     Some name \<Rightarrow> (case files name of
         None \<Rightarrow> Inl NullDeref
       | Some file \<Rightarrow> deserialize fresh file buffer TNull)
   | None \<Rightarrow> (case files (of_str ''store.db'') of
         None \<Rightarrow> Inr TNull
       | Some file \<Rightarrow> deserialize fresh file buffer TNull))"

section \<open>Callbacks\<close>

text \<open>
  A connection with its status and what \<open>uv_accept\<close> answers, a block that was received (with
  what \<open>malloc\<close> gives for the reply, the address of a new node and the memory in use), and a
  signal.
\<close>

datatype db_event = NewConnection int int
  | Received "nat \<Rightarrow> byte list" nat nat "byte list" int
  | Signal int

text \<open>\<open>dl_clients\<close> holds for each client whether it is read from; the others are being closed.\<close>

record db_loop_t =
  dl_store :: store_t
  dl_clients :: "bool list"

definition on_new_connection :: "int \<Rightarrow> int \<Rightarrow> db_loop_t \<Rightarrow> db_loop_t" where
  "on_new_connection status accepted s =
     (if status = -1 then s else s\<lparr>dl_clients := dl_clients s @ [accepted = 0]\<rparr>)"

definition wait_signal :: "int \<Rightarrow> db_loop_t \<Rightarrow> db_loop_t" where
  "wait_signal signum s = s\<lparr>dl_store := (dl_store s)\<lparr>db_stopped := True\<rparr>\<rparr>"

fun db_callback :: "db_event \<Rightarrow> db_loop_t \<Rightarrow> db_loop_t res" where
  "db_callback (NewConnection status accepted) s = Inr (on_new_connection status accepted s)"
| "db_callback (Received malloc fresh rss base nread) s =
     rbind (on_recv malloc fresh rss (dl_store s) base nread) (\<lambda>t. Inr (s\<lparr>dl_store := t\<rparr>))"
| "db_callback (Signal signum) s = Inr (wait_signal signum s)"

fun db_callbacks :: "db_event list \<Rightarrow> db_loop_t \<Rightarrow> db_loop_t res" where
  "db_callbacks [] s = Inr s"
| "db_callbacks (e # es) s = rbind (db_callback e s) (db_callbacks es)"

section \<open>The program\<close>

definition db_start :: "db_node tree \<Rightarrow> db_loop_t" where
  "db_start root = \<lparr>dl_store = empty_store\<lparr>db_root := root\<rparr>, dl_clients = []\<rparr>"

text \<open>
  The exit status and the files, with the final state of the store where the loop was reached.
  \<open>writable\<close> says whether \<open>store.db\<close> can be opened for writing; if not, the null pointer is
  printed to all the same.
\<close>

definition db_main ::
  "byte list list \<Rightarrow> files \<Rightarrow> nat \<Rightarrow> byte list \<Rightarrow> (byte list option \<Rightarrow> int \<Rightarrow> int) \<Rightarrow> db_event list \<Rightarrow> bool
    \<Rightarrow> (int \<times> files \<times> db_loop_t option) res" where
  "db_main args files fresh buffer uv_listen events writable =
     rbind (db_options (getopt (of_str ''a:f:p:v'') [] args) db_defaults) (\<lambda>opts. case opts of
       None \<Rightarrow> Inr (-1, files, None)
     | Some o' \<Rightarrow>
         rbind (load_store fresh buffer files (op_filename o')) (\<lambda>root.
           if uv_listen (op_host o') (op_port o') \<noteq> 0 then Inr (1, files, None)
           else
             rbind (db_callbacks events (db_start root)) (\<lambda>s.
               if \<not> writable then Inl NullDeref
               else
                 rbind (serialize (db_root (dl_store s)) (db_freed (dl_store s))) (\<lambda>(out, _).
                   Inr (0, files(of_str ''store.db'' := Some out), Some s)))))"

section \<open>Options and the callbacks of a run of requests\<close>

lemma store_opt_kinds:
  "opt_kind (of_str ''a:f:p:v'') (of_char CHR ''a'') = Some True"
  "opt_kind (of_str ''a:f:p:v'') (of_char CHR ''f'') = Some True"
  "opt_kind (of_str ''a:f:p:v'') (of_char CHR ''p'') = Some True"
  "opt_kind (of_str ''a:f:p:v'') (of_char CHR ''v'') = Some False"
  by code_simp+

text \<open>The option for the file sets the port as well: to 0, where the name is no number.\<close>

lemma file_option_port:
  "db_options (getopt (of_str ''a:f:p:v'') [] [of_str ''-p'', of_str ''6348'', of_str ''-f'', of_str ''old.db'']) db_defaults
    = Inr (Some (db_defaults\<lparr>op_filename := Some (of_str ''old.db''), op_port := 0\<rparr>))"
  by code_simp

lemma port_option:
  "db_options (getopt (of_str ''a:f:p:v'') [] [of_str ''-p'', of_str ''6348'']) db_defaults
    = Inr (Some (db_defaults\<lparr>op_port := 6348\<rparr>))"
  by code_simp

text \<open>A client that connects, its requests and the signal that stops the store.\<close>

fun received :: "(nat \<Rightarrow> byte list) \<Rightarrow> nat \<Rightarrow> nat \<Rightarrow> db_op list \<Rightarrow> db_event list" where
  "received malloc fresh rss [] = []"
| "received malloc fresh rss (r # rs) =
     Received malloc fresh rss (op_request r) (int (length (op_request r))) # received malloc (Suc fresh) rss rs"

definition session :: "(nat \<Rightarrow> byte list) \<Rightarrow> nat \<Rightarrow> nat \<Rightarrow> db_op list \<Rightarrow> db_event list" where
  "session malloc fresh rss rs = NewConnection 0 0 # received malloc fresh rss rs @ [Signal 2]"

lemma callbacks_append: "db_callbacks (es @ fs) s = rbind (db_callbacks es s) (db_callbacks fs)"
proof (induction es arbitrary: s)
  case (Cons e es)
  show ?case
    by (cases "db_callback e s") (simp_all add: Cons)
qed simp

lemma callbacks_received:
  "db_callbacks (received malloc fresh rss rs) s
    = rbind (db_run malloc fresh rss (dl_store s) rs) (\<lambda>t. Inr (s\<lparr>dl_store := t\<rparr>))"
proof (induction rs arbitrary: fresh s)
  case (Cons r rs)
  show ?case
    by (cases "on_recv malloc fresh rss (dl_store s) (op_request r) (int (length (op_request r)))")
      (simp_all add: Cons)
qed simp

lemma callbacks_session:
  "db_callbacks (session malloc fresh rss rs) (db_start root)
    = rbind (db_run malloc fresh rss (empty_store\<lparr>db_root := root\<rparr>) rs) (\<lambda>t.
        Inr \<lparr>dl_store = t\<lparr>db_stopped := True\<rparr>, dl_clients = [True]\<rparr>)"
  by (simp add: session_def callbacks_append callbacks_received db_start_def on_new_connection_def rbind_assoc
      wait_signal_def)

section \<open>Two lives of a store\<close>

lemma db_map_ran: "db_inv s \<Longrightarrow> ran (db_map s) = nd_data ` set (inorder (db_root s))"
  using find_key_Some [of "db_root s"] by (fastforce simp: ran_def db_map_eq db_inv_def image_def)

text \<open>What a stopped store writes.\<close>

definition saved_file :: "db_node tree \<Rightarrow> byte list" where
  "saved_file root = concat (map node_line (visits 2 root))"

lemma serialize_store:
  assumes "db_inv s"
  shows "rbind (serialize (db_root s) (db_freed s)) (\<lambda>(out, freed). f out)
    = (if \<forall>v\<in>ran (db_map s). terminated v then f (saved_file (db_root s)) else Inl Unterminated)"
  using serialize_cases [of "db_root s" "db_freed s"] assms db_map_ran [OF assms]
  by (auto simp: db_inv_def saved_file_def)

text \<open>The store that is started from the file of another one.\<close>

lemma load_saved:
  assumes "db_inv s" "below n s" "n < 2 ^ 31" "length buffer = 2048"
    "\<And>k v. db_map s k = Some v \<Longrightarrow> loadable_line (k, cstr v)"
    "files (of_str ''store.db'') = Some (saved_file (db_root s))"
  shows "\<exists>root. load_store 0 buffer files None = Inr root \<and> db_inv (empty_store\<lparr>db_root := root\<rparr>)
    \<and> below n (empty_store\<lparr>db_root := root\<rparr>)
    \<and> db_map (empty_store\<lparr>db_root := root\<rparr>) = map_option cstr \<circ> db_map s"
proof -
  have t: "tree_inv (db_root s)" "length (inorder (db_root s)) \<le> n"
    using assms(1,2) by (simp_all add: db_inv_def below_def)
  have "\<forall>x\<in>set (inorder (db_root s)). loadable_line (node_key x, cstr (nd_data x))"
    using assms(5) find_key_Some [OF t(1)] by (fastforce simp: db_map_eq)
  from saved_loads [OF t(1) assms(4) this, of 0] show ?thesis
    using t(2) assms(3,6)
    by (fastforce simp: load_store_def saved_file_def db_inv_def below_def blocks_def empty_store_def db_map_eq fun_eq_iff
      option.map_comp comp_def)
qed

text \<open>A start that reaches the loop, a session, and the end.\<close>

definition db_end :: "store_t \<Rightarrow> db_loop_t" where
  "db_end t = \<lparr>dl_store = t\<lparr>db_stopped := True\<rparr>, dl_clients = [True]\<rparr>"

lemma db_main_session:
  assumes "db_options (getopt (of_str ''a:f:p:v'') [] args) db_defaults = Inr (Some opts)"
    and "load_store fresh' buffer files (op_filename opts) = Inr root" and "uv_listen (op_host opts) (op_port opts) = 0"
    and "db_run malloc fresh rss (empty_store\<lparr>db_root := root\<rparr>) rs = Inr t" and "db_inv t"
  shows "db_main args files fresh' buffer uv_listen (session malloc fresh rss rs) True
    = (if \<forall>v\<in>ran (db_map t). terminated v
       then Inr (0, files(of_str ''store.db'' := Some (saved_file (db_root t))), Some (db_end t))
       else Inl Unterminated)"
proof -
  have "db_callbacks (session malloc fresh rss rs) (db_start root) = Inr (db_end t)"
    by (simp add: callbacks_session assms(4) db_end_def)
  moreover have "db_root (dl_store (db_end t)) = db_root t" "db_freed (dl_store (db_end t)) = db_freed t"
    by (simp_all add: db_end_def)
  ultimately show ?thesis
    using assms(1-3) by (simp only: db_main_def rbind_Inr option.case serialize_store [OF assms(5)] simp_thms if_False if_True)
qed

section \<open>Properties\<close>





end
