(* ===== verification/ServerThreads.thy ===== *)
theory ServerThreads
  imports Network Player JobQueue Queue QueryProcessing
begin

text \<open>
  The threads of the server around its queues (\<open>server/threads.c\<close>): one round of the
  receiver, of the sender and of the thread that logs idle players out.  Messages are blocks on
  a heap and the queues hold pointers to them, since the receiver goes on writing to a message
  that it has already handed over.  The socket is what \<open>recvfrom\<close> stored and what \<open>sendto\<close>
  was given; the clock, \<open>rand\<close> and the content of fresh blocks are parameters.
\<close>

text \<open>The only function the server puts into jobs.\<close>

datatype job_function_t = QueryProcessingNew

record server_t =
  sv_msgs :: "msg_t heap"
  sv_in :: "(job_function_t, ptr) jqueue_t"
  sv_out :: "ptr queue_t"
  sv_players :: players_t
  sv_wire :: "(sockaddr_in \<times> byte list) list"

section \<open>The receiver\<close>

text \<open>\<open>if (crypto_key_is_empty(msg->key)) crypto_gen_key(msg->key, TOKEN_LEN);\<close>\<close>

definition fill_key :: "byte list \<Rightarrow> (nat \<Rightarrow> nat) \<Rightarrow> ptr \<Rightarrow> server_t \<Rightarrow> server_t res" where
  "fill_key after rnd p s =
     rbind (load (sv_msgs s) p) (\<lambda>m.
     rbind (crypto_key_is_empty (m_key m)) (\<lambda>e.
       if e then
         rbind (crypto_gen_key after rnd (m_key m) TOKEN_LEN) (\<lambda>key.
         rbind (store (sv_msgs s) p (m\<lparr>m_key := key\<rparr>)) (\<lambda>h. Inr (s\<lparr>sv_msgs := h\<rparr>)))
       else Inr s))"

text \<open>A note for the game: a new message with the address and the key, put into the queue.\<close>

definition send_note ::
  "msg_t option \<Rightarrow> sockaddr_in \<Rightarrow> byte list \<Rightarrow> msg_type_t \<Rightarrow> server_t \<Rightarrow> server_t res" where
  "send_note fresh addr key t s = (case msg_init fresh None of
     None \<Rightarrow> Inl NullDeref
   | Some note \<Rightarrow>
       rbind (msg_set_key (note\<lparr>m_addr := addr\<rparr>) key) (\<lambda>note.
         let (p, h) = alloc (sv_msgs s) (msg_set_type note t) in
         rbind (jqueue_add_job QueryProcessingNew p (sv_in s)) (\<lambda>q.
           Inr (s\<lparr>sv_msgs := h, sv_in := q\<rparr>))))"

definition remember_player :: "u64 \<Rightarrow> msg_t option \<Rightarrow> ptr \<Rightarrow> server_t \<Rightarrow> server_t res" where
  "remember_player now fresh p s =
     rbind (load (sv_msgs s) p) (\<lambda>m.
     rbind (player_update (sv_players s) (m_key m) now) (\<lambda>(known, players).
       if known then Inr (s\<lparr>sv_players := players\<rparr>)
       else
         rbind (player_add players (m_key m) (m_addr m) now) (\<lambda>(_, players).
           send_note fresh (m_addr m) (m_key m) logged_in (s\<lparr>sv_players := players\<rparr>))))"

text \<open>
  One round of \<open>receiver_thread\<close>.  The message is in the job queue as soon as it has arrived; the
  receiver then goes on with the key and the players, through its own pointer.
\<close>

definition receiver_accept ::
  "msg_t option \<Rightarrow> (sockaddr_in \<times> byte list) option \<Rightarrow> server_t \<Rightarrow> (ptr \<times> server_t) res" where
  "receiver_accept fresh recvd s =
     rbind (msg_recv fresh recvd) (\<lambda>msg. case msg of
       None \<Rightarrow> Inr (None, s)
     | Some m \<Rightarrow>
         let (p, h) = alloc (sv_msgs s) m in
         rbind (jqueue_add_job QueryProcessingNew p (sv_in s)) (\<lambda>q. Inr (p, s\<lparr>sv_msgs := h, sv_in := q\<rparr>)))"

definition receiver_finish ::
  "byte list \<Rightarrow> (nat \<Rightarrow> nat) \<Rightarrow> u64 \<Rightarrow> msg_t option \<Rightarrow> ptr \<Rightarrow> server_t \<Rightarrow> server_t res" where
  "receiver_finish after rnd now fresh p s = rbind (fill_key after rnd p s) (\<lambda>s. remember_player now fresh p s)"

definition receiver_step ::
  "byte list \<Rightarrow> (nat \<Rightarrow> nat) \<Rightarrow> u64 \<Rightarrow> msg_t option \<Rightarrow> msg_t option \<Rightarrow> (sockaddr_in \<times> byte list) option
    \<Rightarrow> server_t \<Rightarrow> server_t res" where
  "receiver_step after rnd now fresh fresh_note recvd s =
     rbind (receiver_accept fresh recvd s) (\<lambda>(p, s).
       if p = None then Inr s else receiver_finish after rnd now fresh_note p s)"

section \<open>The worker\<close>

text \<open>
  A message that is its own answer (\<open>reply_msg = message\<close>): the pointer goes on to the outgoing
  queue.  The other types are in \<open>query_processing_new\<close>, over values.
\<close>

definition answer_itself :: "ptr \<Rightarrow> server_t \<Rightarrow> server_t res" where
  "answer_itself p s =
     rbind (load (sv_msgs s) p) (\<lambda>m.
       if m_type m = conn_test \<or> m_type m = online_list \<or> m_type m = chat_msg
       then rbind (queue_enqueue p (sv_out s)) (\<lambda>q. Inr (s\<lparr>sv_out := q\<rparr>))
       else Inr s)"

definition worker_echo :: "server_t \<Rightarrow> server_t res" where
  "worker_echo s =
     rbind (work_once (sv_in s)) (\<lambda>(job, q). case job of
       None \<Rightarrow> Inr (s\<lparr>sv_in := q\<rparr>)
     | Some (QueryProcessingNew, p) \<Rightarrow> answer_itself p (s\<lparr>sv_in := q\<rparr>))"

section \<open>The sender\<close>

text \<open>One round of \<open>sender_thread\<close>; it waits while the queue is empty.\<close>

definition sender_step :: "byte list \<Rightarrow> (nat \<Rightarrow> nat) \<Rightarrow> server_t \<Rightarrow> server_t res" where
  "sender_step after rnd s =
     (if queue_is_empty (sv_out s) then Inr s
      else
        rbind (queue_dequeue (sv_out s)) (\<lambda>(p, q). case p of
          None \<Rightarrow> Inl Uninitialised
        | Some p \<Rightarrow>
            rbind (fill_key after rnd p (s\<lparr>sv_out := q\<rparr>)) (\<lambda>s.
            rbind (load (sv_msgs s) p) (\<lambda>m.
            rbind (msg_send m) (\<lambda>(m, wire).
            rbind (free (sv_msgs s) p) (\<lambda>h.
              Inr (s\<lparr>sv_msgs := h, sv_wire := sv_wire s @ [(m_addr m, wire)]\<rparr>)))))))"

section \<open>Idle players\<close>

lemma player_delete_count:
  "player_delete players i = Inr (b, players') \<Longrightarrow> ps_count players' \<le> ps_count players"
  by (auto simp: player_delete_def Let_def res_simps split: if_splits)

text \<open>
  The branch of a player whose time is up: the note takes its address and key from the player
  before the player is deleted, and is queued after that.
\<close>

definition time_out :: "msg_t option \<Rightarrow> nat \<Rightarrow> player_t \<Rightarrow> server_t \<Rightarrow> server_t res" where
  "time_out fresh i pl s = (case msg_init fresh None of
     None \<Rightarrow> Inl NullDeref
   | Some note \<Rightarrow>
       rbind (msg_set_key (note\<lparr>m_addr := pl_addr pl\<rparr>) (pl_token pl)) (\<lambda>note.
       rbind (player_delete (sv_players s) i) (\<lambda>(_, players).
         let (n, h) = alloc (sv_msgs s) (msg_set_type note timed_out) in
         rbind (jqueue_add_job QueryProcessingNew n (sv_in s)) (\<lambda>q.
           Inr (s\<lparr>sv_msgs := h, sv_in := q, sv_players := players\<rparr>)))))"

lemma time_out_count:
  "time_out fresh i pl s = Inr s' \<Longrightarrow> ps_count (sv_players s') \<le> ps_count (sv_players s)"
  by (auto simp: time_out_def res_simps Let_def alloc_def split: option.splits prod.splits dest: player_delete_count)

text \<open>The \<open>for\<close> loop of \<open>server_thread\<close>; the index goes on after a deletion.\<close>

function idle_loop :: "u64 \<Rightarrow> u64 \<Rightarrow> msg_t option \<Rightarrow> nat \<Rightarrow> server_t \<Rightarrow> server_t res" where
  "idle_loop now timeout fresh i s =
     (if i < ps_count (sv_players s) then
        rbind (ps_entry (sv_players s) i) (\<lambda>p.
        rbind (load (ps_heap (sv_players s)) p) (\<lambda>pl.
        rbind (if now - pl_timestamp pl > timeout then time_out fresh i pl s else Inr s) (\<lambda>s.
          idle_loop now timeout fresh (Suc i) s)))
      else Inr s)"
  by pat_completeness auto
termination
proof (relation "measure (\<lambda>(now, timeout, fresh, i, s). ps_count (sv_players s) - i)", goal_cases)
  case (2 now timeout fresh i s p pl s')
  then have "ps_count (sv_players s') \<le> ps_count (sv_players s)"
    by (auto split: if_splits dest: time_out_count)
  with 2 show ?case
    by simp
qed simp

declare idle_loop.simps [simp del]

definition server_round :: "u64 \<Rightarrow> u64 \<Rightarrow> msg_t option \<Rightarrow> server_t \<Rightarrow> server_t res" where
  "server_round now timeout fresh s = idle_loop now timeout fresh 0 s"

section \<open>Lemmas\<close>

text \<open>What a generated key looks like: 33 characters and a terminator in the padding.\<close>

definition fresh_key :: "(nat \<Rightarrow> nat) \<Rightarrow> byte list \<Rightarrow> byte list" where
  "fresh_key rnd key = map (\<lambda>i. sid ! (rnd i mod 61)) [0..<TOKEN_LEN] @ 0 # drop (Suc TOKEN_LEN) key"

definition keyed :: "(nat \<Rightarrow> nat) \<Rightarrow> msg_t \<Rightarrow> msg_t" where
  "keyed rnd m = (if hd (m_key m) = 0 then m\<lparr>m_key := fresh_key rnd (m_key m)\<rparr> else m)"

lemma keyed_same [simp]: "m_addr (keyed rnd m) = m_addr m" "m_type (keyed rnd m) = m_type m" "m_body (keyed rnd m) = m_body m"
  by (simp_all add: keyed_def)

lemma keyed_wf: "msg_wf m \<Longrightarrow> msg_wf (keyed rnd m)"
  by (simp add: msg_wf_def keyed_def fresh_key_def TOKEN_LEN_def KEY_PAD_def)

lemma keyed_nonempty:
  assumes "msg_wf m"
  shows "crypto_key_is_empty (m_key (keyed rnd m)) = Inr False" "terminated (m_key m) \<Longrightarrow> terminated (m_key (keyed rnd m))"
proof -
  have "sid ! (rnd 0 mod 61) \<noteq> 0"
    using sid_draw [of "rnd 0 mod 61"] sid_nonzero by (metis in_set_butlastD mod_less_divisor zero_less_numeral)
  moreover have "fresh_key rnd (m_key m) = sid ! (rnd 0 mod 61) # tl (fresh_key rnd (m_key m))"
    by (simp add: fresh_key_def TOKEN_LEN_def upt_conv_Cons del: upt_rec_numeral)
  ultimately have "hd (fresh_key rnd (m_key m)) \<noteq> 0" "fresh_key rnd (m_key m) \<noteq> []"
    by (metis list.sel(1), metis list.distinct(1))
  moreover have "m_key m \<noteq> []"
    using assms by (auto simp: msg_wf_def TOKEN_LEN_def)
  ultimately show "crypto_key_is_empty (m_key (keyed rnd m)) = Inr False"
    by (auto simp: keyed_def crypto_key_is_empty_def neq_Nil_conv)
  show "terminated (m_key m) \<Longrightarrow> terminated (m_key (keyed rnd m))"
    by (simp add: keyed_def fresh_key_def)
qed

lemma fill_key_ok:
  assumes "load (sv_msgs s) (Some p) = Inr m" "msg_wf m"
  shows "fill_key (0 # after) rnd (Some p) s = Inr (s\<lparr>sv_msgs := (sv_msgs s)[p := Some (keyed rnd m)]\<rparr>)"
proof -
  obtain k ks where key: "m_key m = k # ks" "length ks = 35"
    using assms(2) by (cases "m_key m") (auto simp: msg_wf_def TOKEN_LEN_def KEY_PAD_def)
  show ?thesis
  proof (cases "k = 0")
    case True
    then show ?thesis
      using assms key by (simp add: fill_key_def crypto_key_is_empty_def crypto_gen_key_eq TOKEN_LEN_def store_ok
        keyed_def fresh_key_def)
  next
    case False
    have "(sv_msgs s)[p := Some m] = sv_msgs s"
      using assms(1) by (metis load_eq_Inr list_update_id)
    then show ?thesis
      using False assms key by (simp add: fill_key_def crypto_key_is_empty_def keyed_def)
  qed
qed

lemma send_note_ok:
  assumes "msg_wf fresh" "TOKEN_LEN \<le> length key" "jq_inv (sv_in s)" "0 < jq_room (sv_in s)"
  shows "\<exists>q nm. send_note (Some fresh) addr key t s = Inr (s\<lparr>sv_msgs := sv_msgs s @ [Some nm], sv_in := q\<rparr>)
    \<and> jq_inv q \<and> jq_contents q = jq_contents (sv_in s) @ [(QueryProcessingNew, Some (length (sv_msgs s)))]
    \<and> msg_wf nm \<and> m_addr nm = addr \<and> m_type nm = t \<and> m_key nm = take TOKEN_LEN key @ drop TOKEN_LEN (m_key fresh)"
proof -
  obtain nm where nm: "msg_init (Some fresh) None = Some nm" "msg_wf nm"
    using msg_init_None [OF assms(1)] by blast
  have "m_key nm = replicate TOKEN_LEN 0 @ drop TOKEN_LEN (m_key fresh)"
    using nm(1) by (auto simp: msg_init_def Let_def)
  then obtain nm' where nm': "msg_set_key (nm\<lparr>m_addr := addr\<rparr>) key = Inr nm'" "m_addr nm' = addr"
      "m_key nm' = take TOKEN_LEN key @ drop TOKEN_LEN (m_key fresh)"
    using assms(2) by (auto simp: msg_set_key_def memcpy_def)
  have wf: "msg_wf nm'"
    using msg_set_key_wf [OF _ nm'(1)] nm(2) by (simp add: msg_wf_def)
  obtain q where "jqueue_add_job QueryProcessingNew (Some (length (sv_msgs s))) (sv_in s) = Inr q" "jq_inv q"
      "jq_contents q = jq_contents (sv_in s) @ [(QueryProcessingNew, Some (length (sv_msgs s)))]"
    using jqueue_add_job_spec [OF assms(3,4)] by blast
  then show ?thesis
    using nm nm' wf
    by (intro exI [of _ q] exI [of _ "msg_set_type nm' t"])
      (simp add: send_note_def alloc_def msg_set_type_def msg_wf_def)
qed

text \<open>The round of the receiver for a message that has arrived.\<close>

lemma receiver_step_ok:
  assumes "msg_wf fresh" "msg_wf fresh_note" "msg_recv (Some fresh) recvd = Inr (Some m)"
    "ps_inv (sv_players s)" "jq_inv (sv_in s)" "1 < jq_room (sv_in s)"
  shows "\<exists>s'. receiver_step (0 # after) rnd now (Some fresh) (Some fresh_note) recvd s = Inr s' \<and> ps_inv (sv_players s')
    \<and> jq_inv (sv_in s') \<and> load (sv_msgs s') (Some (length (sv_msgs s))) = Inr (keyed rnd m)
    \<and> (case ps_find (sv_players s) (m_key (keyed rnd m)) of
        Some i \<Rightarrow> jq_contents (sv_in s') = jq_contents (sv_in s) @ [(QueryProcessingNew, Some (length (sv_msgs s)))]
          \<and> ps_players (sv_players s') = (ps_players (sv_players s))
              [i := (ps_players (sv_players s) ! i)\<lparr>pl_timestamp := now\<rparr>]
      | None \<Rightarrow> jq_contents (sv_in s') = jq_contents (sv_in s) @
            [(QueryProcessingNew, Some (length (sv_msgs s))), (QueryProcessingNew, Some (Suc (length (sv_msgs s))))]
          \<and> ps_players (sv_players s') = ps_players (sv_players s) @
              (if ps_count (sv_players s) < ps_max (sv_players s)
               then [\<lparr>pl_token = take TOKEN_LEN (m_key (keyed rnd m)), pl_timestamp = now, pl_addr = m_addr m\<rparr>] else [])
          \<and> (\<exists>nm. load (sv_msgs s') (Some (Suc (length (sv_msgs s)))) = Inr nm \<and> m_type nm = logged_in \<and> m_addr nm = m_addr m
              \<and> msg_wf nm \<and> m_key nm = take TOKEN_LEN (m_key (keyed rnd m)) @ drop TOKEN_LEN (m_key fresh_note)))"
proof -
  let ?p = "length (sv_msgs s)" and ?k = "keyed rnd m"
  have wf: "msg_wf m" "msg_wf ?k"
    using msg_recv_wf [OF assms(1,3)] keyed_wf by auto
  have len: "TOKEN_LEN \<le> length (m_key ?k)"
    using wf(2) by (simp add: msg_wf_def)
  obtain q where q: "jqueue_add_job QueryProcessingNew (Some ?p) (sv_in s) = Inr q" "jq_inv q"
      "jq_contents q = jq_contents (sv_in s) @ [(QueryProcessingNew, Some ?p)]" "jq_room q = jq_room (sv_in s) - 1"
    using jqueue_add_job_spec [OF assms(5), of QueryProcessingNew "Some ?p"] assms(6) by auto
  let ?s1 = "s\<lparr>sv_msgs := sv_msgs s @ [Some ?k], sv_in := q\<rparr>"
  have "fill_key (0 # after) rnd (Some ?p) (s\<lparr>sv_msgs := sv_msgs s @ [Some m], sv_in := q\<rparr>) = Inr ?s1"
    using fill_key_ok [of "s\<lparr>sv_msgs := sv_msgs s @ [Some m], sv_in := q\<rparr>" ?p m after rnd] wf(1)
    by (simp add: load_alloc_new)
  then have step: "receiver_step (0 # after) rnd now (Some fresh) (Some fresh_note) recvd s
      = remember_player now (Some fresh_note) (Some ?p) ?s1"
    using q(1) by (simp add: receiver_step_def receiver_accept_def receiver_finish_def assms(3) alloc_def)
  obtain ps where ps: "player_update (sv_players s) (m_key ?k) now = Inr (ps_find (sv_players s) (m_key ?k) \<noteq> None, ps)"
      "ps_inv ps" "ps_max ps = ps_max (sv_players s)" "ps_count ps = ps_count (sv_players s)"
      "ps_players ps = (case ps_find (sv_players s) (m_key ?k) of None \<Rightarrow> ps_players (sv_players s)
        | Some i \<Rightarrow> (ps_players (sv_players s))[i := (ps_players (sv_players s) ! i)\<lparr>pl_timestamp := now\<rparr>])"
    using player_update_spec [OF assms(4) len, of now] by blast
  show ?thesis
  proof (cases "ps_find (sv_players s) (m_key ?k)")
    case (Some i)
    then show ?thesis
      using ps q by (simp add: step remember_player_def load_alloc_new)
  next
    case None
    have "ps_count ps \<le> ps_max ps"
      using ps(2) by (simp add: ps_inv_def)
    then obtain b ps' where ps': "player_add ps (m_key ?k) (m_addr m) now = Inr (b, ps')" "ps_inv ps'"
        "ps_players ps' = ps_players (sv_players s) @ (if ps_count (sv_players s) < ps_max (sv_players s)
          then [\<lparr>pl_token = take TOKEN_LEN (m_key ?k), pl_timestamp = now, pl_addr = m_addr m\<rparr>] else [])"
      using player_add_room [OF ps(2) _ len, of "m_addr m" now] player_add_full [of ps "m_key ?k" "m_addr m" now]
        ps(2,3,4,5) None by (cases "ps_count ps = ps_max ps") auto
    have "0 < jq_room (sv_in (?s1\<lparr>sv_players := ps'\<rparr>))" "jq_inv (sv_in (?s1\<lparr>sv_players := ps'\<rparr>))"
      using q(2,4) assms(6) by simp_all
    then obtain q' nm where
      "send_note (Some fresh_note) (m_addr m) (m_key ?k) logged_in (?s1\<lparr>sv_players := ps'\<rparr>)
        = Inr (s\<lparr>sv_players := ps', sv_msgs := sv_msgs s @ [Some ?k, Some nm], sv_in := q'\<rparr>)"
      "jq_inv q'" "jq_contents q' = jq_contents q @ [(QueryProcessingNew, Some (Suc ?p))]"
      "m_addr nm = m_addr m" "m_type nm = logged_in" "msg_wf nm"
      "m_key nm = take TOKEN_LEN (m_key ?k) @ drop TOKEN_LEN (m_key fresh_note)"
      using send_note_ok [OF assms(2) len, of "?s1\<lparr>sv_players := ps'\<rparr>" "m_addr m" logged_in] by auto
    moreover have "load (sv_msgs s @ [Some ?k, Some nm]) (Some ?p) = Inr ?k" for nm
      using load_alloc_old [of "sv_msgs s @ [Some ?k]" "Some ?p" ?k "Some nm"] by (simp add: load_alloc_new)
    moreover have "load (sv_msgs s @ [Some ?k, Some nm]) (Some (Suc ?p)) = Inr nm" for nm
      using load_alloc_new [of "sv_msgs s @ [Some ?k]" nm] by simp
    ultimately show ?thesis
      using ps(1) ps' q None by (simp add: step remember_player_def load_alloc_new)
  qed
qed

text \<open>A player is idle when the clock, which wraps, is more than \<open>timeout\<close> ahead of its last message.\<close>

definition idle :: "u64 \<Rightarrow> u64 \<Rightarrow> player_t \<Rightarrow> bool" where
  "idle now timeout pl \<longleftrightarrow> now - pl_timestamp pl > timeout"

lemma idle_loop_skip:
  assumes "ps_inv (sv_players s)" "i \<le> k" "k \<le> ps_count (sv_players s)"
    "\<And>j. i \<le> j \<Longrightarrow> j < k \<Longrightarrow> \<not> idle now timeout (ps_players (sv_players s) ! j)"
  shows "idle_loop now timeout fresh i s = idle_loop now timeout fresh k s"
  using assms(2-)
proof (induction "k - i" arbitrary: i)
  case (Suc n)
  then have i: "i < k" "i < ps_count (sv_players s)"
    by auto
  note e = ps_entry_ok [OF assms(1) i(2)]
  have "idle_loop now timeout fresh i s = idle_loop now timeout fresh (Suc i) s"
    using Suc.prems(3) [of i] i e by (subst idle_loop.simps) (simp add: idle_def)
  also have "\<dots> = idle_loop now timeout fresh k s"
    using Suc i by (intro Suc.hyps(1)) auto
  finally show ?case .
qed simp

lemma time_out_eq:
  assumes "msg_wf fresh" "length (pl_token pl) = TOKEN_LEN"
  shows "\<exists>nm. msg_wf nm \<and> m_addr nm = pl_addr pl \<and> m_type nm = timed_out \<and> take TOKEN_LEN (m_key nm) = pl_token pl
    \<and> time_out (Some fresh) i pl s = rbind (player_delete (sv_players s) i) (\<lambda>(_, players).
        rbind (jqueue_add_job QueryProcessingNew (Some (length (sv_msgs s))) (sv_in s)) (\<lambda>q.
          Inr (s\<lparr>sv_msgs := sv_msgs s @ [Some nm], sv_in := q, sv_players := players\<rparr>)))"
proof -
  obtain n0 where n0: "msg_init (Some fresh) None = Some n0" "msg_wf n0"
    using msg_init_None [OF assms(1)] by blast
  obtain n1 where n1: "msg_set_key (n0\<lparr>m_addr := pl_addr pl\<rparr>) (pl_token pl) = Inr n1" "m_addr n1 = pl_addr pl"
      "take TOKEN_LEN (m_key n1) = pl_token pl"
    using assms(2) n0(2) by (auto simp: msg_set_key_def memcpy_def msg_wf_def)
  have "msg_wf n1"
    using msg_set_key_wf [OF _ n1(1)] n0(2) by (simp add: msg_wf_def)
  then show ?thesis
    using n0 n1 by (intro exI [of _ "msg_set_type n1 timed_out"]) (simp add: time_out_def alloc_def msg_set_type_def msg_wf_def)
qed

text \<open>One round of the sender for the first message of its queue.\<close>

lemma sender_step_ok:
  assumes "q_inv (sv_out s)" and "q_contents (sv_out s) = Some p # ps" and "load (sv_msgs s) (Some p) = Inr m"
    and "msg_wf m" and "terminated (m_key m)" and "terminated (m_body m)"
  shows "\<exists>q c. sender_step (0 # after) rnd s = Inr (s\<lparr>sv_msgs := (sv_msgs s)[p := None], sv_out := q,
        sv_wire := sv_wire s @ [(m_addr m, msg_bytes ((keyed rnd m)\<lparr>m_body := c\<rparr>))]\<rparr>)
    \<and> q_inv q \<and> q_contents q = ps \<and> crypto_encrypt (m_body m) (m_key (keyed rnd m)) = Inr c"
proof -
  let ?k = "keyed rnd m"
  have tk: "terminated (m_key ?k)" and ne: "crypto_key_is_empty (m_key ?k) = Inr False"
    using keyed_nonempty [OF assms(4)] assms(5) by auto
  obtain q where q: "queue_dequeue (sv_out s) = Inr (Some (Some p), q)" "q_inv q" "q_contents q = ps"
    using queue_dequeue_spec [OF assms(1,2)] by blast
  have nonempty: "\<not> queue_is_empty (sv_out s)"
    using queue_is_empty_iff [OF assms(1)] assms(2) by simp
  obtain c where c: "crypto_encrypt (m_body m) (m_key ?k) = Inr c"
    using crypto_encrypt_eq [OF assms(6) tk] by blast
  have "msg_send ?k = Inr (?k\<lparr>m_body := c\<rparr>, msg_bytes (?k\<lparr>m_body := c\<rparr>))"
    using ne c tk assms(6) by (simp add: msg_send_def key_mem_def crypto_key_append)
  moreover have "p < length (sv_msgs s)"
    using assms(3) by (simp add: load_eq_Inr)
  ultimately have "sender_step (0 # after) rnd s = Inr (s\<lparr>sv_msgs := (sv_msgs s)[p := None], sv_out := q,
        sv_wire := sv_wire s @ [(m_addr m, msg_bytes (?k\<lparr>m_body := c\<rparr>))]\<rparr>)"
    using q(1) nonempty fill_key_ok [of "s\<lparr>sv_out := q\<rparr>" p m after rnd] assms(3,4)
    by (simp add: sender_step_def load_update free_ok)
  with q c show ?thesis
    by blast
qed

lemma keyed_recv:
  assumes "msg_wf m" and "terminated (m_key m)" and "terminated (m_body m)" and "msg_wf fresh"
    and "crypto_encrypt (m_body m) (m_key (keyed rnd m)) = Inr c"
    and "unsafe_byte (m_key (keyed rnd m)) \<notin> set (cstr (m_body m))"
  shows "msg_recv (Some fresh) (Some (a, msg_bytes ((keyed rnd m)\<lparr>m_body := c\<rparr>))) = Inr (Some ((keyed rnd m)\<lparr>m_addr := a\<rparr>))"
proof -
  let ?k = "keyed rnd m"
  have tk: "terminated (m_key ?k)" and ne: "crypto_key_is_empty (m_key ?k) = Inr False"
    using keyed_nonempty [OF assms(1)] assms(2) by auto
  have "msg_wf (?k\<lparr>m_body := c\<rparr>)"
    using keyed_wf [OF assms(1)] crypto_encrypt_length [OF assms(5)] assms(1) by (simp add: msg_wf_def)
  moreover have "crypto_decrypt c (m_key ?k) = Inr (m_body m)"
    using decrypt_encrypt_iff [OF assms(3) tk] assms(5,6) by simp
  ultimately show ?thesis
    using msg_recv_wire [OF assms(4), of "?k\<lparr>m_body := c\<rparr>" a] ne encrypt_terminated [OF assms(3) tk assms(5)] tk
    by (simp add: key_mem_def crypto_key_append)
qed

text \<open>The receiver leaves what the sender owns alone.\<close>

lemma receiver_finish_frame:
  "receiver_finish after rnd now fresh p s = Inr s' \<Longrightarrow> sv_out s' = sv_out s \<and> sv_wire s' = sv_wire s"
  by (auto simp: receiver_finish_def fill_key_def remember_player_def send_note_def res_simps Let_def alloc_def
      split: if_splits option.splits)

lemma receiver_step_frame:
  "receiver_step after rnd now fresh fresh_note recvd s = Inr s' \<Longrightarrow> sv_out s' = sv_out s \<and> sv_wire s' = sv_wire s"
  by (auto simp: receiver_step_def receiver_accept_def res_simps Let_def alloc_def
      split: if_splits option.splits dest!: receiver_finish_frame)

lemma worker_echo_ok:
  assumes "jq_inv (sv_in s)" and "jq_contents (sv_in s) = (QueryProcessingNew, Some p) # js"
    and "load (sv_msgs s) (Some p) = Inr m" and "m_type m = conn_test"
    and "q_inv (sv_out s)" and "0 < q_quota (sv_out s)"
  shows "\<exists>q q'. worker_echo s = Inr (s\<lparr>sv_in := q, sv_out := q'\<rparr>) \<and> jq_inv q \<and> jq_contents q = js
    \<and> q_inv q' \<and> q_contents q' = q_contents (sv_out s) @ [Some p]"
proof -
  obtain q where q: "work_once (sv_in s) = Inr (Some (QueryProcessingNew, Some p), q)" "jq_inv q" "jq_contents q = js"
    using work_once_spec [OF assms(1,2)] by blast
  obtain q' where "queue_enqueue (Some p) (sv_out s) = Inr q'" "q_inv q'" "q_contents q' = q_contents (sv_out s) @ [Some p]"
    using queue_enqueue_spec [OF assms(5,6)] by blast
  then show ?thesis
    using q assms(3,4)
    by (intro exI [of _ q] exI [of _ q']) (simp add: worker_echo_def answer_itself_def)
qed

section \<open>Properties\<close>

text \<open>
  A message that arrives is in the queue before anything else happens to it, at the end and
  behind a pointer; if its key is empty it gets one of 33 characters.  A known key restarts
  the clock of its player; for an unknown one a note that logs the player in, with the same
  key and address, follows directly, and the player enters the table if there is room (the
  note is sent even if there is none).
\<close>

theorem receiver_hands_over:
  assumes "msg_wf fresh" and "msg_wf fresh_note" and "msg_recv (Some fresh) recvd = Inr (Some m)"
    and "ps_inv (sv_players s)" and "jq_inv (sv_in s)" and "1 < jq_room (sv_in s)"
  shows "\<exists>s'. receiver_step (0 # after) rnd now (Some fresh) (Some fresh_note) recvd s = Inr s' \<and> ps_inv (sv_players s')
    \<and> jq_inv (sv_in s') \<and> load (sv_msgs s') (Some (length (sv_msgs s))) = Inr (keyed rnd m)
    \<and> (case ps_find (sv_players s) (m_key (keyed rnd m)) of
        Some i \<Rightarrow> jq_contents (sv_in s') = jq_contents (sv_in s) @ [(QueryProcessingNew, Some (length (sv_msgs s)))]
          \<and> ps_players (sv_players s') = (ps_players (sv_players s))
              [i := (ps_players (sv_players s) ! i)\<lparr>pl_timestamp := now\<rparr>]
      | None \<Rightarrow> jq_contents (sv_in s') = jq_contents (sv_in s) @
            [(QueryProcessingNew, Some (length (sv_msgs s))), (QueryProcessingNew, Some (Suc (length (sv_msgs s))))]
          \<and> ps_players (sv_players s') = ps_players (sv_players s) @
              (if ps_count (sv_players s) < ps_max (sv_players s)
               then [\<lparr>pl_token = take TOKEN_LEN (m_key (keyed rnd m)), pl_timestamp = now, pl_addr = m_addr m\<rparr>] else [])
          \<and> (\<exists>nm. load (sv_msgs s') (Some (Suc (length (sv_msgs s)))) = Inr nm \<and> m_type nm = logged_in \<and> m_addr nm = m_addr m
              \<and> msg_wf nm \<and> m_key nm = take TOKEN_LEN (m_key (keyed rnd m)) @ drop TOKEN_LEN (m_key fresh_note)))"
  using assms by (rule receiver_step_ok)

definition sample_server :: server_t where
  "sample_server = \<lparr>sv_msgs = [], sv_in = jqueue_create 8, sv_out = queue_init_empty
      \<lparr>q_count = 0, q_first = None, q_last = None, q_heap = [], q_quota = 5, q_junk = (\<lambda>_. None)\<rparr>,
    sv_players = players_init 4, sv_wire = []\<rparr>"

text \<open>A datagram of the type 1 (a text of a player) that is zero behind its type.\<close>

definition sample_datagram :: "sockaddr_in \<times> byte list" where
  "sample_datagram = (\<lparr>sin_family = 2, sin_port = 9, s_addr = 7\<rparr>, 1 # replicate 1071 0)"

definition sample_arrived :: msg_t where
  "sample_arrived = \<lparr>m_addr = \<lparr>sin_family = 2, sin_port = 9, s_addr = 7\<rparr>, m_type = user_msg,
     m_key = replicate 36 0, m_len = 0, m_body = replicate 1024 0\<rparr>"

lemma sample_bytes: "msg_bytes sample_arrived = 1 # replicate 1071 0"
proof -
  have "replicate 1071 (0 :: byte) = replicate (3 + (36 + (8 + 1024))) 0"
    by simp
  also have "\<dots> = [0, 0, 0] @ replicate 36 0 @ replicate 8 0 @ replicate 1024 0"
    unfolding replicate_add by (simp add: numeral_eq_Suc)
  finally have z: "replicate 1071 (0 :: byte) = [0, 0, 0] @ replicate 36 0 @ replicate 8 0 @ replicate 1024 0" .
  have "le_bytes 4 (unat (1 :: u32)) = [1, 0, 0, 0]" "le_bytes 8 (unat (0 :: u64)) = replicate 8 0"
    by code_simp+
  then show ?thesis
    unfolding msg_bytes_def sample_arrived_def user_msg_def z by simp
qed

lemma sample_wf: "msg_wf sample_arrived"
  by (simp add: msg_wf_def sample_arrived_def TOKEN_LEN_def KEY_PAD_def BODY_LEN_def)

lemma sample_recv: "msg_recv (Some sample_arrived) (Some sample_datagram) = Inr (Some sample_arrived)"
proof -
  have "sample_datagram = (m_addr sample_arrived, msg_bytes sample_arrived)"
    by (simp add: sample_datagram_def sample_bytes) (simp add: sample_arrived_def)
  moreover have "crypto_key_is_empty (m_key sample_arrived) = Inr True"
    by (simp add: sample_arrived_def crypto_key_is_empty_def numeral_eq_Suc)
  ultimately show ?thesis
    using msg_recv_wire [OF sample_wf sample_wf, of "m_addr sample_arrived"] by simp
qed

lemma sample_server_ok:
  "ps_inv (sv_players sample_server)" "jq_inv (sv_in sample_server)" "1 < jq_room (sv_in sample_server)"
  "jq_contents (sv_in sample_server) = []" "ps_find (sv_players sample_server) k = None"
  using players_init_inv [of 4]
  by (simp_all add: sample_server_def jqueue_create_inv) (simp add: ps_find_def players_init_def)

lemma receiver_hands_over_witness:
  "\<exists>s'. receiver_step [0] (\<lambda>i. i) 100 (Some sample_arrived) (Some sample_arrived) (Some sample_datagram) sample_server = Inr s'
    \<and> jq_contents (sv_in s') = [(QueryProcessingNew, Some 0), (QueryProcessingNew, Some 1)]"
  using receiver_hands_over [OF sample_wf sample_wf sample_recv sample_server_ok(1-3), of "[]" "\<lambda>i. i" 100] sample_server_ok(4,5)
  by (auto simp: sample_server_def)

text \<open>
  A text that reaches the server from an address without a character is handed to the worker
  before the note that would create one: the job the worker takes from the queue uses a null
  character.
\<close>

theorem first_text_before_login:
  assumes "msg_wf fresh" and "msg_wf fresh_note" and "msg_recv (Some fresh) recvd = Inr (Some m)" and "m_type m = user_msg"
    and "ps_inv (sv_players s)" and "jq_inv (sv_in s)" and "1 < jq_room (sv_in s)" and "jq_contents (sv_in s) = []"
    and "character_get_by_addr (g_world g) (m_addr m) = Inr None"
  shows "\<exists>s' p q m'. receiver_step (0 # after) rnd now (Some fresh) (Some fresh_note) recvd s = Inr s'
    \<and> work_once (sv_in s') = Inr (Some (QueryProcessingNew, p), q) \<and> load (sv_msgs s') p = Inr m'
    \<and> m_body m' = m_body m \<and> query_processing_new fresh_reply junk g m' = Inl NullDeref"
proof -
  obtain s' js where s': "receiver_step (0 # after) rnd now (Some fresh) (Some fresh_note) recvd s = Inr s'"
      "jq_inv (sv_in s')" "load (sv_msgs s') (Some (length (sv_msgs s))) = Inr (keyed rnd m)"
      "jq_contents (sv_in s') = (QueryProcessingNew, Some (length (sv_msgs s))) # js"
    using receiver_step_ok [OF assms(1-3,5-7), of after rnd now] assms(8)
    by (cases "ps_find (sv_players s) (m_key (keyed rnd m))") auto
  obtain q where "work_once (sv_in s') = Inr (Some (QueryProcessingNew, Some (length (sv_msgs s))), q)"
    using work_once_spec [OF s'(2,4)] by blast
  moreover have "query_processing_new fresh_reply junk g (keyed rnd m) = Inl NullDeref"
    using assms(4,9) by (simp add: query_processing_new_def query_text_def msg_type_defs load_char_def)
  ultimately show ?thesis
    using s'(1,3) by (auto intro: exI [of _ s'])
qed

lemma first_text_before_login_witness:
  "\<exists>s' p q m'. receiver_step [0] (\<lambda>i. i) 100 (Some sample_arrived) (Some sample_arrived) (Some sample_datagram) sample_server = Inr s'
    \<and> work_once (sv_in s') = Inr (Some (QueryProcessingNew, p), q) \<and> load (sv_msgs s') p = Inr m'
    \<and> query_processing_new sample_msg [] (sample_game\<lparr>g_world := (g_world sample_game)
        \<lparr>w_characters := \<lparr>cs_arr = [], cs_count = 0\<rparr>\<rparr>\<rparr>) m' = Inl NullDeref"
proof -
  have "character_get_by_addr (g_world (sample_game\<lparr>g_world := (g_world sample_game)
      \<lparr>w_characters := \<lparr>cs_arr = [], cs_count = 0\<rparr>\<rparr>\<rparr>)) (m_addr sample_arrived) = Inr None"
    by (simp add: character_get_by_addr_def)
  moreover have "m_type sample_arrived = user_msg"
    by (simp add: sample_arrived_def)
  ultimately show ?thesis
    using first_text_before_login [OF sample_wf sample_wf sample_recv _ sample_server_ok(1-4), of _ "[]" "\<lambda>i. i" 100 sample_msg "[]"]
    by fastforce
qed

text \<open>
  C36. A round over the players up to the first idle one: the last player of a table that is not
  full is removed and a note with its key and address is queued for the game; if another
  player is idle, or the table is full, the round runs into the faults of the deletion; if
  nobody is idle nothing changes.
\<close>

theorem server_round_idle:
  assumes "ps_inv (sv_players s)" and "jq_inv (sv_in s)" and "0 < jq_room (sv_in s)" and "msg_wf fresh"
    and "i \<le> ps_count (sv_players s)"
    and "\<forall>j<i. \<not> idle now timeout (ps_players (sv_players s) ! j)"
    and "i < ps_count (sv_players s) \<longrightarrow> idle now timeout (ps_players (sv_players s) ! i)"
  shows "if i = ps_count (sv_players s) then server_round now timeout (Some fresh) s = Inr s
    else if i + 1 < ps_count (sv_players s) then server_round now timeout (Some fresh) s = Inl UseAfterFree
    else if ps_count (sv_players s) = ps_max (sv_players s) then server_round now timeout (Some fresh) s = Inl OutOfBounds
    else \<exists>s' nm. server_round now timeout (Some fresh) s = Inr s' \<and> ps_inv (sv_players s')
      \<and> ps_players (sv_players s') = butlast (ps_players (sv_players s))
      \<and> jq_contents (sv_in s') = jq_contents (sv_in s) @ [(QueryProcessingNew, Some (length (sv_msgs s)))]
      \<and> load (sv_msgs s') (Some (length (sv_msgs s))) = Inr nm \<and> m_type nm = timed_out
      \<and> m_addr nm = pl_addr (last (ps_players (sv_players s)))
      \<and> take TOKEN_LEN (m_key nm) = pl_token (last (ps_players (sv_players s)))"
proof -
  let ?ps = "sv_players s"
  have skip: "server_round now timeout (Some fresh) s = idle_loop now timeout (Some fresh) i s"
    unfolding server_round_def using assms(5,6) by (intro idle_loop_skip [OF assms(1)]) auto
  show ?thesis
  proof (cases "i = ps_count ?ps")
    case True
    then show ?thesis
      by (simp add: skip idle_loop.simps)
  next
    case False
    then have i: "i < ps_count ?ps"
      using assms(5) by simp
    note e = ps_entry_ok [OF assms(1) i]
    obtain nm where nm: "m_addr nm = pl_addr (ps_players ?ps ! i)" "m_type nm = timed_out"
        "take TOKEN_LEN (m_key nm) = pl_token (ps_players ?ps ! i)"
      and out: "time_out (Some fresh) i (ps_players ?ps ! i) s = rbind (player_delete ?ps i) (\<lambda>(_, players).
        rbind (jqueue_add_job QueryProcessingNew (Some (length (sv_msgs s))) (sv_in s)) (\<lambda>q.
          Inr (s\<lparr>sv_msgs := sv_msgs s @ [Some nm], sv_in := q, sv_players := players\<rparr>)))"
      using time_out_eq [OF assms(4) e(4), of i s] by blast
    have loop: "idle_loop now timeout (Some fresh) i s
        = rbind (time_out (Some fresh) i (ps_players ?ps ! i) s) (\<lambda>s. idle_loop now timeout (Some fresh) (Suc i) s)"
      using assms(7) i e by (subst idle_loop.simps) (simp add: idle_def)
    have le: "ps_count ?ps \<le> ps_max ?ps"
      using assms(1) by (simp add: ps_inv_def)
    consider "i + 1 < ps_count ?ps" | "i + 1 = ps_count ?ps" "ps_count ?ps = ps_max ?ps"
      | "i + 1 = ps_count ?ps" "ps_count ?ps < ps_max ?ps"
      using i le by linarith
    then show ?thesis
    proof cases
      case 1
      then show ?thesis
        using player_delete_inner [OF assms(1)] by (simp add: skip loop out)
    next
      case 2
      then show ?thesis
        using player_delete_full [OF assms(1)] i by (simp add: skip loop out)
    next
      case 3
      obtain ps' where ps': "player_delete ?ps i = Inr (True, ps')" "ps_inv ps'" "ps_players ps' = butlast (ps_players ?ps)"
        using player_delete_last [OF assms(1), of i] 3 by auto
      obtain q where q: "jqueue_add_job QueryProcessingNew (Some (length (sv_msgs s))) (sv_in s) = Inr q"
          "jq_contents q = jq_contents (sv_in s) @ [(QueryProcessingNew, Some (length (sv_msgs s)))]"
        using jqueue_add_job_spec [OF assms(2,3)] by blast
      have len: "length (ps_players ?ps) = Suc i" "ps_count ps' = i"
        using length_ps_players [OF assms(1)] length_ps_players [OF ps'(2)] ps'(3) 3 by simp_all
      have ne: "ps_players ?ps \<noteq> []"
        using len(1) by auto
      have "last (ps_players ?ps) = ps_players ?ps ! i"
        using last_conv_nth [OF ne] len(1) by simp
      moreover have "idle_loop now timeout (Some fresh) (Suc i) s' = Inr s'" if "sv_players s' = ps'" for s'
        using len that by (subst idle_loop.simps) simp
      then have "server_round now timeout (Some fresh) s
          = Inr (s\<lparr>sv_msgs := sv_msgs s @ [Some nm], sv_in := q, sv_players := ps'\<rparr>)"
        using ps' q len by (simp add: skip loop out)
      ultimately show ?thesis
        using ps'(2,3) q(2) nm 3 by (simp add: load_alloc_new)
    qed
  qed
qed

lemma server_round_idle_witness:
  "\<exists>ps s' nm. player_add (players_init 2) (replicate 33 65) \<lparr>sin_family = 2, sin_port = 1, s_addr = 7\<rparr> 9 = Inr (True, ps)
    \<and> server_round 200 100 (Some sample_arrived) (sample_server\<lparr>sv_players := ps\<rparr>) = Inr s'
    \<and> load (sv_msgs s') (Some 0) = Inr nm \<and> m_type nm = timed_out"
proof -
  obtain ps where ps: "player_add (players_init 2) (replicate 33 65) \<lparr>sin_family = 2, sin_port = 1, s_addr = 7\<rparr> 9 = Inr (True, ps)"
      "ps_inv ps" "ps_max ps = 2" "ps_players ps = [\<lparr>pl_token = replicate 33 65, pl_timestamp = 9,
        pl_addr = \<lparr>sin_family = 2, sin_port = 1, s_addr = 7\<rparr>\<rparr>]"
    using player_add_room [of "players_init 2" "replicate 33 65" "\<lparr>sin_family = 2, sin_port = 1, s_addr = 7\<rparr>" 9] players_init_inv [of 2]
    by (auto simp: TOKEN_LEN_def players_init_def)
  let ?s = "sample_server\<lparr>sv_players := ps\<rparr>"
  have c: "ps_count ps = 1"
    using length_ps_players [OF ps(2)] ps(4) by simp
  have "idle 200 100 (ps_players ps ! 0)"
    by (simp add: idle_def ps(4))
  then show ?thesis
    using server_round_idle [of ?s sample_arrived 0 200 100] ps sample_server_ok(2,3) sample_wf c
    by (auto simp: sample_server_def)
qed

text \<open>
  The sender takes the messages in their order, sends each one as a datagram to its address
  and frees it; unless the body holds the unsafe byte of the key, the client that receives the
  datagram whole decrypts the text that was queued.
\<close>

theorem sender_delivers:
  assumes "q_inv (sv_out s)" and "q_contents (sv_out s) = Some p # ps" and "load (sv_msgs s) (Some p) = Inr m"
    and "msg_wf m" and "terminated (m_key m)" and "terminated (m_body m)"
    and "unsafe_byte (m_key (keyed rnd m)) \<notin> set (cstr (m_body m))" and "msg_wf fresh"
  shows "\<exists>s' wire. sender_step (0 # after) rnd s = Inr s' \<and> q_inv (sv_out s') \<and> q_contents (sv_out s') = ps
    \<and> sv_wire s' = sv_wire s @ [(m_addr m, wire)] \<and> load (sv_msgs s') (Some p) = Inl UseAfterFree
    \<and> msg_recv (Some fresh) (Some (a, wire)) = Inr (Some ((keyed rnd m)\<lparr>m_addr := a\<rparr>))"
proof -
  obtain q c where st: "sender_step (0 # after) rnd s = Inr (s\<lparr>sv_msgs := (sv_msgs s)[p := None], sv_out := q,
        sv_wire := sv_wire s @ [(m_addr m, msg_bytes ((keyed rnd m)\<lparr>m_body := c\<rparr>))]\<rparr>)"
    "q_inv q" "q_contents q = ps" "crypto_encrypt (m_body m) (m_key (keyed rnd m)) = Inr c"
    using sender_step_ok [OF assms(1-6)] by blast
  moreover have "load ((sv_msgs s)[p := None]) (Some p) = Inl UseAfterFree"
    using assms(3) by (simp add: load_def)
  ultimately show ?thesis
    using keyed_recv [OF assms(4-6,8) st(4) assms(7), of a] by simp
qed

lemma sender_delivers_witness:
  "\<exists>s' wire. sender_step [0] (\<lambda>i. i) (sample_server\<lparr>sv_msgs := [Some sample_arrived],
      sv_out := \<lparr>q_count = 1, q_first = Some 0, q_last = Some 0, q_heap = [Some \<lparr>qn_next = None, qn_data = Some 0\<rparr>],
        q_quota = 4, q_junk = (\<lambda>_. None)\<rparr>\<rparr>) = Inr s'
    \<and> sv_wire s' = [(m_addr sample_arrived, wire)]
    \<and> msg_recv (Some sample_arrived) (Some (m_addr sample_arrived, wire)) = Inr (Some (keyed (\<lambda>i. i) sample_arrived))"
proof -
  let ?q = "\<lparr>q_count = 1, q_first = Some 0, q_last = Some 0, q_heap = [Some \<lparr>qn_next = None, qn_data = Some (0 :: nat)\<rparr>],
        q_quota = 4, q_junk = (\<lambda>_. None)\<rparr>"
  let ?s = "sample_server\<lparr>sv_msgs := [Some sample_arrived], sv_out := ?q\<rparr>"
  have q: "q_inv (sv_out ?s)" "q_contents (sv_out ?s) = Some 0 # []"
    by (simp_all add: q_inv_def q_contents_def q_addrs_def block_data_def load_def)
  have m: "load (sv_msgs ?s) (Some 0) = Inr sample_arrived" "terminated (m_key sample_arrived)" "terminated (m_body sample_arrived)"
      "cstr (m_body sample_arrived) = []"
    by (simp_all add: load_def) (simp_all add: sample_arrived_def terminated_def numeral_eq_Suc)
  from sender_delivers [OF q m(1) sample_wf m(2,3) _ sample_wf, of "\<lambda>i. i" "[]" "m_addr sample_arrived"] m(4) show ?thesis
    by (auto simp: sample_server_def keyed_def)
qed

text \<open>
  C34. The receiver goes on with a message that it has already handed over: if the worker and the
  sender deal with the test message of a client first, the message is freed and the receiver
  reads its key from the freed block.
\<close>

theorem receiver_race:
  assumes "msg_wf fresh" and "msg_recv (Some fresh) recvd = Inr (Some m)" and "m_type m = conn_test"
    and "terminated (m_key m)" and "terminated (m_body m)"
    and "jq_inv (sv_in s)" and "0 < jq_room (sv_in s)" and "jq_contents (sv_in s) = []"
    and "q_inv (sv_out s)" and "0 < q_quota (sv_out s)" and "q_contents (sv_out s) = []"
  shows "\<exists>p s1 s2 s3. receiver_accept (Some fresh) recvd s = Inr (p, s1) \<and> worker_echo s1 = Inr s2
    \<and> sender_step (0 # after) rnd s2 = Inr s3 \<and> receiver_finish (0 # after') rnd' now fresh_note p s3 = Inl UseAfterFree"
proof -
  let ?p = "length (sv_msgs s)"
  have wf: "msg_wf m"
    by (rule msg_recv_wf [OF assms(1,2)])
  obtain q where q: "jqueue_add_job QueryProcessingNew (Some ?p) (sv_in s) = Inr q" "jq_inv q"
      "jq_contents q = [(QueryProcessingNew, Some ?p)]"
    using jqueue_add_job_spec [OF assms(6,7), of QueryProcessingNew "Some ?p"] assms(8) by auto
  define s1 where "s1 = s\<lparr>sv_msgs := sv_msgs s @ [Some m], sv_in := q\<rparr>"
  have s1: "receiver_accept (Some fresh) recvd s = Inr (Some ?p, s1)" "load (sv_msgs s1) (Some ?p) = Inr m"
    using q(1) by (simp_all add: receiver_accept_def assms(2) alloc_def s1_def load_alloc_new)
  obtain q2 q2' where q2: "worker_echo s1 = Inr (s1\<lparr>sv_in := q2, sv_out := q2'\<rparr>)" "q_inv q2'" "q_contents q2' = [Some ?p]"
    using worker_echo_ok [of s1 ?p "[]" m] q s1(2) assms(3,9-11) by (auto simp: s1_def)
  define s2 where "s2 = s1\<lparr>sv_in := q2, sv_out := q2'\<rparr>"
  obtain s3 where s3: "sender_step (0 # after) rnd s2 = Inr s3" "sv_msgs s3 = (sv_msgs s1)[?p := None]"
    using sender_step_ok [of s2 ?p "[]" m after rnd] q2 s1(2) wf assms(4,5) by (auto simp: s2_def)
  have "receiver_finish (0 # after') rnd' now fresh_note (Some ?p) s3 = Inl UseAfterFree"
    by (simp add: receiver_finish_def fill_key_def s3(2) load_def s1_def)
  then show ?thesis
    using s1(1) q2(1) s3(1) by (auto simp: s2_def)
qed

text \<open>The test message of a client, zero behind its type.\<close>

definition sample_hello :: msg_t where
  "sample_hello = sample_arrived\<lparr>m_type := conn_test\<rparr>"

lemma sample_hello_ok:
  "msg_wf sample_hello" "m_type sample_hello = conn_test" "terminated (m_key sample_hello)" "terminated (m_body sample_hello)"
  "msg_recv (Some sample_arrived) (Some (m_addr sample_hello, msg_bytes sample_hello)) = Inr (Some sample_hello)"
proof -
  show wf: "msg_wf sample_hello"
    using sample_wf by (simp add: sample_hello_def msg_wf_def)
  have "crypto_key_is_empty (m_key sample_hello) = Inr True"
    by (simp add: sample_hello_def sample_arrived_def crypto_key_is_empty_def numeral_eq_Suc)
  then show "msg_recv (Some sample_arrived) (Some (m_addr sample_hello, msg_bytes sample_hello)) = Inr (Some sample_hello)"
    using msg_recv_wire [OF sample_wf wf, of "m_addr sample_hello"] by simp
qed (simp_all add: sample_hello_def sample_arrived_def terminated_def numeral_eq_Suc)

lemma sample_server_out:
  "q_inv (sv_out sample_server)" "0 < q_quota (sv_out sample_server)" "q_contents (sv_out sample_server) = []"
  by (simp_all add: sample_server_def q_inv_def q_addrs_def q_contents_def queue_init_empty_def)

lemma receiver_race_witness:
  "\<exists>p s1 s2 s3. receiver_accept (Some sample_arrived) (Some (m_addr sample_hello, msg_bytes sample_hello)) sample_server = Inr (p, s1)
    \<and> worker_echo s1 = Inr s2 \<and> sender_step [0] (\<lambda>i. i) s2 = Inr s3
    \<and> receiver_finish [0] (\<lambda>i. i) 100 None p s3 = Inl UseAfterFree"
  using receiver_race [OF sample_wf sample_hello_ok(5,2,3,4) sample_server_ok(2) _ sample_server_ok(4) sample_server_out]
    sample_server_ok(3) by simp

end
