(* ===== verification/ServerRun.thy ===== *)
theory ServerRun
  imports ServerThreads
begin

text \<open>
  Runs of the server: its threads as a step relation in which the receiver, a worker and the
  sender take their turns in any order.  The invariant says who owns which message: every
  pointer in the two queues leads to a live message of its own.  Whatever the order, no turn
  faults, and the messages that are their own answers leave in the order of their arrival.
\<close>

section \<open>Steps\<close>

definition is_echo :: "msg_t \<Rightarrow> bool" where
  "is_echo m \<longleftrightarrow> m_type m = conn_test \<or> m_type m = online_list \<or> m_type m = chat_msg"

text \<open>What a turn of the receiver gets: a datagram whose key and text are strings.\<close>

definition arrival :: "msg_t \<Rightarrow> sockaddr_in \<times> byte list \<Rightarrow> msg_t \<Rightarrow> bool" where
  "arrival fresh recvd m \<longleftrightarrow> msg_wf fresh \<and> msg_recv (Some fresh) (Some recvd) = Inr (Some m)
     \<and> terminated (m_key m) \<and> terminated (m_body m)"

text \<open>
  A step is labelled with the messages that will be answered by themselves.  Where memory is
  taken the quota of the model allows it.
\<close>

inductive server_step :: "server_t \<Rightarrow> msg_t list \<Rightarrow> server_t \<Rightarrow> bool" where
  receive: "arrival fresh recvd m \<Longrightarrow> msg_wf fn \<Longrightarrow> 1 < jq_room (sv_in s) \<Longrightarrow>
     receiver_step (0 # after) rnd now (Some fresh) (Some fn) (Some recvd) s = Inr s' \<Longrightarrow>
     server_step s (if is_echo m then [keyed rnd m] else []) s'"
| work: "0 < q_quota (sv_out s) \<Longrightarrow> worker_echo s = Inr s' \<Longrightarrow> server_step s [] s'"
| send: "sender_step (0 # after) rnd s = Inr s' \<Longrightarrow> server_step s [] s'"

inductive server_run :: "server_t \<Rightarrow> msg_t list \<Rightarrow> server_t \<Rightarrow> bool" where
  stop: "server_run s [] s"
| more: "server_step s ms s' \<Longrightarrow> server_run s' ms' s'' \<Longrightarrow> server_run s (ms @ ms') s''"

inductive_cases server_stepE: "server_step s ms s'"

section \<open>Ownership\<close>

definition in_ptrs :: "server_t \<Rightarrow> ptr list" where
  "in_ptrs s = map snd (jq_contents (sv_in s))"

definition msg_at :: "server_t \<Rightarrow> ptr \<Rightarrow> msg_t" where
  "msg_at s p = (case p of None \<Rightarrow> undefined | Some a \<Rightarrow> the (sv_msgs s ! a))"

text \<open>A message that can be sent: its key is there, its strings end.\<close>

definition ready :: "msg_t \<Rightarrow> bool" where
  "ready m \<longleftrightarrow> msg_wf m \<and> hd (m_key m) \<noteq> 0 \<and> terminated (m_key m) \<and> terminated (m_body m)"

definition server_inv :: "server_t \<Rightarrow> bool" where
  "server_inv s \<longleftrightarrow> ps_inv (sv_players s) \<and> jq_inv (sv_in s) \<and> q_inv (sv_out s)
     \<and> distinct (in_ptrs s @ q_contents (sv_out s))
     \<and> (\<forall>p \<in> set (in_ptrs s @ q_contents (sv_out s)). \<exists>m. load (sv_msgs s) p = Inr m)
     \<and> (\<forall>p \<in> set (in_ptrs s). is_echo (msg_at s p) \<longrightarrow> ready (msg_at s p))
     \<and> (\<forall>p \<in> set (q_contents (sv_out s)). ready (msg_at s p))"

lemma load_msg_at: "load (sv_msgs s) p = Inr m \<Longrightarrow> msg_at s p = m"
  by (cases p) (auto simp: msg_at_def load_eq_Inr)

lemma server_invD:
  assumes "server_inv s"
  shows "ps_inv (sv_players s)" "jq_inv (sv_in s)" "q_inv (sv_out s)" "distinct (in_ptrs s @ q_contents (sv_out s))"
    "p \<in> set (in_ptrs s @ q_contents (sv_out s)) \<Longrightarrow> load (sv_msgs s) p = Inr (msg_at s p)"
    "p \<in> set (in_ptrs s) \<Longrightarrow> is_echo (msg_at s p) \<Longrightarrow> ready (msg_at s p)"
    "p \<in> set (q_contents (sv_out s)) \<Longrightarrow> ready (msg_at s p)"
proof -
  show "load (sv_msgs s) p = Inr (msg_at s p)" if p: "p \<in> set (in_ptrs s @ q_contents (sv_out s))"
  proof -
    have "\<exists>m. load (sv_msgs s) p = Inr m"
      using assms p by (simp add: server_inv_def)
    then show ?thesis
      using load_msg_at by metis
  qed
qed (use assms in \<open>simp_all add: server_inv_def\<close>)

text \<open>What a message is on the wire, and everything that has left or will leave.\<close>

definition datagram :: "msg_t \<Rightarrow> sockaddr_in \<times> byte list" where
  "datagram m = (m_addr m, case msg_send m of Inl _ \<Rightarrow> [] | Inr (_, w) \<Rightarrow> w)"

definition stream :: "server_t \<Rightarrow> (sockaddr_in \<times> byte list) list" where
  "stream s = sv_wire s
     @ map datagram (map (msg_at s) (q_contents (sv_out s)) @ filter is_echo (map (msg_at s) (in_ptrs s)))"

lemma ready_keyed: "ready m \<Longrightarrow> keyed rnd m = m"
  by (simp add: ready_def keyed_def)

lemma keyed_ready:
  assumes "msg_wf m" "terminated (m_key m)" "terminated (m_body m)"
  shows "ready (keyed rnd m)"
proof -
  have "m_key (keyed rnd m) \<noteq> []"
    using keyed_wf [OF assms(1), of rnd] by (auto simp: msg_wf_def TOKEN_LEN_def)
  then have "hd (m_key (keyed rnd m)) \<noteq> 0"
    using keyed_nonempty(1) [OF assms(1), of rnd] by (cases "m_key (keyed rnd m)") (auto simp: crypto_key_is_empty_def)
  then show ?thesis
    using keyed_wf [OF assms(1)] keyed_nonempty(2) [OF assms(1,2)] assms(3) by (simp add: ready_def)
qed

lemma is_echo_keyed [simp]: "is_echo (keyed rnd m) = is_echo m"
  by (simp add: is_echo_def)

text \<open>A turn of the receiver only appends messages.\<close>

lemma receiver_finish_take:
  assumes "receiver_finish after rnd now fresh (Some p) s = Inr s'" "n \<le> p" "p < length (sv_msgs s)"
  shows "take n (sv_msgs s') = take n (sv_msgs s)" "length (sv_msgs s) \<le> length (sv_msgs s')"
  using assms
  by (auto simp: receiver_finish_def fill_key_def remember_player_def send_note_def res_simps heap_simps Let_def alloc_def
      split: if_splits option.splits)

lemma receiver_step_take:
  assumes "receiver_step after rnd now fresh fn recvd s = Inr s'"
  shows "take (length (sv_msgs s)) (sv_msgs s') = sv_msgs s"
proof -
  obtain p s1 where a: "receiver_accept fresh recvd s = Inr (p, s1)"
      "if p = None then s' = s1 else receiver_finish after rnd now fn p s1 = Inr s'"
    using assms by (auto simp: receiver_step_def res_simps split: if_splits)
  then consider "p = None" "s1 = s" | m where "p = Some (length (sv_msgs s))" "sv_msgs s1 = sv_msgs s @ [Some m]"
    by (auto simp: receiver_accept_def res_simps Let_def alloc_def split: option.splits)
  then show ?thesis
  proof cases
    case 2
    then show ?thesis
      using receiver_finish_take(1) [of after rnd now fn "length (sv_msgs s)" s1 s' "length (sv_msgs s)"] a(2) by simp
  qed (use a in auto)
qed

section \<open>Each turn keeps the invariant and the order\<close>

lemma old_msg:
  assumes "take (length h) h' = h" "load h p = Inr m"
  shows "load h' p = Inr m" "\<exists>a. p = Some a \<and> a < length h"
proof -
  obtain a where a: "p = Some a" "a < length h" "h ! a = Some m"
    using load_InrD [OF assms(2)] by blast
  moreover have "h' ! a = h ! a" "length h \<le> length h'"
    using a(2) assms(1) by (metis nth_take) (metis assms(1) length_take min.cobounded1)
  ultimately show "load h' p = Inr m" "\<exists>a. p = Some a \<and> a < length h"
    by (auto simp: load_eq_Inr)
qed

lemma receiver_step_new:
  assumes "arrival fresh recvd m" "msg_wf fn" "1 < jq_room (sv_in s)" "server_inv s"
    and "receiver_step (0 # after) rnd now (Some fresh) (Some fn) (Some recvd) s = Inr s'"
  shows "\<exists>ns. ps_inv (sv_players s') \<and> jq_inv (sv_in s') \<and> in_ptrs s' = in_ptrs s @ Some (length (sv_msgs s)) # ns
    \<and> load (sv_msgs s') (Some (length (sv_msgs s))) = Inr (keyed rnd m)
    \<and> (ns = [] \<or> ns = [Some (Suc (length (sv_msgs s)))]
        \<and> (\<exists>nm. load (sv_msgs s') (Some (Suc (length (sv_msgs s)))) = Inr nm \<and> \<not> is_echo nm))"
proof -
  have a: "msg_wf fresh" "msg_recv (Some fresh) (Some recvd) = Inr (Some m)"
    and i: "ps_inv (sv_players s)" "jq_inv (sv_in s)"
    using assms(1,4) by (simp_all add: arrival_def server_inv_def)
  have "\<not> is_echo nm" if "m_type nm = logged_in" for nm
    using that by (simp add: is_echo_def msg_type_defs)
  then show ?thesis
    using receiver_step_ok [OF a(1) assms(2) a(2) i assms(3), of after rnd now] assms(5)
    by (cases "ps_find (sv_players s) (m_key (keyed rnd m))") (auto simp: in_ptrs_def)
qed

lemma receive_keeps:
  assumes "arrival fresh recvd m" "msg_wf fn" "1 < jq_room (sv_in s)" "server_inv s"
    and "receiver_step (0 # after) rnd now (Some fresh) (Some fn) (Some recvd) s = Inr s'"
  shows "server_inv s'" "stream s' = stream s @ map datagram (if is_echo m then [keyed rnd m] else [])"
proof -
  let ?n = "length (sv_msgs s)" and ?out = "q_contents (sv_out s)"
  obtain ns where ns: "ps_inv (sv_players s')" "jq_inv (sv_in s')" "in_ptrs s' = in_ptrs s @ Some ?n # ns"
      "load (sv_msgs s') (Some ?n) = Inr (keyed rnd m)"
      "ns = [] \<or> ns = [Some (Suc ?n)] \<and> (\<exists>nm. load (sv_msgs s') (Some (Suc ?n)) = Inr nm \<and> \<not> is_echo nm)"
    using receiver_step_new [OF assms] by blast
  have out: "sv_out s' = sv_out s" "sv_wire s' = sv_wire s"
    using receiver_step_frame [OF assms(5)] by simp_all
  have old: "load (sv_msgs s') p = Inr (msg_at s p) \<and> msg_at s' p = msg_at s p \<and> (\<exists>a. p = Some a \<and> a < ?n)"
    if "p \<in> set (in_ptrs s @ ?out)" for p
  proof -
    note l = server_invD(5) [OF assms(4) that]
    note l' = old_msg [OF receiver_step_take [OF assms(5)] l]
    show ?thesis
      using l'(2) by (simp add: l'(1) load_msg_at [OF l'(1)])
  qed
  have new: "msg_at s' (Some ?n) = keyed rnd m"
    by (rule load_msg_at [OF ns(4)])
  have rest: "(\<exists>m. load (sv_msgs s') p = Inr m) \<and> \<not> is_echo (msg_at s' p) \<and> p = Some (Suc ?n)" if "p \<in> set ns" for p
    using that ns(5) load_msg_at by auto
  have rdy: "ready (keyed rnd m)"
    using assms(1) msg_recv_wf by (auto simp: arrival_def intro!: keyed_ready)
  have "Some k \<notin> set (in_ptrs s @ ?out)" if "?n \<le> k" for k
    using old that by fastforce
  then have d: "distinct (in_ptrs s' @ ?out)"
    using server_invD(4) [OF assms(4)] ns(5) by (auto simp: ns(3))
  have "\<exists>m. load (sv_msgs s') p = Inr m" if "p \<in> set (in_ptrs s' @ ?out)" for p
    using that old [of p] rest [of p] ns(4) by (auto simp: ns(3))
  moreover have "is_echo (msg_at s' p) \<longrightarrow> ready (msg_at s' p)" if "p \<in> set (in_ptrs s')" for p
    using that old [of p] rest [of p] new rdy server_invD(6) [OF assms(4), of p] by (auto simp: ns(3))
  moreover have "ready (msg_at s' p)" if "p \<in> set ?out" for p
    using that old [of p] server_invD(7) [OF assms(4), of p] by auto
  ultimately show "server_inv s'"
    using d ns(1,2) server_invD(3) [OF assms(4)] unfolding server_inv_def out by simp
  have same: "map (msg_at s') (in_ptrs s) = map (msg_at s) (in_ptrs s)" "map (msg_at s') ?out = map (msg_at s) ?out"
    using old by auto
  have "filter is_echo (map (msg_at s') ns) = []"
    using rest by (auto simp: filter_empty_conv)
  then show "stream s' = stream s @ map datagram (if is_echo m then [keyed rnd m] else [])"
    unfolding stream_def out ns(3) map_append list.map filter_append filter.simps new same by simp
qed

lemma work_once_cases:
  assumes "jq_inv (sv_in s)"
  obtains (idle) "jq_contents (sv_in s) = []" "worker_echo s = Inr s"
    | (job) p q where "in_ptrs s = p # map snd (jq_contents q)" "jq_inv q" "worker_echo s = answer_itself p (s\<lparr>sv_in := q\<rparr>)"
proof (cases "jq_contents (sv_in s)")
  case Nil
  then show ?thesis
    using work_once_empty [OF assms] by (intro idle) (simp_all add: worker_echo_def)
next
  case (Cons j js)
  obtain f p where j: "j = (f, p)"
    by (cases j)
  obtain q where "work_once (sv_in s) = Inr (Some (f, p), q)" "jq_inv q" "jq_contents q = js"
    using work_once_spec [OF assms] Cons j by blast
  then show ?thesis
    using Cons j by (intro job [of p q]) (cases f; simp add: in_ptrs_def worker_echo_def)+
qed

lemma msg_at_same: "sv_msgs s' = sv_msgs s \<Longrightarrow> msg_at s' p = msg_at s p"
  by (cases p) (simp_all add: msg_at_def)

lemma work_keeps:
  assumes "server_inv s" "0 < q_quota (sv_out s)"
  shows "\<exists>s'. worker_echo s = Inr s' \<and> server_inv s' \<and> stream s' = stream s"
proof (rule work_once_cases [OF server_invD(2) [OF assms(1)]])
  assume "worker_echo s = Inr s"
  then show ?thesis
    using assms(1) by blast
next
  fix p q
  assume job: "in_ptrs s = p # map snd (jq_contents q)" "jq_inv q" "worker_echo s = answer_itself p (s\<lparr>sv_in := q\<rparr>)"
  let ?s = "s\<lparr>sv_in := q\<rparr>"
  have ptrs: "in_ptrs s = p # in_ptrs ?s"
    using job(1) by (simp add: in_ptrs_def)
  note d = server_invD [OF assms(1)]
  have l: "load (sv_msgs s) p = Inr (msg_at s p)"
    using d(5) ptrs by simp
  have at: "msg_at ?s = msg_at s"
    by (rule ext) (rule msg_at_same, simp)
  show ?thesis
  proof (cases "is_echo (msg_at s p)")
    case True
    obtain q' where q': "queue_enqueue p (sv_out s) = Inr q'" "q_inv q'" "q_contents q' = q_contents (sv_out s) @ [p]"
      using queue_enqueue_spec [OF d(3) assms(2)] by blast
    let ?s' = "?s\<lparr>sv_out := q'\<rparr>"
    have at': "msg_at ?s' = msg_at s"
      by (rule ext) (rule msg_at_same, simp)
    have in': "in_ptrs ?s' = in_ptrs ?s"
      by (simp add: in_ptrs_def)
    have "worker_echo s = Inr ?s'"
      using job(3) l True q'(1) by (simp add: answer_itself_def is_echo_def)
    moreover have "server_inv ?s'"
      using d(1-4) d(5-7) job(2) q'(2,3) True unfolding server_inv_def at' in' by (auto simp: ptrs)
    moreover have "stream ?s' = stream s"
      using True by (simp add: stream_def at' in' ptrs q'(3))
    ultimately show ?thesis
      by blast
  next
    case False
    have "worker_echo s = Inr ?s"
      using job(3) l False by (simp add: answer_itself_def is_echo_def)
    moreover have "server_inv ?s"
      using d(1-4) d(5-7) job(2) unfolding server_inv_def at by (auto simp: ptrs)
    moreover have "stream ?s = stream s"
      using False by (simp add: stream_def at ptrs)
    ultimately show ?thesis
      by blast
  qed
qed

lemma send_keeps:
  assumes "server_inv s"
  shows "\<exists>s'. sender_step (0 # after) rnd s = Inr s' \<and> server_inv s' \<and> stream s' = stream s"
proof (cases "q_contents (sv_out s)")
  case Nil
  then have "sender_step (0 # after) rnd s = Inr s"
    using queue_is_empty_iff [OF server_invD(3) [OF assms]] by (simp add: sender_step_def)
  then show ?thesis
    using assms by blast
next
  case (Cons p ps)
  note d = server_invD [OF assms]
  have l: "load (sv_msgs s) p = Inr (msg_at s p)" and r: "ready (msg_at s p)"
    using d(5) [of p] d(7) [of p] by (simp_all add: Cons)
  obtain a where a: "p = Some a"
    using load_InrD [OF l] by blast
  let ?m = "msg_at s p"
  obtain q c where q: "sender_step (0 # after) rnd s = Inr (s\<lparr>sv_msgs := (sv_msgs s)[a := None], sv_out := q,
        sv_wire := sv_wire s @ [(m_addr ?m, msg_bytes (?m\<lparr>m_body := c\<rparr>))]\<rparr>)"
      "q_inv q" "q_contents q = ps" "crypto_encrypt (m_body ?m) (m_key ?m) = Inr c"
    using sender_step_ok [OF d(3), of a ps ?m after rnd] Cons a l r ready_keyed [OF r, of rnd] by (auto simp: ready_def)
  let ?s' = "s\<lparr>sv_msgs := (sv_msgs s)[a := None], sv_out := q,
        sv_wire := sv_wire s @ [(m_addr ?m, msg_bytes (?m\<lparr>m_body := c\<rparr>))]\<rparr>"
  have ne: "crypto_key_is_empty (m_key ?m) = Inr False"
    using r by (cases "m_key ?m") (auto simp: ready_def crypto_key_is_empty_def msg_wf_def TOKEN_LEN_def)
  have dg: "datagram ?m = (m_addr ?m, msg_bytes (?m\<lparr>m_body := c\<rparr>))"
    using ne q(4) r by (simp add: datagram_def msg_send_def key_mem_def crypto_key_append ready_def)
  have in': "in_ptrs ?s' = in_ptrs s"
    by (simp add: in_ptrs_def)
  have other: "load (sv_msgs ?s') p' = Inr (msg_at s p') \<and> msg_at ?s' p' = msg_at s p'"
    if "p' \<in> set (in_ptrs s) \<union> set ps" for p'
  proof -
    have "p' \<in> set (in_ptrs s @ q_contents (sv_out s))"
      using that by (auto simp: Cons)
    then have l': "load (sv_msgs s) p' = Inr (msg_at s p')"
      by (rule d(5))
    obtain b where b: "p' = Some b"
      using load_InrD [OF l'] by blast
    have "p' \<noteq> p"
      using that d(4) unfolding Cons by auto
    then have "load (sv_msgs ?s') p' = Inr (msg_at s p')"
      using l' a b by (simp add: load_update_other)
    then show ?thesis
      using load_msg_at by metis
  qed
  have at: "msg_at ?s' p' = msg_at s p'" "load (sv_msgs ?s') p' = Inr (msg_at s p')" if "p' \<in> set (in_ptrs s) \<union> set ps" for p'
    using other [OF that] by blast+
  have "\<exists>m. load (sv_msgs ?s') p' = Inr m" if "p' \<in> set (in_ptrs s @ ps)" for p'
    using at(2) [of p'] that by auto
  moreover have "is_echo (msg_at ?s' p') \<longrightarrow> ready (msg_at ?s' p')" if "p' \<in> set (in_ptrs s)" for p'
    using at(1) [of p'] d(6) [of p'] that by simp
  moreover have "ready (msg_at ?s' p')" if "p' \<in> set ps" for p'
    using at(1) [of p'] d(7) [of p'] that Cons by simp
  moreover have "distinct (in_ptrs s @ ps)"
    using d(4) by (simp add: Cons)
  ultimately have "server_inv ?s'"
    unfolding server_inv_def in' using d(1,2) q(2,3) by simp
  moreover have same: "map (msg_at ?s') (in_ptrs s) = map (msg_at s) (in_ptrs s)" "map (msg_at ?s') ps = map (msg_at s) ps"
    using at(1) by simp_all
  have "stream ?s' = sv_wire ?s' @ map datagram (map (msg_at s) ps @ filter is_echo (map (msg_at s) (in_ptrs s)))"
    unfolding stream_def in' same [symmetric] using q(3) by simp
  then have "stream ?s' = stream s"
    using dg by (simp add: stream_def Cons)
  ultimately show ?thesis
    using q(1) by blast
qed

text \<open>The turns do not fault, so a step is possible wherever its guard holds.\<close>

lemma step_keeps:
  assumes "server_step s ms s'" "server_inv s"
  shows "server_inv s' \<and> stream s' = stream s @ map datagram ms"
  using assms(1)
proof (rule server_stepE, goal_cases)
  case (1 fresh recvd m fn after rnd now)
  then show ?case
    using receive_keeps [of fresh recvd m fn s after rnd now s'] assms(2) by simp
next
  case 2
  then show ?case
    using work_keeps [OF assms(2)] by fastforce
next
  case (3 after rnd)
  then show ?case
    using send_keeps [OF assms(2), of after rnd] by fastforce
qed

lemma run_keeps:
  "server_run s ms s' \<Longrightarrow> server_inv s \<Longrightarrow> server_inv s' \<and> stream s' = stream s @ map datagram ms"
proof (induction rule: server_run.induct)
  case (more s ms s' ms' s'')
  then show ?case
    using step_keeps by fastforce
qed simp

lemma receive_ok:
  assumes "arrival fresh recvd m" "msg_wf fn" "1 < jq_room (sv_in s)" "server_inv s"
  shows "is_ok (receiver_step (0 # after) rnd now (Some fresh) (Some fn) (Some recvd) s)"
  using receiver_step_ok [of fresh fn "Some recvd" m s after rnd now] assms server_invD(1,2) [OF assms(4)]
  by (auto simp: arrival_def is_ok_iff)

section \<open>Properties\<close>



text \<open>One test message goes through the sample server.\<close>

lemma sample_server_inv: "server_inv sample_server"
  using sample_server_ok sample_server_out by (simp add: server_inv_def in_ptrs_def)

lemma sample_run:
  "\<exists>s'. server_run sample_server [keyed (\<lambda>i. i) sample_hello] s'"
proof -
  have a: "arrival sample_arrived (m_addr sample_hello, msg_bytes sample_hello) sample_hello"
    using sample_wf sample_hello_ok by (simp add: arrival_def)
  have e: "is_echo sample_hello"
    by (simp add: is_echo_def sample_hello_ok(2))
  obtain s1 where s1: "receiver_step [0] (\<lambda>i. i) 100 (Some sample_arrived) (Some sample_arrived)
      (Some (m_addr sample_hello, msg_bytes sample_hello)) sample_server = Inr s1"
    using receive_ok [OF a sample_wf sample_server_ok(3) sample_server_inv, of "[]" "\<lambda>i. i" 100] by (auto simp: is_ok_iff)
  then have st1: "server_step sample_server [keyed (\<lambda>i. i) sample_hello] s1"
    using server_step.receive [OF a sample_wf sample_server_ok(3), of "[]" "\<lambda>i. i" 100 s1] e by simp
  have i1: "server_inv s1"
    using step_keeps [OF st1 sample_server_inv] by blast
  have "0 < q_quota (sv_out s1)"
    using receiver_step_frame [OF s1] sample_server_out(2) by simp
  then obtain s2 where s2: "worker_echo s1 = Inr s2" "server_inv s2"
    using work_keeps [OF i1] by blast
  then have st2: "server_step s1 [] s2"
    using \<open>0 < q_quota (sv_out s1)\<close> by (intro server_step.work)
  obtain s3 where "sender_step [0] (\<lambda>i. i) s2 = Inr s3"
    using send_keeps [OF s2(2), of "[]" "\<lambda>i. i"] by blast
  then have st3: "server_step s2 [] s3"
    by (rule server_step.send)
  have "server_run sample_server ([keyed (\<lambda>i. i) sample_hello] @ [] @ [] @ []) s3"
    using st1 st2 st3 server_run.intros by metis
  then show ?thesis
    by auto
qed



end
