(* ===== verification/Client.thy ===== *)
theory Client
  imports Complex_Main Network
begin

text \<open>
  The client (\<open>client/client.c\<close>, \<open>client/gui.c\<close>, \<open>client/map.c\<close>): the test message and the key it
  brings, the texts that are sent, what each kind of message does, and the map that is drawn.
  The thread that listens leaves work for the main loop of GTK in a queue of callbacks.
  Widgets are the texts they show; a picture is whatever the library loaded, of type \<open>'p\<close>.
\<close>

section \<open>Data\<close>

definition MAP_SCALE :: nat where "MAP_SCALE = 9"
definition SURFACE_COUNT :: nat where "SURFACE_COUNT = 7"
definition OBJECT_COUNT :: nat where "OBJECT_COUNT = 2"
definition MIN_INPUT_LEN :: nat where "MIN_INPUT_LEN = 3"

text \<open>The two numbers of a cell; an enumeration is an unsigned int.\<close>

record cell_t =
  c_surface :: u32
  c_object :: u32

record screen_map_t =
  sm_points :: "cell_t list"
  sm_pos :: "byte list"

datatype window = MainText | ChatText

text \<open>What the listening thread passes to \<open>g_idle_add\<close>.\<close>

datatype callback =
    PrintMessage window "byte list"
  | PrintCharInfo "byte list"
  | PrintOnlineList "byte list"
  | MapRefresh

text \<open>A picture at a place of the drawing area, and the text of the coordinates.\<close>

datatype 'p draw = Picture 'p real real | Coordinates "byte list"

record 'p client_t =
  cl_key :: "byte list"
  cl_map :: screen_map_t
  cl_idle :: "callback list"
  cl_main :: "byte list"
  cl_chat :: "byte list"
  cl_online :: "byte list"
  cl_labels :: "byte list list"
  cl_drawn :: "'p draw list"

text \<open>The two arrays of pictures, and the size of the drawing area.\<close>

record 'p images_t =
  im_surfaces :: "'p option list"
  im_objects :: "'p option list"
  im_width :: int
  im_height :: int

section \<open>Connection\<close>

text \<open>The datagram of the test message.\<close>

definition conn_hello :: "msg_t \<Rightarrow> byte list res" where
  "conn_hello m = rbind (msg_send (m\<lparr>m_type := conn_test\<rparr>)) (\<lambda>(_, wire). Inr wire)"

text \<open>
  \<open>con\<close> is the address of the server, \<open>fresh\<close> and \<open>fresh'\<close> the content of the two new blocks,
  \<open>recvd\<close> what \<open>recvfrom\<close> delivered.  The result is the answer, what was sent and the state.
\<close>

definition check_connection ::
  "msg_t option \<Rightarrow> sockaddr_in \<Rightarrow> msg_t option \<Rightarrow> (sockaddr_in \<times> byte list) option \<Rightarrow> 'p client_t
    \<Rightarrow> (bool \<times> byte list option \<times> 'p client_t) res" where
  "check_connection fresh con fresh' recvd st = (case msg_init fresh (Some con) of
     None \<Rightarrow> Inr (False, None, st)
   | Some m \<Rightarrow>
       rbind (conn_hello m) (\<lambda>wire.
       rbind (msg_recv fresh' recvd) (\<lambda>msg. case msg of
         None \<Rightarrow> Inr (False, Some wire, st)
       | Some m \<Rightarrow>
           if m_type m \<noteq> conn_test then Inr (False, Some wire, st)
           else rbind (memcpy (cl_key st) 0 (take TOKEN_LEN (m_key m))) (\<lambda>key.
             Inr (True, Some wire, st\<lparr>cl_key := key\<rparr>)))))"

section \<open>Input\<close>

text \<open>The datagram that is sent; \<open>len\<close> is overwritten by \<open>msg_set_body\<close>.\<close>

definition send_user_input ::
  "msg_t option \<Rightarrow> sockaddr_in \<Rightarrow> byte list \<Rightarrow> nat \<Rightarrow> 'p client_t \<Rightarrow> byte list option res" where
  "send_user_input fresh con input len st = (case msg_init fresh (Some con) of
     None \<Rightarrow> Inr None
   | Some m \<Rightarrow>
       rbind (msg_set_body (m\<lparr>m_type := user_msg, m_len := of_nat len\<rparr>) input) (\<lambda>m.
       rbind (msg_set_key m (cl_key st)) (\<lambda>m.
       rbind (msg_send m) (\<lambda>(_, wire). Inr (Some wire)))))"

definition sp_send_prepared_input ::
  "msg_t option \<Rightarrow> sockaddr_in \<Rightarrow> byte list \<Rightarrow> 'p client_t \<Rightarrow> byte list option res" where
  "sp_send_prepared_input fresh con str st =
     rbind (strlen str) (\<lambda>n. send_user_input fresh con str (n + 1) st)"

definition sp_command_enter ::
  "msg_t option \<Rightarrow> sockaddr_in \<Rightarrow> byte list \<Rightarrow> 'p client_t \<Rightarrow> byte list option res" where
  "sp_command_enter fresh con str st =
     rbind (strlen str) (\<lambda>n.
       if n < MIN_INPUT_LEN then Inr None else send_user_input fresh con str (n + 1) st)"

section \<open>The map\<close>

text \<open>\<open>points[i]\<close> of a block of bytes.\<close>

definition point_at :: "byte list \<Rightarrow> nat \<Rightarrow> cell_t res" where
  "point_at b i =
     (if 8 * i + 8 \<le> length b
      then Inr \<lparr>c_surface = of_nat (le_val (take 4 (drop (8 * i) b))),
        c_object = of_nat (le_val (take 4 (drop (8 * i + 4) b)))\<rparr>
      else Inl OutOfBounds)"

definition put :: "'a list \<Rightarrow> nat \<Rightarrow> 'a \<Rightarrow> 'a list res" where
  "put xs i x = (if i < length xs then Inr (xs[i := x]) else Inl OutOfBounds)"

definition get :: "'a list \<Rightarrow> nat \<Rightarrow> 'a res" where
  "get xs i = (if i < length xs then Inr (xs ! i) else Inl OutOfBounds)"

fun load_loop :: "byte list \<Rightarrow> nat list \<Rightarrow> screen_map_t \<Rightarrow> screen_map_t res" where
  "load_loop b [] m = Inr m"
| "load_loop b (i # is) m =
     rbind (point_at b i) (\<lambda>p.
     rbind (put (sm_points m) i p) (\<lambda>ps. load_loop b is (m\<lparr>sm_points := ps\<rparr>)))"

definition map_load :: "byte list \<Rightarrow> screen_map_t \<Rightarrow> screen_map_t res" where
  "map_load b m = load_loop b [0..<MAP_SCALE * MAP_SCALE] m"

definition gui_map_update :: "byte list \<Rightarrow> 'p client_t \<Rightarrow> 'p client_t res" where
  "gui_map_update b st =
     rbind (map_load b (cl_map st)) (\<lambda>m.
       if 8 * (MAP_SCALE * MAP_SCALE) + 16 \<le> length b then
         rbind (memcpy (sm_pos m) 0 (take 16 (drop (8 * (MAP_SCALE * MAP_SCALE)) b))) (\<lambda>pos.
           Inr (st\<lparr>cl_map := m\<lparr>sm_pos := pos\<rparr>, cl_idle := cl_idle st @ [MapRefresh]\<rparr>))
       else Inl OutOfBounds)"

text \<open>A picture that is there: the library does not draw a null pointer.\<close>

definition picture :: "'p option list \<Rightarrow> nat \<Rightarrow> 'p res" where
  "picture ps i = rbind (get ps i) (\<lambda>p. case p of None \<Rightarrow> Inl NullDeref | Some p \<Rightarrow> Inr p)"

text \<open>One cell; \<open>pw\<close> and \<open>ph\<close> are \<open>gdk_pixbuf_get_width\<close> and \<open>gdk_pixbuf_get_height\<close>.\<close>

definition draw_cell :: "('p \<Rightarrow> int) \<Rightarrow> ('p \<Rightarrow> int) \<Rightarrow> 'p images_t \<Rightarrow> screen_map_t \<Rightarrow> nat \<Rightarrow> 'p draw list res" where
  "draw_cell pw ph im m i =
     (let x_scale = real_of_int (im_width im div 9); y_scale = real_of_int (im_height im div 9);
          x = real (i div MAP_SCALE) * x_scale; y = real (i mod MAP_SCALE) * y_scale in
      rbind (get (sm_points m) i) (\<lambda>c.
      rbind (picture (im_surfaces im) (if unat (c_surface c) > SURFACE_COUNT then 6 else unat (c_surface c))) (\<lambda>s.
        if c_object c = 0 then Inr [Picture s x y]
        else rbind (picture (im_objects im) (unat (c_object c))) (\<lambda>ob.
          Inr [Picture s x y, Picture ob (x + (x_scale - pw ob) / 2) (y + (x_scale - ph ob) / 2)]))))"

fun refresh_loop :: "('p \<Rightarrow> int) \<Rightarrow> ('p \<Rightarrow> int) \<Rightarrow> 'p images_t \<Rightarrow> screen_map_t \<Rightarrow> nat list \<Rightarrow> 'p draw list res" where
  "refresh_loop pw ph im m [] = Inr []"
| "refresh_loop pw ph im m (i # is) =
     rbind (draw_cell pw ph im m i) (\<lambda>ds. rbind (refresh_loop pw ph im m is) (\<lambda>rest. Inr (ds @ rest)))"

definition map_refresh :: "('p \<Rightarrow> int) \<Rightarrow> ('p \<Rightarrow> int) \<Rightarrow> 'p images_t \<Rightarrow> screen_map_t \<Rightarrow> 'p draw list res" where
  "map_refresh pw ph im m =
     rbind (refresh_loop pw ph im m [0..<MAP_SCALE * MAP_SCALE]) (\<lambda>ds.
     rbind (strlen (sm_pos m)) (\<lambda>n. Inr (ds @ [Coordinates (take n (sm_pos m))])))"

section \<open>Start of the map\<close>

definition surface_files :: "(nat \<times> string) list" where
  "surface_files = [(0, ''src/client/gui/map_surf/soil.jpg''), (1, ''src/client/gui/map_surf/sand.jpg''),
     (2, ''src/client/gui/map_surf/grass.jpg''), (3, ''src/client/gui/map_surf/water.jpg''),
     (4, ''src/client/gui/map_surf/wall.jpg''), (5, ''src/client/gui/map_surf/floor.jpg''),
     (6, ''src/client/gui/map_surf/unknown.jpg'')]"

definition object_files :: "(nat \<times> string) list" where
  "object_files = [(1, ''src/client/gui/map_obj/character.jpg''), (2, ''src/client/gui/map_obj/enemy.jpg'')]"

fun fill_images :: "(string \<Rightarrow> 'p option) \<Rightarrow> (nat \<times> string) list \<Rightarrow> 'p option list \<Rightarrow> 'p option list res" where
  "fill_images new_from_file [] ps = Inr ps"
| "fill_images new_from_file ((i, name) # fs) ps =
     rbind (put ps i (new_from_file name)) (\<lambda>ps. fill_images new_from_file fs ps)"

definition load_images :: "(string \<Rightarrow> 'p option) \<Rightarrow> 'p images_t \<Rightarrow> 'p images_t res" where
  "load_images new_from_file im =
     rbind (fill_images new_from_file surface_files (im_surfaces im)) (\<lambda>ss.
     rbind (fill_images new_from_file object_files (im_objects im)) (\<lambda>obs.
       Inr (im\<lparr>im_surfaces := ss, im_objects := obs\<rparr>)))"

text \<open>The two static arrays before the first use.\<close>

definition no_images :: "int \<Rightarrow> int \<Rightarrow> 'p images_t" where
  "no_images w h = \<lparr>im_surfaces = replicate SURFACE_COUNT None, im_objects = replicate OBJECT_COUNT None,
     im_width = w, im_height = h\<rparr>"

fun unknown_loop :: "nat list \<Rightarrow> screen_map_t \<Rightarrow> screen_map_t res" where
  "unknown_loop [] m = Inr m"
| "unknown_loop (i # is) m =
     rbind (put (sm_points m) i \<lparr>c_surface = 6, c_object = 0\<rparr>) (\<lambda>ps. unknown_loop is (m\<lparr>sm_points := ps\<rparr>))"

definition sp_draw_area_init ::
  "(string \<Rightarrow> 'p option) \<Rightarrow> ('p \<Rightarrow> int) \<Rightarrow> ('p \<Rightarrow> int) \<Rightarrow> 'p images_t \<Rightarrow> screen_map_t
    \<Rightarrow> ('p images_t \<times> screen_map_t \<times> 'p draw list) res" where
  "sp_draw_area_init new_from_file pw ph im m =
     rbind (memcpy (sm_pos m) 0 (replicate 16 0)) (\<lambda>pos.
     rbind (load_images new_from_file im) (\<lambda>im.
     rbind (unknown_loop [0..<MAP_SCALE * MAP_SCALE] (m\<lparr>sm_pos := pos\<rparr>)) (\<lambda>m.
     rbind (map_refresh pw ph im m) (\<lambda>ds. Inr (im, m, ds)))))"

section \<open>Messages\<close>

text \<open>\<open>gui_print_main_msg\<close> and the other functions that only leave a callback.\<close>

definition idle_add :: "callback \<Rightarrow> 'p client_t \<Rightarrow> 'p client_t" where
  "idle_add cb st = st\<lparr>cl_idle := cl_idle st @ [cb]\<rparr>"

definition gui_print_main_msg :: "byte list \<Rightarrow> 'p client_t \<Rightarrow> 'p client_t" where
  "gui_print_main_msg str st = idle_add (PrintMessage MainText str) st"

definition gui_print_chat_msg :: "byte list \<Rightarrow> 'p client_t \<Rightarrow> 'p client_t" where
  "gui_print_chat_msg str st = idle_add (PrintMessage ChatText str) st"

definition gui_print_char_info :: "byte list \<Rightarrow> 'p client_t \<Rightarrow> 'p client_t" where
  "gui_print_char_info info st = idle_add (PrintCharInfo info) st"

definition gui_print_online_list :: "byte list \<Rightarrow> 'p client_t \<Rightarrow> 'p client_t" where
  "gui_print_online_list str st = idle_add (PrintOnlineList str) st"

definition msg_process :: "msg_t option \<Rightarrow> 'p client_t \<Rightarrow> 'p client_t res" where
  "msg_process msg st = (case msg of
     None \<Rightarrow> Inr st
   | Some m \<Rightarrow>
       let body = m_body m in
       if m_type m = main_msg then Inr (gui_print_main_msg body st)
       else if m_type m = chat_msg then Inr (gui_print_chat_msg body st)
       else if m_type m = char_info then Inr (gui_print_char_info body st)
       else if m_type m = map_update then gui_map_update body st
       else if m_type m = online_list then Inr (gui_print_online_list body st)
       else Inr st)"

section \<open>The main loop\<close>

definition print_message_and_scroll :: "window \<Rightarrow> byte list \<Rightarrow> 'p client_t \<Rightarrow> 'p client_t res" where
  "print_message_and_scroll w str st =
     rbind (strlen str) (\<lambda>n. let line = 10 # take n str in
       case w of
         MainText \<Rightarrow> Inr (st\<lparr>cl_main := cl_main st @ line\<rparr>)
       | ChatText \<Rightarrow> Inr (st\<lparr>cl_chat := cl_chat st @ line\<rparr>))"

text \<open>The labels, in the order of the members: \<open>nick\<close>, \<open>lvl\<close>, \<open>hp\<close>, \<open>atp\<close>, \<open>arm\<close>, \<open>evn\<close>.\<close>

fun label_loop :: "byte list \<Rightarrow> nat list \<Rightarrow> byte list list res" where
  "label_loop info [] = Inr []"
| "label_loop info (i # is) =
     rbind (strlen (drop (16 * i) info)) (\<lambda>n.
     rbind (label_loop info is) (\<lambda>ls. Inr (take n (drop (16 * i) info) # ls)))"

definition print_char_info :: "byte list \<Rightarrow> 'p client_t \<Rightarrow> 'p client_t res" where
  "print_char_info info st = rbind (label_loop info [0..<6]) (\<lambda>ls. Inr (st\<lparr>cl_labels := ls\<rparr>))"

definition print_online_list :: "byte list \<Rightarrow> 'p client_t \<Rightarrow> 'p client_t res" where
  "print_online_list str st = rbind (strlen str) (\<lambda>n. Inr (st\<lparr>cl_online := take n str\<rparr>))"

definition run_callback :: "('p \<Rightarrow> int) \<Rightarrow> ('p \<Rightarrow> int) \<Rightarrow> 'p images_t \<Rightarrow> callback \<Rightarrow> 'p client_t \<Rightarrow> 'p client_t res" where
  "run_callback pw ph im cb st = (case cb of
     PrintMessage w str \<Rightarrow> print_message_and_scroll w str st
   | PrintCharInfo info \<Rightarrow> print_char_info info st
   | PrintOnlineList str \<Rightarrow> print_online_list str st
   | MapRefresh \<Rightarrow> rbind (map_refresh pw ph im (cl_map st)) (\<lambda>ds. Inr (st\<lparr>cl_drawn := cl_drawn st @ ds\<rparr>)))"

text \<open>The callbacks that wait, in their order.\<close>

fun idle_callbacks :: "('p \<Rightarrow> int) \<Rightarrow> ('p \<Rightarrow> int) \<Rightarrow> 'p images_t \<Rightarrow> callback list \<Rightarrow> 'p client_t \<Rightarrow> 'p client_t res" where
  "idle_callbacks pw ph im [] st = Inr st"
| "idle_callbacks pw ph im (cb # cbs) st =
     rbind (run_callback pw ph im cb (st\<lparr>cl_idle := cbs\<rparr>)) (\<lambda>st. idle_callbacks pw ph im cbs st)"

section \<open>Lemmas\<close>

lemma put_get_simps [simp]:
  "i < length xs \<Longrightarrow> put xs i x = Inr (xs[i := x])" "i < length xs \<Longrightarrow> get xs i = Inr (xs ! i)"
  "length xs \<le> i \<Longrightarrow> put xs i x = Inl OutOfBounds" "length xs \<le> i \<Longrightarrow> get xs i = Inl OutOfBounds"
  by (simp_all add: put_def get_def)

text \<open>The cell that a block of bytes holds at an index.\<close>

definition cell_of :: "byte list \<Rightarrow> nat \<Rightarrow> cell_t" where
  "cell_of b i = \<lparr>c_surface = of_nat (le_val (take 4 (drop (8 * i) b))),
     c_object = of_nat (le_val (take 4 (drop (8 * i + 4) b)))\<rparr>"

lemma load_loop_eq:
  assumes "k \<le> n" "n \<le> length (sm_points m)" "8 * n \<le> length b"
  shows "load_loop b [k..<n] m
    = Inr (m\<lparr>sm_points := take k (sm_points m) @ map (cell_of b) [k..<n] @ drop n (sm_points m)\<rparr>)"
  using assms
proof (induction "n - k" arbitrary: k m)
  case (Suc d)
  then have k: "k < n" "[k..<n] = k # [Suc k..<n]"
    by (simp_all add: upt_conv_Cons)
  let ?m = "m\<lparr>sm_points := (sm_points m)[k := cell_of b k]\<rparr>"
  have "point_at b k = Inr (cell_of b k)"
    using k(1) Suc.prems(3) by (simp add: point_at_def cell_of_def)
  then have "load_loop b [k..<n] m = load_loop b [Suc k..<n] ?m"
    using k Suc.prems(2) by simp
  also have "\<dots> = Inr (?m\<lparr>sm_points := take (Suc k) (sm_points ?m) @ map (cell_of b) [Suc k..<n] @ drop n (sm_points ?m)\<rparr>)"
    using Suc k(1) by (intro Suc.hyps(1)) simp_all
  also have "take (Suc k) (sm_points ?m) = take k (sm_points m) @ [cell_of b k]"
    using k(1) Suc.prems(2) by (simp add: take_Suc_conv_app_nth)
  finally show ?case
    using k by simp
qed simp

lemma map_load_eq:
  assumes "length (sm_points m) = MAP_SCALE * MAP_SCALE" "8 * (MAP_SCALE * MAP_SCALE) \<le> length b"
  shows "map_load b m = Inr (m\<lparr>sm_points := map (cell_of b) [0..<MAP_SCALE * MAP_SCALE]\<rparr>)"
  using load_loop_eq [of 0 "MAP_SCALE * MAP_SCALE" m b] assms by (simp add: map_load_def)

definition screen_ok :: "screen_map_t \<Rightarrow> bool" where
  "screen_ok m \<longleftrightarrow> length (sm_points m) = MAP_SCALE * MAP_SCALE \<and> length (sm_pos m) = 16"

lemma gui_map_update_eq:
  assumes "screen_ok (cl_map st)" "length b = BODY_LEN"
  shows "gui_map_update b st = Inr (st\<lparr>cl_map := \<lparr>sm_points = map (cell_of b) [0..<MAP_SCALE * MAP_SCALE],
      sm_pos = take 16 (drop 648 b)\<rparr>, cl_idle := cl_idle st @ [MapRefresh]\<rparr>)"
proof -
  have "8 * (MAP_SCALE * MAP_SCALE) = 648"
    by (simp add: MAP_SCALE_def)
  then show ?thesis
    using assms map_load_eq [of "cl_map st" b]
    by (simp add: gui_map_update_def screen_ok_def BODY_LEN_def memcpy_def del: upt_rec_numeral)
qed

subsection \<open>Drawing\<close>

text \<open>The pictures of a cell, and the cells whose pictures lie outside the arrays.\<close>

definition drawn_cell :: "('p \<Rightarrow> int) \<Rightarrow> ('p \<Rightarrow> int) \<Rightarrow> real \<Rightarrow> real \<Rightarrow> 'p list \<Rightarrow> 'p \<Rightarrow> nat \<Rightarrow> cell_t \<Rightarrow> 'p draw list" where
  "drawn_cell pw ph x_scale y_scale ss ob i c =
     (let x = real (i div 9) * x_scale; y = real (i mod 9) * y_scale in
      Picture (ss ! (if 7 < c_surface c then 6 else unat (c_surface c))) x y
      # (if c_object c = 0 then [] else [Picture ob (x + (x_scale - pw ob) / 2) (y + (x_scale - ph ob) / 2)]))"

definition bad_cell :: "cell_t \<Rightarrow> bool" where
  "bad_cell c \<longleftrightarrow> c_surface c = 7 \<or> 2 \<le> c_object c"

lemma draw_cell_eq:
  assumes "length (sm_points m) = 81" "i < 81" "im_surfaces im = map Some ss" "length ss = 7" "im_objects im = [o0, Some ob]"
  shows "draw_cell pw ph im m i = (if bad_cell (sm_points m ! i) then Inl OutOfBounds
    else Inr (drawn_cell pw ph (real_of_int (im_width im div 9)) (real_of_int (im_height im div 9)) ss ob i (sm_points m ! i)))"
proof -
  let ?c = "sm_points m ! i"
  have u: "7 < c_surface ?c \<longleftrightarrow> 7 < unat (c_surface ?c)" "c_surface ?c = 7 \<longleftrightarrow> unat (c_surface ?c) = 7"
    "c_object ?c = 0 \<longleftrightarrow> unat (c_object ?c) = 0" "2 \<le> c_object ?c \<longleftrightarrow> 2 \<le> unat (c_object ?c)"
    by (simp_all add: word_less_nat_alt word_le_nat_alt word_unat_eq_iff)
  have surf: "picture (im_surfaces im) (if 7 < unat (c_surface ?c) then 6 else unat (c_surface ?c))
      = (if unat (c_surface ?c) = 7 then Inl OutOfBounds else Inr (ss ! (if 7 < unat (c_surface ?c) then 6 else unat (c_surface ?c))))"
    using assms(4) by (simp add: picture_def get_def assms(3))
  have obj: "picture (im_objects im) (unat (c_object ?c)) = (if 2 \<le> unat (c_object ?c) then Inl OutOfBounds else Inr ob)"
    if "unat (c_object ?c) \<noteq> 0"
  proof (cases "2 \<le> unat (c_object ?c)")
    case False
    with that have "unat (c_object ?c) = 1"
      by linarith
    then show ?thesis
      by (simp add: picture_def get_def assms(5))
  qed (simp add: picture_def get_def assms(5))
  show ?thesis
    using assms(1,2) obj
    by (simp add: draw_cell_def Let_def SURFACE_COUNT_def MAP_SCALE_def surf bad_cell_def drawn_cell_def u)
qed

lemma refresh_loop_eq:
  assumes "\<And>i. i \<in> set is \<Longrightarrow> draw_cell pw ph im m i = (if bad i then Inl OutOfBounds else Inr (f i))"
  shows "refresh_loop pw ph im m is = (if list_ex bad is then Inl OutOfBounds else Inr (concat (map f is)))"
  using assms by (induction "is") auto

text \<open>A run of the loop of the start, and what \<open>load_images\<close> writes.\<close>

lemma load_images_overflows:
  assumes "length (im_surfaces im) = SURFACE_COUNT" "length (im_objects im) = OBJECT_COUNT"
  shows "load_images new_from_file im = Inl OutOfBounds"
  using assms by (simp add: load_images_def surface_files_def object_files_def SURFACE_COUNT_def OBJECT_COUNT_def)

lemma unknown_loop_eq:
  assumes "k \<le> n" "n \<le> length (sm_points m)"
  shows "unknown_loop [k..<n] m
    = Inr (m\<lparr>sm_points := take k (sm_points m) @ replicate (n - k) \<lparr>c_surface = 6, c_object = 0\<rparr> @ drop n (sm_points m)\<rparr>)"
  using assms
proof (induction "n - k" arbitrary: k m)
  case (Suc d)
  then have k: "k < n" "[k..<n] = k # [Suc k..<n]" "n - k = Suc (n - Suc k)"
    by (simp_all add: upt_conv_Cons)
  let ?c = "\<lparr>c_surface = 6, c_object = 0\<rparr>"
  let ?m = "m\<lparr>sm_points := (sm_points m)[k := ?c]\<rparr>"
  have "unknown_loop [k..<n] m = unknown_loop [Suc k..<n] ?m"
    using k(1,2) Suc.prems(2) by simp
  also have "\<dots> = Inr (?m\<lparr>sm_points := take (Suc k) (sm_points ?m) @ replicate (n - Suc k) ?c @ drop n (sm_points ?m)\<rparr>)"
    using Suc k(1) by (intro Suc.hyps(1)) simp_all
  also have "take (Suc k) (sm_points ?m) = take k (sm_points m) @ [?c]"
    using k(1) Suc.prems(2) by (simp add: take_Suc_conv_app_nth)
  finally show ?case
    using k by simp
qed simp

text \<open>The start of the map with room for \<open>n\<close> pictures of objects.\<close>

lemma fill_surfaces:
  assumes "\<forall>name \<in> snd ` set surface_files. new_from_file name \<noteq> None"
  shows "\<exists>ss. fill_images new_from_file surface_files (replicate SURFACE_COUNT None) = Inr ss \<and> length ss = 7 \<and> ss ! 6 \<noteq> None"
  using assms by (simp add: surface_files_def SURFACE_COUNT_def)

lemma draw_area_init_objects:
  assumes "screen_ok m" and "\<forall>name \<in> snd ` set surface_files. new_from_file name \<noteq> None"
  shows "is_ok (sp_draw_area_init new_from_file pw ph ((no_images w h)\<lparr>im_objects := replicate n None\<rparr>) m) \<longleftrightarrow> 2 < n"
proof -
  obtain ss where ss: "fill_images new_from_file surface_files (replicate SURFACE_COUNT None) = Inr ss"
      "length ss = 7" "ss ! 6 \<noteq> None"
    using fill_surfaces [OF assms(2)] by blast
  obtain pb where pb: "ss ! 6 = Some pb"
    using ss(3) by blast
  let ?im = "(no_images w h)\<lparr>im_objects := replicate n None\<rparr>"
  let ?pos = "replicate 16 (0 :: byte)"
  have pos: "memcpy (sm_pos m) 0 ?pos = Inr ?pos"
    using assms(1) by (simp add: memcpy_def screen_ok_def)
  show ?thesis
  proof (cases "2 < n")
    case False
    then have "fill_images new_from_file object_files (replicate n None) = Inl OutOfBounds"
      by (cases "n = 2") (simp_all add: object_files_def)
    with False show ?thesis
      using ss(1) by (simp add: sp_draw_area_init_def pos load_images_def no_images_def)
  next
    case True
    then obtain obs where obs: "fill_images new_from_file object_files (replicate n None) = Inr obs"
      by (simp add: object_files_def)
    let ?c = "\<lparr>c_surface = 6, c_object = 0\<rparr>"
    define im where "im = ?im\<lparr>im_surfaces := ss, im_objects := obs\<rparr>"
    define m' where "m' = m\<lparr>sm_pos := ?pos, sm_points := replicate 81 ?c\<rparr>"
    have "unknown_loop [0..<81] (m\<lparr>sm_pos := ?pos\<rparr>) = Inr m'"
      using unknown_loop_eq [of 0 81 "m\<lparr>sm_pos := ?pos\<rparr>"] assms(1)
      by (simp add: screen_ok_def MAP_SCALE_def m'_def del: upt_rec_numeral)
    moreover have "draw_cell pw ph im m' i = Inr [Picture pb (real (i div 9) * real_of_int (im_width im div 9))
        (real (i mod 9) * real_of_int (im_height im div 9))]" if "i < 81" for i
      using that ss(2) pb
      by (simp add: draw_cell_def m'_def im_def picture_def SURFACE_COUNT_def MAP_SCALE_def Let_def no_images_def)
    then have "is_ok (refresh_loop pw ph im m' [0..<81])"
      using refresh_loop_eq [of "[0..<81]" pw ph im m' "\<lambda>_. False"] by (simp add: list_ex_iff del: upt_rec_numeral)
    then have "is_ok (map_refresh pw ph im m')"
      by (auto simp: map_refresh_def is_ok_iff MAP_SCALE_def m'_def strlen_def terminated_def simp del: upt_rec_numeral)
    ultimately show ?thesis
      using True ss(1) obs pos
      by (auto simp: sp_draw_area_init_def load_images_def is_ok_iff MAP_SCALE_def im_def no_images_def simp del: upt_rec_numeral)
  qed
qed

lemma le_bytes_nth: "i < k \<Longrightarrow> le_bytes k n ! i = of_nat (n div 256 ^ i mod 256)"
proof (induction k n arbitrary: i rule: le_bytes.induct)
  case (2 k n)
  then show ?case
    by (cases i) (simp_all add: div_mult2_eq)
qed simp

text \<open>The message of an input, before it is sent; the key runs on into the padding and the length.\<close>

definition user_key :: "msg_t \<Rightarrow> byte list \<Rightarrow> nat \<Rightarrow> byte list" where
  "user_key fresh key n = key @ drop TOKEN_LEN (m_key fresh) @ le_bytes 8 n"

lemma user_msg_eq:
  assumes "msg_wf fresh" "terminated input" "length (cstr input) \<le> BODY_LEN" "length (cl_key st) = TOKEN_LEN"
  shows "\<exists>m. send_user_input (Some fresh) con input len st = rbind (msg_send m) (\<lambda>(_, wire). Inr (Some wire))
    \<and> msg_wf m \<and> m_type m = user_msg \<and> m_key m = cl_key st @ drop TOKEN_LEN (m_key fresh)
    \<and> m_len m = of_nat (length (cstr input))
    \<and> m_body m = cstr input @ replicate (BODY_LEN - length (cstr input)) 0"
proof -
  let ?n = "length (cstr input)"
  let ?m = "fresh\<lparr>m_addr := con, m_type := user_msg, m_len := of_nat ?n,
      m_body := cstr input @ replicate (BODY_LEN - ?n) 0, m_key := cl_key st @ drop TOKEN_LEN (m_key fresh)\<rparr>"
  have "memcpy (replicate BODY_LEN 0) 0 (cstr input) = Inr (cstr input @ replicate (BODY_LEN - ?n) 0)"
    using assms(3) by (simp add: memcpy_def)
  moreover have "memcpy (replicate TOKEN_LEN 0 @ drop TOKEN_LEN (m_key fresh)) 0 (cl_key st)
      = Inr (cl_key st @ drop TOKEN_LEN (m_key fresh))"
    using assms(4) by (simp add: memcpy_def)
  ultimately have "send_user_input (Some fresh) con input len st = rbind (msg_send ?m) (\<lambda>(_, wire). Inr (Some wire))"
    using assms(2,4)
    by (simp add: send_user_input_def msg_init_def Let_def msg_set_body_def strlen_ok take_cstr msg_set_key_def)
  moreover have "msg_wf ?m"
    using assms by (simp add: msg_wf_def)
  ultimately show ?thesis
    by (intro exI [of _ ?m]) simp
qed

section \<open>Properties\<close>

text \<open>
  C39. The map that \<open>map_refresh\<close> draws once the pictures are loaded: column \<open>i div 9\<close> and row
  \<open>i mod 9\<close> show the surface of cell \<open>i\<close>, an unknown one for numbers above seven, and the
  picture of a character over it; then the coordinates.  A surface of exactly seven, or an
  object other than nothing and a player (an enemy is one), is read outside its array.
\<close>

theorem map_refresh_exact:
  assumes "length (sm_points m) = 81" and "terminated (sm_pos m)"
    and "im_surfaces im = map Some ss" and "length ss = 7" and "im_objects im = [o0, Some ob]"
  shows "map_refresh pw ph im m =
    (if list_ex bad_cell (sm_points m) then Inl OutOfBounds
     else Inr (concat (map (\<lambda>i. drawn_cell pw ph (real_of_int (im_width im div 9)) (real_of_int (im_height im div 9))
         ss ob i (sm_points m ! i)) [0..<81]) @ [Coordinates (cstr (sm_pos m))]))"
proof -
  have "list_ex (\<lambda>i. bad_cell (sm_points m ! i)) [0..<81] = list_ex bad_cell (sm_points m)"
    unfolding list_ex_iff using assms(1) by (auto simp: in_set_conv_nth Bex_def simp del: upt_rec_numeral)
  moreover have "refresh_loop pw ph im m [0..<81] = (if list_ex (\<lambda>i. bad_cell (sm_points m ! i)) [0..<81] then Inl OutOfBounds
      else Inr (concat (map (\<lambda>i. drawn_cell pw ph (real_of_int (im_width im div 9)) (real_of_int (im_height im div 9))
         ss ob i (sm_points m ! i)) [0..<81])))"
    by (rule refresh_loop_eq) (use draw_cell_eq [OF assms(1) _ assms(3-5)] in simp)
  ultimately show ?thesis
    using assms(2) by (simp add: map_refresh_def MAP_SCALE_def strlen_ok take_cstr del: upt_rec_numeral)
qed

text \<open>
  The drawing area cannot be set up: the picture of an enemy is stored behind the array for
  the pictures of objects, which has two places.  Three would be enough.
\<close>

theorem client_start_overflows:
  assumes "screen_ok m" and "\<forall>name \<in> snd ` set surface_files. new_from_file name \<noteq> None"
  shows "sp_draw_area_init new_from_file pw ph (no_images w h) m = Inl OutOfBounds
    \<and> is_ok (sp_draw_area_init new_from_file pw ph ((no_images w h)\<lparr>im_objects := replicate 3 None\<rparr>) m)"
proof
  have "memcpy (sm_pos m) 0 (replicate 16 0) = Inr (replicate 16 0)"
    using assms(1) by (simp add: memcpy_def screen_ok_def)
  then show "sp_draw_area_init new_from_file pw ph (no_images w h) m = Inl OutOfBounds"
    by (simp add: sp_draw_area_init_def load_images_overflows no_images_def)
qed (use draw_area_init_objects [OF assms, where n = 3] in simp)

definition blank_screen :: screen_map_t where
  "blank_screen = \<lparr>sm_points = replicate 81 \<lparr>c_surface = 0, c_object = 0\<rparr>, sm_pos = replicate 16 0\<rparr>"

lemma blank_screen_ok: "screen_ok blank_screen"
  by (simp add: screen_ok_def blank_screen_def MAP_SCALE_def)

lemma client_start_overflows_witness:
  "sp_draw_area_init (\<lambda>_. Some ''picture'') (\<lambda>_. 20) (\<lambda>_. 30) (no_images 450 450) blank_screen = Inl OutOfBounds"
  using client_start_overflows [OF blank_screen_ok, of "\<lambda>_. Some ''picture''"] by simp

lemma map_refresh_exact_witness:
  "map_refresh (\<lambda>_. 20) (\<lambda>_. 30) \<lparr>im_surfaces = map Some [''a'', ''b'', ''c'', ''d'', ''e'', ''f'', ''g''],
      im_objects = [None, Some ''me''], im_width = 450, im_height = 450\<rparr>
      (blank_screen\<lparr>sm_points := (replicate 81 \<lparr>c_surface = 0, c_object = 0\<rparr>)[40 := \<lparr>c_surface = 2, c_object = 2\<rparr>]\<rparr>)
    = Inl OutOfBounds"
proof -
  let ?m = "blank_screen\<lparr>sm_points := (replicate 81 \<lparr>c_surface = 0, c_object = 0\<rparr>)[40 := \<lparr>c_surface = 2, c_object = 2\<rparr>]\<rparr>"
  have len: "length (sm_points ?m) = 81" and pos: "terminated (sm_pos ?m)"
    by (simp_all add: blank_screen_def terminated_def)
  have "\<lparr>c_surface = 2, c_object = 2\<rparr> \<in> set (sm_points ?m)"
    by (simp add: set_update_memI)
  then have "list_ex bad_cell (sm_points ?m)"
    by (auto simp: list_ex_iff bad_cell_def intro!: bexI)
  then show ?thesis
    using map_refresh_exact [OF len pos, where im = "\<lparr>im_surfaces = map Some [''a'', ''b'', ''c'', ''d'', ''e'', ''f'', ''g''],
      im_objects = [None, Some ''me''], im_width = 450, im_height = 450\<rparr>"
      and ss = "[''a'', ''b'', ''c'', ''d'', ''e'', ''f'', ''g'']" and pw = "\<lambda>_. 20" and ph = "\<lambda>_. 30"]
    by simp
qed

text \<open>A typed text that leaves room for its terminator.\<close>

lemma user_key_terminated:
  assumes "n < 2 ^ 56"
  shows "terminated (user_key fresh key n)"
proof -
  have "n div 256 ^ 7 = 0"
    using assms by simp
  then have "le_bytes 8 n ! 7 = 0"
    using le_bytes_nth [of 7 8 n] by simp
  then have "0 \<in> set (le_bytes 8 n)"
    using nth_mem [of 7 "le_bytes 8 n"] by simp
  then show ?thesis
    by (simp add: user_key_def terminated_def)
qed

lemma user_msg_key:
  assumes "m_key m = cl_key st @ drop TOKEN_LEN (m_key fresh)" "m_len m = of_nat n" "n \<le> BODY_LEN"
    "length (cl_key st) = TOKEN_LEN" "hd (cl_key st) \<noteq> 0"
  shows "crypto_key_is_empty (m_key m) = Inr False" "key_mem m = user_key fresh (cl_key st) n @ m_body m"
proof -
  show "crypto_key_is_empty (m_key m) = Inr False"
    using assms(4,5) by (cases "cl_key st") (simp_all add: assms(1) crypto_key_is_empty_def TOKEN_LEN_def)
  have "unat (m_len m) = n"
    using assms(3) by (simp add: assms(2) BODY_LEN_def of_nat_inverse)
  then show "key_mem m = user_key fresh (cl_key st) n @ m_body m"
    by (simp add: key_mem_def user_key_def assms(1))
qed

lemma user_input_received:
  assumes "msg_wf fresh" "msg_wf fresh'" "terminated input" "length (cl_key st) = TOKEN_LEN" "hd (cl_key st) \<noteq> 0"
    "unsafe_byte (user_key fresh (cl_key st) (length (cstr input))) \<notin> set (cstr input)"
    "length (cstr input) < BODY_LEN"
  obtains w m where "send_user_input (Some fresh) con input len st = Inr (Some w)"
    "msg_recv (Some fresh') (Some (a, w)) = Inr (Some m)" "msg_wf m" "m_type m = user_msg" "m_addr m = a"
    "m_key m = cl_key st @ drop TOKEN_LEN (m_key fresh)" "m_len m = of_nat (length (cstr input))"
    "terminated (m_body m)" "cstr (m_body m) = cstr input"
proof -
  let ?n = "length (cstr input)"
  define uk where "uk = user_key fresh (cl_key st) ?n"
  obtain m where m: "send_user_input (Some fresh) con input len st = rbind (msg_send m) (\<lambda>(_, wire). Inr (Some wire))"
      "msg_wf m" "m_type m = user_msg" "m_key m = cl_key st @ drop TOKEN_LEN (m_key fresh)" "m_len m = of_nat ?n"
      "m_body m = cstr input @ replicate (BODY_LEN - ?n) 0"
    using user_msg_eq [OF assms(1,3) _ assms(4), of con len] assms(7) by auto
  have ne: "crypto_key_is_empty (m_key m) = Inr False" and key: "key_mem (m\<lparr>m_body := b\<rparr>) = uk @ b" "key_mem m = uk @ m_body m" for b
    using user_msg_key [of m st fresh ?n] user_msg_key(2) [of "m\<lparr>m_body := b\<rparr>" st fresh ?n] m(4,5) assms(4,5,7)
    by (simp_all add: uk_def)
  have uk: "terminated uk"
    unfolding uk_def by (rule user_key_terminated) (use assms(7) in \<open>simp add: BODY_LEN_def\<close>)
  have body: "terminated (m_body m)" "cstr (m_body m) = cstr input"
    using assms(7) by (simp_all add: m(6) terminated_def cstr_padded)
  obtain c where c: "crypto_encrypt (m_body m) uk = Inr c"
    using crypto_encrypt_eq [OF body(1) uk] by blast
  have wf: "msg_wf (m\<lparr>m_body := c\<rparr>)"
    using m(2) crypto_encrypt_length [OF c] by (simp add: msg_wf_def)
  have "msg_send m = Inr (m\<lparr>m_body := c\<rparr>, msg_bytes (m\<lparr>m_body := c\<rparr>))"
    using ne c uk body by (simp add: msg_send_def key crypto_key_append)
  moreover have "crypto_decrypt c uk = Inr (m_body m)"
    using decrypt_encrypt_iff [OF body(1) uk] c assms(6) body(2) by (simp add: uk_def)
  then have "msg_recv (Some fresh') (Some (a, msg_bytes (m\<lparr>m_body := c\<rparr>))) = Inr (Some (m\<lparr>m_addr := a\<rparr>))"
    using msg_recv_wire [OF assms(2) wf, of a] ne encrypt_terminated [OF body(1) uk c] uk
    by (simp add: key crypto_key_append)
  ultimately show thesis
    using that [of "msg_bytes (m\<lparr>m_body := c\<rparr>)" "m\<lparr>m_addr := a\<rparr>"] m(1-5) body by (simp add: msg_wf_def)
qed

text \<open>
  C28. What a player types reaches the server as a text of the player's key, its length being that
  of the string whatever length the caller gave, unless it contains the unsafe byte; a text
  that fills the body leaves it without a terminator, a longer one is written past its end.
\<close>

theorem user_input_arrives:
  fixes st :: "'p client_t"
  assumes "msg_wf fresh" and "msg_wf fresh'" and "terminated input"
    and "length (cl_key st) = TOKEN_LEN" and "hd (cl_key st) \<noteq> 0"
    and "unsafe_byte (user_key fresh (cl_key st) (length (cstr input))) \<notin> set (cstr input)"
  shows "if length (cstr input) < BODY_LEN
    then \<exists>w m. send_user_input (Some fresh) con input len st = Inr (Some w)
      \<and> msg_recv (Some fresh') (Some (a, w)) = Inr (Some m) \<and> m_type m = user_msg \<and> m_addr m = a
      \<and> take TOKEN_LEN (m_key m) = cl_key st \<and> m_len m = of_nat (length (cstr input)) \<and> cstr (m_body m) = cstr input
    else send_user_input (Some fresh) con input len st
      = Inl (if length (cstr input) = BODY_LEN then Unterminated else OutOfBounds)"
proof (cases "length (cstr input) \<le> BODY_LEN")
  case False
  then have "memcpy (replicate BODY_LEN 0) 0 (cstr input) = Inl OutOfBounds"
    by (simp add: memcpy_def)
  then show ?thesis
    using False assms(3) by (simp add: send_user_input_def msg_init_def Let_def msg_set_body_def strlen_ok take_cstr)
next
  case True
  let ?n = "length (cstr input)"
  show ?thesis
  proof (cases "?n < BODY_LEN")
    case False
    obtain m where m: "send_user_input (Some fresh) con input len st = rbind (msg_send m) (\<lambda>(_, wire). Inr (Some wire))"
        "m_key m = cl_key st @ drop TOKEN_LEN (m_key fresh)" "m_len m = of_nat ?n"
        "m_body m = cstr input @ replicate (BODY_LEN - ?n) 0"
      using user_msg_eq [OF assms(1,3) True assms(4), of con len] by blast
    note key = user_msg_key [OF m(2,3) True assms(4,5)]
    have "\<not> terminated (m_body m)"
      using False by (simp add: m(4) terminated_def)
    moreover have "terminated (user_key fresh (cl_key st) ?n @ m_body m)"
      using user_key_terminated [of ?n fresh "cl_key st"] True by (simp add: terminated_def BODY_LEN_def)
    ultimately have "crypto_encrypt (m_body m) (user_key fresh (cl_key st) ?n @ m_body m) = Inl Unterminated"
      by (simp add: crypto_encrypt_def crypto_get_hash_def strlen_def Let_def)
    with False True key show ?thesis
      by (simp add: m(1) msg_send_def)
  next
    case True
    then obtain w m where "send_user_input (Some fresh) con input len st = Inr (Some w)"
        "msg_recv (Some fresh') (Some (a, w)) = Inr (Some m)" "m_type m = user_msg" "m_addr m = a"
        "m_key m = cl_key st @ drop TOKEN_LEN (m_key fresh)" "m_len m = of_nat ?n" "cstr (m_body m) = cstr input"
      using user_input_received [OF assms, of con len a] by metis
    with True assms(4) show ?thesis
      by simp
  qed
qed

definition sample_client :: "string client_t" where
  "sample_client = \<lparr>cl_key = replicate 33 65, cl_map = blank_screen, cl_idle = [], cl_main = [], cl_chat = [],
     cl_online = [], cl_labels = [], cl_drawn = []\<rparr>"

definition sample_block :: msg_t where
  "sample_block = \<lparr>m_addr = \<lparr>sin_family = 2, sin_port = 27015, s_addr = 1\<rparr>, m_type = 0, m_key = replicate 36 0, m_len = 0,
     m_body = replicate 1024 0\<rparr>"

lemma sample_block_wf: "msg_wf sample_block"
  by (simp add: sample_block_def msg_wf_def TOKEN_LEN_def KEY_PAD_def BODY_LEN_def)

lemma user_input_arrives_witness:
  "\<exists>w m. send_user_input (Some sample_block) \<lparr>sin_family = 2, sin_port = 27015, s_addr = 1\<rparr> (of_str ''go up'' @ [0]) 6 sample_client
      = Inr (Some w)
    \<and> msg_recv (Some sample_block) (Some (\<lparr>sin_family = 2, sin_port = 9, s_addr = 7\<rparr>, w)) = Inr (Some m)
    \<and> m_type m = user_msg \<and> m_len m = 5 \<and> cstr (m_body m) = of_str ''go up''"
proof -
  have key: "length (cl_key sample_client) = TOKEN_LEN" "hd (cl_key sample_client) \<noteq> 0"
    by (simp_all add: sample_client_def TOKEN_LEN_def)
  have input: "terminated (of_str ''go up'' @ [0])" "cstr (of_str ''go up'' @ [0]) = of_str ''go up''"
    by (simp_all add: of_str_def terminated_def)
  have "unsafe_byte (user_key sample_block (cl_key sample_client) 5) \<notin> set (of_str ''go up'')"
    by code_simp
  then have "unsafe_byte (user_key sample_block (cl_key sample_client) (length (cstr (of_str ''go up'' @ [0]))))
      \<notin> set (cstr (of_str ''go up'' @ [0]))"
    by (simp add: input(2)) (simp add: of_str_def eval_nat_numeral)
  from user_input_arrives [OF sample_block_wf sample_block_wf input(1) key this] show ?thesis
    by (simp add: input(2)) (simp add: of_str_def BODY_LEN_def, blast)
qed

end
