(* ===== verification/ClientServer.thy ===== *)
theory ClientServer
  imports ServerThreads Client Commands
begin

text \<open>
  The client and the server together: the key that a client gets when it connects, and what
  the screen of a client shows of the game's answers after encoding, encryption, the wire,
  decryption and decoding.
\<close>

section \<open>Connecting\<close>

text \<open>The key that the draws of the generator give.\<close>

definition drawn_key :: "(nat \<Rightarrow> nat) \<Rightarrow> byte list" where
  "drawn_key rnd = map (\<lambda>i. sid ! (rnd i mod 61)) [0..<TOKEN_LEN]"

lemma keyed_empty:
  assumes "msg_wf m" "hd (m_key m) = 0"
  shows "take TOKEN_LEN (m_key (keyed rnd m)) = drawn_key rnd" "hd (m_key (keyed rnd m)) \<noteq> 0"
    "keyed rnd' (keyed rnd m) = keyed rnd m"
proof -
  show "take TOKEN_LEN (m_key (keyed rnd m)) = drawn_key rnd"
    using assms(2) by (simp add: keyed_def fresh_key_def drawn_key_def del: upt_rec_numeral)
  have "m_key (keyed rnd m) \<noteq> []"
    using keyed_wf [OF assms(1), of rnd] by (auto simp: msg_wf_def TOKEN_LEN_def)
  then show h: "hd (m_key (keyed rnd m)) \<noteq> 0"
    using keyed_nonempty(1) [OF assms(1), of rnd] by (cases "m_key (keyed rnd m)") (auto simp: crypto_key_is_empty_def)
  then show "keyed rnd' (keyed rnd m) = keyed rnd m"
    by (simp add: keyed_def [of rnd'])
qed

lemma conn_hello_ok:
  assumes "msg_wf fresh"
  shows "\<exists>m0 m. msg_init (Some fresh) (Some con) = Some m0 \<and> conn_hello m0 = Inr (msg_bytes m) \<and> msg_wf m
    \<and> m_type m = conn_test \<and> m_key m = replicate TOKEN_LEN 0 @ drop TOKEN_LEN (m_key fresh)
    \<and> m_body m = replicate BODY_LEN 0"
proof -
  obtain m0 where m0: "msg_init (Some fresh) (Some con) = Some m0"
      "m_key m0 = replicate TOKEN_LEN 0 @ drop TOKEN_LEN (m_key fresh)" "m_body m0 = replicate BODY_LEN 0"
    by (simp add: msg_init_def Let_def)
  let ?m = "m0\<lparr>m_type := conn_test\<rparr>"
  have "crypto_key_is_empty (m_key ?m) = Inr True"
    by (simp add: m0(2) crypto_key_is_empty_def TOKEN_LEN_def numeral_eq_Suc)
  then have "conn_hello m0 = Inr (msg_bytes ?m)"
    by (simp add: conn_hello_def msg_send_def)
  moreover have "msg_wf ?m"
    using msg_init_wf [OF assms m0(1)] by (simp add: msg_wf_def)
  ultimately show ?thesis
    using m0 by (intro exI [of _ m0] exI [of _ ?m]) simp
qed

text \<open>The message that a server has made of the test message of a client.\<close>

definition hello_answer :: "(nat \<Rightarrow> nat) \<Rightarrow> sockaddr_in \<Rightarrow> msg_t \<Rightarrow> bool" where
  "hello_answer rnd a k \<longleftrightarrow> msg_wf k \<and> terminated (m_key k) \<and> terminated (m_body k) \<and> cstr (m_body k) = []
     \<and> m_addr k = a \<and> m_type k = conn_test \<and> take TOKEN_LEN (m_key k) = drawn_key rnd \<and> hd (m_key k) \<noteq> 0"

lemma length_drawn_key [simp]: "length (drawn_key rnd) = TOKEN_LEN"
  by (simp add: drawn_key_def)

lemma hello_answerD:
  assumes "hello_answer rnd a k"
  shows "msg_wf k" "terminated (m_key k)" "terminated (m_body k)" "cstr (m_body k) = []" "m_addr k = a"
    "m_type k = conn_test" "take TOKEN_LEN (m_key k) = drawn_key rnd" "keyed rnd' k = k"
  using assms by (simp_all add: hello_answer_def keyed_def)

lemma hello_received:
  assumes "msg_wf fc" "msg_wf fr" "msg_wf fn" "ps_inv (sv_players s)" "jq_inv (sv_in s)" "1 < jq_room (sv_in s)"
    "jq_contents (sv_in s) = []" "ps_count (sv_players s) < ps_max (sv_players s)"
    "ps_find (sv_players s) (drawn_key rnd) = None"
  obtains m0 h s1 k nm where "msg_init (Some fc) (Some con) = Some m0" "conn_hello m0 = Inr (msg_bytes h)"
    "receiver_step (0 # after) rnd now (Some fr) (Some fn) (Some (a, msg_bytes h)) s = Inr s1"
    "ps_inv (sv_players s1)" "jq_inv (sv_in s1)" "load (sv_msgs s1) (Some (length (sv_msgs s))) = Inr k"
    "jq_contents (sv_in s1)
      = [(QueryProcessingNew, Some (length (sv_msgs s))), (QueryProcessingNew, Some (Suc (length (sv_msgs s))))]"
    "ps_players (sv_players s1) = ps_players (sv_players s) @ [\<lparr>pl_token = drawn_key rnd, pl_timestamp = now, pl_addr = a\<rparr>]"
    "sv_out s1 = sv_out s" "sv_wire s1 = sv_wire s" "hello_answer rnd a k"
    "load (sv_msgs s1) (Some (Suc (length (sv_msgs s)))) = Inr nm" "msg_wf nm" "m_type nm = logged_in" "m_addr nm = a"
    "m_key nm = drawn_key rnd @ drop TOKEN_LEN (m_key fn)"
proof -
  obtain m0 h where h: "msg_init (Some fc) (Some con) = Some m0" "conn_hello m0 = Inr (msg_bytes h)" "msg_wf h"
      "m_type h = conn_test" "m_key h = replicate TOKEN_LEN 0 @ drop TOKEN_LEN (m_key fc)" "m_body h = replicate BODY_LEN 0"
    using conn_hello_ok [OF assms(1), of con] by blast
  let ?m = "h\<lparr>m_addr := a\<rparr>"
  let ?k = "keyed rnd ?m"
  have hd: "hd (m_key h) = 0" and tk: "terminated (m_key h)" and tb: "terminated (m_body h)" and nb: "cstr (m_body h) = []"
    unfolding h(5,6) by (simp_all add: TOKEN_LEN_def BODY_LEN_def terminated_def numeral_eq_Suc)
  have wf: "msg_wf ?m" "msg_wf ?k"
    using h(3) keyed_wf by (auto simp: msg_wf_def)
  have "crypto_key_is_empty (m_key h) = Inr True"
    using hd h(5) by (simp add: crypto_key_is_empty_def TOKEN_LEN_def numeral_eq_Suc)
  then have recv: "msg_recv (Some fr) (Some (a, msg_bytes h)) = Inr (Some ?m)"
    using msg_recv_wire [OF assms(2) h(3), of a] by simp
  have tok: "take TOKEN_LEN (m_key ?k) = drawn_key rnd"
    using keyed_empty [OF wf(1)] hd by simp
  have ans: "hello_answer rnd a ?k"
    using wf(2) tok tb nb h(4) keyed_empty(2) [OF wf(1)] keyed_nonempty(2) [OF wf(1), of rnd] tk hd
    by (simp add: hello_answer_def)
  have find: "ps_find ps (m_key ?k) = ps_find ps (drawn_key rnd)" for ps
    unfolding ps_find_def same_token_def using tok by simp
  obtain s1 nm where s1: "receiver_step (0 # after) rnd now (Some fr) (Some fn) (Some (a, msg_bytes h)) s = Inr s1"
      "ps_inv (sv_players s1)" "jq_inv (sv_in s1)" "load (sv_msgs s1) (Some (length (sv_msgs s))) = Inr ?k"
      "jq_contents (sv_in s1)
        = [(QueryProcessingNew, Some (length (sv_msgs s))), (QueryProcessingNew, Some (Suc (length (sv_msgs s))))]"
      "ps_players (sv_players s1) = ps_players (sv_players s) @ [\<lparr>pl_token = drawn_key rnd, pl_timestamp = now, pl_addr = a\<rparr>]"
      "load (sv_msgs s1) (Some (Suc (length (sv_msgs s)))) = Inr nm" "msg_wf nm" "m_type nm = logged_in" "m_addr nm = a"
      "m_key nm = drawn_key rnd @ drop TOKEN_LEN (m_key fn)"
    using receiver_step_ok [OF assms(2,3) recv assms(4-6), of after rnd now]
    unfolding find assms(9) option.case tok by (elim exE conjE) (rule that, simp_all add: assms(7,8))
  show thesis
    using that [OF h(1,2) s1(1-6) _ _ ans s1(7-11)] receiver_step_frame [OF s1(1)] by blast
qed

text \<open>The answer gives the client its key.\<close>

lemma hello_returns:
  assumes "msg_init (Some fc) (Some con) = Some m0" "conn_hello m0 = Inr (msg_bytes h)" "hello_answer rnd a k"
    "msg_wf fc'" "length (cl_key st) = TOKEN_LEN" "crypto_encrypt (m_body k) (m_key (keyed rnd' k)) = Inr c"
  shows "check_connection (Some fc) con (Some fc') (Some (srv, msg_bytes ((keyed rnd' k)\<lparr>m_body := c\<rparr>))) st
    = Inr (True, Some (msg_bytes h), st\<lparr>cl_key := drawn_key rnd\<rparr>)"
proof -
  note kd = hello_answerD [OF assms(3)]
  have "msg_recv (Some fc') (Some (srv, msg_bytes ((keyed rnd' k)\<lparr>m_body := c\<rparr>))) = Inr (Some (k\<lparr>m_addr := srv\<rparr>))"
    using keyed_recv [OF kd(1-3) assms(4,6), of srv] kd(4,8) by simp
  then show ?thesis
    using assms(1,2,5) kd(6,7) by (simp add: check_connection_def memcpy_def)
qed

text \<open>The place of a player that was added under a new token.\<close>

lemma ps_find_added:
  assumes "ps_inv ps" "ps_inv ps'" "ps_players ps' = ps_players ps @ [pl]" "ps_find ps token = None"
    "pl_token pl = take TOKEN_LEN token"
  shows "ps_find ps' token = Some (ps_count ps)"
proof -
  have n: "length (ps_players ps) = ps_count ps" "ps_count ps' = Suc (ps_count ps)"
    using length_ps_players [OF assms(1)] length_ps_players [OF assms(2)] by (simp_all add: assms(3))
  have old: "\<not> same_token token (pl_token (ps_players ps' ! i))" if "i < ps_count ps" for i
    using ps_find_cases [OF assms(1), of token] that n by (simp add: assms(3,4) nth_append)
  have new: "same_token token (pl_token (ps_players ps' ! ps_count ps))"
    using n by (simp add: assms(3,5) nth_append same_token_def)
  show ?thesis
  proof (cases "ps_find ps' token")
    case None
    then show ?thesis
      using ps_find_cases [OF assms(2), of token] new n length_ps_players [OF assms(2)] nth_mem
      by (metis lessI option.simps(4))
  next
    case (Some i)
    then have "i < ps_count ps'" "same_token token (pl_token (ps_players ps' ! i))"
      using ps_find_cases [OF assms(2), of token] by simp_all
    then have "i = ps_count ps"
      using old [of i] n by (cases "i < ps_count ps") auto
    then show ?thesis
      using Some by simp
  qed
qed

section \<open>What the screen shows\<close>

text \<open>The cells of a view in the order of the columns.\<close>

definition seen_cell :: "map_t \<Rightarrow> nat \<Rightarrow> int \<Rightarrow> int \<Rightarrow> nat \<Rightarrow> map_point_t" where
  "seen_cell m msize_x x y i = m ! nat (cell_index msize_x (x - 4 + int (i div 9)) (y - 4 + int (i mod 9)))"

lemma view_cells_upt:
  "view_cells x y = map (\<lambda>i. (x - 4 + int (i div 9), y - 4 + int (i mod 9))) [0..<81]"
proof -
  have u: "[z - 4..z + 4] = map (\<lambda>k. z - 4 + int k) [0..<9]" for z :: int
    by (simp add: upto_rec1 upt_rec)
  have "concat (map (\<lambda>i. map (Pair i) [0..<9]) [0..<9]) = map (\<lambda>i. (i div 9, i mod 9)) [0..<81]"
    by code_simp
  then have "map (\<lambda>(i, j). (x - 4 + int i, y - 4 + int j)) (concat (map (\<lambda>i. map (Pair i) [0..<9]) [0..<9]))
      = map (\<lambda>i. (x - 4 + int (i div 9), y - 4 + int (i mod 9))) [0..<81]"
    by (simp add: comp_def del: upt_rec_numeral)
  then show ?thesis
    by (simp add: view_cells_def u map_concat comp_def del: upt_rec_numeral)
qed

text \<open>The number of a surface in the client's enumeration \<open>surface_type_t\<close>, and the cell of its map.\<close>

fun screen_ground :: "ground_type_t \<Rightarrow> u32" where
  "screen_ground soil = 0"
| "screen_ground sand = 1"
| "screen_ground grass = 2"
| "screen_ground water = 3"

fun screen_object :: "object_type_t \<Rightarrow> u32" where
  "screen_object nothing = 0"
| "screen_object player_obj = 1"
| "screen_object enemy = 2"

definition screen_cell :: "map_point_t \<Rightarrow> cell_t" where
  "screen_cell q = \<lparr>c_surface = (case mp_surface q of empty \<Rightarrow> screen_ground (mp_ground q) | wall \<Rightarrow> 4 | floor_surf \<Rightarrow> 5),
     c_object = screen_object (mp_child_type q)\<rparr>"

lemma screen_cell_codes:
  "screen_cell q = \<lparr>c_surface = of_nat (surface_or_ground q), c_object = of_nat (object_code (mp_child_type q))\<rparr>"
  by (cases "mp_surface q"; cases "mp_ground q"; cases "mp_child_type q")
    (simp_all add: screen_cell_def surface_or_ground_def GROUND_TYPE_CNT_def)

lemma screen_cell_bad: "bad_cell (screen_cell q) \<longleftrightarrow> mp_child_type q = enemy"
  by (cases "mp_surface q"; cases "mp_ground q"; cases "mp_child_type q") (simp_all add: screen_cell_def bad_cell_def word_le_nat_alt)

lemma decode_ints_nth: "j < k \<Longrightarrow> decode_ints k b ! j = le_val (take 4 (drop (4 * j) b))"
proof (induction k b arbitrary: j rule: decode_ints.induct)
  case (2 k b)
  then show ?case
    by (cases j) (simp_all add: add.commute)
qed simp

lemma concat_pairs_nth:
  assumes "i < length xs" "\<And>x. length (f x) = 2"
  shows "concat (map f xs) ! (2 * i) = f (xs ! i) ! 0" "concat (map f xs) ! (2 * i + 1) = f (xs ! i) ! 1"
proof -
  have "concat (map f xs) ! (2 * i) = f (xs ! i) ! 0 \<and> concat (map f xs) ! (2 * i + 1) = f (xs ! i) ! 1"
    using assms(1)
  proof (induction xs arbitrary: i)
    case (Cons x xs)
    then show ?case
      by (cases i) (simp_all add: nth_append assms(2))
  qed simp
  then show "concat (map f xs) ! (2 * i) = f (xs ! i) ! 0" "concat (map f xs) ! (2 * i + 1) = f (xs ! i) ! 1"
    by simp_all
qed

text \<open>The client decodes the numbers of a view to the cells of its screen.\<close>

lemma view_decoded:
  assumes "decode_ints 162 b = concat (map (cell_codes m msize_x) (view_cells x y))" "i < 81"
  shows "cell_of b i = screen_cell (seen_cell m msize_x x y i)"
proof -
  let ?ps = "view_cells x y" and ?q = "seen_cell m msize_x x y i"
  have ps: "length ?ps = 81" "?ps ! i = (x - 4 + int (i div 9), y - 4 + int (i mod 9))"
    using assms(2) by (simp_all add: length_view_cells) (simp add: view_cells_upt del: upt_rec_numeral)
  have two: "length (cell_codes m msize_x p) = 2" for p
    by (simp add: cell_codes_def Let_def split: prod.split)
  have codes: "cell_codes m msize_x (?ps ! i) = [surface_or_ground ?q, object_code (mp_child_type ?q)]"
    by (simp add: ps cell_codes_def seen_cell_def Let_def)
  have "le_val (take 4 (drop (8 * i) b)) = surface_or_ground ?q"
    using decode_ints_nth [of "2 * i" 162 b] concat_pairs_nth(1) [of i ?ps "cell_codes m msize_x"] assms ps(1) two codes
    by simp
  moreover have "le_val (take 4 (drop (8 * i + 4) b)) = object_code (mp_child_type ?q)"
    using decode_ints_nth [of "2 * i + 1" 162 b] concat_pairs_nth(2) [of i ?ps "cell_codes m msize_x"] assms ps(1) two codes
    by (simp add: algebra_simps)
  ultimately show ?thesis
    by (simp add: cell_of_def screen_cell_codes)
qed

text \<open>Only the low byte of the first number is encrypted: the string of a view ends there.\<close>

lemma first_byte:
  assumes "le_val (take 4 b) < 256" "4 \<le> length b"
  shows "set (cstr b) \<subseteq> {of_nat (le_val (take 4 b))}"
proof -
  obtain b0 b1 b2 b3 r where b: "b = b0 # b1 # b2 # b3 # r"
    using assms(2) by (auto simp: numeral_eq_Suc Suc_le_length_iff)
  have v: "le_val (take 4 b) = unat b0 + 256 * (unat b1 + 256 * (unat b2 + 256 * unat b3))"
    by (simp add: b)
  with assms(1) have "256 * (unat b1 + 256 * (unat b2 + 256 * unat b3)) < 256"
    by linarith
  then have z: "unat b1 = 0" "unat b2 = 0" "unat b3 = 0"
    by simp_all
  then have "b1 = 0"
    by (simp add: unat_eq_0)
  with v z show ?thesis
    by (simp add: b)
qed

lemma same_key:
  assumes "msg_wf r" "msg_wf m" "terminated (m_key m)" "cstr (m_key r) = cstr (m_key m)"
  shows "terminated (m_key r)" "hd (m_key r) = 0 \<longleftrightarrow> hd (m_key m) = 0" "unsafe_byte (m_key r) = unsafe_byte (m_key m)"
proof -
  have l: "length (m_key r) = 36" "length (m_key m) = 36"
    using assms(1,2) by (simp_all add: msg_wf_def TOKEN_LEN_def KEY_PAD_def)
  show t: "terminated (m_key r)"
    using cstr_length_less [OF assms(3)] cstr_unterminated [of "m_key r"] l assms(4) by fastforce
  have "hd k = 0 \<longleftrightarrow> cstr k = []" if "length k = 36" for k :: "byte list"
    using that by (cases k) auto
  then show "hd (m_key r) = 0 \<longleftrightarrow> hd (m_key m) = 0"
    using l assms(4) by metis
  show "unsafe_byte (m_key r) = unsafe_byte (m_key m)"
    by (rule unsafe_byte_cstr [OF t assms(3,4)])
qed

lemma cstr_take: "cstr (take n b) = take n (cstr b)"
  by (induction b arbitrary: n) (auto simp: take_Cons' split: nat.splits)

lemma terminated_take: "terminated b \<Longrightarrow> terminated (take n b) \<longleftrightarrow> length (cstr b) < n"
  unfolding terminated_def
proof (induction b arbitrary: n)
  case (Cons x b)
  then show ?case
    by (cases n; cases "x = 0") auto
qed simp

text \<open>A reply that keeps the key of its request goes over the wire.\<close>

lemma reply_arrives:
  assumes "msg_wf r" "msg_wf m" "terminated (m_key m)" "cstr (m_key r) = cstr (m_key m)" "msg_wf fc" "terminated (m_body r)"
    and "hd (m_key m) = 0 \<or> unsafe_byte (m_key m) \<notin> set (cstr (m_body r))"
  obtains r' w where "msg_send r = Inr (r', w)" "msg_recv (Some fc) (Some (a, w)) = Inr (Some (r\<lparr>m_addr := a\<rparr>))"
  using msg_send_recv [OF assms(1,5) _ assms(6), of a] same_key [OF assms(1-4)] assms(7) by metis

text \<open>The labels of a body whose six members are terminated.\<close>

lemma label_loop_eq:
  assumes "\<forall>i \<in> set is. terminated (drop (16 * i) b)"
  shows "label_loop b is = Inr (map (\<lambda>i. cstr (drop (16 * i) b)) is)"
  using assms by (induction "is") (simp_all add: strlen_ok take_cstr)

lemma labels_of_texts:
  assumes "info_texts b = ts" "\<forall>t \<in> set ts. length t < 16" "96 \<le> length b"
  shows "label_loop b [0..<6] = Inr ts"
proof -
  have "terminated (drop (16 * i) b) \<and> cstr (drop (16 * i) b) = cstr (take 16 (drop (16 * i) b))" if "i < 6" for i
  proof -
    let ?t = "take 16 (drop (16 * i) b)"
    have "cstr ?t \<in> set ts"
      using that assms(1) by (auto simp: info_texts_def simp del: upt_rec_numeral)
    then have short: "length (cstr ?t) < 16"
      using assms(2) by blast
    have "length ?t = 16"
      using that assms(3) by simp
    then have t: "terminated ?t"
      using short cstr_unterminated [of ?t] by fastforce
    then have "terminated (drop (16 * i) b)"
      unfolding terminated_def by (meson in_set_takeD)
    moreover have "cstr ?t = cstr (drop (16 * i) b)"
      using cstr_append [OF t, of "drop 16 (drop (16 * i) b)"] by (simp only: append_take_drop_id)
    ultimately show ?thesis
      by simp
  qed
  note d = this
  have "label_loop b [0..<6] = Inr (map (\<lambda>i. cstr (drop (16 * i) b)) [0..<6])"
    using label_loop_eq [of "[0..<6]" b] d by simp
  also have "map (\<lambda>i. cstr (drop (16 * i) b)) [0..<6] = info_texts b"
    unfolding info_texts_def using d by (intro map_cong refl) simp
  finally show ?thesis
    by (simp only: assms(1))
qed

section \<open>Properties\<close>

text \<open>
  A client that connects to an idle server gets a key: its test message goes through one round
  of the receiver, the worker and the sender, and the answer leaves at the client the drawn
  key under which the server has entered the client's address into the table of players.
\<close>

theorem client_handshake:
  assumes "msg_wf fc" and "msg_wf fc'" and "msg_wf fr" and "msg_wf fn" and "length (cl_key st) = TOKEN_LEN"
    and "ps_inv (sv_players s)" "jq_inv (sv_in s)" "1 < jq_room (sv_in s)" "jq_contents (sv_in s) = []"
    and "q_inv (sv_out s)" "0 < q_quota (sv_out s)" "q_contents (sv_out s) = []"
    and "ps_count (sv_players s) < ps_max (sv_players s)" "ps_find (sv_players s) (drawn_key rnd) = None"
  shows "\<exists>hello s1 s2 s3 wire. receiver_step (0 # after) rnd now (Some fr) (Some fn) (Some (a, hello)) s = Inr s1
    \<and> worker_echo s1 = Inr s2 \<and> sender_step (0 # after) rnd' s2 = Inr s3 \<and> sv_wire s3 = sv_wire s @ [(a, wire)]
    \<and> check_connection (Some fc) con (Some fc') (Some (srv, wire)) st = Inr (True, Some hello, st\<lparr>cl_key := drawn_key rnd\<rparr>)
    \<and> ps_find (sv_players s3) (drawn_key rnd) = Some (ps_count (sv_players s))
    \<and> pl_addr (ps_players (sv_players s3) ! ps_count (sv_players s)) = a"
proof -
  let ?p = "length (sv_msgs s)" and ?n = "ps_count (sv_players s)"
  obtain m0 h s1 k nm where h: "msg_init (Some fc) (Some con) = Some m0" "conn_hello m0 = Inr (msg_bytes h)"
      and s1: "receiver_step (0 # after) rnd now (Some fr) (Some fn) (Some (a, msg_bytes h)) s = Inr s1"
      "ps_inv (sv_players s1)" "jq_inv (sv_in s1)" "load (sv_msgs s1) (Some ?p) = Inr k"
      "jq_contents (sv_in s1) = [(QueryProcessingNew, Some ?p), (QueryProcessingNew, Some (Suc ?p))]"
      "ps_players (sv_players s1) = ps_players (sv_players s) @ [\<lparr>pl_token = drawn_key rnd, pl_timestamp = now, pl_addr = a\<rparr>]"
      "sv_out s1 = sv_out s" "sv_wire s1 = sv_wire s"
      and k: "hello_answer rnd a k"
    by (rule hello_received [OF assms(1,3,4,6-9,13,14), of con after now a])
  note kd = hello_answerD [OF k]
  obtain q2 q2' where w: "worker_echo s1 = Inr (s1\<lparr>sv_in := q2, sv_out := q2'\<rparr>)" "q_inv q2'" "q_contents q2' = [Some ?p]"
    using worker_echo_ok [OF s1(3,5,4)] assms(10-12) kd(6) s1(7) by auto
  let ?s2 = "s1\<lparr>sv_in := q2, sv_out := q2'\<rparr>"
  obtain q3 c where snd: "sender_step (0 # after) rnd' ?s2 = Inr (?s2\<lparr>sv_msgs := (sv_msgs ?s2)[?p := None], sv_out := q3,
        sv_wire := sv_wire ?s2 @ [(m_addr k, msg_bytes ((keyed rnd' k)\<lparr>m_body := c\<rparr>))]\<rparr>)"
      "crypto_encrypt (m_body k) (m_key (keyed rnd' k)) = Inr c"
    using sender_step_ok [of ?s2 ?p "[]" k after rnd'] w(2,3) s1(4) kd(1-3) by auto
  note client = hello_returns [OF h k assms(2,5) snd(2), of srv]
  have "ps_find (sv_players s1) (drawn_key rnd) = Some ?n"
    using ps_find_added [OF assms(6) s1(2,6) assms(14)] assms(14) by (simp add: length_drawn_key)
  moreover have "pl_addr (ps_players (sv_players s1) ! ?n) = a"
    using length_ps_players [OF assms(6)] by (simp add: s1(6) nth_append)
  ultimately show ?thesis
    using s1(1,8) w(1) snd(1) client kd(5)
    by (intro exI [of _ "msg_bytes h"] exI [of _ s1] exI [of _ ?s2] exI [of _ "?s2\<lparr>sv_msgs := (sv_msgs ?s2)[?p := None],
        sv_out := q3, sv_wire := sv_wire ?s2 @ [(m_addr k, msg_bytes ((keyed rnd' k)\<lparr>m_body := c\<rparr>))]\<rparr>"]
      exI [of _ "msg_bytes ((keyed rnd' k)\<lparr>m_body := c\<rparr>)"]) simp
qed

lemma client_handshake_witness:
  "\<exists>hello s1 s2 s3 wire st'. receiver_step [0] (\<lambda>i. i) 100 (Some sample_block) (Some sample_block)
      (Some (\<lparr>sin_family = 2, sin_port = 9, s_addr = 7\<rparr>, hello)) sample_server = Inr s1
    \<and> worker_echo s1 = Inr s2 \<and> sender_step [0] (\<lambda>i. i) s2 = Inr s3
    \<and> check_connection (Some sample_block) \<lparr>sin_family = 2, sin_port = 27015, s_addr = 1\<rparr> (Some sample_block)
        (Some (\<lparr>sin_family = 2, sin_port = 27015, s_addr = 1\<rparr>, wire)) sample_client = Inr (True, Some hello, st')
    \<and> ps_find (sv_players s3) (cl_key st') = Some 0"
proof -
  have "length (cl_key sample_client) = TOKEN_LEN"
    by (simp add: sample_client_def TOKEN_LEN_def)
  moreover have "ps_count (sv_players sample_server) = 0" "ps_max (sv_players sample_server) = 4"
    by (simp_all add: sample_server_def players_init_def)
  ultimately show ?thesis
    using client_handshake [OF sample_block_wf sample_block_wf sample_block_wf sample_block_wf _ sample_server_ok(1-4)
      sample_server_out _ sample_server_ok(5), of sample_client "[]" "\<lambda>i. i" 100 "\<lparr>sin_family = 2, sin_port = 9, s_addr = 7\<rparr>"
      "\<lambda>i. i" "\<lparr>sin_family = 2, sin_port = 27015, s_addr = 1\<rparr>" "\<lparr>sin_family = 2, sin_port = 27015, s_addr = 1\<rparr>"]
    by fastforce
qed

text \<open>
  C12. The map on the screen is the map of the game: after the reply to a map request has been
  encrypted, sent, received and decrypted, cell \<open>i\<close> of the client is the cell of the world at
  column \<open>i div 9\<close> and row \<open>i mod 9\<close> of the view, in the client's own numbers, unless the surface
  of the first cell is the unsafe byte of the key.  The coordinates are cut to sixteen characters, and
  are without a terminator when they have as many.  One of the cells lies outside the
  client's arrays of pictures exactly when there is an enemy in the view.
\<close>

theorem map_reaches_client:
  assumes "character_get_by_addr (g_world g) (m_addr m) = Inr p" and "load_char g p = Inr c"
    and "length (w_map (g_world g)) = w_msize_x (g_world g) * w_msize_y (g_world g)"
    and "inland (ch_x c) (ch_y c) (w_msize_x (g_world g)) (w_msize_y (g_world g))"
    and "w_msize_x (g_world g) < 10 ^ 10" and "w_msize_y (g_world g) < 10 ^ 10"
    and "msg_wf fresh" and "msg_wf m" and "terminated (m_key m)" and "msg_wf fc" and "screen_ok (cl_map st)"
    and "hd (m_key m) = 0 \<or> unsafe_byte (m_key m)
      \<noteq> of_nat (surface_or_ground (seen_cell (w_map (g_world g)) (w_msize_x (g_world g)) (ch_x c) (ch_y c) 0))"
  shows "\<exists>r r' w m' st'. gfunc_map fresh g m = Inr (g, Some r) \<and> msg_send r = Inr (r', w)
    \<and> msg_recv (Some fc) (Some (a, w)) = Inr (Some m') \<and> msg_process (Some m') st = Inr st'
    \<and> cl_idle st' = cl_idle st @ [MapRefresh]
    \<and> sm_points (cl_map st')
      = map (\<lambda>i. screen_cell (seen_cell (w_map (g_world g)) (w_msize_x (g_world g)) (ch_x c) (ch_y c) i)) [0..<81]
    \<and> cstr (sm_pos (cl_map st')) = take 16 (view_text c)
    \<and> (terminated (sm_pos (cl_map st')) \<longleftrightarrow> length (view_text c) < 16)
    \<and> (list_ex bad_cell (sm_points (cl_map st')) \<longleftrightarrow>
        (\<exists>i<81. mp_child_type (seen_cell (w_map (g_world g)) (w_msize_x (g_world g)) (ch_x c) (ch_y c) i) = enemy))"
proof -
  let ?seen = "seen_cell (w_map (g_world g)) (w_msize_x (g_world g)) (ch_x c) (ch_y c)"
  obtain r where r: "gfunc_map fresh g m = Inr (g, Some r)" "msg_wf r" "m_type r = map_update" "cstr (m_key r) = cstr (m_key m)"
      "decode_ints 162 (m_body r) = concat (map (cell_codes (w_map (g_world g)) (w_msize_x (g_world g)))
         (view_cells (ch_x c) (ch_y c)))" "cstr (drop 648 (m_body r)) = view_text c"
    using gfunc_map_ok [OF assms(1-9)] by blast
  let ?b = "m_body r"
  have len: "length ?b = BODY_LEN"
    using r(2) by (simp add: msg_wf_def)
  note cells = view_decoded [OF r(5)]
  have first: "le_val (take 4 ?b) = surface_or_ground (?seen 0)"
  proof -
    have codes: "cell_codes (w_map (g_world g)) (w_msize_x (g_world g)) (view_cells (ch_x c) (ch_y c) ! 0)
        = [surface_or_ground (?seen 0), object_code (mp_child_type (?seen 0))]"
      by (simp add: view_cells_upt cell_codes_def seen_cell_def Let_def del: upt_rec_numeral)
    have "decode_ints 162 ?b ! 0 = surface_or_ground (?seen 0)"
      using concat_pairs_nth(1) [of 0 "view_cells (ch_x c) (ch_y c)" "cell_codes (w_map (g_world g)) (w_msize_x (g_world g))"]
      by (simp add: r(5) codes length_view_cells) (simp add: cell_codes_def Let_def split: prod.split)
    then show ?thesis
      using decode_ints_nth [of 0 162 ?b] by simp
  qed
  have small: "surface_or_ground q < 256" for q
    by (cases "mp_surface q"; cases "mp_ground q") (simp_all add: surface_or_ground_def GROUND_TYPE_CNT_def)
  have sub: "set (cstr ?b) \<subseteq> {of_nat (surface_or_ground (?seen 0))}"
    using first_byte [of ?b] first small len by (simp add: BODY_LEN_def)
  have vt: "length (view_text c) < 30"
    by (rule view_text_short [OF assms(4-6)])
  have "length (drop 648 ?b) = 376"
    using len by (simp add: BODY_LEN_def)
  then have "drop 648 ?b \<noteq> view_text c"
    using vt by (auto simp del: length_drop)
  then have tpos: "terminated (drop 648 ?b)"
    using r(6) cstr_unterminated [of "drop 648 ?b"] by metis
  then have "terminated ?b"
    unfolding terminated_def by (meson in_set_dropD)
  then obtain r' w where w: "msg_send r = Inr (r', w)" "msg_recv (Some fc) (Some (a, w)) = Inr (Some (r\<lparr>m_addr := a\<rparr>))"
    using reply_arrives [OF r(2) assms(8,9) r(4) assms(10), of a] assms(12) sub by blast
  have pts: "map (cell_of ?b) [0..<81] = map (\<lambda>i. screen_cell (?seen i)) [0..<81]"
    using cells by simp
  define st' where "st' = st\<lparr>cl_map := \<lparr>sm_points = map (\<lambda>i. screen_cell (?seen i)) [0..<81], sm_pos = take 16 (drop 648 ?b)\<rparr>,
      cl_idle := cl_idle st @ [MapRefresh]\<rparr>"
  have "msg_process (Some (r\<lparr>m_addr := a\<rparr>)) st = Inr st'"
    using gui_map_update_eq [OF assms(11) len] r(3) pts
    by (simp add: msg_process_def msg_type_defs Let_def st'_def MAP_SCALE_def del: upt_rec_numeral)
  moreover have "list_ex bad_cell (map (\<lambda>i. screen_cell (?seen i)) [0..<81]) \<longleftrightarrow> (\<exists>i<81. mp_child_type (?seen i) = enemy)"
    by (auto simp: list_ex_iff screen_cell_bad simp del: upt_rec_numeral)
  ultimately show ?thesis
    using r(1,6) w terminated_take [OF tpos, of 16]
    by (intro exI [of _ r] exI [of _ r'] exI [of _ w] exI [of _ "r\<lparr>m_addr := a\<rparr>"] exI [of _ st'])
      (simp add: st'_def cstr_take del: upt_rec_numeral)
qed

lemma map_reaches_client_witness:
  "\<exists>r r' w m' st'. gfunc_map sample_msg sample_game sample_msg = Inr (sample_game, Some r) \<and> msg_send r = Inr (r', w)
    \<and> msg_recv (Some sample_block) (Some (m_addr sample_block, w)) = Inr (Some m')
    \<and> msg_process (Some m') sample_client = Inr st' \<and> length (sm_points (cl_map st')) = 81
    \<and> cstr (sm_pos (cl_map st')) = of_str ''[4, 4]''"
proof -
  have st: "screen_ok (cl_map sample_client)"
    by (simp add: sample_client_def blank_screen_ok)
  have "hd (m_key sample_msg) = 0"
    by (simp add: sample_msg_def)
  moreover have "take 16 (view_text (sample_char 4 4 human)) = of_str ''[4, 4]''"
    by code_simp
  ultimately show ?thesis
    using map_reaches_client [OF sample_game_ok(1-4) sample_game_small sample_game_ok(8,8,9) sample_block_wf st,
      of "m_addr sample_block"]
    by (fastforce simp del: upt_rec_numeral)
qed

text \<open>
  The labels of the client show the name, the level and the four values of the character,
  each in its place, for a name of less than sixteen characters that avoids the unsafe byte.
\<close>

theorem client_shows_info:
  assumes "character_get_by_addr (g_world g) (m_addr m) = Inr p" and "load_char g p = Inr c"
    and "terminated (ch_name c)" and "char_ints_ok c" and "length junk = NAME_LEN" and "length (cstr (ch_name c)) < 16"
    and "msg_wf fresh" and "msg_wf m" and "terminated (m_key m)" and "msg_wf fc"
    and "hd (m_key m) = 0 \<or> unsafe_byte (m_key m) \<notin> set (cstr (ch_name c))"
  shows "\<exists>r r' w m' cb st1 st2. gfunc_getinfo fresh junk g m = Inr (g, Some r) \<and> msg_send r = Inr (r', w)
    \<and> msg_recv (Some fc) (Some (a, w)) = Inr (Some m') \<and> msg_process (Some m') st = Inr st1
    \<and> cl_idle st1 = cl_idle st @ [cb] \<and> run_callback pw ph im cb st1 = Inr st2
    \<and> cl_labels st2 = [cstr (ch_name c), dec_int (ch_lvl c), dec_int (hp (ch_characteristics c)),
        dec_int (power (ch_characteristics c)), dec_int (armor (ch_characteristics c)), dec_int (evasion (ch_characteristics c))]"
proof -
  let ?ts = "[cstr (ch_name c), dec_int (ch_lvl c), dec_int (hp (ch_characteristics c)),
        dec_int (power (ch_characteristics c)), dec_int (armor (ch_characteristics c)), dec_int (evasion (ch_characteristics c))]"
  obtain r where r: "gfunc_getinfo fresh junk g m = Inr (g, Some r)" "msg_wf r" "m_type r = char_info"
      "cstr (m_key r) = cstr (m_key m)" "info_texts (m_body r) = ?ts"
    using gfunc_getinfo_ok [OF assms(1-5,7-9)] assms(6) by auto
  let ?b = "m_body r"
  have len: "96 \<le> length ?b"
    using r(2) by (simp add: msg_wf_def BODY_LEN_def)
  have "length (dec_int i) < 16" if "int_ok i" for i
    using that dec_int_short(1) [of i 14] by (simp add: int_ok_def)
  then have "\<forall>t \<in> set ?ts. length t < 16"
    using assms(4,6) by (simp add: char_ints_ok_def)
  note labels = labels_of_texts [OF r(5) this len]
  have name: "terminated ?b" "cstr ?b = cstr (ch_name c)"
    using labels by (auto simp: upt_rec rbind_eq_Inr strlen_eq_Inr take_cstr)
  then obtain r' w where w: "msg_send r = Inr (r', w)" "msg_recv (Some fc) (Some (a, w)) = Inr (Some (r\<lparr>m_addr := a\<rparr>))"
    using reply_arrives [OF r(2) assms(8,9) r(4) assms(10), of a] assms(11) by auto
  have "msg_process (Some (r\<lparr>m_addr := a\<rparr>)) st = Inr (st\<lparr>cl_idle := cl_idle st @ [PrintCharInfo ?b]\<rparr>)"
    using r(3) by (simp add: msg_process_def msg_type_defs Let_def gui_print_char_info_def idle_add_def)
  then show ?thesis
    using r(1) w labels
    by (intro exI [of _ r] exI [of _ r'] exI [of _ w] exI [of _ "r\<lparr>m_addr := a\<rparr>"] exI [of _ "PrintCharInfo ?b"]
        exI [of _ "st\<lparr>cl_idle := cl_idle st @ [PrintCharInfo ?b]\<rparr>"]
        exI [of _ "st\<lparr>cl_idle := cl_idle st @ [PrintCharInfo ?b], cl_labels := ?ts\<rparr>"])
      (simp add: run_callback_def print_char_info_def del: upt_rec_numeral)
qed

lemma client_shows_info_witness:
  "\<exists>r r' w m' cb st1 st2. gfunc_getinfo sample_msg (replicate 128 0) sample_game sample_msg = Inr (sample_game, Some r)
    \<and> msg_send r = Inr (r', w) \<and> msg_recv (Some sample_block) (Some (m_addr sample_block, w)) = Inr (Some m')
    \<and> msg_process (Some m') sample_client = Inr st1 \<and> cl_idle st1 = [cb]
    \<and> run_callback (\<lambda>_. 20) (\<lambda>_. 30) (no_images 450 450) cb st1 = Inr st2 \<and> length (cl_labels st2) = 6"
proof -
  have "hd (m_key sample_msg) = 0" "length (replicate 128 (0 :: byte)) = NAME_LEN" "cl_idle sample_client = []"
    by (simp_all add: sample_msg_def NAME_LEN_def sample_client_def)
  then show ?thesis
    using client_shows_info [OF sample_game_ok(1,2,10,11) _ _ sample_game_ok(8,8,9) sample_block_wf, of "replicate 128 0"
      "m_addr sample_block" sample_client "\<lambda>_. 20" "\<lambda>_. 30" "no_images 450 450"] sample_game_ok(12)
    by fastforce
qed

end
