(* ===== verification/GameServer.thy ===== *)
theory GameServer
  imports ServerRun ClientServer
begin

text \<open>
  The server with its game: a worker that runs \<open>query_processing_new\<close> on the message of a job,
  whatever its type, over the shared messages and the two queues; and what a new player sees, from
  the test message of the client to the question for the name and to the greeting.
\<close>

section \<open>The worker\<close>

text \<open>
  \<open>query_processing_new\<close> in \<open>QueryProcessing\<close> collects the messages that it makes, here they become
  blocks of the server and go into the outgoing queue in the order in which they were made.  The
  dispatcher starts with none.
\<close>

definition no_answers :: "nat \<Rightarrow> msg_t queue_t" where
  "no_answers quota =
     \<lparr>q_count = 0, q_first = None, q_last = None, q_heap = [], q_quota = quota, q_junk = (\<lambda>_. None)\<rparr>"

fun post :: "msg_t list \<Rightarrow> server_t \<Rightarrow> server_t res" where
  "post [] s = Inr s"
| "post (r # rs) s =
     (let (p, h) = alloc (sv_msgs s) r in
      rbind (queue_enqueue p (sv_out s)) (\<lambda>q. post rs (s\<lparr>sv_msgs := h, sv_out := q\<rparr>)))"

text \<open>
  What \<open>do_job\<close> does with a message of the server.  A message that is its own answer goes on as it is,
  any other one is never looked at again (and never freed).
\<close>

definition run_job :: "msg_t \<Rightarrow> byte list \<Rightarrow> ptr \<Rightarrow> server_t \<Rightarrow> game_t \<Rightarrow> (server_t \<times> game_t) res" where
  "run_job fresh junk p s g =
     rbind (load (sv_msgs s) p) (\<lambda>m.
       if m_type m = conn_test \<or> m_type m = online_list \<or> m_type m = chat_msg
       then rbind (answer_itself p s) (\<lambda>s. Inr (s, g))
       else
         rbind (query_processing_new fresh junk (g\<lparr>g_out := no_answers (q_quota (sv_out s))\<rparr>) m) (\<lambda>g.
         rbind (post (q_contents (g_out g)) s) (\<lambda>s. Inr (s, g))))"

definition worker_step :: "msg_t \<Rightarrow> byte list \<Rightarrow> server_t \<Rightarrow> game_t \<Rightarrow> (server_t \<times> game_t) res" where
  "worker_step fresh junk s g =
     rbind (work_once (sv_in s)) (\<lambda>(job, q). case job of
       None \<Rightarrow> Inr (s\<lparr>sv_in := q\<rparr>, g)
     | Some (QueryProcessingNew, p) \<Rightarrow> run_job fresh junk p (s\<lparr>sv_in := q\<rparr>) g)"

section \<open>Lemmas\<close>

lemma no_answers_ok: "q_inv (no_answers n)" "q_contents (no_answers n) = []" "q_quota (no_answers n) = n"
  by (simp_all add: no_answers_def q_inv_def q_contents_def q_addrs_def)

text \<open>On a message that is its own answer the worker is that of \<open>ServerThreads\<close>.\<close>

lemma worker_step_echo:
  assumes "jq_inv (sv_in s)" "jq_contents (sv_in s) = (QueryProcessingNew, p) # js"
    "load (sv_msgs s) p = Inr m" "is_echo m" "worker_echo s = Inr s'"
  shows "worker_step fresh junk s g = Inr (s', g)"
proof -
  obtain q where "work_once (sv_in s) = Inr (Some (QueryProcessingNew, p), q)"
    using work_once_spec [OF assms(1,2)] by blast
  then show ?thesis
    using assms(3-5) by (simp add: worker_step_def run_job_def worker_echo_def is_echo_def)
qed

lemma worker_step_pass:
  assumes "jq_inv (sv_in s)" "jq_contents (sv_in s) = (QueryProcessingNew, Some p) # js"
    "load (sv_msgs s) (Some p) = Inr m" "is_echo m" "q_inv (sv_out s)" "0 < q_quota (sv_out s)"
  shows "\<exists>q q'. worker_step fresh junk s g = Inr (s\<lparr>sv_in := q, sv_out := q'\<rparr>, g) \<and> jq_inv q \<and> jq_contents q = js
    \<and> q_inv q' \<and> q_contents q' = q_contents (sv_out s) @ [Some p] \<and> q_quota q' = q_quota (sv_out s) - 1"
proof -
  obtain q where q: "work_once (sv_in s) = Inr (Some (QueryProcessingNew, Some p), q)" "jq_inv q" "jq_contents q = js"
    using work_once_spec [OF assms(1,2)] by blast
  obtain q' where "queue_enqueue (Some p) (sv_out s) = Inr q'" "q_inv q'"
      "q_contents q' = q_contents (sv_out s) @ [Some p]" "q_quota q' = q_quota (sv_out s) - 1"
    using queue_enqueue_spec [OF assms(5,6)] by blast
  then show ?thesis
    using q assms(3,4)
    by (intro exI [of _ q] exI [of _ q']) (simp add: worker_step_def run_job_def answer_itself_def is_echo_def)
qed

lemma worker_step_reply:
  assumes "jq_inv (sv_in s)" "jq_contents (sv_in s) = (QueryProcessingNew, p) # js"
    "load (sv_msgs s) p = Inr m" "\<not> is_echo m" "q_inv (sv_out s)" "0 < q_quota (sv_out s)"
    "query_processing_new fresh junk (g\<lparr>g_out := no_answers (q_quota (sv_out s))\<rparr>) m = Inr g'"
    "q_contents (g_out g') = [r]"
  shows "\<exists>q q'. worker_step fresh junk s g = Inr (s\<lparr>sv_in := q, sv_msgs := sv_msgs s @ [Some r], sv_out := q'\<rparr>, g')
    \<and> jq_inv q \<and> jq_contents q = js \<and> q_inv q' \<and> q_contents q' = q_contents (sv_out s) @ [Some (length (sv_msgs s))]"
proof -
  obtain q where q: "work_once (sv_in s) = Inr (Some (QueryProcessingNew, p), q)" "jq_inv q" "jq_contents q = js"
    using work_once_spec [OF assms(1,2)] by blast
  obtain q' where "queue_enqueue (Some (length (sv_msgs s))) (sv_out s) = Inr q'" "q_inv q'"
      "q_contents q' = q_contents (sv_out s) @ [Some (length (sv_msgs s))]"
    using queue_enqueue_spec [OF assms(5,6)] by blast
  then show ?thesis
    using q assms(3,4,7,8)
    by (intro exI [of _ q] exI [of _ q']) (simp add: worker_step_def run_job_def is_echo_def alloc_def)
qed

text \<open>A text that answers a message comes to the main window of the client.\<close>

lemma answer_printed:
  fixes st :: "'p client_t"
  assumes "answers r m tx" "msg_wf m" "terminated (m_key m)" "hd (m_key m) \<noteq> 0" "unsafe_byte (m_key m) \<notin> set tx"
    "msg_wf fc" "crypto_encrypt (m_body r) (m_key (keyed rnd r)) = Inr c" "cl_idle st = []"
  shows "\<exists>m' st1 st2. msg_recv (Some fc) (Some (srv, msg_bytes ((keyed rnd r)\<lparr>m_body := c\<rparr>))) = Inr (Some m')
    \<and> msg_process (Some m') st = Inr st1 \<and> idle_callbacks pw ph im (cl_idle st1) st1 = Inr st2
    \<and> st2 = st\<lparr>cl_idle := [], cl_main := cl_main st @ 10 # tx\<rparr>"
proof -
  have r: "msg_wf r" "m_type r = main_msg" "cstr (m_key r) = cstr (m_key m)" "terminated (m_body r)" "cstr (m_body r) = tx"
    using assms(1) by (simp_all add: answers_def)
  note key = same_key [OF r(1) assms(2,3) r(3)]
  have same: "keyed rnd r = r"
    using key(2) assms(4) by (simp add: keyed_def)
  have "msg_recv (Some fc) (Some (srv, msg_bytes ((keyed rnd r)\<lparr>m_body := c\<rparr>))) = Inr (Some (r\<lparr>m_addr := srv\<rparr>))"
    using keyed_recv [OF r(1) key(1) r(4) assms(6,7), of srv] assms(5) by (simp add: same key(3) r(5))
  moreover have "msg_process (Some (r\<lparr>m_addr := srv\<rparr>)) st = Inr (st\<lparr>cl_idle := [PrintMessage MainText (m_body r)]\<rparr>)"
    using r(2) assms(8) by (simp add: msg_process_def gui_print_main_msg_def idle_add_def Let_def)
  moreover have "idle_callbacks pw ph im [PrintMessage MainText (m_body r)] (st\<lparr>cl_idle := [PrintMessage MainText (m_body r)]\<rparr>)
      = Inr (st\<lparr>cl_idle := [], cl_main := cl_main st @ 10 # tx\<rparr>)"
    using r(4) take_cstr [of "m_body r"] unfolding r(5) by (simp add: run_callback_def print_message_and_scroll_def strlen_ok r(5) Let_def)
  ultimately show ?thesis
    by (intro exI [of _ "r\<lparr>m_addr := srv\<rparr>"]) simp
qed

text \<open>The question for the name, from the note that logs a player in.\<close>

definition world_ready :: "world_t \<Rightarrow> bool" where
  "world_ready w \<longleftrightarrow> table_live (w_characters w) (w_chars w) \<and> addrs_live w
     \<and> length (w_map w) = w_msize_x w * w_msize_y w \<and> on_map 76 134 (w_msize_x w) (w_msize_y w)"

text \<open>The note that logs a player in is answered by the question for its name.\<close>

lemma login_answer:
  assumes "jq_inv (sv_in s)" "jq_contents (sv_in s) = (QueryProcessingNew, p) # js" "load (sv_msgs s) p = Inr nm"
    "q_inv (sv_out s)" "0 < q_quota (sv_out s)" "m_type nm = logged_in" "msg_wf nm" "terminated (m_key nm)"
    "world_ready (g_world g)" "length junk = NAME_LEN" "msg_wf fresh"
  shows "\<exists>q q' g' r b. worker_step fresh junk s g = Inr (s\<lparr>sv_in := q, sv_msgs := sv_msgs s @ [Some r], sv_out := q'\<rparr>, g')
    \<and> q_inv q' \<and> q_contents q' = q_contents (sv_out s) @ [Some (length (sv_msgs s))]
    \<and> answers r nm (of_str ''What is your name?'')
    \<and> character_get_by_addr (g_world g') (m_addr nm) = Inr (Some b)"
proof -
  let ?g = "g\<lparr>g_out := no_answers (q_quota (sv_out s))\<rparr>"
  have g: "table_live (w_characters (g_world ?g)) (w_chars (g_world ?g))" "addrs_live (g_world ?g)"
      "length (w_map (g_world ?g)) = w_msize_x (g_world ?g) * w_msize_y (g_world ?g)"
      "on_map 76 134 (w_msize_x (g_world ?g)) (w_msize_y (g_world ?g))" "q_inv (g_out ?g)" "0 < q_quota (g_out ?g)"
    using assms(5,9) by (simp_all add: world_ready_def no_answers_ok)
  obtain g' r b where g': "query_processing_new fresh junk ?g nm = Inr g'" "q_contents (g_out g') = [r]"
      "answers r nm (of_str ''What is your name?'')" "character_get_by_addr (g_world g') (m_addr nm) = Inr (Some b)"
    using query_logged_in [OF g(1-4) assms(6,10) g(5,6) assms(7,11,8)] by (auto simp: no_answers_ok)
  have "\<not> is_echo nm"
    using assms(6) by (simp add: is_echo_def msg_type_defs)
  from worker_step_reply [OF assms(1-3) this assms(4,5) g'(1,2)] g'(3,4) show ?thesis
    by metis
qed

lemma hello_key:
  assumes "hello_answer rnd a k"
  shows "hd (drawn_key rnd @ xs) \<noteq> 0"
proof -
  obtain b bs where "m_key k = b # bs"
    using assms by (cases "m_key k") (auto simp: hello_answer_def msg_wf_def TOKEN_LEN_def)
  then have "b \<noteq> 0" "b # take 32 bs = drawn_key rnd"
    using assms by (simp_all add: hello_answer_def TOKEN_LEN_def)
  then show ?thesis
    by (metis append_Cons list.sel(1))
qed

lemma unsafe_user_key:
  assumes "terminated (k @ drop TOKEN_LEN (m_key fc))"
  shows "unsafe_byte (user_key fc k n) = unsafe_byte (k @ drop TOKEN_LEN (m_key fc))"
proof -
  have "cstr (user_key fc k n) = cstr (k @ drop TOKEN_LEN (m_key fc))"
    using cstr_append [OF assms, of "le_bytes 8 n"] by (simp add: user_key_def)
  then show ?thesis
    using assms by (intro unsafe_byte_cstr) (auto simp: user_key_def terminated_def)
qed

section \<open>Properties\<close>


text \<open>The address that both ends of the sample session are bound to.\<close>

definition sample_host :: sockaddr_in where
  "sample_host = \<lparr>sin_family = 2, sin_port = 27015, s_addr = 1\<rparr>"

text \<open>A map on which the place of new players lies.\<close>

definition wide_game :: game_t where
  "wide_game = sample_game\<lparr>g_world := (g_world sample_game)
     \<lparr>w_map := replicate 40000 (sample_cell 0), w_msize_x := 200, w_msize_y := 200\<rparr>\<rparr>"



text \<open>A server whose table holds the player of the sample client.\<close>

lemma sample_player_server:
  obtains s :: server_t where "ps_inv (sv_players s)" "ps_find (sv_players s) (cl_key sample_client) = Some (ps_count (sv_players sample_server))"
      "jq_inv (sv_in s)" "1 < jq_room (sv_in s)" "jq_contents (sv_in s) = []"
      "q_inv (sv_out s)" "0 < q_quota (sv_out s)" "q_contents (sv_out s) = []"
proof -
  have c: "length (cl_key sample_client) = TOKEN_LEN"
    by (simp add: sample_client_def TOKEN_LEN_def)
  obtain ps where ps: "ps_inv ps" "ps_players ps
      = ps_players (sv_players sample_server) @ [\<lparr>pl_token = take TOKEN_LEN (cl_key sample_client), pl_timestamp = 0, pl_addr = m_addr sample_msg\<rparr>]"
    using player_add_room [OF sample_server_ok(1), of "cl_key sample_client" "m_addr sample_msg" 0] c
    by (auto simp: sample_server_def players_init_def)
  have "ps_find ps (cl_key sample_client) = Some (ps_count (sv_players sample_server))"
    by (rule ps_find_added [OF sample_server_ok(1) ps sample_server_ok(5)]) simp
  then show thesis
    using that [of "sample_server\<lparr>sv_players := ps\<rparr>"] ps(1) sample_server_ok sample_server_out by simp
qed


end
