(* ===== verification/ServerMain.thy ===== *)
theory ServerMain
  imports ServerRun Config GameStart Connection ThreadPool Options
begin

text \<open>
  The start of the server (\<open>main\<close> of \<open>server/main.c\<close>): configuration, its numbers, the map, the
  table of commands, the players, the thread pool and the two queues that the threads then work on.  The file
  system is a function from names to contents, the network what its calls answer.
\<close>

section \<open>Numbers of the configuration\<close>

text \<open>\<open>atoi(config_getopt(cfg, key))\<close>; \<open>behind\<close> is what follows the block of a value in memory.\<close>

definition option_number :: "byte list \<Rightarrow> cfg_t \<Rightarrow> string \<Rightarrow> int res" where
  "option_number behind cfg key =
     rbind (config_getopt cfg (c_str key)) (\<lambda>v. case v of None \<Rightarrow> Inl NullDeref | Some v \<Rightarrow> atoi (v @ behind))"

record settings_t =
  st_max_players :: u64
  st_server_port :: u16
  st_timeout :: u64
  st_map_name :: "byte list option"

text \<open>The four assignments; the conversions are those to \<open>size_t\<close> and \<open>unsigned short\<close>.\<close>

definition parse_settings :: "byte list \<Rightarrow> cfg_t \<Rightarrow> settings_t res" where
  "parse_settings behind cfg =
     rbind (option_number behind cfg ''max_players'') (\<lambda>max_players.
     rbind (option_number behind cfg ''server_port'') (\<lambda>server_port.
     rbind (option_number behind cfg ''timeout'') (\<lambda>timeout.
     rbind (config_getopt cfg (c_str ''map'')) (\<lambda>map_name.
       Inr \<lparr>st_max_players = of_int max_players, st_server_port = of_int server_port, st_timeout = of_int timeout,
         st_map_name = map_name\<rparr>))))"

section \<open>Start\<close>

text \<open>The configuration of the file, or the default one if it cannot be opened.\<close>

definition load_configuration :: "nat \<Rightarrow> byte list \<Rightarrow> byte list \<Rightarrow> nat \<Rightarrow> byte list option \<Rightarrow> cfg_t res" where
  "load_configuration mem buffer behind fuel config_file =
     rbind (config_load mem buffer config_file) (\<lambda>cfg. case cfg of
       Some cfg \<Rightarrow> Inr cfg
     | None \<Rightarrow> rbind (config_default behind fuel) (\<lambda>(cfg, _). Inr cfg))"

text \<open>What \<open>game_init\<close> finds under the name: null, no file, or its content.\<close>

definition open_map :: "(byte list \<Rightarrow> byte list option) \<Rightarrow> byte list \<Rightarrow> byte list option \<Rightarrow> byte list option option res" where
  "open_map files behind map_name = (case map_name of
     None \<Rightarrow> Inr None
   | Some v \<Rightarrow> rbind (strlen (v @ behind)) (\<lambda>n. Inr (Some (files (take n (v @ behind))))))"

record started_t =
  sd_server :: server_t
  sd_handler :: "(job_function_t, ptr) threadpool_t"
  sd_main :: main_t
  sd_con :: ptr
  sd_conns :: "conn_t heap"
  sd_timeout :: u64
  sd_cfg :: cfg_t

text \<open>
  \<open>None\<close> is the return with \<open>EXIT_ERROR\<close>.  \<open>block\<close> is what \<open>malloc\<close> gives for the outgoing queue and
  \<open>room\<close> the blocks for the thread pool and its jobs; the threads use a queue without asking whether
  there is one.
\<close>

definition server_main ::
  "nat \<Rightarrow> byte list \<Rightarrow> byte list \<Rightarrow> nat \<Rightarrow> byte list option \<Rightarrow> (byte list \<Rightarrow> byte list option) \<Rightarrow> net_env_t
    \<Rightarrow> conn_t \<Rightarrow> nat \<Rightarrow> ptr queue_t option \<Rightarrow> main_t \<Rightarrow> started_t option res" where
  "server_main mem buffer behind fuel config_file files env junk room block s =
     rbind (load_configuration mem buffer behind fuel config_file) (\<lambda>cfg.
     rbind (parse_settings behind cfg) (\<lambda>st.
     rbind (open_map files behind (st_map_name st)) (\<lambda>fmap.
     rbind (game_init s fmap) (\<lambda>(ok, s).
       if \<not> ok then Inr None
       else
         rbind (conn_init env (st_server_port st) True junk []) (\<lambda>(con, conns).
         if con = None then Inr None
         else
         rbind gfunc_init (\<lambda>(err, funcs).
         rbind (threadpool_create 2 room) (\<lambda>handler.
         case (threadpool_get_jqueue handler, queue_init block) of
           (Some jobs, Some out) \<Rightarrow>
             Inr (Some \<lparr>sd_server = \<lparr>sv_msgs = [], sv_in = jobs, sv_out = out,
                   sv_players = players_init (unat (st_max_players st)), sv_wire = []\<rparr>,
                 sd_handler = the handler,
                 sd_main = s\<lparr>mn_game := (mn_game s)\<lparr>g_funcs := funcs\<rparr>\<rparr>,
                 sd_con = con, sd_conns = conns, sd_timeout = st_timeout st, sd_cfg = cfg\<rparr>)
         | _ \<Rightarrow> Inl NullDeref)))))))"

text \<open>
  The options before that: \<open>-c\<close> names the file of the configuration, and any other one, \<open>-m\<close>
  included, prints the usage and ends the program.
\<close>

fun server_options :: "(byte \<times> byte list option) list \<Rightarrow> byte list option \<Rightarrow> byte list option option" where
  "server_options [] config_file = Some config_file"
| "server_options ((opt, optarg) # xs) config_file =
     (if opt = of_char CHR ''c'' then server_options xs optarg else None)"

datatype server_exit = Usage | Failed | Started started_t

definition server_program ::
  "nat \<Rightarrow> byte list \<Rightarrow> byte list \<Rightarrow> nat \<Rightarrow> byte list list \<Rightarrow> (byte list \<Rightarrow> byte list option) \<Rightarrow> net_env_t
    \<Rightarrow> conn_t \<Rightarrow> nat \<Rightarrow> ptr queue_t option \<Rightarrow> main_t \<Rightarrow> server_exit res" where
  "server_program mem buffer behind fuel args files env junk room block s =
     (case server_options (getopt (of_str ''hc:m:'') [] args) (Some (of_str ''server.conf'')) of
        None \<Rightarrow> Inr Usage
      | Some None \<Rightarrow> Inl NullDeref
      | Some (Some config_file) \<Rightarrow>
          rbind (server_main mem buffer behind fuel (files config_file) files env junk room block s) (\<lambda>r.
            Inr (case r of None \<Rightarrow> Failed | Some sd \<Rightarrow> Started sd)))"

section \<open>Lemmas\<close>

text \<open>The numbers of the default configuration, where the memory behind its values is zero.\<close>

lemma default_numbers:
  "atoi (of_str ''100'' @ 0 # r) = Inr 100" "atoi (of_str ''27015'' @ 0 # r) = Inr 27015"
  by (simp_all add: atoi_def of_str_def isspace_def as_int_def)

lemma default_settings:
  assumes "\<forall>(k, v) \<in> set config_defaults. config_getopt cfg k = Inr (Some v)"
  shows "parse_settings (0 # r) cfg = Inr \<lparr>st_max_players = 100, st_server_port = 27015, st_timeout = 100,
    st_map_name = Some (of_str ''ver1.map'')\<rparr>"
proof -
  have g: "config_getopt cfg (c_str ''max_players'') = Inr (Some (of_str ''100''))"
    "config_getopt cfg (c_str ''server_port'') = Inr (Some (of_str ''27015''))"
    "config_getopt cfg (c_str ''timeout'') = Inr (Some (of_str ''100''))"
    "config_getopt cfg (c_str ''map'') = Inr (Some (of_str ''ver1.map''))"
    using assms unfolding config_defaults_def by simp_all
  show ?thesis
    using default_numbers by (simp add: parse_settings_def option_number_def g)
qed

lemma no_config_file: "config_load 3 buffer None = Inr None"
proof -
  have "is_ok (config_destroy (config_init 3 MAX_OPTS))"
    by code_simp
  then show ?thesis
    by (auto simp: config_load_def is_ok_iff)
qed

text \<open>The pool that \<open>threadpool_create\<close> makes when there is memory for it.\<close>

definition new_pool :: "nat \<Rightarrow> nat \<Rightarrow> ('f, 'a) threadpool_t" where
  "new_pool n quota =
     \<lparr>tp_threads = replicate n LoopTest, tp_jqueue = Some (jqueue_create (quota - 3)), tp_active = True,
      tp_mutex = None, tp_threads_cnt = n, tp_owed = 0, tp_destroy = Running, tp_calls = []\<rparr>"

lemma create_new_pool: "3 \<le> quota \<Longrightarrow> threadpool_create n quota = Inr (Some (new_pool n quota))"
  by (simp add: threadpool_create_def new_pool_def)

text \<open>The state the default configuration leads to.\<close>

definition default_start ::
  "cfg_t \<Rightarrow> nat \<Rightarrow> ptr queue_t \<Rightarrow> ptr \<Rightarrow> conn_t heap \<Rightarrow> main_t \<Rightarrow> gfunc str_hashtable_t \<Rightarrow> started_t" where
  "default_start cfg room out con conns s t =
     \<lparr>sd_server = \<lparr>sv_msgs = [], sv_in = jqueue_create (room - 3), sv_out = out, sv_players = players_init 100, sv_wire = []\<rparr>,
       sd_handler = new_pool 2 room, sd_main = s\<lparr>mn_game := (mn_game s)\<lparr>g_funcs := t\<rparr>\<rparr>, sd_con = con, sd_conns = conns, sd_timeout = 100,
       sd_cfg = cfg\<rparr>"

lemma start_default:
  assumes "load_configuration 3 buffer (0 # r) fuel config_file = Inr cfg"
    and "\<forall>(k, v) \<in> set config_defaults. config_getopt cfg k = Inr (Some v)"
    and "files (of_str ''ver1.map'') = Some fmap" and "game_init s (Some (Some fmap)) = Inr (True, s1)" and "conn_opens env"
    and "gfunc_init = Inr (err, t)" and "queue_init (Some q) = Some out" and "3 \<le> room"
  shows "server_main 3 buffer (0 # r) fuel config_file files env junk room (Some q) s
    = (if ne_bind env
       then Inr (Some (default_start cfg room out (Some 0)
         [Some \<lparr>cn_addr = \<lparr>sin_family = AF_INET, sin_port = htons 27015, s_addr = the (ne_host env)\<rparr>\<rparr>] s1 t))
       else Inl UseAfterFree)"
proof -
  have "cstr (of_str ''ver1.map'' @ 0 # r) = of_str ''ver1.map''"
    by (rule cstr_append_zero) (simp add: of_str_def)
  then have "open_map files (0 # r) (Some (of_str ''ver1.map'')) = Inr (Some (Some fmap))"
    using assms(3) by (simp add: open_map_def strlen_ok take_cstr)
  then show ?thesis
    using assms(4,7) conn_init_open [OF assms(5), of True 27015 junk "[]"] conn_init_bind_fails [OF assms(5), of 27015 junk "[]"]
    by (simp add: server_main_def assms(1,6) default_settings [OF assms(2)] default_start_def
      create_new_pool [OF assms(8)] threadpool_get_jqueue_def) (simp add: new_pool_def)
qed

text \<open>A server that runs, whatever it is to show.\<close>

lemma program_default:
  assumes "server_options (getopt (of_str ''hc:m:'') [] args) (Some (of_str ''server.conf'')) = Some (Some name)"
    and "files name = None" and "5 \<le> fuel" and "length buffer = MAX_LEN" and "files (of_str ''ver1.map'') = Some fmap"
    and "game_init s (Some (Some fmap)) = Inr (True, s1)" and "conn_opens env" and "ne_bind env" and "3 \<le> room"
  shows "\<exists>sd. server_program 3 buffer (0 # r) fuel args files env junk room (Some q) s = Inr (Started sd)
    \<and> sd_handler sd = new_pool 2 room \<and> q_inv (sv_out (sd_server sd))"
proof -
  obtain cfg saved where cfg: "config_default (0 # r) fuel = Inr (cfg, saved)"
      "\<forall>(k, v) \<in> set config_defaults. config_getopt cfg k = Inr (Some v)"
    using config_default_ok [OF assms(3,4), of r] by fast
  obtain t where t: "gfunc_init = Inr (None, t)"
    using gfunc_init_get by blast
  obtain out where out: "queue_init (Some q) = Some out" "q_inv out"
    using queue_init_inv [of q] by (auto simp: queue_init_def)
  have "load_configuration 3 buffer (0 # r) fuel None = Inr cfg"
    by (simp add: load_configuration_def no_config_file cfg(1))
  from start_default [where files = files, OF this cfg(2) assms(5-7) t out(1) assms(9)] show ?thesis
    using out(2) by (simp add: server_program_def assms(1,2,8) default_start_def)
qed

section \<open>Properties\<close>


text \<open>The options \<open>-c game.conf\<close>, and the declared option \<open>-m\<close>.\<close>

lemma config_option:
  "server_options (getopt (of_str ''hc:m:'') [] [of_str ''-c'', of_str ''game.conf'']) f = Some (Some (of_str ''game.conf''))"
  "server_options (getopt (of_str ''hc:m:'') [] [of_str ''-m'', of_str ''ver1.map'']) f = None"
  by (cases f; code_simp)+


end
