(* ===== verification/ServerLife.thy ===== *)
theory ServerLife
  imports ServerMain ThreadPoolRun
begin

text \<open>
  The life of the server between its start and its end: how the threads get their arguments
  (\<open>run_input_thread\<close> and the other three functions of \<open>server/threads.c\<close>), and
  what \<open>main\<close> of \<open>server/main.c\<close> does after \<open>wait_signal\<close>.
\<close>

section \<open>Arguments of the threads\<close>

text \<open>A variable of a function is a block that is gone when the function returns.\<close>

record receiver_args =
  ra_in :: ptr
  ra_con :: ptr
  ra_out :: ptr
  ra_is_terminated :: ptr
  ra_players :: ptr

record sender_arg =
  sa_queue :: ptr
  sa_con :: ptr
  sa_is_terminated :: ptr

record server_arg =
  va_in :: ptr
  va_is_terminated :: ptr
  va_timeout :: u64
  va_players :: ptr

text \<open>
  The calls up to \<open>pthread_create\<close>: the address that the new thread is given.  \<open>junk\<close> is what the
  variable holds before, \<open>fresh\<close> the block that \<open>malloc\<close> gives to \<open>run_server_thread\<close>, which
  uses it unchecked.
\<close>

definition run_input_thread ::
  "receiver_args \<Rightarrow> ptr \<Rightarrow> ptr \<Rightarrow> ptr \<Rightarrow> ptr \<Rightarrow> receiver_args heap \<Rightarrow> ptr \<times> receiver_args heap" where
  "run_input_thread junk inq out con players h =
     alloc h (junk\<lparr>ra_in := inq, ra_out := out, ra_con := con, ra_players := players\<rparr>)"

definition run_output_thread :: "sender_arg \<Rightarrow> ptr \<Rightarrow> ptr \<Rightarrow> sender_arg heap \<Rightarrow> ptr \<times> sender_arg heap" where
  "run_output_thread junk queue con h = alloc h (junk\<lparr>sa_queue := queue, sa_con := con\<rparr>)"

definition run_server_thread ::
  "server_arg option \<Rightarrow> ptr \<Rightarrow> ptr \<Rightarrow> u64 \<Rightarrow> ptr \<Rightarrow> server_arg heap \<Rightarrow> (ptr \<times> server_arg heap) res" where
  "run_server_thread fresh inq is_stopped timeout players h = (case fresh of
     None \<Rightarrow> Inl NullDeref
   | Some junk \<Rightarrow>
       let (p, h) = alloc h junk in
       rbind (store h p (junk\<lparr>va_in := inq, va_is_terminated := is_stopped, va_timeout := timeout, va_players := players\<rparr>))
         (\<lambda>h. Inr (p, h)))"

text \<open>\<open>run_game_thread\<close> passes the address of its parameter, which points to the flag.\<close>

definition run_game_thread :: "ptr \<Rightarrow> ptr heap \<Rightarrow> ptr \<times> ptr heap" where
  "run_game_thread is_stopped h = alloc h is_stopped"

text \<open>
  What happens then: the function returns, with its variables when the argument is one of them
  (\<open>local\<close>), or the thread reads the arguments, as the receiver and the sender do in every
  round.  The result lists what was read.
\<close>

datatype start_act = Return | ReadArgs

fun thread_reads :: "bool \<Rightarrow> ptr \<Rightarrow> start_act list \<Rightarrow> 'a heap \<Rightarrow> 'a list res" where
  "thread_reads local p [] h = Inr []"
| "thread_reads local p (Return # as) h = rbind (if local then free h p else Inr h) (thread_reads local p as)"
| "thread_reads local p (ReadArgs # as) h = rbind (load h p) (\<lambda>x. rbind (thread_reads local p as h) (\<lambda>xs. Inr (x # xs)))"

lemma thread_reads_live:
  assumes "load h p = Inr x" "Return \<notin> set as \<or> \<not> local"
  shows "thread_reads local p as h = Inr (replicate (count_list as ReadArgs) x)"
  using assms by (induction local p as h rule: thread_reads.induct) auto

lemma thread_reads_local:
  assumes "load h p = Inr x" "Return \<notin> set as" "Return \<notin> set bs"
  shows "thread_reads True p (as @ Return # bs) h
    = (if bs = [] then Inr (replicate (count_list as ReadArgs) x) else Inl UseAfterFree)"
  using assms
proof (induction as)
  case Nil
  have p: "p \<noteq> None" "free h p = Inr (h[the p := None])" "the p < length h"
    using Nil(1) load_InrD [OF Nil(1)] by (auto simp: free_def)
  have "thread_reads True p bs (h[the p := None]) = Inl UseAfterFree" if "bs \<noteq> []"
  proof -
    obtain b bs' where b: "bs = b # bs'"
      using \<open>bs \<noteq> []\<close> by (cases bs) auto
    then have "b = ReadArgs"
      using Nil(3) by (cases b) auto
    then show ?thesis
      using b p by (auto simp: load_def)
  qed
  then show ?case
    using p by auto
next
  case (Cons a as)
  then show ?case
    by (cases a) auto
qed

text \<open>
  The receiver and the sender read their arguments intact exactly as long as the function that
  started them has not returned, and so does the thread of the game, whose argument is the
  pointer to the flag where it expects the flag; the thread of the server always does.
\<close>

lemma thread_args:
  assumes "Return \<notin> set as" "Return \<notin> set bs"
  shows "(case run_input_thread junk inq out con players h of (p, h) \<Rightarrow> thread_reads True p (as @ Return # bs) h)
      = (if bs = [] then Inr (replicate (count_list as ReadArgs)
           (junk\<lparr>ra_in := inq, ra_out := out, ra_con := con, ra_players := players\<rparr>)) else Inl UseAfterFree)"
    "(case run_output_thread junk' queue con h' of (p, h) \<Rightarrow> thread_reads True p (as @ Return # bs) h)
      = (if bs = [] then Inr (replicate (count_list as ReadArgs) (junk'\<lparr>sa_queue := queue, sa_con := con\<rparr>))
         else Inl UseAfterFree)"
    "(case run_game_thread stopped g of (p, g) \<Rightarrow> thread_reads True p (as @ Return # bs) g)
      = (if bs = [] then Inr (replicate (count_list as ReadArgs) stopped) else Inl UseAfterFree)"
    "rbind (run_server_thread (Some fresh) inq is_stopped timeout players h'')
        (\<lambda>(p, h). thread_reads False p (as @ Return # bs) h)
      = Inr (replicate (count_list (as @ bs) ReadArgs) (fresh\<lparr>va_in := inq, va_is_terminated := is_stopped,
          va_timeout := timeout, va_players := players\<rparr>))"
proof -
  show "(case run_input_thread junk inq out con players h of (p, h) \<Rightarrow> thread_reads True p (as @ Return # bs) h)
      = (if bs = [] then Inr (replicate (count_list as ReadArgs)
           (junk\<lparr>ra_in := inq, ra_out := out, ra_con := con, ra_players := players\<rparr>)) else Inl UseAfterFree)"
    by (simp add: run_input_thread_def alloc_def thread_reads_local [OF load_alloc_new assms])
  show "(case run_output_thread junk' queue con h' of (p, h) \<Rightarrow> thread_reads True p (as @ Return # bs) h)
      = (if bs = [] then Inr (replicate (count_list as ReadArgs) (junk'\<lparr>sa_queue := queue, sa_con := con\<rparr>))
         else Inl UseAfterFree)"
    by (simp add: run_output_thread_def alloc_def thread_reads_local [OF load_alloc_new assms])
  show "(case run_game_thread stopped g of (p, g) \<Rightarrow> thread_reads True p (as @ Return # bs) g)
      = (if bs = [] then Inr (replicate (count_list as ReadArgs) stopped) else Inl UseAfterFree)"
    by (simp add: run_game_thread_def alloc_def thread_reads_local [OF load_alloc_new assms])
  show "rbind (run_server_thread (Some fresh) inq is_stopped timeout players h'')
        (\<lambda>(p, h). thread_reads False p (as @ Return # bs) h)
      = Inr (replicate (count_list (as @ bs) ReadArgs) (fresh\<lparr>va_in := inq, va_is_terminated := is_stopped,
          va_timeout := timeout, va_players := players\<rparr>))"
    by (simp add: run_server_thread_def alloc_def store_def load_alloc_new thread_reads_live)
qed

section \<open>The end\<close>

text \<open>What is left when \<open>main\<close> returns.\<close>

record ended_t =
  en_functions :: "gfunc str_hashtable_node_t list"
  en_handler :: "(job_function_t, ptr) threadpool_t"
  en_conns :: "conn_t heap"
  en_out :: "ptr queue_t"
  en_cfg :: cfg_t

text \<open>
  The calls behind \<open>wait_signal\<close>, on the state of the server at that moment.  \<open>threadpool_destroy\<close>
  waits for the workers, so that its actions and theirs are an argument; the result is \<open>None\<close>
  while it has not returned.  \<open>en_functions\<close> are the nodes of the table that are freed first,
  while the workers go on.
\<close>

definition server_stop :: "(job_function_t, ptr) act list \<Rightarrow> started_t \<Rightarrow> ended_t res option" where
  "server_stop schedule sd =
     (case gfunc_destroy (g_funcs (mn_game (sd_main sd))) of
        Inl e \<Rightarrow> Some (Inl e)
      | Inr functions \<Rightarrow> (case pool_run (Destroy None # schedule) (sd_handler sd) of
            None \<Rightarrow> None
          | Some (Inl e) \<Rightarrow> Some (Inl e)
          | Some (Inr pool) \<Rightarrow>
              if tp_destroy pool \<noteq> Gone then None
              else Some
                (rbind (conn_destroy (sd_con sd) (sd_conns sd)) (\<lambda>conns.
                 rbind (queue_destroy (sv_out (sd_server sd)) False) (\<lambda>(_, out).
                 rbind (config_destroy (Some (sd_cfg sd))) (\<lambda>cfg.
                   Inr \<lparr>en_functions = functions, en_handler = pool, en_conns = conns, en_out = out, en_cfg = cfg\<rparr>))))))"

text \<open>What a started server has.\<close>

lemma load_configuration_slots:
  assumes "load_configuration mem buffer behind fuel config_file = Inr cfg"
  shows "slots_ok cfg"
proof (cases "config_load mem buffer config_file = Inr (Some cfg)")
  case True
  then obtain bs where "config_load_loop mem bs buffer (config_init mem MAX_OPTS) = Inr (Some cfg)"
    by (auto simp: config_load_def Let_def rbind_eq_Inr split: option.splits)
  moreover have "pred_option slots_ok (config_init mem MAX_OPTS)"
    by (cases "config_init mem MAX_OPTS") (auto dest: config_init_slots)
  ultimately show ?thesis
    using config_load_loop_slots by fastforce
next
  case False
  then obtain saved where "config_default behind fuel = Inr (cfg, saved)"
    using assms by (auto simp: load_configuration_def rbind_eq_Inr split: option.splits)
  then show ?thesis
    using config_init_slots insert_literals_slots
    by (fastforce simp: config_default_def rbind_eq_Inr split: option.splits)
qed

lemma gfunc_init_inv: "gfunc_init = Inr (err, t) \<Longrightarrow> ht_inv t"
  using gfunc_init_table by (metis Inr_inject prod.inject)

lemma conn_init_live: "conn_init env port bind junk h = Inr (Some con, h') \<Longrightarrow> is_ok (load h' (Some con))"
  by (auto simp: conn_init_cases load_def is_ok_def split: if_splits)

lemma server_main_started:
  assumes "server_main mem buffer behind fuel config_file files env junk room block s = Inr (Some sd)"
  shows "slots_ok (sd_cfg sd) \<and> ht_inv (g_funcs (mn_game (sd_main sd))) \<and> is_ok (load (sd_conns sd) (sd_con sd))
    \<and> threadpool_create 2 room = Inr (Some (sd_handler sd))"
  using assms
  by (cases "queue_init block") (auto simp: server_main_def rbind_eq_Inr threadpool_get_jqueue_def
      split: if_split_asm option.split_asm, (blast intro: load_configuration_slots gfunc_init_inv conn_init_live)+)

text \<open>With no job left the workers call none while they are stopped.\<close>

lemma closing_calls:
  assumes "pool_inv room js s" "in_hand s = []" "waiting s = []" "tp_jqueue s \<noteq> None"
    "pool_inv room js s'" "mset (tp_calls s) \<subseteq># mset (tp_calls s')"
  shows "mset (tp_calls s') = mset (tp_calls s)"
proof -
  have "mset (tp_calls s) = mset js"
    using assms(1-4) by (auto simp: pool_inv_def jobs_ok_def waiting_def split: option.splits)
  moreover have "mset (tp_calls s') \<subseteq># mset js"
    using assms(5) by (auto simp: pool_inv_def jobs_ok_def split: option.splits) (metis mset_subset_eq_add_left add.assoc)
  ultimately show ?thesis
    using assms(6) by (simp add: subset_mset.antisym)
qed

lemma act_calls: "pool_act a s = Some (Inr s') \<Longrightarrow> mset (tp_calls s) \<subseteq># mset (tp_calls s')"
  by (cases a) (auto simp: thread_function_def take_mutex_def goto_def on_queue_def add_job_def signal_job_def
      spurious_wakeup_def threadpool_destroy_def rbind_eq_Inr split: if_split_asm option.split_asm worker_pc.split_asm
      destroy_pc.split_asm)

lemma run_calls: "pool_run as s = Some (Inr s') \<Longrightarrow> mset (tp_calls s) \<subseteq># mset (tp_calls s')"
proof (induction as arbitrary: s)
  case (Cons a as)
  then obtain s1 where "pool_act a s = Some (Inr s1)" "pool_run as s1 = Some (Inr s')"
    by (auto split: option.split_asm sum.split_asm)
  then show ?case
    using act_calls Cons.IH by (blast intro: subset_mset.order_trans)
qed simp

lemma program_started:
  assumes "server_program mem buffer behind fuel args files env junk room block s = Inr (Started sd)"
  shows "slots_ok (sd_cfg sd) \<and> ht_inv (g_funcs (mn_game (sd_main sd))) \<and> is_ok (load (sd_conns sd) (sd_con sd))
    \<and> threadpool_create 2 room = Inr (Some (sd_handler sd))"
  using assms server_main_started
  by (fastforce simp: server_program_def rbind_eq_Inr split: option.split_asm)

text \<open>The four other calls.\<close>

lemma stop_frees:
  assumes "slots_ok cfg" "ht_inv t" "is_ok (load conns con)" "q_inv out"
  shows "\<exists>nodes conns' out' cfg'. gfunc_destroy t = Inr nodes \<and> conn_destroy con conns = Inr conns'
    \<and> queue_destroy out False = Inr ([], out') \<and> config_destroy (Some cfg) = Inr cfg'
    \<and> load conns' con = Inl UseAfterFree \<and> q_contents out' = []
    \<and> (\<forall>p\<in>set (take (c_size cfg) (c_opts cfg)). p \<noteq> None \<longrightarrow> load (c_heap cfg') p = Inl UseAfterFree)"
proof -
  obtain nodes where n: "gfunc_destroy t = Inr nodes"
    using assms(2) by (simp add: gfunc_destroy_def str_hashtable_destroy_def ht_inv_def ht_lock_def)
  obtain a where "con = Some a" "a < length conns" "conns ! a \<noteq> None"
    using assms(3) by (auto simp: is_ok_iff dest: load_InrD)
  then have c: "conn_destroy con conns = Inr (conns[a := None])" "load (conns[a := None]) con = Inl UseAfterFree"
    by (auto simp: conn_destroy_def free_def load_def)
  obtain out' where o':  "queue_destroy out False = Inr ([], out')" "q_contents out' = []"
    using queue_destroy_spec [OF assms(4), of False] by auto
  obtain h where h: "config_destroy (Some cfg) = Inr (cfg\<lparr>c_heap := h\<rparr>)"
      "\<forall>a < length h. h ! a = (if Some a \<in> set (take (c_size cfg) (c_opts cfg)) then None else c_heap cfg ! a)"
    using config_destroy_ok [OF assms(1)] by blast
  then have "\<forall>p\<in>set (take (c_size cfg) (c_opts cfg)). p \<noteq> None \<longrightarrow> load (c_heap (cfg\<lparr>c_heap := h\<rparr>)) p = Inl UseAfterFree"
    by (auto simp: load_def)
  then show ?thesis
    using n c o' h(1) by (intro exI conjI) assumption+
qed

section \<open>Properties\<close>

text \<open>
  C11. A server that has been started and is stopped when no job is left and no worker is about
  to wait comes to its end: whatever the order of its workers and of \<open>main\<close>, they can go on for a
  bounded number of actions only, none faults and no further job is called, and when none is
  possible any more \<open>main\<close> has returned.  Then every worker has returned, and the queue of
  the jobs, the connection, the elements of the outgoing queue and all options are freed.
\<close>

theorem server_stops:
  assumes "server_program mem buffer behind fuel args files env junk room block s = Inr (Started sd)"
    and "list_all (\<lambda>a. \<not> is_destroy a) as" and "pool_run as (sd_handler sd) = Some (Inr pool)"
    and "length (added as) \<le> (room - 3) div 2" and "WaitCall \<notin> set (tp_threads pool)"
    and "in_hand pool = []" and "waiting pool = []" and "q_inv out"
    and sd': "sd' = sd\<lparr>sd_server := (sd_server sd)\<lparr>sv_out := out\<rparr>, sd_handler := pool\<rparr>"
  shows "\<exists>N. \<forall>bs r. list_all is_closing bs \<and> pool_run (Destroy None # bs) pool = Some r \<longrightarrow>
    length bs \<le> N
    \<and> (\<exists>pool'. r = Inr pool' \<and> mset (tp_calls pool') = mset (tp_calls pool)
      \<and> ((\<forall>a. is_closing a \<longrightarrow> pool_act a pool' = None) \<longrightarrow>
          (\<exists>e. server_stop bs sd' = Some (Inr e) \<and> en_handler e = pool'
            \<and> tp_jqueue pool' = None \<and> (\<forall>i < 2. tp_threads pool' ! i = Finished)
            \<and> load (en_conns e) (sd_con sd) = Inl UseAfterFree \<and> q_contents (en_out e) = []
            \<and> (\<forall>p\<in>set (take (c_size (sd_cfg sd)) (c_opts (sd_cfg sd))). p \<noteq> None \<longrightarrow>
                load (c_heap (en_cfg e)) p = Inl UseAfterFree))))"
proof -
  note start = program_started [OF assms(1)]
  note c = create_inv [OF conjunct2 [OF conjunct2 [OF conjunct2 [OF start]]]]
  have pool: "pool_inv ((room - 3) div 2) (added as) pool" "tp_destroy pool = Running"
    using run_inv [OF c(1) assms(3)] assms(2,4) c(2) by auto
  have q: "tp_jqueue pool \<noteq> None"
    using pool_invD(2) [OF pool(1)] pool(2) by (auto simp: stop_ok_def)
  obtain nodes conns out' cfg' where f: "gfunc_destroy (g_funcs (mn_game (sd_main sd))) = Inr nodes"
      "conn_destroy (sd_con sd) (sd_conns sd) = Inr conns" "queue_destroy out False = Inr ([], out')"
      "config_destroy (Some (sd_cfg sd)) = Inr cfg'"
      "load conns (sd_con sd) = Inl UseAfterFree" "q_contents out' = []"
      "\<forall>p\<in>set (take (c_size (sd_cfg sd)) (c_opts (sd_cfg sd))). p \<noteq> None \<longrightarrow> load (c_heap cfg') p = Inl UseAfterFree"
    using stop_frees [of "sd_cfg sd" "g_funcs (mn_game (sd_main sd))" "sd_conns sd" "sd_con sd" out] start assms(8)
    by auto
  let ?N = "stop_measure (pool\<lparr>tp_active := False, tp_destroy := Signalling 0\<rparr>)"
  have ends: "\<exists>pool'. r = Inr pool' \<and> length bs \<le> ?N \<and> mset (tp_calls pool') = mset (tp_calls pool)
      \<and> ((\<forall>a. is_closing a \<longrightarrow> pool_act a pool' = None) \<longrightarrow>
          tp_destroy pool' = Gone \<and> tp_jqueue pool' = None \<and> (\<forall>i < 2. tp_threads pool' ! i = Finished))"
    if bs: "list_all is_closing bs" "pool_run (Destroy None # bs) pool = Some r" for bs r
  proof -
    obtain pool' where p: "r = Inr pool'" "pool_inv ((room - 3) div 2) (added as) pool'" "length bs \<le> ?N"
        "(\<forall>a. is_closing a \<longrightarrow> pool_act a pool' = None) \<longrightarrow> tp_destroy pool' = Gone"
      using destroy_run [OF pool assms(5) bs] by blast
    have run: "pool_run (as @ Destroy None # bs) (sd_handler sd) = Some (Inr pool')"
      using assms(3) bs(2) p(1) by (simp add: pool_run_append)
    have "length (tp_threads pool') = 2"
      using run_cnt [OF run] c(5) pool_invD(1) [OF p(2)] by (simp add: lock_ok_def)
    then show ?thesis
      using p closing_calls [OF pool(1) assms(6,7) q p(2)] run_calls [of "Destroy None # bs" pool pool'] bs(2)
        pool_invD(2) [OF p(2)] by (auto simp: stop_ok_def)
  qed
  show ?thesis
    by (intro exI [of _ ?N] allI impI, elim conjE, frule (1) ends)
      (auto simp: server_stop_def sd' f)
qed

text \<open>The two workers see that they are to stop, and are joined.\<close>

definition sample_closing :: "(job_function_t, ptr) act list" where
  "sample_closing = [Work 1, Destroy None, Work 0, Destroy None, Destroy None, Destroy None, Destroy None, Destroy None]"

lemma sample_closing_run:
  "list_all is_closing sample_closing"
  "\<exists>p. pool_run (Destroy None # sample_closing) (new_pool 2 9) = Some (Inr p)
    \<and> tp_destroy p = Gone \<and> tp_threads p = [Finished, Finished]"
proof -
  show "list_all is_closing sample_closing"
    by (simp add: sample_closing_def is_closing_def)
  have "case pool_run (Destroy None # sample_closing) (new_pool 2 9) of
      Some (Inr p) \<Rightarrow> tp_destroy p = Gone \<and> tp_threads p = [Finished, Finished] | _ \<Rightarrow> False"
    by code_simp
  then show "\<exists>p. pool_run (Destroy None # sample_closing) (new_pool 2 9) = Some (Inr p)
    \<and> tp_destroy p = Gone \<and> tp_threads p = [Finished, Finished]"
    by (auto split: option.splits sum.splits)
qed

lemma server_stops_witness:
  "\<exists>sd e. server_program 3 (replicate 1024 0) [0] 5 [of_str ''-c'', of_str ''game.conf'']
      [of_str ''ver1.map'' \<mapsto> write_map [] 0 []]
      \<lparr>ne_memory = True, ne_socket = True, ne_host = Some 0, ne_bind = True\<rparr> \<lparr>cn_addr = m_addr sample_hello\<rparr> 9
      (Some (sv_out sample_server)) blank_game = Inr (Started sd)
    \<and> server_stop sample_closing sd = Some (Inr e) \<and> load (en_conns e) (sd_con sd) = Inl UseAfterFree"
proof -
  have "read_map (write_map [] 0 [] @ []) = Inr ([], 0, [])"
    by (rule read_write_map) (simp add: map_writable_def)
  then obtain s1 where s1: "game_init blank_game (Some (Some (write_map [] 0 []))) = Inr (True, s1)"
    by (simp add: game_init_def)
  have "of_str ''game.conf'' \<noteq> of_str ''ver1.map''"
    by (simp add: of_str_def)
  then obtain sd where sd: "server_program 3 (replicate 1024 0) [0] 5 [of_str ''-c'', of_str ''game.conf'']
      [of_str ''ver1.map'' \<mapsto> write_map [] 0 []]
      \<lparr>ne_memory = True, ne_socket = True, ne_host = Some 0, ne_bind = True\<rparr> \<lparr>cn_addr = m_addr sample_hello\<rparr> 9
      (Some (sv_out sample_server)) blank_game = Inr (Started sd)"
      "sd_handler sd = new_pool 2 9" "q_inv (sv_out (sd_server sd))"
    using program_default [where files = "[of_str ''ver1.map'' \<mapsto> write_map [] 0 []]", OF config_option(1) _ _ _ _ s1,
        of 5 "replicate 1024 0" "\<lparr>ne_memory = True, ne_socket = True, ne_host = Some 0, ne_bind = True\<rparr>" 9 "[]"
        "\<lparr>cn_addr = m_addr sample_hello\<rparr>" "sv_out sample_server"]
    by (auto simp: MAX_LEN_def conn_opens_def)
  let ?pool = "new_pool 2 9 :: (job_function_t, ptr) threadpool_t"
  have pool: "pool_run [] (sd_handler sd) = Some (Inr ?pool)" "WaitCall \<notin> set (tp_threads ?pool)" "in_hand ?pool = []"
      "waiting ?pool = []"
    using jqueue_create_inv [of 6] by (simp_all add: sd(2) new_pool_def in_hand_def waiting_def hand_def numeral_2_eq_2)
  obtain p where p: "pool_run (Destroy None # sample_closing) ?pool = Some (Inr p)" "tp_destroy p = Gone"
      "tp_threads p = [Finished, Finished]"
    using sample_closing_run(2) by blast
  have stuck: "\<forall>a. is_closing a \<longrightarrow> pool_act a p = None"
    using p(2,3) by (auto simp: is_closing_def thread_function_def threadpool_destroy_def nth_Cons' split: act.splits if_splits)
  have same: "sd = sd\<lparr>sd_server := (sd_server sd)\<lparr>sv_out := sv_out (sd_server sd)\<rparr>, sd_handler := ?pool\<rparr>"
    using sd(2) by (cases sd, cases "sd_server sd") simp
  have room: "list_all (\<lambda>a. \<not> is_destroy a) []" "length (added []) \<le> (9 - 3) div 2"
    by simp_all
  from server_stops [OF sd(1) room(1) pool(1) room(2) pool(2-4) sd(3) same] sample_closing_run(1) p(1) stuck
  obtain e where "server_stop sample_closing sd = Some (Inr e)" "load (en_conns e) (sd_con sd) = Inl UseAfterFree"
    by blast
  with sd(1) show ?thesis
    by blast
qed

end
