(* ===== verification/ClientConnection.thy ===== *)
theory ClientConnection
  imports Client Connection
begin

text \<open>
  The connection of the client (\<open>connect_to_serv\<close>, \<open>start_connection\<close> and \<open>close_connection\<close> of
  \<open>client/client.c\<close>): a new one is tested before it replaces the old one.  \<open>lk_listening\<close> is whether
  the thread that listens runs.
\<close>

record 'p link_t =
  lk_conns :: "conn_t heap"
  lk_active :: ptr
  lk_listening :: bool
  lk_client :: "'p client_t"

definition start_connection :: "'p link_t \<Rightarrow> 'p link_t" where
  "start_connection l = l\<lparr>lk_listening := True\<rparr>"

text \<open>\<open>actv_conn\<close> goes on pointing to the connection that was closed.\<close>

definition close_connection :: "'p link_t \<Rightarrow> 'p link_t res" where
  "close_connection l =
     rbind (conn_destroy (lk_active l) (lk_conns l)) (\<lambda>h. Inr (l\<lparr>lk_listening := False, lk_conns := h\<rparr>))"

text \<open>
  The thread that listens, on the datagrams that its rounds receive (with the fresh block of each
  message; \<open>None\<close> when nothing came): it looks at \<open>pthr_is_active\<close> in each round.
\<close>

fun serv_listen_routine ::
  "(msg_t option \<times> (sockaddr_in \<times> byte list) option) list \<Rightarrow> 'p link_t \<Rightarrow> 'p link_t res" where
  "serv_listen_routine [] l = Inr l"
| "serv_listen_routine ((fresh, recvd) # rs) l =
     (if \<not> lk_listening l then Inr l
      else
        rbind (load (lk_conns l) (lk_active l)) (\<lambda>_.
        rbind (msg_recv fresh recvd) (\<lambda>msg. case msg of
            None \<Rightarrow> serv_listen_routine rs l
          | Some m \<Rightarrow>
              rbind (msg_process (Some m) (lk_client l)) (\<lambda>client.
                serv_listen_routine rs (l\<lparr>lk_client := client\<rparr>)))))"

text \<open>What an attempt meets: the network, fresh blocks, and the datagram that comes in time, if any.\<close>

record attempt_t =
  at_env :: net_env_t
  at_port :: u16
  at_junk :: conn_t
  at_fresh :: "msg_t option"
  at_fresh' :: "msg_t option"
  at_recvd :: "(sockaddr_in \<times> byte list) option"

definition connect_to_serv :: "attempt_t \<Rightarrow> 'p link_t \<Rightarrow> (bool \<times> 'p link_t) res" where
  "connect_to_serv a l =
     rbind (conn_init (at_env a) (at_port a) False (at_junk a) (lk_conns l)) (\<lambda>(check_conn, h).
       if check_conn = None then Inr (False, l\<lparr>lk_conns := h\<rparr>)
       else
         rbind (load h check_conn) (\<lambda>c.
         rbind (check_connection (at_fresh a) (cn_addr c) (at_fresh' a) (at_recvd a) (lk_client l)) (\<lambda>(ok, _, client).
         let l = l\<lparr>lk_conns := h, lk_client := client\<rparr> in
         if \<not> ok then rbind (conn_destroy check_conn (lk_conns l)) (\<lambda>h. Inr (False, l\<lparr>lk_conns := h\<rparr>))
         else
           rbind (if lk_active l \<noteq> None then close_connection l else Inr l) (\<lambda>l.
             Inr (True, start_connection (l\<lparr>lk_active := check_conn\<rparr>))))))"

fun connect_attempts :: "attempt_t list \<Rightarrow> 'p link_t \<Rightarrow> (bool list \<times> 'p link_t) res" where
  "connect_attempts [] l = Inr ([], l)"
| "connect_attempts (a # as) l =
     rbind (connect_to_serv a l) (\<lambda>(ok, l).
     rbind (connect_attempts as l) (\<lambda>(oks, l). Inr (ok # oks, l)))"

section \<open>Lemmas\<close>

text \<open>The connections that are open.\<close>

definition open_conns :: "'p link_t \<Rightarrow> nat set" where
  "open_conns l = {c. c < length (lk_conns l) \<and> lk_conns l ! c \<noteq> None}"

definition link_inv :: "'p link_t \<Rightarrow> bool" where
  "link_inv l \<longleftrightarrow> open_conns l = set_option (lk_active l) \<and> (lk_listening l \<longleftrightarrow> lk_active l \<noteq> None)
     \<and> length (cl_key (lk_client l)) = TOKEN_LEN"

text \<open>An attempt in whose answer, if there is one, the strings end.\<close>

definition attempt_ok :: "attempt_t \<Rightarrow> bool" where
  "attempt_ok a \<longleftrightarrow> (case at_fresh a of None \<Rightarrow> True | Some f \<Rightarrow> msg_wf f)
     \<and> (case at_fresh' a of None \<Rightarrow> False | Some f \<Rightarrow> msg_wf f) \<and> is_ok (msg_recv (at_fresh' a) (at_recvd a))"

definition answered :: "attempt_t \<Rightarrow> bool" where
  "answered a \<longleftrightarrow> conn_opens (at_env a) \<and> at_fresh a \<noteq> None
     \<and> (case msg_recv (at_fresh' a) (at_recvd a) of Inr (Some m) \<Rightarrow> m_type m = conn_test | _ \<Rightarrow> False)"

lemma check_connection_ok:
  assumes "attempt_ok a" "conn_opens (at_env a)" "length (cl_key cl) = TOKEN_LEN"
  shows "\<exists>w cl'. check_connection (at_fresh a) con (at_fresh' a) (at_recvd a) cl = Inr (answered a, w, cl')
    \<and> length (cl_key cl') = TOKEN_LEN \<and> (\<not> answered a \<longrightarrow> cl' = cl)"
proof (cases "at_fresh a")
  case None
  then show ?thesis
    using assms(3) by (simp add: check_connection_def msg_init_def answered_def)
next
  case (Some f)
  have wf: "msg_wf f"
    using assms(1) Some by (simp add: attempt_ok_def)
  obtain m0 where m0: "msg_init (Some f) (Some con) = Some m0" "m_key m0 = replicate TOKEN_LEN 0 @ drop TOKEN_LEN (m_key f)"
    by (simp add: msg_init_def Let_def)
  have "crypto_key_is_empty (m_key m0) = Inr True"
    by (simp add: m0(2) crypto_key_is_empty_def TOKEN_LEN_def numeral_eq_Suc)
  then obtain w where w: "conn_hello m0 = Inr w"
    by (simp add: conn_hello_def msg_send_def)
  obtain f' where f': "at_fresh' a = Some f'" "msg_wf f'"
    using assms(1) by (auto simp: attempt_ok_def split: option.splits)
  obtain r where r: "msg_recv (at_fresh' a) (at_recvd a) = Inr r"
    using assms(1) by (auto simp: attempt_ok_def is_ok_iff)
  show ?thesis
  proof (cases r)
    case None
    then show ?thesis
      using Some m0(1) w r assms(3) by (simp add: check_connection_def answered_def)
  next
    case (Some m)
    have "TOKEN_LEN \<le> length (m_key m)"
      using msg_recv_wf [OF f'(2), of "at_recvd a" m] r Some f'(1) by (simp add: msg_wf_def)
    then show ?thesis
      using Some \<open>at_fresh a = Some f\<close> m0(1) w r assms(2,3)
      by (simp add: check_connection_def answered_def memcpy_def)
  qed
qed

lemma open_append: "open_conns (l\<lparr>lk_conns := lk_conns l @ [c]\<rparr>) = open_conns l \<union> (if c = None then {} else {length (lk_conns l)})"
  by (auto simp: open_conns_def nth_append less_Suc_eq)

lemma open_replace:
  "open_conns (l\<lparr>lk_conns := (lk_conns l)[old := None] @ [Some c]\<rparr>) = insert (length (lk_conns l)) (open_conns l - {old})"
proof (rule set_eqI)
  fix i
  show "i \<in> open_conns (l\<lparr>lk_conns := (lk_conns l)[old := None] @ [Some c]\<rparr>)
    \<longleftrightarrow> i \<in> insert (length (lk_conns l)) (open_conns l - {old})"
    by (cases "i = old"; cases "i < length (lk_conns l)") (auto simp: open_conns_def nth_append)
qed

lemma open_conns_update [simp]:
  "open_conns (l\<lparr>lk_client := cl\<rparr>) = open_conns l" "open_conns (l\<lparr>lk_active := p\<rparr>) = open_conns l"
  "open_conns (l\<lparr>lk_listening := b\<rparr>) = open_conns l"
  by (simp_all add: open_conns_def)

text \<open>One attempt: it succeeds exactly if it is answered, and then the new connection is the only one.\<close>

lemma connect_to_serv_ok:
  assumes "attempt_ok a" "link_inv l"
  shows "\<exists>l'. connect_to_serv a l = Inr (answered a, l') \<and> link_inv l'
    \<and> lk_active l' = (if answered a then Some (length (lk_conns l)) else lk_active l)
    \<and> (answered a \<longrightarrow> load (lk_conns l') (lk_active l') = Inr \<lparr>cn_addr =
        \<lparr>sin_family = AF_INET, sin_port = htons (at_port a), s_addr = the (ne_host (at_env a))\<rparr>\<rparr>)"
proof (cases "conn_opens (at_env a)")
  case False
  have c: "conn_init (at_env a) (at_port a) False (at_junk a) (lk_conns l)
      = Inr (None, if ne_memory (at_env a) then lk_conns l @ [None] else lk_conns l)"
    by (rule conn_init_fails [OF False])
  moreover have "link_inv (l\<lparr>lk_conns := if ne_memory (at_env a) then lk_conns l @ [None] else lk_conns l\<rparr>)"
    using assms(2) open_append [of l None] by (auto simp: link_inv_def open_conns_def)
  ultimately show ?thesis
    using False by (simp add: connect_to_serv_def answered_def)
next
  case True
  let ?n = "length (lk_conns l)"
  obtain c where c: "conn_init (at_env a) (at_port a) False (at_junk a) (lk_conns l) = Inr (Some ?n, lk_conns l @ [Some c])"
      and ca: "c = \<lparr>cn_addr = \<lparr>sin_family = AF_INET, sin_port = htons (at_port a), s_addr = the (ne_host (at_env a))\<rparr>\<rparr>"
    using conn_init_open [OF True, of False] by simp
  obtain w cl where cl: "check_connection (at_fresh a) (cn_addr c) (at_fresh' a) (at_recvd a) (lk_client l) = Inr (answered a, w, cl)"
      "length (cl_key cl) = TOKEN_LEN"
    using check_connection_ok [OF assms(1) True] assms(2) by (metis link_inv_def)
  have n: "load (lk_conns l @ [Some c]) (Some ?n) = Inr c"
    by (rule load_alloc_new)
  show ?thesis
  proof (cases "answered a")
    case False
    have "conn_destroy (Some ?n) (lk_conns l @ [Some c]) = Inr (lk_conns l @ [None])"
      using n by (simp add: conn_destroy_def free_ok)
    moreover have "link_inv (l\<lparr>lk_client := cl, lk_conns := lk_conns l @ [None]\<rparr>)"
      using assms(2) cl(2) open_append [of l None] by (simp add: link_inv_def open_conns_def)
    ultimately show ?thesis
      using False c cl n by (simp add: connect_to_serv_def Let_def)
  next
    case True
    show ?thesis
    proof (cases "lk_active l")
      case None
      then have "link_inv (l\<lparr>lk_conns := lk_conns l @ [Some c], lk_client := cl, lk_active := Some ?n, lk_listening := True\<rparr>)"
        using assms(2) cl(2) by (auto simp: link_inv_def open_conns_def nth_append less_Suc_eq)
      then show ?thesis
        using True c cl n None ca by (simp add: connect_to_serv_def Let_def start_connection_def)
    next
      case (Some old)
      then have old: "open_conns l = {old}"
        using assms(2) by (simp add: link_inv_def)
      then have o: "old < ?n" "lk_conns l ! old \<noteq> None"
        by (auto simp: open_conns_def)
      then obtain oc where oc: "load (lk_conns l) (Some old) = Inr oc"
        by (auto simp: load_eq_Inr)
      let ?h = "(lk_conns l)[old := None] @ [Some c]"
      have "conn_destroy (Some old) (lk_conns l @ [Some c]) = Inr ?h"
        using load_alloc_old [OF oc, of "Some c"] o(1) by (simp add: conn_destroy_def free_ok list_update_append1)
      moreover have "link_inv (l\<lparr>lk_client := cl, lk_conns := ?h, lk_active := Some ?n, lk_listening := True\<rparr>)"
        using cl(2) open_replace [of "l\<lparr>lk_client := cl\<rparr>" old c] by (simp add: link_inv_def old)
      moreover have "load ?h (Some ?n) = Inr c"
        using load_alloc_new [of "(lk_conns l)[old := None]" c] by simp
      ultimately show ?thesis
        using True c cl n Some ca
        by (simp add: connect_to_serv_def close_connection_def start_connection_def Let_def)
    qed
  qed
qed

section \<open>Properties\<close>

lemma connect_attempts_ok:
  assumes "list_all attempt_ok as" "link_inv l"
  shows "\<exists>l'. connect_attempts as l = Inr (map answered as, l') \<and> link_inv l'
    \<and> (lk_active l' = None \<longleftrightarrow> lk_active l = None \<and> \<not> list_ex answered as)"
  using assms
proof (induction "as" arbitrary: l)
  case (Cons a "as")
  obtain l1 where l1: "connect_to_serv a l = Inr (answered a, l1)" "link_inv l1"
      "lk_active l1 = (if answered a then Some (length (lk_conns l)) else lk_active l)"
    using connect_to_serv_ok [of a l] Cons.prems by auto
  have "list_all attempt_ok as"
    using Cons.prems(1) by simp
  from Cons.IH [OF this l1(2)] obtain l2 where l2: "connect_attempts as l1 = Inr (map answered as, l2) \<and> link_inv l2
      \<and> (lk_active l2 = None \<longleftrightarrow> lk_active l1 = None \<and> \<not> list_ex answered as)" ..
  show ?case
    by (rule exI [of _ l2]) (use l2 in \<open>simp add: l1(1,3)\<close>)
qed simp

text \<open>
  C23. However often a client connects, it has one connection open if any attempt was answered and
  none otherwise, the active one, and listens exactly then: an attempt that is answered closes
  the old connection, one that is not closes its own.  A client that has closed its
  connection itself closes it again when it connects the next time.
\<close>

theorem connect_one_open:
  assumes "list_all attempt_ok as" and "link_inv l" and "attempt_ok a" and "answered a"
  shows "(\<exists>l'. connect_attempts as l = Inr (map answered as, l') \<and> open_conns l' = set_option (lk_active l')
      \<and> (lk_listening l' \<longleftrightarrow> lk_active l' \<noteq> None)
      \<and> (lk_active l' = None \<longleftrightarrow> lk_active l = None \<and> \<not> list_ex answered as))
    \<and> (lk_active l \<noteq> None \<longrightarrow> rbind (close_connection l) (connect_to_serv a) = Inl UseAfterFree)"
proof
  show "\<exists>l'. connect_attempts as l = Inr (map answered as, l') \<and> open_conns l' = set_option (lk_active l')
      \<and> (lk_listening l' \<longleftrightarrow> lk_active l' \<noteq> None)
      \<and> (lk_active l' = None \<longleftrightarrow> lk_active l = None \<and> \<not> list_ex answered as)"
    using connect_attempts_ok [OF assms(1,2)] by (auto simp: link_inv_def)
  show "lk_active l \<noteq> None \<longrightarrow> rbind (close_connection l) (connect_to_serv a) = Inl UseAfterFree"
  proof
    assume "lk_active l \<noteq> None"
    then obtain old where old: "lk_active l = Some old"
      by blast
    then have "old \<in> open_conns l"
      using assms(2) by (simp add: link_inv_def)
    then obtain oc where oc: "load (lk_conns l) (Some old) = Inr oc" and lt: "old < length (lk_conns l)"
      by (auto simp: open_conns_def load_eq_Inr)
    let ?h = "(lk_conns l)[old := None]"
    have close: "close_connection l = Inr (l\<lparr>lk_listening := False, lk_conns := ?h\<rparr>)"
      using oc by (simp add: close_connection_def conn_destroy_def old free_ok)
    have opens: "conn_opens (at_env a)"
      using assms(4) by (simp add: answered_def)
    obtain c where c: "conn_init (at_env a) (at_port a) False (at_junk a) ?h = Inr (Some (length ?h), ?h @ [Some c])"
      using conn_init_open [OF opens, of False] by simp
    obtain w cl where "check_connection (at_fresh a) (cn_addr c) (at_fresh' a) (at_recvd a) (lk_client l) = Inr (True, w, cl)"
      using check_connection_ok [OF assms(3) opens] assms(2,4) by (metis link_inv_def)
    moreover have "load (?h @ [Some c]) (Some (length (lk_conns l))) = Inr c"
      using load_alloc_new [of ?h c] by simp
    moreover have "load (?h @ [Some c]) (Some old) = Inl UseAfterFree"
      using lt by (simp add: load_def nth_append)
    ultimately show "rbind (close_connection l) (connect_to_serv a) = Inl UseAfterFree"
      using c close old
      by (simp add: connect_to_serv_def Let_def close_connection_def conn_destroy_def)
  qed
qed

text \<open>A first attempt that nobody answers and a second one that is answered.\<close>

definition sample_attempt :: "bool \<Rightarrow> attempt_t" where
  "sample_attempt ok = \<lparr>at_env = \<lparr>ne_memory = True, ne_socket = True, ne_host = Some 1, ne_bind = True\<rparr>, at_port = 27015,
     at_junk = \<lparr>cn_addr = m_addr sample_block\<rparr>, at_fresh = Some sample_block, at_fresh' = Some sample_block,
     at_recvd = (if ok then Some (m_addr sample_block, msg_bytes sample_block) else None)\<rparr>"

lemma sample_attempt_ok: "attempt_ok (sample_attempt ok)" "answered (sample_attempt ok) = ok"
proof -
  obtain m0 where m0: "msg_init (Some sample_block) None = Some m0"
    using msg_init_None [OF sample_block_wf] by blast
  have "crypto_key_is_empty (m_key sample_block) = Inr True" "m_type sample_block = conn_test"
    by (simp_all add: sample_block_def crypto_key_is_empty_def numeral_eq_Suc conn_test_def)
  then have "msg_recv (Some sample_block) (Some (m_addr sample_block, msg_bytes sample_block)) = Inr (Some sample_block)"
    using msg_recv_wire [OF sample_block_wf sample_block_wf, of "m_addr sample_block"] by simp
  moreover have "msg_recv (Some sample_block) None = Inr None"
    by (simp add: msg_recv_def m0)
  ultimately show "attempt_ok (sample_attempt ok)" "answered (sample_attempt ok) = ok"
    using \<open>m_type sample_block = conn_test\<close>
    by (simp_all add: attempt_ok_def answered_def sample_attempt_def sample_block_wf conn_opens_def)
qed

lemma connect_one_open_witness:
  "\<exists>l'. connect_attempts [sample_attempt False, sample_attempt True]
      \<lparr>lk_conns = [], lk_active = None, lk_listening = False, lk_client = sample_client\<rparr> = Inr ([False, True], l')
    \<and> open_conns l' = set_option (lk_active l') \<and> lk_active l' \<noteq> None"
proof -
  have "list_all attempt_ok [sample_attempt False, sample_attempt True]"
    by (simp add: sample_attempt_ok)
  moreover have "link_inv \<lparr>lk_conns = [], lk_active = None, lk_listening = False, lk_client = sample_client\<rparr>"
    by (simp add: link_inv_def open_conns_def sample_client_def TOKEN_LEN_def)
  ultimately show ?thesis
    using connect_one_open [OF _ _ sample_attempt_ok(1), of _ _ True] by (fastforce simp: sample_attempt_ok)
qed

end
