(* ===== verification/ClientGui.thy ===== *)
theory ClientGui
  imports ClientConnection
begin

text \<open>
  The window in which the client is told the address of the server (\<open>check_ip\<close> and
  \<open>sp_ip_enter\<close> of \<open>client/gui.c\<close>).  Splitting the text and reading its number are calls of GLib
  and arguments; so is what an attempt to connect to a host meets.
\<close>

section \<open>The address\<close>

text \<open>\<open>g_strsplit(addr, ":", 2)\<close> and \<open>g_ascii_strtoull(str, NULL, 0)\<close>.\<close>

record glib_t =
  gl_strsplit :: "byte list \<Rightarrow> byte list list"
  gl_strtoull :: "byte list \<Rightarrow> u64"

definition USHRT_MAX :: u64 where "USHRT_MAX = 65535"

definition check_ip ::
  "glib_t \<Rightarrow> (byte list \<Rightarrow> attempt_t) \<Rightarrow> byte list option \<Rightarrow> 'p link_t \<Rightarrow> (bool \<times> 'p link_t) res" where
  "check_ip gl attempt addr l = (case addr of
     None \<Rightarrow> Inr (False, l)
   | Some addr \<Rightarrow>
       let addr_split = gl_strsplit gl addr in
       if length addr_split \<noteq> 2 then Inr (False, l)
       else
         let parce_port = gl_strtoull gl (addr_split ! 1) in
         if parce_port = 0 \<or> parce_port > USHRT_MAX then Inr (False, l)
         else
           let serv_ip = addr_split ! 0; serv_port = ucast parce_port in
           connect_to_serv ((attempt serv_ip)\<lparr>at_port := serv_port\<rparr>) l)"

datatype shown = InitWindow | MainWindow

record 'p gui_t =
  gu_shown :: shown
  gu_link :: "'p link_t"

definition sp_ip_enter ::
  "glib_t \<Rightarrow> (byte list \<Rightarrow> attempt_t) \<Rightarrow> byte list option \<Rightarrow> 'p gui_t \<Rightarrow> 'p gui_t res" where
  "sp_ip_enter gl attempt entry g =
     rbind (check_ip gl attempt entry (gu_link g)) (\<lambda>(ok, l).
       if \<not> ok then Inr (g\<lparr>gu_link := l\<rparr>)
       else Inr (g\<lparr>gu_link := l, gu_shown := MainWindow\<rparr>))"

text \<open>The four buttons, each with the text that \<open>activate\<close> connects to it.\<close>

datatype button = UpBut | DownBut | RightBut | LeftBut

definition PREP_GO_UP :: "byte list" where "PREP_GO_UP = of_str ''go up'' @ [0]"

definition PREP_GO_DOWN :: "byte list" where "PREP_GO_DOWN = of_str ''go down'' @ [0]"

definition PREP_GO_RIGHT :: "byte list" where "PREP_GO_RIGHT = of_str ''go right'' @ [0]"

definition PREP_GO_LEFT :: "byte list" where "PREP_GO_LEFT = of_str ''go left'' @ [0]"

fun button_input :: "button \<Rightarrow> byte list" where
  "button_input UpBut = PREP_GO_UP"
| "button_input DownBut = PREP_GO_DOWN"
| "button_input RightBut = PREP_GO_RIGHT"
| "button_input LeftBut = PREP_GO_LEFT"

section \<open>Lemmas\<close>

lemma answered_port [simp]: "answered (a\<lparr>at_port := p\<rparr>) = answered a" "attempt_ok (a\<lparr>at_port := p\<rparr>) = attempt_ok a"
  by (simp_all add: answered_def attempt_ok_def)

text \<open>A datagram that arrives in time is processed, and nothing stops the thread but itself.\<close>

lemma serv_listen_message:
  assumes "link_inv l" "lk_active l \<noteq> None" "msg_recv fresh recvd = Inr (Some m)"
  shows "serv_listen_routine ((fresh, recvd) # rs) l
    = rbind (msg_process (Some m) (lk_client l)) (\<lambda>cl. serv_listen_routine rs (l\<lparr>lk_client := cl\<rparr>))"
proof -
  obtain c where "lk_active l = Some c" "c \<in> open_conns l"
    using assms(1,2) by (auto simp: link_inv_def)
  then have "is_ok (load (lk_conns l) (lk_active l))"
    by (auto simp: open_conns_def is_ok_iff load_eq_Inr)
  then show ?thesis
    using assms by (auto simp: is_ok_iff link_inv_def)
qed

section \<open>Properties\<close>

text \<open>
  C24. A text with a colon entered as the address connects the client to the host before it at
  the port behind it: the main window replaces the first one exactly if the server answers, and
  then the client has one connection, to that host and port, on which the next message is
  received and processed.  A port that is no number, zero or beyond 65535 changes nothing.
\<close>

theorem address_entered:
  assumes "\<And>h p. of_char CHR '':'' \<notin> set h \<Longrightarrow> gl_strsplit gl (h @ of_char CHR '':'' # p) = [h, p]"
    and "link_inv (gu_link g)" and "attempt_ok (attempt host)" and "of_char CHR '':'' \<notin> set host"
  shows "\<exists>g'. sp_ip_enter gl attempt (Some (host @ of_char CHR '':'' # port)) g = Inr g'
    \<and> (if gl_strtoull gl port = 0 \<or> gl_strtoull gl port > 65535 then g' = g
       else gu_shown g' = (if answered (attempt host) then MainWindow else gu_shown g)
         \<and> open_conns (gu_link g') = set_option (lk_active (gu_link g'))
         \<and> (answered (attempt host) \<longrightarrow>
             load (lk_conns (gu_link g')) (lk_active (gu_link g')) = Inr \<lparr>cn_addr = \<lparr>sin_family = AF_INET,
               sin_port = htons (ucast (gl_strtoull gl port)), s_addr = the (ne_host (at_env (attempt host)))\<rparr>\<rparr>
           \<and> (\<forall>fresh recvd m. msg_recv fresh recvd = Inr (Some m) \<longrightarrow>
                serv_listen_routine [(fresh, recvd)] (gu_link g')
                  = rbind (msg_process (Some m) (lk_client (gu_link g'))) (\<lambda>cl. Inr ((gu_link g')\<lparr>lk_client := cl\<rparr>)))))"
proof -
  let ?n = "gl_strtoull gl port" and ?a = "(attempt host)\<lparr>at_port := ucast (gl_strtoull gl port)\<rparr>"
  have enter: "check_ip gl attempt (Some (host @ of_char CHR '':'' # port)) (gu_link g)
      = (if ?n = 0 \<or> ?n > USHRT_MAX then Inr (False, gu_link g) else connect_to_serv ?a (gu_link g))"
    using assms(1) [OF assms(4), of port] by (simp add: check_ip_def Let_def)
  show ?thesis
  proof (cases "?n = 0 \<or> ?n > USHRT_MAX")
    case True
    then show ?thesis
      using enter by (simp add: sp_ip_enter_def USHRT_MAX_def)
  next
    case False
    have a: "attempt_ok ?a" "at_port ?a = ucast ?n" "at_env ?a = at_env (attempt host)"
      using assms(3) by simp_all
    obtain l where l: "connect_to_serv ?a (gu_link g) = Inr (answered (attempt host), l)" "link_inv l"
        "answered (attempt host) \<longrightarrow> load (lk_conns l) (lk_active l) = Inr \<lparr>cn_addr = \<lparr>sin_family = AF_INET,
          sin_port = htons (ucast ?n), s_addr = the (ne_host (at_env (attempt host)))\<rparr>\<rparr>"
      using connect_to_serv_ok [OF a(1) assms(2)] unfolding a(2,3) answered_port by blast
    have "sp_ip_enter gl attempt (Some (host @ of_char CHR '':'' # port)) g = Inr (if answered (attempt host)
        then g\<lparr>gu_link := l, gu_shown := MainWindow\<rparr> else g\<lparr>gu_link := l\<rparr>)"
      using enter False l(1) by (simp add: sp_ip_enter_def)
    then show ?thesis
      using False l serv_listen_message [OF l(2)] by (auto simp: USHRT_MAX_def link_inv_def)
  qed
qed

text \<open>Splitting at the first colon, and a number of five digits.\<close>

definition sample_glib :: glib_t where
  "sample_glib = \<lparr>gl_strsplit = (\<lambda>s. if of_char CHR '':'' \<in> set s
       then [takeWhile (\<lambda>c. c \<noteq> of_char CHR '':'') s, tl (dropWhile (\<lambda>c. c \<noteq> of_char CHR '':'') s)] else [s]),
     gl_strtoull = (\<lambda>s. foldl (\<lambda>n c. 10 * n + (ucast c - 48)) 0 s)\<rparr>"

lemma address_entered_witness:
  "\<exists>g'. sp_ip_enter sample_glib (\<lambda>_. sample_attempt True) (Some (of_str ''127.0.0.1:27015''))
      \<lparr>gu_shown = InitWindow, gu_link = \<lparr>lk_conns = [], lk_active = None, lk_listening = False, lk_client = sample_client\<rparr>\<rparr>
      = Inr g' \<and> gu_shown g' = MainWindow
    \<and> load (lk_conns (gu_link g')) (lk_active (gu_link g'))
      = Inr \<lparr>cn_addr = \<lparr>sin_family = AF_INET, sin_port = htons 27015, s_addr = 1\<rparr>\<rparr>"
proof -
  have split: "gl_strsplit sample_glib (h @ of_char CHR '':'' # p) = [h, p]" if "of_char CHR '':'' \<notin> set h" for h p
  proof -
    have "takeWhile (\<lambda>c. c \<noteq> of_char CHR '':'') (h @ of_char CHR '':'' # p) = h"
        "dropWhile (\<lambda>c. c \<noteq> of_char CHR '':'') (h @ of_char CHR '':'' # p) = of_char CHR '':'' # p"
      using that by (subst takeWhile_append2 dropWhile_append2; force)+
    then show ?thesis
      by (simp add: sample_glib_def)
  qed
  let ?g = "\<lparr>gu_shown = InitWindow, gu_link = \<lparr>lk_conns = [], lk_active = None, lk_listening = False, lk_client = sample_client\<rparr>\<rparr>"
  have tx: "of_str ''127.0.0.1:27015'' = of_str ''127.0.0.1'' @ of_char CHR '':'' # of_str ''27015''"
      "of_char CHR '':'' \<notin> set (of_str ''127.0.0.1'')" "gl_strtoull sample_glib (of_str ''27015'') = 27015"
    by code_simp+
  have inv: "link_inv (gu_link ?g)"
    by (simp add: link_inv_def open_conns_def sample_client_def TOKEN_LEN_def)
  show ?thesis
    unfolding tx(1)
    using address_entered [where g = ?g and gl = sample_glib and attempt = "\<lambda>_. sample_attempt True", OF split inv _ tx(2),
        of "of_str ''27015''"] tx(3)
    by (auto simp: sample_attempt_ok) (simp add: sample_attempt_def)
qed

end
