(* ===== verification/PlayerMoves.thy ===== *)
theory PlayerMoves
  imports GameServer TickInv ClientGui
begin

text \<open>
  A step of a player from end to end: the button of the client, the wire, the receiver and a worker
  of the server, and the tick of the game that takes the step.
\<close>

section \<open>Commands in a text\<close>

text \<open>The first word of a text, lowered in place, and what is left of the text.\<close>

lemma get_word_first:
  assumes "terminated b" "next_word (cstr b) \<noteq> []"
  shows "\<exists>d buf pos. get_word b 0 = Inr (Some d, buf, pos) \<and> length buf = length b
    \<and> terminated (drop d buf) \<and> cstr (drop d buf) = map tolower (next_word (cstr b))
    \<and> terminated (drop pos buf) \<and> cstr (drop pos buf) = after_word (cstr b)"
proof -
  obtain s post where b: "b = s @ 0 # post" "0 \<notin> set s" "cstr b = s"
    using terminatedE [OF assms(1)] by metis
  have z: "0 \<notin> set (map tolower (next_word s))" "0 \<notin> set (after_word s)"
    using b(2) tolower_nonzero
    by (auto simp: next_word_def after_word_def dest!: in_set_tl set_takeWhileD set_dropWhileD) metis
  obtain buf pos t u where g: "get_word b 0 = Inr (Some (length (takeWhile isspace s)), buf, pos)" "length buf = length b"
      "drop (length (takeWhile isspace s)) buf = map tolower (next_word s) @ 0 # t" "drop pos buf = after_word s @ 0 # u"
    using get_word_split [OF b(2), of "[]" post] assms(2) unfolding b(3) b(1) [symmetric] append_Nil by auto
  then show ?thesis
    using b(3) z by (intro exI [of _ "length (takeWhile isspace s)"] exI [of _ buf] exI [of _ pos])
      (simp add: cstr_append_zero [OF z(1)] cstr_append_zero [OF z(2)] terminated_def)
qed

lemma word_direction_cstr: "cstr b = cstr b' \<Longrightarrow> word_direction b = word_direction b'"
  by (simp add: word_direction_def str_eq_def)

text \<open>A player that has a name and asks for a possible step gets no answer, and its next step is set.\<close>

lemma go_text_ok:
  assumes "character_get_by_addr (g_world g) (m_addr m) = Inr (Some p)" "load_char g (Some p) = Inr c"
    "ch_is_player c" "terminated (ch_name c)" "cstr (ch_name c) \<noteq> []"
    "length (w_map (g_world g)) = w_msize_x (g_world g) * w_msize_y (g_world g)"
    "on_map (ch_x c) (ch_y c) (w_msize_x (g_world g)) (w_msize_y (g_world g))"
    "gfunc_init = Inr (e, g_funcs g)" "m_type m = user_msg" "msg_wf m" "msg_wf fresh" "terminated (m_key m)" "terminated (m_body m)"
    "map tolower (next_word (cstr (m_body m))) = of_str ''go''"
    "next_word (after_word (cstr (m_body m))) \<noteq> []"
    "word_direction (map tolower (next_word (after_word (cstr (m_body m)))) @ [0]) = Some d"
    "on_map (step_x d (ch_x c)) (step_y d (ch_y c)) (w_msize_x (g_world g)) (w_msize_y (g_world g))"
    "free_at (w_map (g_world g)) (w_msize_x (g_world g)) (step_x d (ch_x c)) (step_y d (ch_y c))"
  shows "query_processing_new fresh junk g m
    = Inr (g\<lparr>g_world := (g_world g)\<lparr>w_chars := (w_chars (g_world g))[p := Some (c\<lparr>ch_next_step := d\<rparr>)]\<rparr>\<rparr>)"
proof -
  let ?b = "m_body m"
  have ne: "next_word (cstr ?b) \<noteq> []"
    using assms(14) by (auto simp: of_str_def)
  obtain i buf pos where w: "get_word ?b 0 = Inr (Some i, buf, pos)" "length buf = length ?b"
      "terminated (drop i buf)" "cstr (drop i buf) = of_str ''go''"
      "terminated (drop pos buf)" "cstr (drop pos buf) = after_word (cstr ?b)"
    using get_word_first [OF assms(13) ne] assms(14) by auto
  obtain j buf' pos' where v: "get_word (drop pos buf) 0 = Inr (Some j, buf', pos')" "terminated (drop j buf')"
      "cstr (drop j buf') = map tolower (next_word (after_word (cstr ?b)))"
    using get_word_first [OF w(5)] assms(15) unfolding w(6) by auto
  have "0 \<notin> set (map tolower (next_word (after_word (cstr ?b))))"
    unfolding v(3) [symmetric] by (rule zero_notin_cstr)
  then have "cstr (drop j buf') = cstr (map tolower (next_word (after_word (cstr ?b))) @ [0])"
    by (simp add: v(3) cstr_append_zero)
  then have d: "word_direction (drop j buf') = Some d"
    using word_direction_cstr assms(16) by metis
  have go: "str_hash (drop i buf) = str_hash (lit ''go'')" "cstr (lit ''go'') = of_str ''go''"
    using w(4) by (simp_all add: str_hash_def lit_def cstr_append_zero of_str_def)
  have "valid_str (drop i buf)"
    using w(2,3) assms(10) by (simp add: valid_str_def msg_wf_def BODY_LEN_def)
  moreover have "map_of (map (\<lambda>(k, v). (str_hash k, v)) funcs) (str_hash (lit ''go'')) = Some GoFunc"
    by code_simp
  moreover obtain t where t: "gfunc_init = Inr (None, t)"
      "\<forall>s. valid_str s \<longrightarrow> gfunc_get t s = Inr (map_of (map (\<lambda>(k, v). (str_hash k, v)) funcs) (str_hash s), t)"
    using gfunc_init_table by blast
  moreover have "g_funcs g = t"
    using trans [OF sym [OF t(1)] assms(8)] by simp
  ultimately have f: "gfunc_get (g_funcs g) (drop i buf) = Inr (Some GoFunc, g_funcs g)"
    using go(1) by simp
  let ?m = "m\<lparr>m_body := buf\<rparr>"
  have m: "msg_wf ?m" "terminated (m_key ?m)" "character_get_by_addr (g_world g) (m_addr ?m) = Inr (Some p)"
    using assms(1,10,12) w(2) by (simp_all add: msg_wf_def)
  have "gfunc_go fresh g ?m (drop pos buf)
      = Inr (g\<lparr>g_world := (g_world g)\<lparr>w_chars := (w_chars (g_world g))[p := Some (c\<lparr>ch_next_step := d\<rparr>)]\<rparr>\<rparr>, None)"
    using gfunc_go_ok [OF m(3) assms(2,3,6,7) v(1,2) d assms(11) m(1,2)] assms(17,18) by auto
  then show ?thesis
    using assms(1,2,4,5,9) w(1) f
    by (simp add: query_processing_new_def query_text_def strlen_ok run_gfunc_def Let_def)
qed

text \<open>A message that nothing answers leaves the outgoing queue alone.\<close>

lemma worker_step_quiet:
  assumes "jq_inv (sv_in s)" "jq_contents (sv_in s) = (QueryProcessingNew, p) # js"
    "load (sv_msgs s) p = Inr m" "\<not> is_echo m"
    "query_processing_new fresh junk (g\<lparr>g_out := no_answers (q_quota (sv_out s))\<rparr>) m = Inr g'"
    "q_contents (g_out g') = []"
  shows "\<exists>q. worker_step fresh junk s g = Inr (s\<lparr>sv_in := q\<rparr>, g') \<and> jq_inv q \<and> jq_contents q = js"
proof -
  obtain q where q: "work_once (sv_in s) = Inr (Some (QueryProcessingNew, p), q)" "jq_inv q" "jq_contents q = js"
    using work_once_spec [OF assms(1,2)] by blast
  then show ?thesis
    using assms(3-6) by (intro exI [of _ q]) (simp add: worker_step_def run_job_def is_echo_def)
qed

section \<open>The buttons\<close>

text \<open>Where a button is meant to take the player, with the rows of the map counted downwards.\<close>

fun button_move :: "button \<Rightarrow> int \<times> int" where
  "button_move UpBut = (0, - 1)"
| "button_move DownBut = (0, 1)"
| "button_move RightBut = (1, 0)"
| "button_move LeftBut = (- 1, 0)"

lemma button_text_cstr:
  "cstr (button_input UpBut) = of_str ''go up''" "cstr (button_input DownBut) = of_str ''go down''"
  "cstr (button_input RightBut) = of_str ''go right''" "cstr (button_input LeftBut) = of_str ''go left''"
  by (simp_all add: PREP_GO_UP_def PREP_GO_DOWN_def PREP_GO_RIGHT_def PREP_GO_LEFT_def cstr_append_zero of_str_def)

lemma button_text:
  "terminated (button_input b)" "length (cstr (button_input b)) < BODY_LEN"
  "map tolower (next_word (cstr (button_input b))) = of_str ''go''"
  "next_word (after_word (cstr (button_input b))) \<noteq> []"
proof -
  show "terminated (button_input b)"
    by (cases b) (simp_all add: PREP_GO_UP_def PREP_GO_DOWN_def PREP_GO_RIGHT_def PREP_GO_LEFT_def terminated_def)
  show "length (cstr (button_input b)) < BODY_LEN"
    by (cases b) (simp_all only: button_text_cstr, simp_all add: of_str_def BODY_LEN_def)
  have "map tolower (next_word (of_str ''go up'')) = of_str ''go''" "map tolower (next_word (of_str ''go down'')) = of_str ''go''"
    "map tolower (next_word (of_str ''go right'')) = of_str ''go''" "map tolower (next_word (of_str ''go left'')) = of_str ''go''"
    by code_simp+
  then show "map tolower (next_word (cstr (button_input b))) = of_str ''go''"
    by (cases b) (simp_all only: button_text_cstr)
  have "next_word (after_word (of_str ''go up'')) \<noteq> []" "next_word (after_word (of_str ''go down'')) \<noteq> []"
    "next_word (after_word (of_str ''go right'')) \<noteq> []" "next_word (after_word (of_str ''go left'')) \<noteq> []"
    by code_simp+
  then show "next_word (after_word (cstr (button_input b))) \<noteq> []"
    by (cases b) (simp_all only: button_text_cstr not_False_eq_True)
qed

lemma button_direction:
  obtains d where "word_direction (map tolower (next_word (after_word (cstr (button_input b)))) @ [0]) = Some d"
    "d \<noteq> nowhere" "button_move b = (dx, dy) \<Longrightarrow> step_x d x = x + dx \<and> step_y d y = y + dy"
proof -
  have "word_direction (map tolower (next_word (after_word (cstr (button_input UpBut)))) @ [0]) = Some south"
    "word_direction (map tolower (next_word (after_word (cstr (button_input DownBut)))) @ [0]) = Some north"
    "word_direction (map tolower (next_word (after_word (cstr (button_input RightBut)))) @ [0]) = Some west"
    "word_direction (map tolower (next_word (after_word (cstr (button_input LeftBut)))) @ [0]) = Some east"
    by code_simp+
  then show thesis
    using that by (cases b) auto
qed

section \<open>Properties\<close>


definition bob :: character_t where
  "bob = (sample_char 4 4 human)\<lparr>ch_name := of_str ''Bob'' @ replicate 125 0\<rparr>"

definition bobs_game :: "gfunc str_hashtable_t \<Rightarrow> game_t" where
  "bobs_game t = island_game\<lparr>g_funcs := t, g_world := (g_world island_game)\<lparr>
     w_chars := [Some bob, Some (sample_char 6 5 human)]\<rparr>\<rparr>"

lemma bobs_game_ok:
  "world_inv (g_world (bobs_game t))" "length (online_text (g_world (bobs_game t))) < BODY_LEN"
  "character_get_by_addr (g_world (bobs_game t)) (m_addr sample_msg) = Inr (Some 0)"
  "load_char (bobs_game t) (Some 0) = Inr bob" "cstr (ch_name bob) \<noteq> []"
  "cs_count (w_characters (g_world (bobs_game t))) = 2" "cs_arr (w_characters (g_world (bobs_game t))) ! 0 = 0"
  "on_map 4 5 (w_msize_x (g_world (bobs_game t))) (w_msize_y (g_world (bobs_game t)))"
  "free_at (w_map (g_world (bobs_game t))) (w_msize_x (g_world (bobs_game t))) 4 5"
proof -
  define w where "w = (g_world island_game)\<lparr>w_chars := [Some bob, Some (sample_char 6 5 human)]\<rparr>"
  define v where "v = w\<lparr>w_map := []\<rparr>"
  have g: "g_world (bobs_game t) = w" "load_char (bobs_game t) p = load (w_chars w) p" for p
    by (simp_all add: bobs_game_def w_def load_char_def)
  have "list_all (\<lambda>q. child_ok w (mp_child q)) (w_map w)"
    by (simp add: list_all_iff w_def island_game_def island_cell_def sample_cell_def child_ok_def)
  moreover have fields: "w_msize_x w = 11" "w_msize_y w = 11" "w_chars w = [Some bob, Some (sample_char 6 5 human)]"
      "w_characters w = \<lparr>cs_arr = [0, 1], cs_count = 2\<rparr>"
    by (simp_all add: w_def island_game_def)
  moreover have "char_ok 11 11 (Suc (Suc 0)) bob" "char_ok 11 11 (Suc (Suc 0)) (sample_char 6 5 human)" "addrs_live v"
    unfolding v_def w_def by code_simp+
  then have live: "table_live (w_characters w) (w_chars w)" "addrs_live w" "heap_ok (w_msize_x w) (w_msize_y w) (w_chars w)"
    unfolding fields by (simp_all add: v_def addrs_live_def heap_ok_def table_live_def is_ok_iff load_eq_Inr fields)
  ultimately show "world_inv (g_world (bobs_game t))"
    using world_invD(1-3) [OF island_game_inv(1)] unfolding g world_inv_def by (simp add: w_def)
  have "online_text v = of_str ''Bob'' @ [10]"
    unfolding v_def w_def by code_simp
  then have "online_text w = of_str ''Bob'' @ [10]"
    by (simp add: v_def online_text_def used_entries_def)
  then show "length (online_text (g_world (bobs_game t))) < BODY_LEN"
    by (simp add: g BODY_LEN_def of_str_def)
  have "character_get_by_addr v (m_addr sample_msg) = Inr (Some 0)"
    unfolding v_def w_def by code_simp
  moreover have "has_addr v a b = has_addr w a b" for a b
    by (simp add: v_def has_addr_def)
  ultimately show "character_get_by_addr (g_world (bobs_game t)) (m_addr sample_msg) = Inr (Some 0)"
    using get_by_addr_find [OF live(1,2)] get_by_addr_find [of v] live unfolding g
    by (simp add: v_def used_entries_def addrs_live_def has_addr_def [abs_def])
  show "load_char (bobs_game t) (Some 0) = Inr bob" "cstr (ch_name bob) \<noteq> []"
    "cs_count (w_characters (g_world (bobs_game t))) = 2" "cs_arr (w_characters (g_world (bobs_game t))) ! 0 = 0"
    using island_game_inv(4) unfolding g by (simp_all add: w_def load_eq_Inr bob_def of_str_def island_game_def)
  show "on_map 4 5 (w_msize_x (g_world (bobs_game t))) (w_msize_y (g_world (bobs_game t)))"
    "free_at (w_map (g_world (bobs_game t))) (w_msize_x (g_world (bobs_game t))) 4 5"
    unfolding g fields
    by (simp_all add: on_map_def)
      (simp add: w_def free_at_def island_game_def island_cell_def sample_cell_def cell_index_def walkable_def GROUND_TYPE_CNT_def)
qed


end
