(* ===== verification/RbEqual.thy ===== *)
theory RbEqual
  imports RbIterator
begin

text \<open>
  The iterator of the red-black trees with its filter (\<open>it_init_on_equal\<close> of \<open>sglib.h\<close>): of every
  subtree that the traversal would enter it takes the part at and below the first element
  equal to \<open>equalto\<close>, found by \<open>SGLIB___BIN_TREE_FIND_MEMBER\<close> with \<open>subcomparator\<close> where one is
  given.  Without \<open>equalto\<close> it is the iterator of \<open>RbIterator\<close>.
\<close>

section \<open>The iterator\<close>

record 'a eq_iterator = "'a iterator" +
  it_equalto :: "'a option"
  it_subcomparator :: "('a \<Rightarrow> 'a \<Rightarrow> int) option"

text \<open>The search reads the elements it passes.\<close>

fun live_find_member :: "('a \<Rightarrow> bool) \<Rightarrow> ('a \<Rightarrow> 'a \<Rightarrow> int) \<Rightarrow> 'a tree \<Rightarrow> 'a \<Rightarrow> 'a tree res" where
  "live_find_member dead comparator TNull e = Inr TNull"
| "live_find_member dead comparator (TNode x c l r) e =
     (if dead x then Inl UseAfterFree
      else if comparator e x < 0 then live_find_member dead comparator l e
      else if comparator e x > 0 then live_find_member dead comparator r e
      else Inr (TNode x c l r))"

definition eq_select ::
  "('a \<Rightarrow> bool) \<Rightarrow> ('a \<Rightarrow> 'a \<Rightarrow> int) \<Rightarrow> 'a option \<Rightarrow> ('a \<Rightarrow> 'a \<Rightarrow> int) option \<Rightarrow> 'a tree \<Rightarrow> 'a tree res" where
  "eq_select dead comparator equalto subcomparator s = (case equalto of
     None \<Rightarrow> Inr s
   | Some e \<Rightarrow> live_find_member dead (case subcomparator of None \<Rightarrow> comparator | Some sub \<Rightarrow> sub) s e)"

definition eq_step :: "('a \<Rightarrow> bool) \<Rightarrow> ('a \<Rightarrow> 'a \<Rightarrow> int) \<Rightarrow> 'a eq_iterator \<Rightarrow> 'a eq_iterator res" where
  "eq_step dead comparator it = (case it_stack it of
     [] \<Rightarrow> Inl OutOfBounds
   | (t, pass) # st \<Rightarrow>
       rbind
         (if pass \<ge> 2 then Inr st
          else case t of
              TNull \<Rightarrow> Inl NullDeref
            | TNode x _ l r \<Rightarrow>
                if dead x then Inl UseAfterFree
                else
                  rbind (eq_select dead comparator (it_equalto it) (it_subcomparator it) (if pass = 0 then l else r)) (\<lambda>s.
                    if s \<noteq> TNull then
                      if length (it_stack it) < SGLIB_MAX_TREE_DEEP
                      then Inr ((s, 0) # (t, pass + 1) # st) else Inl OutOfBounds
                    else Inr ((t, pass + 1) # st)))
         (\<lambda>st. Inr (it\<lparr>it_stack := st, it_currentelem := it_top (it_order it) st\<rparr>)))"

definition eq_work :: "'a eq_iterator \<Rightarrow> nat" where
  "eq_work it = sum_list (map entry_work (it_stack it))"

lemma live_find_work: "live_find_member dead comparator t e = Inr s \<Longrightarrow> tree_work s \<le> tree_work t"
  by (induction t) (auto split: if_splits)

lemma eq_select_work: "eq_select dead comparator eq sub t = Inr s \<Longrightarrow> tree_work s \<le> tree_work t"
  by (auto simp: eq_select_def dest: live_find_work split: option.splits)

lemma eq_step_work: "eq_step dead comparator it = Inr it' \<Longrightarrow> eq_work it' < eq_work it"
  by (fastforce simp: eq_step_def eq_work_def res_simps split: list.splits tree.splits if_splits dest: eq_select_work)

function eq_loop :: "('a \<Rightarrow> bool) \<Rightarrow> ('a \<Rightarrow> 'a \<Rightarrow> int) \<Rightarrow> 'a eq_iterator \<Rightarrow> 'a eq_iterator res" where
  "eq_loop dead comparator it =
     (if it_stack it \<noteq> [] \<and> it_currentelem it = None
      then rbind (eq_step dead comparator it) (\<lambda>it. eq_loop dead comparator it) else Inr it)"
  by pat_completeness auto
termination
  by (relation "measure (\<lambda>(dead, comparator, it). eq_work it)") (auto simp: eq_step_work)

declare eq_loop.simps [simp del]

definition eq_compute_current_elem :: "('a \<Rightarrow> bool) \<Rightarrow> ('a \<Rightarrow> 'a \<Rightarrow> int) \<Rightarrow> 'a eq_iterator \<Rightarrow> 'a eq_iterator res" where
  "eq_compute_current_elem dead comparator it = eq_loop dead comparator (it\<lparr>it_currentelem := None\<rparr>)"

definition eq_init :: "('a \<Rightarrow> bool) \<Rightarrow> ('a \<Rightarrow> 'a \<Rightarrow> int) \<Rightarrow> 'a tree \<Rightarrow> nat
    \<Rightarrow> ('a \<Rightarrow> 'a \<Rightarrow> int) option \<Rightarrow> 'a option \<Rightarrow> 'a eq_iterator res" where
  "eq_init dead comparator tree order subcomparator equalto =
     rbind (eq_select dead comparator equalto subcomparator tree) (\<lambda>t.
       let it = \<lparr>it_currentelem = None, it_stack = [(t, 0)], it_order = order,
                 it_equalto = equalto, it_subcomparator = subcomparator\<rparr> in
       case t of
         TNull \<Rightarrow> Inr (it\<lparr>it_stack := []\<rparr>)
       | TNode x _ _ _ \<Rightarrow>
           if order = 0 then Inr (it\<lparr>it_currentelem := Some x\<rparr>)
           else eq_compute_current_elem dead comparator it)"

definition sglib_it_init_on_equal :: "('a \<Rightarrow> bool) \<Rightarrow> ('a \<Rightarrow> 'a \<Rightarrow> int) \<Rightarrow> 'a tree
    \<Rightarrow> ('a \<Rightarrow> 'a \<Rightarrow> int) option \<Rightarrow> 'a option \<Rightarrow> 'a eq_iterator res" where
  "sglib_it_init_on_equal dead comparator tree subcomparator equalto = eq_init dead comparator tree 1 subcomparator equalto"

text \<open>The elements that a loop over the iterator gets, for at most \<open>fuel\<close> of them.\<close>

fun eq_elements :: "nat \<Rightarrow> ('a \<Rightarrow> bool) \<Rightarrow> ('a \<Rightarrow> 'a \<Rightarrow> int) \<Rightarrow> 'a eq_iterator \<Rightarrow> 'a list res" where
  "eq_elements fuel dead comparator it = (case it_currentelem it of
     None \<Rightarrow> Inr []
   | Some x \<Rightarrow> (case fuel of
       0 \<Rightarrow> Inl Diverges
     | Suc fuel \<Rightarrow>
         rbind (eq_compute_current_elem dead comparator it) (\<lambda>it.
         rbind (eq_elements fuel dead comparator it) (\<lambda>xs. Inr (x # xs)))))"

section \<open>The part of a tree that is visited\<close>

fun equal_part :: "('a \<Rightarrow> 'a \<Rightarrow> int) \<Rightarrow> 'a \<Rightarrow> 'a tree \<Rightarrow> 'a tree" where
  "equal_part cmp e TNull = TNull"
| "equal_part cmp e (TNode x c l r) =
     (if cmp e x < 0 then equal_part cmp e l
      else if cmp e x > 0 then equal_part cmp e r
      else TNode x c (equal_part cmp e l) (equal_part cmp e r))"

definition guided :: "('a \<Rightarrow> 'a \<Rightarrow> int) \<Rightarrow> 'a \<Rightarrow> 'a list \<Rightarrow> bool" where
  "guided cmp e xs \<longleftrightarrow> sorted_wrt (\<lambda>x y. (cmp e x < 0 \<longrightarrow> cmp e y < 0) \<and> (cmp e y > 0 \<longrightarrow> cmp e x > 0)) xs"

lemma height_equal_part: "height (equal_part cmp e t) \<le> height t"
  by (induction t) auto

lemma inorder_equal_part:
  "guided cmp e (inorder t) \<Longrightarrow> inorder (equal_part cmp e t) = filter (\<lambda>x. cmp e x = 0) (inorder t)"
proof (induction t)
  case (TNode x c l r)
  then have "inorder (equal_part cmp e l) = filter (\<lambda>x. cmp e x = 0) (inorder l)"
      "inorder (equal_part cmp e r) = filter (\<lambda>x. cmp e x = 0) (inorder r)"
    by (simp_all add: guided_def sorted_wrt_append)
  moreover have "cmp e x < 0 \<Longrightarrow> y \<in> set (inorder r) \<Longrightarrow> cmp e y < 0" "cmp e x > 0 \<Longrightarrow> y \<in> set (inorder l) \<Longrightarrow> cmp e y > 0" for y
    using TNode.prems by (auto simp: guided_def sorted_wrt_append)
  then have "cmp e x < 0 \<Longrightarrow> filter (\<lambda>x. cmp e x = 0) (inorder r) = []" "cmp e x > 0 \<Longrightarrow> filter (\<lambda>x. cmp e x = 0) (inorder l) = []"
    by (force simp: filter_empty_conv)+
  ultimately show ?case
    by auto
qed simp

text \<open>The filter as a function on trees, and a subtree on the path with what will be entered below it.\<close>

definition selected :: "('a \<Rightarrow> 'a \<Rightarrow> int) \<Rightarrow> 'a option \<Rightarrow> ('a \<Rightarrow> 'a \<Rightarrow> int) option \<Rightarrow> 'a tree \<Rightarrow> 'a tree" where
  "selected comparator equalto subcomparator t = (case equalto of None \<Rightarrow> t
     | Some e \<Rightarrow> equal_part (case subcomparator of None \<Rightarrow> comparator | Some sub \<Rightarrow> sub) e t)"

fun below :: "('a tree \<Rightarrow> 'a tree) \<Rightarrow> 'a tree \<Rightarrow> 'a tree" where
  "below f TNull = TNull"
| "below f (TNode x c l r) = TNode x c (f l) (f r)"

lemma below_TNull: "below f t = TNull \<longleftrightarrow> t = TNull"
  by (cases t) auto

lemma live_find_part:
  "\<forall>x\<in>set (inorder t). \<not> dead x \<Longrightarrow> \<exists>s. live_find_member dead cmp t e = Inr s
    \<and> below (equal_part cmp e) s = equal_part cmp e t \<and> set (inorder s) \<subseteq> set (inorder t)"
proof (induction t)
  case (TNode x c l r)
  then show ?case
    by (cases "cmp e x < 0"; cases "cmp e x > 0") auto
qed simp

lemma eq_select_part:
  assumes "\<forall>x\<in>set (inorder t). \<not> dead x"
  shows "\<exists>s. eq_select dead comparator eq sub t = Inr s
    \<and> below (selected comparator eq sub) s = selected comparator eq sub t \<and> set (inorder s) \<subseteq> set (inorder t)"
proof (cases eq)
  case None
  then show ?thesis
    by (cases t) (simp_all add: eq_select_def selected_def)
next
  case (Some e)
  moreover have "selected comparator (Some e) sub = equal_part (case sub of None \<Rightarrow> comparator | Some c \<Rightarrow> c) e"
    by (rule ext) (simp add: selected_def)
  ultimately show ?thesis
    using live_find_part [OF assms] by (simp add: eq_select_def)
qed

section \<open>It runs like the iterator without a filter on that part\<close>

definition plain :: "('a \<Rightarrow> 'a \<Rightarrow> int) \<Rightarrow> 'a eq_iterator \<Rightarrow> 'a iterator" where
  "plain comparator it = \<lparr>it_currentelem = it_currentelem it,
     it_stack = map (apfst (below (selected comparator (it_equalto it) (it_subcomparator it)))) (it_stack it),
     it_order = it_order it\<rparr>"

definition alive :: "('a \<Rightarrow> bool) \<Rightarrow> 'a eq_iterator \<Rightarrow> bool" where
  "alive dead it \<longleftrightarrow> (\<forall>(t, pass)\<in>set (it_stack it). \<forall>x\<in>set (inorder t). \<not> dead x)"

lemma it_top_below: "it_top order (map (apfst (below f)) st) = it_top order st"
  by (cases st) (auto simp: it_top_def split: tree.splits)

lemma plain_simps [simp]:
  "it_currentelem (plain cmp it) = it_currentelem it" "it_order (plain cmp it) = it_order it"
  "it_stack (plain cmp it) = [] \<longleftrightarrow> it_stack it = []"
  "plain cmp (it\<lparr>it_currentelem := c\<rparr>) = (plain cmp it)\<lparr>it_currentelem := c\<rparr>"
  "alive dead (it\<lparr>it_currentelem := c\<rparr>) = alive dead it"
  by (simp_all add: plain_def alive_def)

lemma eq_step_plain:
  assumes "alive dead it" "it_step dead (plain cmp it) = Inr p"
  shows "\<exists>it'. eq_step dead cmp it = Inr it' \<and> plain cmp it' = p \<and> alive dead it'"
proof -
  let ?f = "selected cmp (it_equalto it) (it_subcomparator it)"
  obtain t pass st where st: "it_stack it = (t, pass) # st"
    using assms(2) by (cases "it_stack it") (auto simp: it_step_def plain_def)
  show ?thesis
  proof (cases "pass \<ge> 2")
    case True
    then show ?thesis
      using assms st by (auto simp: it_step_def eq_step_def plain_def alive_def it_top_below)
  next
    case False
    then obtain x c l r where t: "t = TNode x c l r"
      using assms(2) st by (cases t) (auto simp: it_step_def plain_def)
    let ?u = "if pass = 0 then l else r"
    have live: "\<not> dead x" "\<forall>y\<in>set (inorder ?u). \<not> dead y"
      using assms(1) st t by (auto simp: alive_def)
    obtain s where s: "eq_select dead cmp (it_equalto it) (it_subcomparator it) ?u = Inr s"
        "below ?f s = ?f ?u" "set (inorder s) \<subseteq> set (inorder ?u)"
      using eq_select_part [OF live(2)] by blast
    let ?st = "if s \<noteq> TNull then (s, 0) # (t, pass + 1) # st else (t, pass + 1) # st"
    let ?it = "it\<lparr>it_stack := ?st, it_currentelem := it_top (it_order it) ?st\<rparr>"
    have step: "eq_step dead cmp it = (if s \<noteq> TNull \<and> \<not> length (it_stack it) < SGLIB_MAX_TREE_DEEP then Inl OutOfBounds else Inr ?it)"
      using s(1) st t False live(1) by (simp add: eq_step_def)
    have pl: "it_step dead (plain cmp it)
        = (if s \<noteq> TNull \<and> \<not> length (it_stack it) < SGLIB_MAX_TREE_DEEP then Inl OutOfBounds else Inr (plain cmp ?it))"
      using st t False live(1) s(2) [symmetric]
      by (cases "pass = 0"; cases s) (simp_all add: it_step_def plain_def it_top_def)
    have "alive dead ?it"
      using assms(1) live(2) s(3) st t by (auto simp: alive_def)
    then show ?thesis
      using step pl assms(2) by (simp split: if_splits)
  qed
qed

lemma eq_loop_plain:
  "alive dead it \<Longrightarrow> it_loop dead (plain cmp it) = Inr p
    \<Longrightarrow> \<exists>it'. eq_loop dead cmp it = Inr it' \<and> plain cmp it' = p \<and> alive dead it'"
proof (induction dead cmp it rule: eq_loop.induct)
  case (1 dead cmp it)
  show ?case
  proof (cases "it_stack it \<noteq> [] \<and> it_currentelem it = None")
    case True
    then obtain q where q: "it_step dead (plain cmp it) = Inr q" "it_loop dead q = Inr p"
      using "1.prems"(2) by (subst (asm) it_loop.simps) (auto simp: rbind_eq_Inr)
    then obtain it1 where "eq_step dead cmp it = Inr it1" "plain cmp it1 = q" "alive dead it1"
      using eq_step_plain [OF "1.prems"(1)] by blast
    then show ?thesis
      using "1.IH" [of it1] True q(2) by (subst eq_loop.simps) simp
  next
    case False
    then have "p = plain cmp it"
      using "1.prems"(2) by (subst (asm) it_loop.simps) auto
    then show ?thesis
      using False "1.prems"(1) by (subst eq_loop.simps) auto
  qed
qed

lemma eq_init_plain:
  assumes "\<forall>x\<in>set (inorder t). \<not> dead x" "it_init_order dead (selected cmp eq sub t) order = Inr p"
  shows "\<exists>it. eq_init dead cmp t order sub eq = Inr it \<and> plain cmp it = p \<and> alive dead it"
proof -
  obtain s where s: "eq_select dead cmp eq sub t = Inr s"
      "selected cmp eq sub t = below (selected cmp eq sub) s" "set (inorder s) \<subseteq> set (inorder t)"
    using eq_select_part [OF assms(1)] by metis
  show ?thesis
  proof (cases s)
    case TNull
    then show ?thesis
      using s assms(2) by (simp add: eq_init_def it_init_order_def plain_def alive_def)
  next
    case (TNode x c l r)
    let ?it = "\<lparr>it_currentelem = None, it_stack = [(s, 0)], it_order = order, it_equalto = eq, it_subcomparator = sub\<rparr>"
    have a: "alive dead ?it"
      using assms(1) s(3) by (auto simp: alive_def)
    have p: "plain cmp ?it = \<lparr>it_currentelem = None, it_stack = [(selected cmp eq sub t, 0)], it_order = order\<rparr>"
      by (simp add: plain_def s(2))
    show ?thesis
    proof (cases "order = 0")
      case True
      then show ?thesis
        using s assms(2) TNode a p by (intro exI [of _ "?it\<lparr>it_currentelem := Some x\<rparr>"])
          (simp add: eq_init_def it_init_order_def alive_def plain_def)
    next
      case False
      then have "it_loop dead (plain cmp ?it) = Inr p"
        using assms(2) s(2) TNode p by (simp add: it_init_order_def it_compute_current_elem_def)
      from eq_loop_plain [OF a this] show ?thesis
        using s(1) TNode False by (simp add: eq_init_def eq_compute_current_elem_def)
    qed
  qed
qed

lemma selected_subset: "set (inorder (selected cmp eq sub t)) \<subseteq> set (inorder t)"
proof -
  have "set (inorder (equal_part c e t)) \<subseteq> set (inorder t)" for c e
    by (induction t) auto
  then show ?thesis
    by (simp add: selected_def split: option.split)
qed

lemma alive_reads:
  assumes "alive dead it"
  shows "\<forall>x\<in>reads (it_stack (plain cmp it)). \<not> dead x"
proof -
  have "entry_reads (below (selected cmp eq sub) t, pass) \<subseteq> set (inorder t)" for eq sub t pass
    using selected_subset [of cmp eq sub] by (cases t) auto
  then show ?thesis
    using assms by (fastforce simp: reads_def plain_def alive_def)
qed

lemma eq_elements_ok:
  assumes "alive dead it" "stack_ok (it_stack (plain cmp it))" "it_order it \<le> 2"
    "ys = (case it_currentelem it of None \<Rightarrow> [] | Some x \<Rightarrow> [x]) @ pending (it_order it) (it_stack (plain cmp it))"
    "it_currentelem it = None \<longrightarrow> it_stack it = []" "length ys \<le> fuel"
  shows "eq_elements fuel dead cmp it = Inr ys"
  using assms
proof (induction fuel arbitrary: it ys)
  case 0
  then show ?case
    by (simp add: plain_def split: option.splits)
next
  case (Suc fuel)
  show ?case
  proof (cases "it_currentelem it")
    case None
    then show ?thesis
      using Suc.prems by (simp add: plain_def)
  next
    case (Some x)
    let ?p = "(plain cmp it)\<lparr>it_currentelem := None\<rparr>"
    obtain p where p: "it_loop dead ?p = Inr p" "it_order p = it_order it" "stack_ok (it_stack p)"
        "pending (it_order it) (it_stack ?p) = (case it_currentelem p of None \<Rightarrow> [] | Some x \<Rightarrow> [x]) @ pending (it_order it) (it_stack p)"
        "it_currentelem p = None \<longrightarrow> it_stack p = []"
      using it_loop_ok [of ?p dead] Suc.prems(2,3) alive_reads [OF Suc.prems(1), of cmp] by auto
    obtain it' where it': "eq_loop dead cmp (it\<lparr>it_currentelem := None\<rparr>) = Inr it'" "plain cmp it' = p" "alive dead it'"
      using eq_loop_plain [of dead "it\<lparr>it_currentelem := None\<rparr>" cmp p] Suc.prems(1) p(1) by auto
    have "it_currentelem p = it_currentelem it'" "it_order p = it_order it'" "it_stack p = [] \<longleftrightarrow> it_stack it' = []"
      by (simp_all add: it'(2) [symmetric])
    then have "eq_elements fuel dead cmp it' = Inr (pending (it_order it) (it_stack ?p))"
      using Suc.IH [OF it'(3)] it'(2) p(2-5) Suc.prems(3,4,6) Some by auto
    then show ?thesis
      using Some it'(1) Suc.prems(4) by (simp add: eq_compute_current_elem_def)
  qed
qed

lemma eq_init_ok:
  assumes "height t \<le> SGLIB_MAX_TREE_DEEP" "\<forall>x\<in>set (inorder t). \<not> dead x"
  shows "\<exists>it. sglib_it_init_on_equal dead cmp t sub eq = Inr it \<and> alive dead it \<and> it_order it = 1 \<and> stack_ok (it_stack (plain cmp it))
    \<and> inorder (selected cmp eq sub t) = (case it_currentelem it of None \<Rightarrow> [] | Some x \<Rightarrow> [x]) @ pending 1 (it_stack (plain cmp it))
    \<and> (it_currentelem it = None \<longrightarrow> it_stack it = [])"
proof -
  let ?t = "selected cmp eq sub t"
  have h: "height ?t \<le> SGLIB_MAX_TREE_DEEP"
    using assms(1) height_equal_part [of _ _ t] by (auto simp: selected_def intro: order.trans split: option.split)
  have "\<exists>p. it_init_order dead ?t 1 = Inr p \<and> it_order p = 1 \<and> stack_ok (it_stack p)
      \<and> visits 1 ?t = (case it_currentelem p of None \<Rightarrow> [] | Some x \<Rightarrow> [x]) @ pending 1 (it_stack p)
      \<and> (it_currentelem p = None \<longrightarrow> it_stack p = [])"
  proof (cases ?t)
    case TNull
    then show ?thesis
      by (simp add: it_init_order_def)
  next
    case (TNode x c l r)
    let ?it = "\<lparr>it_currentelem = None, it_stack = [(?t, 0)], it_order = 1\<rparr>"
    have "stack_ok (it_stack ?it)" "\<forall>x\<in>reads (it_stack ?it). \<not> dead x"
      using h TNode selected_subset [of cmp eq sub t] assms(2) by (auto simp: reads_def)
    from it_loop_ok [OF this] show ?thesis
      using TNode by (simp add: it_init_order_def it_compute_current_elem_def)
  qed
  then obtain p where p: "it_init_order dead ?t 1 = Inr p" "it_order p = 1" "stack_ok (it_stack p)"
      "visits 1 ?t = (case it_currentelem p of None \<Rightarrow> [] | Some x \<Rightarrow> [x]) @ pending 1 (it_stack p)"
      "it_currentelem p = None \<longrightarrow> it_stack p = []"
    by (elim exE conjE) (rule that)
  obtain it where it: "eq_init dead cmp t 1 sub eq = Inr it" "plain cmp it = p" "alive dead it"
    using eq_init_plain [OF assms(2) p(1)] by blast
  have e: "it_currentelem p = it_currentelem it" "it_order p = it_order it" "it_stack p = [] \<longleftrightarrow> it_stack it = []"
    by (simp_all add: it(2) [symmetric])
  have v: "visits 1 ?t = inorder ?t"
    using visits_1 by simp
  show ?thesis
    using it(1,3) p(2-5) e unfolding it(2) v sglib_it_init_on_equal_def
    by (intro exI [of _ it]) (simp only: it(2) simp_thms)
qed

section \<open>Properties\<close>


text \<open>Pairs in lexical order, and those with a given first component.\<close>

definition pair_cmp :: "int \<times> int \<Rightarrow> int \<times> int \<Rightarrow> int" where
  "pair_cmp a b = (if fst a \<noteq> fst b then fst a - fst b else snd a - snd b)"


text \<open>Without \<open>equalto\<close> it does what the iterator of \<open>RbIterator\<close> does.\<close>

lemma it_on_all:
  assumes "\<forall>x\<in>set (inorder t). \<not> dead x" "it_init_order dead t order = Inr p"
  shows "\<exists>it. eq_init dead cmp t order sub None = Inr it \<and> plain cmp it = p"
  using eq_init_plain [OF assms(1), of cmp None sub order p] assms(2) by (auto simp: selected_def)

end
