(* ===== verification/Spec2Isabelle.thy ===== *)
theory Spec2Isabelle
  imports Network Queue ThreadPoolRun StrHashtable SharedFuncs Config Player MapGen Character GameStart DbMain GameServer
    ServerLife ClientGui PlayerMoves RbEqual
begin

text \<open>
  A verification development for tmmo, a multiplayer text game in C.

  \<^bold>\<open>The program.\<close>  Clients (\<open>src/src/client\<close>) send texts as datagrams.  The server
  (\<open>src/src/server\<close>) receives them in one thread, gives every message a key and puts it into a job
  queue; workers of a thread pool run the game's dispatcher (\<open>src/src/game_processing\<close>) on it,
  which changes the world and puts answers into a second queue; another thread encrypts and sends
  these.  A thread logs idle players out and one moves the world on by ticks.  The map the world
  starts from is written by a tool (\<open>src/src/map&builds_gen\<close>).  A key-value store and its client
  (\<open>src/src/data_base\<close>) stand beside the game, on red-black trees of the library sglib.

  \<^bold>\<open>How C is modelled.\<close>  \<open>TmmoPrelude\<close> has the result type: a value or a fault (null pointer,
  out of bounds, use after free, string without terminator, uninitialised value, deadlock, failed
  assertion, loop without end).  A function of the program that has a defined result gives \<open>Inr\<close> of
  it, and one that C leaves undefined gives the fault, so "does not fault" is part of every
  theorem that gives an \<open>Inr\<close>.  Objects with an identity are blocks on a heap, a list of options
  indexed by address, where addresses are not used again; chains of blocks are followed by
  \<open>chain\<close>.  Unsigned members are words of their width, text is lists of bytes.  The content of
  fresh memory, the clock, \<open>rand\<close>, what \<open>recvfrom\<close> delivered and what GTK or libuv return are
  arguments.  One call under a lock, or one round of a thread, is one step; in the thread pool a step
  is what a thread does between two points where another one may come in.

  \<^bold>\<open>Theories and the code they model.\<close>
  \<^item> \<open>Crypto\<close> (\<open>server/crypto.c\<close>): hash rounds and cipher on 32-bit words, key generation;
    decryption undoes encryption exactly when the text avoids one byte.
  \<^item> \<open>Network\<close> (\<open>server/network.c\<close>): messages as the bytes of their members, sending, receiving.
  \<^item> \<open>Fifo\<close>, \<open>Queue\<close> (\<open>server/queue.c\<close>), \<open>JobQueue\<close> (\<open>job_queue.c\<close>): the contract of
    a queue is the locale \<open>fifo\<close>; both linked queues are interpretations of it, so that every
    interleaving of operations refines operations on a list.
  \<^item> \<open>ThreadPool\<close>, \<open>ThreadPoolRun\<close> (\<open>threadpool.c\<close>): workers, threads that add jobs and the thread that
    destroys the pool as program counters around one mutex and one condition variable, run by
    schedules; mutual exclusion, no job lost or called twice, coming to rest, and when the
    destruction returns and when it cannot.
  \<^item> \<open>SlotTable\<close>, \<open>StrHashtable\<close> (\<open>str_hashtable.c\<close>): the contract of a table filled by hash codes, and
    the chained table with its lock, which a refused duplicate never releases.
  \<^item> \<open>SharedFuncs\<close> (\<open>shared_funcs.c\<close>): the tokenizer that works in place.
  \<^item> \<open>Options\<close>: \<open>getopt\<close> and \<open>atoi\<close> of the C library, as the programs use them.
  \<^item> \<open>Config\<close> (\<open>server/config.c\<close>, the defaults of \<open>server/main.c\<close>): options, saving, loading and freeing.
  \<^item> \<open>Player\<close> (\<open>server/player.c\<close>): the table of online players as a list; when a deletion faults.
  \<^item> \<open>WorldMap\<close>, \<open>Grid\<close>, \<open>MapGen\<close> (\<open>map.c\<close>): cells, Voronoi grounds and the flood fill of regions, whose
    numbers are those of connected components.
  \<^item> \<open>Character\<close> (\<open>character.c\<close>, \<open>item.c\<close>): the table of characters, movement, targets, fights.
  \<^item> \<open>GameFunctions\<close>, \<open>Commands\<close> (\<open>game_functions.c\<close>) and \<open>QueryProcessing\<close> (\<open>query_processing.c\<close>): the
    commands of players, the replies byte for byte, and the dispatcher.
  \<^item> \<open>GameTick\<close>, \<open>TickTerm\<close>, \<open>TickInv\<close>, \<open>GameStart\<close> (\<open>game_main.c\<close>): one tick over all characters, that it
    ends, the invariant of the world that it keeps, and the start from a map file.
  \<^item> \<open>MapFile\<close>, \<open>BuildGen\<close> (\<open>map&builds_gen\<close>): writing and reading map files, placing buildings.
  \<^item> \<open>ServerThreads\<close> (\<open>server/threads.c\<close>): a round of the receiver, of a worker on a message that is its
    own answer, of the sender and of the thread that logs players out, on shared messages.
  \<^item> \<open>ServerRun\<close>: these rounds as a step relation; runs keep who owns which message, never fault
    and answer in the order of arrival.  Rounds of the receiver are whole there; what happens
    when a worker gets between its two halves is \<open>receiver_race\<close> in \<open>ServerThreads\<close>.
  \<^item> \<open>GameServer\<close>: a worker that runs the dispatcher on the shared messages whatever their type, and what
    a new player sees of it: the question for the name and the greeting, end to end.
  \<^item> \<open>ServerMain\<close> (\<open>server/main.c\<close>): from the command line and the configuration to the state in which the
    threads start, which satisfies the invariant of \<open>ServerRun\<close>.
  \<^item> \<open>ServerLife\<close> (\<open>server/threads.c\<close>, \<open>server/main.c\<close>): the arguments of the threads, which are gone when
    the functions that start them return, and the calls after the signal that stops the server.
  \<^item> \<open>Client\<close> (\<open>client/client.c\<close>, \<open>gui.c\<close>, \<open>map.c\<close>) and \<open>ClientServer\<close>: what the client sends and shows;
    connecting to the server, and that map and values on the screen are those of the game.
  \<^item> \<open>Connection\<close> (the opening and closing in \<open>network.c\<close>), \<open>ClientConnection\<close> (\<open>connect_to_serv\<close> and the
    thread that listens) and \<open>ClientGui\<close> (the address typed in, the buttons): one connection is open at a
    time; a port that is taken is freed twice.
  \<^item> \<open>PlayerMoves\<close>: a step of a player from end to end, from the button of the client over the wire, the
    receiver and a worker to the tick that takes it.
  \<^item> \<open>RedBlack\<close>, \<open>RbIterator\<close>, \<open>RbEqual\<close> (the red-black macros and traversals of \<open>sglib.h\<close>): insertion,
    deletion, the consistency check, iterators, also with a filter, and the loop over all elements
    with its stacks.
  \<^item> \<open>Database\<close>, \<open>DbFile\<close> (\<open>data_base/src/main.c\<close>), \<open>DbClient\<close> (\<open>data_base/src/db.c\<close>): requests on the store,
    saving and loading, and the client's calls; the store refines a finite map, by the locale
    \<open>keyed_store\<close> interpreted on the trees.
  \<^item> \<open>DbMain\<close> (\<open>main\<close> of \<open>data_base/src/main.c\<close>): options, callbacks, start and stop of the store; when it can
    be saved, and that a store started from its file answers as the map that was saved.

  \<^bold>\<open>Loops, bounds and fuel.\<close>  Loops over an index or a list are structural; hash rounds, parsers,
  iterators, traversals and the loop over idle players end by a measure.  Where a loop of the code
  has no bound of its own the model takes fuel, the fault \<open>Diverges\<close> is what remains without
  it, and the theorems say how much is enough: for the tick one more than there are characters
  (\<open>TickTerm\<close>), for the fill of regions the number of cells (\<open>MapGen\<close>), for saving options their number
  (\<open>Config\<close>), for the place of a building the number of the first draw that fits (\<open>BuildGen\<close>).  The
  traversal stacks of 128 levels are enough for fewer than 2 to the 63 elements (\<open>RbIterator\<close>).
  Quotas (\<open>q_quota\<close>, \<open>jq_room\<close>) bound the memory that allocations may take; theorems ask for the
  room they need.

  \<^bold>\<open>What the lemmas of a theory are for.\<close>  Each component first has its invariant and one lemma per
  operation that gives the result on every branch, then its properties, which are these lemmas
  put together, each with a theorem that applies it to a concrete state.  The properties that span
  components are in \<open>GameStart\<close> (tool, file and game), \<open>DbClient\<close> (client, store, tree),
  \<open>DbMain\<close> (files, store, requests), \<open>ServerThreads\<close>, \<open>ServerRun\<close>, \<open>ClientServer\<close>, \<open>GameServer\<close>,
  \<open>ServerLife\<close> (pool, queues, connection, configuration), \<open>ClientGui\<close> and \<open>PlayerMoves\<close>.

  \<^bold>\<open>Not modelled.\<close>  Sockets, signals, sleeping and prompts are calls of the system; \<open>pthread_cancel\<close>, with
  which the server ends its threads, is left out, so that what is shown of its end is that of the
  workers and of \<open>main\<close>.  Windows and widgets are calls of GTK and the event loop of the store is
  libuv, whose code is not here: the callbacks it makes are an argument.  \<open>client/crypto.c\<close> and the messages of \<open>client/network.c\<close> are copies of the server's files.
  Of sglib only the red-black trees are modelled; its lists, arrays, queues, heaps, hash tables,
  samples and self test are not used by any program here.  Rounding of distances is avoided by
  comparing squares, and the characteristics of characters are unbounded integers.
\<close>

end
